(* ===== verification/Prelude.thy ===== *)
theory Prelude
  imports Main "HOL-Library.Word" "HOL-Library.Signed_Division" "HOL-Library.Monad_Syntax"
begin

text \<open>
  Shared vocabulary of the development: the machine types of the Go source, the runtime
  checks of Go (index and slice expressions that panic) as partial operations in the option
  monad, and the generic lemmas on lists, options and words that every component uses.

  A value of type \<open>'a option\<close> is the outcome of running a piece of Go: \<open>Some x\<close> when it
  returns \<open>x\<close>, \<open>None\<close> when the runtime panics (index or slice bounds out of range).
\<close>

section \<open>Machine types\<close>

type_synonym u8 = "8 word"
type_synonym u16 = "16 word"
type_synonym u32 = "32 word"
type_synonym u64 = "64 word"

text \<open>Go strings and byte slices are both sequences of bytes.\<close>

type_synonym bytes = "u8 list"

named_theorems runtime
  \<open>evaluation of the runtime-checked operations when the check succeeds\<close>

named_theorems nowrap
  \<open>reading word arithmetic as natural-number arithmetic when nothing wraps\<close>

text \<open>
  The type \<open>int\<close> has \<open>w\<close> bits, 32 or 64, by the build.  Sums and products of lengths that stay below
  the size of an array that exists are natural numbers; where the source computes more than that,
  its \<open>int\<close> is an integer cut to \<open>w\<close> bits in two's complement after every operation.
\<close>

definition wrap_int :: "nat \<Rightarrow> int \<Rightarrow> int" where
  "wrap_int w k = signed_take_bit (w - 1) k"

lemma wrap_int_fits [nowrap]: "0 \<le> k \<Longrightarrow> k < 2 ^ (w - 1) \<Longrightarrow> wrap_int w k = k"
  by (simp add: wrap_int_def signed_take_bit_int_eq_self_iff order_trans [of _ 0])

lemma wrap_int_overflow:
  assumes "0 < w" "2 ^ (w - 1) \<le> k" "k < 2 ^ w"
  shows "wrap_int w k = k - 2 ^ w"
proof -
  have w: "Suc (w - 1) = w" "(2 :: int) ^ w = 2 * 2 ^ (w - 1)" using assms(1) by (simp_all flip: power_Suc)
  have "take_bit w (k + 2 ^ (w - 1)) = take_bit w (k + 2 ^ (w - 1) - 2 ^ w)"
    by (simp add: take_bit_eq_mod)
  also have "\<dots> = k + 2 ^ (w - 1) - 2 ^ w" using assms(2,3) w(2) by (simp add: take_bit_int_eq_self_iff)
  finally show ?thesis unfolding wrap_int_def signed_take_bit_eq_take_bit_shift w(1) by simp
qed

text \<open>Division cuts off towards zero.\<close>

lemma sdiv_nonneg: "0 \<le> k \<Longrightarrow> 0 < l \<Longrightarrow> k sdiv l = k div l" for k l :: int
  by (cases "k = 0") (simp_all add: signed_divide_int_def)

section \<open>Runtime-checked operations\<close>

text \<open>\<open>xs[i]\<close> as an expression.\<close>

definition idx :: "'a list \<Rightarrow> nat \<Rightarrow> 'a option" where
  "idx xs i = (if i < length xs then Some (xs ! i) else None)"

text \<open>\<open>xs[i] = v\<close> as a statement.\<close>

definition upd :: "'a list \<Rightarrow> nat \<Rightarrow> 'a \<Rightarrow> 'a list option" where
  "upd xs i v = (if i < length xs then Some (xs[i := v]) else None)"

text \<open>\<open>xs[lo:hi]\<close> read as a value.\<close>

definition subslice :: "'a list \<Rightarrow> nat \<Rightarrow> nat \<Rightarrow> 'a list option" where
  "subslice xs lo hi = (if lo \<le> hi \<and> hi \<le> length xs then Some (take (hi - lo) (drop lo xs)) else None)"

text \<open>
  A call \<open>f(xs[lo:hi])\<close> that writes through its slice argument: the callee's final contents
  of the window replace the window (callees never change the length of a slice they write).
\<close>

definition on_slice :: "'a list \<Rightarrow> nat \<Rightarrow> nat \<Rightarrow> ('a list \<Rightarrow> 'a list option) \<Rightarrow> 'a list option" where
  "on_slice xs lo hi f =
     do { w \<leftarrow> subslice xs lo hi;
          w' \<leftarrow> f w;
          Some (take lo xs @ w' @ drop hi xs) }"

text \<open>
  An \<open>int\<close> difference that the source uses as an index at once: a negative value panics there.
\<close>

definition isub :: "nat \<Rightarrow> nat \<Rightarrow> nat option" where
  "isub a b = (if b \<le> a then Some (a - b) else None)"

text \<open>An \<open>int\<close> used as a slice bound or as the length of a new array: negative values panic.\<close>

definition bound :: "int \<Rightarrow> nat option" where
  "bound k = (if 0 \<le> k then Some (nat k) else None)"

text \<open>Go's \<open>copy(dst, src)\<close>: the common prefix length is copied.\<close>

definition go_copy :: "'a list \<Rightarrow> 'a list \<Rightarrow> 'a list" where
  "go_copy dst src = take (length dst) src @ drop (length src) dst"

text \<open>A \<open>for range\<close> loop over a list whose body may panic.\<close>

fun foldM :: "('a \<Rightarrow> 's \<Rightarrow> 's option) \<Rightarrow> 'a list \<Rightarrow> 's \<Rightarrow> 's option" where
  "foldM f [] s = Some s"
| "foldM f (x # xs) s = Option.bind (f x s) (foldM f xs)"

lemma idx_Some [runtime, simp]: "i < length xs \<Longrightarrow> idx xs i = Some (xs ! i)"
  by (simp add: idx_def)

lemma idx_None: "length xs \<le> i \<Longrightarrow> idx xs i = None"
  by (simp add: idx_def)

lemma upd_Some [runtime, simp]: "i < length xs \<Longrightarrow> upd xs i v = Some (xs[i := v])"
  by (simp add: upd_def)

lemma subslice_Some [runtime, simp]:
  "lo \<le> hi \<Longrightarrow> hi \<le> length xs \<Longrightarrow> subslice xs lo hi = Some (take (hi - lo) (drop lo xs))"
  by (simp add: subslice_def)

lemma isub_Some [runtime, simp]: "b \<le> a \<Longrightarrow> isub a b = Some (a - b)"
  by (simp add: isub_def)

lemma on_slice_Some [runtime]:
  assumes "lo \<le> hi" "hi \<le> length xs" "f (take (hi - lo) (drop lo xs)) = Some w"
  shows "on_slice xs lo hi f = Some (take lo xs @ w @ drop hi xs)"
  using assms by (simp add: on_slice_def)

lemma length_go_copy [simp]: "length (go_copy dst src) = length dst"
  by (simp add: go_copy_def)

lemma foldM_append [simp]: "foldM f (xs @ ys) s = Option.bind (foldM f xs s) (foldM f ys)"
  by (induction xs arbitrary: s) (auto simp: Option.bind_assoc cong: Option.bind_cong)

lemma foldM_total:
  assumes "\<And>x s. x \<in> set xs \<Longrightarrow> f x s = Some (g x s)"
  shows "foldM f xs s = Some (fold g xs s)"
  using assms by (induction xs arbitrary: s) auto

lemma foldM_single: "foldM f [x] s = f x s"
  by (cases "f x s") simp_all

lemma foldM_updates:
  assumes "\<And>j xs. j \<in> set js \<Longrightarrow> length xs = n \<Longrightarrow> f j xs = Some (xs[h j := w j])" "length xs = n"
  shows "foldM f js xs = Some (fold (\<lambda>j xs. xs[h j := w j]) js xs)"
  using assms by (induction js arbitrary: xs) simp_all

lemma those_map_Some: "\<forall>x \<in> set xs. f x = Some (g x) \<Longrightarrow> those (map f xs) = Some (map g xs)"
  by (induction xs) simp_all

section \<open>Lists\<close>

text \<open>The number of leading elements equal to \<open>x\<close>: the source's counting loops.\<close>

definition leading :: "'a \<Rightarrow> 'a list \<Rightarrow> nat" where
  "leading x xs = length (takeWhile (\<lambda>y. y = x) xs)"

lemma leading_Nil [simp]: "leading x [] = 0"
  by (simp add: leading_def)

lemma leading_Cons [simp]: "leading x (y # ys) = (if y = x then Suc (leading x ys) else 0)"
  by (simp add: leading_def)

lemma leading_le: "leading x xs \<le> length xs"
  by (simp add: leading_def length_takeWhile_le)

lemma take_leading: "take (leading x xs) xs = replicate (leading x xs) x"
  by (induction xs) auto

lemma drop_leading: "drop (leading x xs) xs = dropWhile (\<lambda>y. y = x) xs"
  by (induction xs) auto

lemma leading_split: "xs = replicate (leading x xs) x @ dropWhile (\<lambda>y. y = x) xs"
  by (metis append_take_drop_id drop_leading take_leading)

lemma leading_replicate_append:
  "ys = [] \<or> hd ys \<noteq> x \<Longrightarrow> leading x (replicate n x @ ys) = n"
  by (induction n) (cases ys, auto)+

lemma leading_eq_length: "leading x xs = length xs \<longleftrightarrow> xs = replicate (length xs) x"
  by (induction xs) auto

lemma leading_nth: "i < leading x xs \<Longrightarrow> xs ! i = x"
  by (metis nth_replicate nth_take take_leading)

lemma leading_stop: "leading x xs < length xs \<Longrightarrow> xs ! leading x xs \<noteq> x"
  unfolding leading_def by (metis (full_types) nth_length_takeWhile)

lemma dropWhile_hd: "dropWhile (\<lambda>y. y = x) xs \<noteq> [] \<Longrightarrow> hd (dropWhile (\<lambda>y. y = x) xs) \<noteq> x"
  using hd_dropWhile [of "\<lambda>y. y = x" xs] by auto

lemma map_leading: "(\<And>y. y \<in> set xs \<Longrightarrow> f y = f x \<longleftrightarrow> y = x) \<Longrightarrow> leading (f x) (map f xs) = leading x xs"
  by (induction xs) auto

lemma replicate_numeral: "replicate (numeral k) x = x # replicate (pred_numeral k) x"
  by (simp add: numeral_eq_Suc)

section \<open>Words read as natural numbers\<close>

lemma unat_add_nowrap [nowrap]:
  "unat (a :: 'a::len word) + unat b < 2 ^ LENGTH('a) \<Longrightarrow> unat (a + b) = unat a + unat b"
  by (simp add: unat_word_ariths)

lemma unat_mult_nowrap [nowrap]:
  "unat (a :: 'a::len word) * unat b < 2 ^ LENGTH('a) \<Longrightarrow> unat (a * b) = unat a * unat b"
  by (simp add: unat_word_ariths)

lemma unat_mac_nowrap [nowrap]:
  assumes "unat (a :: 'a::len word) + unat b * unat c < 2 ^ LENGTH('a)"
  shows "unat (a + b * c) = unat a + unat b * unat c"
proof -
  have "unat (b * c) = unat b * unat c"
    using assms by (intro unat_mult_nowrap) linarith
  with assms show ?thesis by (simp add: unat_add_nowrap)
qed

lemma unat_ucast_small [nowrap]:
  "unat (x :: 'a::len word) < 2 ^ LENGTH('b) \<Longrightarrow> unat (ucast x :: 'b::len word) = unat x"
  by (simp add: unsigned_ucast_eq take_bit_nat_eq_self)

lemma unat_ucast_up [simp]:
  "LENGTH('a) \<le> LENGTH('b) \<Longrightarrow> unat (ucast (x :: 'a::len word) :: 'b::len word) = unat x"
  proof -
  assume le: "LENGTH('a) \<le> LENGTH('b)"
  have "unat x < 2 ^ LENGTH('a)" by (rule unsigned_less)
  also have "\<dots> \<le> 2 ^ LENGTH('b)" using le by simp
  finally show ?thesis by (simp add: unat_ucast_small)
qed

lemma unat_of_nat_small [nowrap]: "n < 2 ^ LENGTH('a) \<Longrightarrow> unat (of_nat n :: 'a::len word) = n"
  by (simp add: unat_of_nat)

text \<open>\<open>v - (v/r)*r\<close>, the source's way to write a remainder.\<close>

lemma word_sub_div_mult: "(v :: 'a::len word) - v div r * r = v mod r"
  by (simp add: minus_div_mult_eq_mod)

lemma unat_sub_div_mult [nowrap]: "unat ((v :: 'a::len word) - v div r * r) = unat v mod unat r"
  by (simp add: word_sub_div_mult unat_mod)

lemma unat_lt_pow [simp]: "unat (x :: 'a::len word) < 2 ^ LENGTH('a)"
  by (rule unsigned_less)

text \<open>A length split into a head group and groups of \<open>b\<close>: how every decoder walks its input.\<close>

lemma head_group:
  fixes n b :: nat
  assumes "0 < n" "0 < b"
  shows "n = 0 + (if n mod b = 0 then b else n mod b) + b * ((n - 1) div b)"
proof (cases "n mod b = 0")
  case True
  then have e: "n = n div b * b" using div_mult_mod_eq [of n b] by linarith
  then have "n div b \<noteq> 0" using assms(1) by (metis mult_0 less_not_refl)
  then obtain p where "n div b = Suc p" by (cases "n div b") auto
  with e have n: "n = Suc p * b" by simp
  then have "n - 1 = (b - 1) + p * b" using assms(2) by simp
  then have "(n - 1) div b = p + (b - 1) div b" using assms(2) div_mult_self1 [of b "b - 1" p] by simp
  also have "(b - 1) div b = 0" using assms(2) by simp
  finally show ?thesis using True n by (simp add: mult.commute)
next
  case False
  then have "n - 1 = (n mod b - 1) + n div b * b" using div_mult_mod_eq [of n b] by linarith
  moreover have "n mod b - 1 < b" using mod_less_divisor [OF assms(2), of n] by linarith
  ultimately have "(n - 1) div b = n div b" using assms(2) by simp
  then show ?thesis using False by simp
qed

end
