(* ===== verification/Radix.thy ===== *)
theory Radix
  imports Prelude
begin

text \<open>
  Positional notation, most significant digit first, on natural numbers: the value of a digit
  list in a base, the canonical digits of a number, fixed-width digit blocks, and the change
  of base from blocks of digits (\<open>58 ^ 5\<close> limbs to base-58 digits, 32-bit limbs to bytes).
  Every correctness argument of the development goes through these values.
\<close>

section \<open>The value of a digit list\<close>

definition bval :: "nat \<Rightarrow> nat list \<Rightarrow> nat" where
  "bval b ds = foldl (\<lambda>a d. a * b + d) 0 ds"

lemma bval_Nil [simp]: "bval b [] = 0"
  by (simp add: bval_def)

lemma bval_snoc [simp]: "bval b (ds @ [d]) = bval b ds * b + d"
  by (simp add: bval_def)

lemma bval_single [simp]: "bval b [d] = d"
  by (simp add: bval_def)

lemma bval_append: "bval b (xs @ ys) = bval b xs * b ^ length ys + bval b ys"
  by (induction ys rule: rev_induct)
    (simp_all flip: append_assoc add: algebra_simps)

lemma bval_Cons: "bval b (d # ds) = d * b ^ length ds + bval b ds"
  using bval_append [of b "[d]" ds] by simp

lemma bval_replicate_0 [simp]: "bval b (replicate n 0) = 0"
  by (induction n) (simp_all add: bval_Cons)

lemma bval_dropWhile_0 [simp]: "bval b (dropWhile (\<lambda>d. d = 0) ds) = bval b ds"
  by (induction ds) (auto simp: bval_Cons)

lemma bval_zeros: "set ds \<subseteq> {0} \<Longrightarrow> bval b ds = 0"
  by (induction ds) (auto simp: bval_Cons)

lemma bval_less: "\<forall>d \<in> set ds. d < b \<Longrightarrow> bval b ds < b ^ length ds"
proof (induction ds rule: rev_induct)
  case Nil
  then show ?case by simp
next
  case (snoc d ds)
  then have "bval b ds + 1 \<le> b ^ length ds" and "d < b" by auto
  then have "bval b ds * b + d < (bval b ds + 1) * b" by simp
  also have "\<dots> \<le> b ^ length ds * b"
    using \<open>bval b ds + 1 \<le> b ^ length ds\<close> by (rule mult_le_mono1)
  finally show ?case by (simp add: mult.commute)
qed

lemma bval_ge_hd: "ds \<noteq> [] \<Longrightarrow> hd ds * b ^ (length ds - 1) \<le> bval b ds"
  by (cases ds) (simp_all add: bval_Cons)

lemma bval_eq_0_iff: "0 < b \<Longrightarrow> bval b ds = 0 \<longleftrightarrow> set ds \<subseteq> {0}"
  by (induction ds) (auto simp: bval_Cons)

lemma bval_inj:
  assumes "\<forall>d \<in> set xs. d < b" "\<forall>d \<in> set ys. d < b" "length xs = length ys"
    "bval b xs = bval b ys"
  shows "xs = ys"
  using assms(3,1,2,4)
proof (induction xs ys rule: rev_induct2)
  case (4 x xs y ys)
  then have lt: "x < b" "y < b" by auto
  from 4 have eq: "bval b xs * b + x = bval b ys * b + y" by simp
  have "x = y"
    using arg_cong [OF eq, of "\<lambda>n. n mod b"] lt by simp
  moreover have "bval b xs = bval b ys"
    using eq \<open>x = y\<close> lt by simp
  ultimately show ?case using 4 by simp
qed simp_all

text \<open>Overwriting one digit changes the value by the difference at that place.\<close>

lemma bval_update:
  assumes "i < length ds"
  shows "bval b (ds[i := d]) + ds ! i * b ^ (length ds - 1 - i)
       = bval b ds + d * b ^ (length ds - 1 - i)"
proof -
  have e: "length (drop (Suc i) ds) = length ds - 1 - i" by simp
  have "bval b ds = bval b (take i ds @ ds ! i # drop (Suc i) ds)"
    using assms by (simp add: id_take_nth_drop [symmetric])
  then show ?thesis
    using assms
    by (simp add: upd_conv_take_nth_drop bval_append bval_Cons algebra_simps)
qed

section \<open>Canonical digits\<close>

function to_digits :: "nat \<Rightarrow> nat \<Rightarrow> nat list" where
  "to_digits b n = (if b < 2 \<or> n = 0 then [] else to_digits b (n div b) @ [n mod b])"
  by pat_completeness auto
termination
  by (relation "measure snd") auto

declare to_digits.simps [simp del]

lemma to_digits_0 [simp]: "to_digits b 0 = []"
  by (simp add: to_digits.simps)

lemma to_digits_step: "2 \<le> b \<Longrightarrow> 0 < n \<Longrightarrow> to_digits b n = to_digits b (n div b) @ [n mod b]"
  by (subst to_digits.simps) simp

lemma to_digits_eq_Nil: "2 \<le> b \<Longrightarrow> to_digits b n = [] \<longleftrightarrow> n = 0"
  by (subst to_digits.simps) auto

lemma bval_to_digits [simp]: "2 \<le> b \<Longrightarrow> bval b (to_digits b n) = n"
proof (induction b n rule: to_digits.induct)
  case (1 b n)
  then show ?case by (cases "n = 0") (simp_all add: to_digits_step)
qed

lemma to_digits_less: "2 \<le> b \<Longrightarrow> d \<in> set (to_digits b n) \<Longrightarrow> d < b"
proof (induction b n rule: to_digits.induct)
  case (1 b n)
  then show ?case by (cases "n = 0") (auto simp: to_digits_step)
qed

lemma to_digits_hd: "2 \<le> b \<Longrightarrow> 0 < n \<Longrightarrow> hd (to_digits b n) \<noteq> 0"
proof (induction b n rule: to_digits.induct)
  case (1 b n)
  show ?case
  proof (cases "n < b")
    case True
    with 1 show ?thesis by (simp add: to_digits_step)
  next
    case False
    with 1 have pos: "0 < n div b" by (simp add: div_greater_zero_iff)
    then have "to_digits b (n div b) \<noteq> []" using 1 by (simp add: to_digits_eq_Nil)
    with 1 pos show ?thesis by (simp add: to_digits_step [of b n])
  qed
qed

text \<open>Digits of a value are the given digits without their leading zeros: uniqueness.\<close>

lemma to_digits_bval:
  assumes "2 \<le> b" "\<forall>d \<in> set ds. d < b"
  shows "to_digits b (bval b ds) = dropWhile (\<lambda>d. d = 0) ds"
  using assms(2)
proof (induction ds rule: rev_induct)
  case Nil
  then show ?case by simp
next
  case (snoc d ds)
  have IH: "to_digits b (bval b ds) = dropWhile (\<lambda>d. d = 0) ds" and d: "d < b"
    using snoc by auto
  show ?case
  proof (cases "bval b ds * b + d = 0")
    case True
    then have "bval b ds = 0" "d = 0" using assms(1) by auto
    then have "dropWhile (\<lambda>d. d = 0) (ds @ [d]) = []"
      using bval_eq_0_iff [of b ds] assms(1) by auto
    moreover have "bval b (ds @ [d]) = 0" using True by simp
    ultimately show ?thesis by (simp only: to_digits_0)
  next
    case False
    then have "to_digits b (bval b (ds @ [d])) = dropWhile (\<lambda>d. d = 0) ds @ [d]"
      using d assms(1) by (simp add: to_digits_step IH)
    also have "\<dots> = dropWhile (\<lambda>d. d = 0) (ds @ [d])"
    proof (cases "set ds \<subseteq> {0}")
      case True
      then have "d \<noteq> 0" using False bval_zeros [of ds b] by auto
      with True show ?thesis by (simp add: dropWhile_append2 subset_iff)
    next
      case nz: False
      then obtain x where "x \<in> set ds" "x \<noteq> 0" by auto
      then show ?thesis by (simp add: dropWhile_append1 [of x])
    qed
    finally show ?thesis .
  qed
qed

lemma to_digits_length_le: "2 \<le> b \<Longrightarrow> n < b ^ k \<Longrightarrow> length (to_digits b n) \<le> k"
proof (induction k arbitrary: n)
  case 0
  then show ?case by simp
next
  case (Suc k)
  show ?case
  proof (cases "n = 0")
    case False
    have "n div b < b ^ k" using Suc.prems by (simp add: less_mult_imp_div_less mult.commute)
    with Suc False show ?thesis by (simp add: to_digits_step)
  qed simp
qed

lemma to_digits_length_ge: "2 \<le> b \<Longrightarrow> b ^ k \<le> n \<Longrightarrow> k < length (to_digits b n)"
proof -
  assume b: "2 \<le> b" and le: "b ^ k \<le> n"
  have "n = bval b (to_digits b n)" using b by simp
  also have "\<dots> < b ^ length (to_digits b n)"
    using b by (intro bval_less) (auto dest: to_digits_less)
  finally have "b ^ k < b ^ length (to_digits b n)" using le by simp
  then show ?thesis using b by (simp add: power_strict_increasing_iff)
qed

section \<open>Digit blocks of fixed width\<close>

fun fixed :: "nat \<Rightarrow> nat \<Rightarrow> nat \<Rightarrow> nat list" where
  "fixed b 0 n = []"
| "fixed b (Suc k) n = fixed b k (n div b) @ [n mod b]"

lemma length_fixed [simp]: "length (fixed b k n) = k"
  by (induction k arbitrary: n) auto

lemma fixed_less: "0 < b \<Longrightarrow> d \<in> set (fixed b k n) \<Longrightarrow> d < b"
  by (induction k arbitrary: n) auto

lemma bval_fixed: "bval b (fixed b k n) = n mod b ^ k"
proof (induction k arbitrary: n)
  case 0
  then show ?case by simp
next
  case (Suc k)
  have "n mod b ^ Suc k = b * (n div b mod b ^ k) + n mod b"
    by (simp add: mod_mult2_eq)
  with Suc show ?case by (simp add: mult.commute)
qed

lemma bval_fixed_less [simp]: "n < b ^ k \<Longrightarrow> bval b (fixed b k n) = n"
  by (simp add: bval_fixed)

lemma fixed_bval:
  assumes "\<forall>d \<in> set ds. d < b" "0 < b"
  shows "fixed b (length ds) (bval b ds) = ds"
  using assms by (intro bval_inj [of _ b]) (auto simp: fixed_less bval_less)

lemma fixed_eq_to_digits:
  assumes "2 \<le> b" "n < b ^ k"
  shows "dropWhile (\<lambda>d. d = 0) (fixed b k n) = to_digits b n"
  using to_digits_bval [of b "fixed b k n"] assms by (simp add: fixed_less)

lemma fixed_to_digits:
  assumes "2 \<le> b" "n < b ^ k"
  shows "fixed b k n = replicate (k - length (to_digits b n)) 0 @ to_digits b n"
proof -
  have len: "length (to_digits b n) \<le> k"
    using assms by (rule to_digits_length_le)
  have "bval b (fixed b k n) = bval b (replicate (k - length (to_digits b n)) 0 @ to_digits b n)"
    using assms by (simp add: bval_append)
  then show ?thesis
    using assms len
    by (intro bval_inj [of _ b]) (auto simp: fixed_less to_digits_less)
qed

section \<open>Change of base by blocks\<close>

lemma bval_concat:
  assumes "\<forall>x \<in> set xs. length x = k"
  shows "bval b (concat xs) = bval (b ^ k) (map (bval b) xs)"
  using assms
proof (induction xs rule: rev_induct)
  case (snoc x xs)
  then show ?case by (simp add: bval_append)
qed simp

lemma bval_concat_fixed:
  assumes "\<forall>n \<in> set ns. n < b ^ k"
  shows "bval b (concat (map (fixed b k) ns)) = bval (b ^ k) ns"
proof -
  have "map (bval b \<circ> fixed b k) ns = ns"
    using assms by (intro map_idI) simp
  then show ?thesis
    using bval_concat [of "map (fixed b k) ns" k b] by simp
qed

lemma length_concat_fixed [simp]: "length (concat (map (fixed b k) ns)) = k * length ns"
  by (induction ns) auto

lemma set_concat_fixed: "0 < b \<Longrightarrow> d \<in> set (concat (map (fixed b k) ns)) \<Longrightarrow> d < b"
  by (auto dest: fixed_less)

text \<open>
  The blocks of a limb list in base \<open>b ^ k\<close>, read as base-\<open>b\<close> digits and stripped of leading
  zeros, are the digits of the value: what every digit renderer of the package relies on.
\<close>

lemma to_digits_blocks:
  assumes "2 \<le> b" "\<forall>n \<in> set ns. n < b ^ k"
  shows "dropWhile (\<lambda>d. d = 0) (concat (map (fixed b k) ns)) = to_digits b (bval (b ^ k) ns)"
  using to_digits_bval [of b "concat (map (fixed b k) ns)"] assms
  by (auto simp: bval_concat_fixed fixed_less)

end
