(* ===== verification/Base58_Spec.thy ===== *)
theory Base58_Spec
  imports Radix "HOL-Library.Sublist"
begin

text \<open>
  The abstract specification the package implements: base58 with the Bitcoin alphabet. An
  encoding is one \<open>1\<close> per leading zero byte followed by the base-58 digits of the value of
  the bytes; a decoding is one zero byte per leading \<open>1\<close> followed by the base-256 digits of
  the value of the characters, defined when every character is in the alphabet. The two are
  proved inverse to each other here, on the specification alone.
\<close>

section \<open>Alphabet\<close>

definition alphabet :: bytes where
  "alphabet = map of_char ''123456789ABCDEFGHJKLMNPQRSTUVWXYZabcdefghijkmnopqrstuvwxyz''"

text \<open>The byte of a character literal of the source.\<close>

abbreviation byte :: "char \<Rightarrow> u8" where
  "byte c \<equiv> of_char c"

definition b58_char :: "nat \<Rightarrow> u8" where
  "b58_char d = alphabet ! d"

definition b58_valid :: "u8 \<Rightarrow> bool" where
  "b58_valid c \<longleftrightarrow> c \<in> set alphabet"

definition b58_digit :: "u8 \<Rightarrow> nat" where
  "b58_digit c = length (takeWhile (\<lambda>x. x \<noteq> c) alphabet)"

lemma alphabet_eq: "alphabet =
  [49, 50, 51, 52, 53, 54, 55, 56, 57, 65, 66, 67, 68, 69, 70, 71,
   72, 74, 75, 76, 77, 78, 80, 81, 82, 83, 84, 85, 86, 87, 88, 89,
   90, 97, 98, 99, 100, 101, 102, 103, 104, 105, 106, 107, 109, 110, 111, 112,
   113, 114, 115, 116, 117, 118, 119, 120, 121, 122]"
  by (simp add: alphabet_def)

lemma length_alphabet [simp]: "length alphabet = 58"
  by (simp add: alphabet_eq)

lemma distinct_alphabet: "distinct alphabet"
  by (simp add: alphabet_eq)

lemma b58_digit_nth: "i < 58 \<Longrightarrow> b58_digit (alphabet ! i) = i"
proof -
  assume i: "i < 58"
  have "takeWhile (\<lambda>x. x \<noteq> alphabet ! i) alphabet = take i alphabet"
  proof (rule takeWhile_eq_take_P_nth)
    fix j
    assume "j < i" "j < length alphabet"
    then show "alphabet ! j \<noteq> alphabet ! i"
      using i distinct_alphabet by (simp add: nth_eq_iff_index_eq)
  qed simp
  then show ?thesis using i by (simp add: b58_digit_def)
qed

lemma b58_digit_char [simp]: "d < 58 \<Longrightarrow> b58_digit (b58_char d) = d"
  by (simp add: b58_char_def b58_digit_nth)

lemma b58_valid_char [simp]: "d < 58 \<Longrightarrow> b58_valid (b58_char d)"
  by (simp add: b58_char_def b58_valid_def)

lemma b58_validE:
  assumes "b58_valid c"
  obtains d where "d < 58" "c = b58_char d"
  using assms by (auto simp: b58_valid_def b58_char_def in_set_conv_nth)

lemma b58_digit_less [simp]: "b58_valid c \<Longrightarrow> b58_digit c < 58"
  by (auto elim: b58_validE)

lemma b58_char_digit [simp]: "b58_valid c \<Longrightarrow> b58_char (b58_digit c) = c"
  by (auto elim: b58_validE)

lemma b58_char_inj: "d < 58 \<Longrightarrow> e < 58 \<Longrightarrow> b58_char d = b58_char e \<longleftrightarrow> d = e"
  using b58_digit_char by metis

lemma b58_char_0 [simp]: "b58_char 0 = 49"
  by (simp add: b58_char_def alphabet_eq)

lemma b58_valid_1 [simp]: "b58_valid 49"
  using b58_valid_char [of 0] by simp

lemma b58_digit_1 [simp]: "b58_digit 49 = 0"
  using b58_digit_char [of 0] by simp

lemma b58_char_eq_1: "d < 58 \<Longrightarrow> b58_char d = 49 \<longleftrightarrow> d = 0"
  using b58_char_inj [of d 0] by simp

lemma b58_digit_eq_0: "b58_valid c \<Longrightarrow> b58_digit c = 0 \<longleftrightarrow> c = 49"
  using b58_char_digit by fastforce

section \<open>Encoding and decoding\<close>

definition bytes_val :: "bytes \<Rightarrow> nat" where
  "bytes_val bs = bval 256 (map unat bs)"

definition str_val :: "bytes \<Rightarrow> nat" where
  "str_val s = bval 58 (map b58_digit s)"

definition b58_digits :: "nat \<Rightarrow> bytes" where
  "b58_digits n = map b58_char (to_digits 58 n)"

definition byte_digits :: "nat \<Rightarrow> bytes" where
  "byte_digits n = map of_nat (to_digits 256 n)"

definition b58_encode :: "bytes \<Rightarrow> bytes" where
  "b58_encode bs = replicate (leading 0 bs) 49 @ b58_digits (bytes_val bs)"

definition b58_decode :: "bytes \<Rightarrow> bytes option" where
  "b58_decode s =
     (if list_all b58_valid s
      then Some (replicate (leading 49 s) 0 @ byte_digits (str_val s))
      else None)"

lemma bytes_val_Nil [simp]: "bytes_val [] = 0"
  by (simp add: bytes_val_def)

lemma bytes_val_append: "bytes_val (xs @ ys) = bytes_val xs * 256 ^ length ys + bytes_val ys"
  by (simp add: bytes_val_def bval_append)

lemma bytes_val_Cons: "bytes_val (x # xs) = unat x * 256 ^ length xs + bytes_val xs"
  by (simp add: bytes_val_def bval_Cons)

lemma bytes_val_replicate_0 [simp]: "bytes_val (replicate n 0) = 0"
  by (simp add: bytes_val_def)

lemma unat_u8_less [simp]: "unat (x :: u8) < 256"
  using unsigned_less [of x] by simp

lemma bytes_val_less: "bytes_val bs < 256 ^ length bs"
  using bval_less [of "map unat bs" 256] by (simp add: bytes_val_def)

lemma bytes_val_drop_leading: "bytes_val (dropWhile (\<lambda>b. b = 0) bs) = bytes_val bs"
  by (metis add.left_neutral bytes_val_append bytes_val_replicate_0 leading_split mult_is_0)

lemma bytes_val_eq_0: "bytes_val bs = 0 \<longleftrightarrow> set bs \<subseteq> {0}"
  by (auto simp: bytes_val_def bval_eq_0_iff unat_eq_0 image_subset_iff)

lemma bytes_val_pos: "bs \<noteq> [] \<Longrightarrow> hd bs \<noteq> 0 \<Longrightarrow> 256 ^ (length bs - 1) \<le> bytes_val bs"
proof -
  assume a: "bs \<noteq> []" "hd bs \<noteq> 0"
  then have "1 \<le> unat (hd bs)" by (simp add: unat_gt_0 Suc_le_eq)
  then have "1 * 256 ^ (length bs - 1) \<le> unat (hd bs) * 256 ^ (length bs - 1)"
    by (rule mult_le_mono1)
  also have "\<dots> \<le> bytes_val bs"
    using bval_ge_hd [of "map unat bs" 256] a by (simp add: bytes_val_def hd_map)
  finally show ?thesis by simp
qed

lemma str_val_append: "str_val (xs @ ys) = str_val xs * 58 ^ length ys + str_val ys"
  by (simp add: str_val_def bval_append)

lemma str_val_Nil [simp]: "str_val [] = 0"
  by (simp add: str_val_def)

lemma str_val_replicate_1 [simp]: "str_val (replicate n 49) = 0"
  by (simp add: str_val_def)

lemma str_val_drop_leading: "str_val (dropWhile (\<lambda>c. c = 49) s) = str_val s"
  by (metis add.left_neutral leading_split mult_is_0 str_val_append str_val_replicate_1)

lemma str_val_less: "list_all b58_valid s \<Longrightarrow> str_val s < 58 ^ length s"
  using bval_less [of "map b58_digit s" 58] by (simp add: str_val_def list_all_iff)

lemma b58_digits_0 [simp]: "b58_digits 0 = []"
  by (simp add: b58_digits_def)

lemma b58_digits_hd: "b58_digits n \<noteq> [] \<Longrightarrow> hd (b58_digits n) \<noteq> 49"
proof -
  assume ne: "b58_digits n \<noteq> []"
  then have n: "0 < n" and ne': "to_digits 58 n \<noteq> []"
    by (auto simp: b58_digits_def intro: gr0I)
  then have "hd (to_digits 58 n) < 58" "hd (to_digits 58 n) \<noteq> 0"
    by (simp_all add: to_digits_less [OF _ hd_in_set] to_digits_hd)
  then show ?thesis
    using ne' by (simp add: b58_digits_def hd_map b58_char_eq_1)
qed

lemma b58_digits_eq_Nil [simp]: "b58_digits n = [] \<longleftrightarrow> n = 0"
  by (simp add: b58_digits_def to_digits_eq_Nil)

lemma b58_digits_valid: "list_all b58_valid (b58_digits n)"
  by (auto simp: b58_digits_def list_all_iff to_digits_less)

lemma str_val_b58_digits [simp]: "str_val (b58_digits n) = n"
proof -
  have "map (b58_digit \<circ> b58_char) (to_digits 58 n) = to_digits 58 n"
    by (intro map_idI) (simp add: to_digits_less)
  then show ?thesis by (simp add: str_val_def b58_digits_def)
qed

lemma byte_digits_0 [simp]: "byte_digits 0 = []"
  by (simp add: byte_digits_def)

lemma byte_digits_hd: "byte_digits n \<noteq> [] \<Longrightarrow> hd (byte_digits n) \<noteq> 0"
proof -
  assume ne: "byte_digits n \<noteq> []"
  then have n: "0 < n" and ne': "to_digits 256 n \<noteq> []"
    by (auto simp: byte_digits_def intro: gr0I)
  then have "hd (to_digits 256 n) < 256" "hd (to_digits 256 n) \<noteq> 0"
    by (simp_all add: to_digits_less [OF _ hd_in_set] to_digits_hd)
  then have "unat (of_nat (hd (to_digits 256 n)) :: u8) \<noteq> 0"
    by (simp add: unat_of_nat_small)
  then show ?thesis
    using ne' by (auto simp: byte_digits_def hd_map)
qed

lemma bytes_val_byte_digits [simp]: "bytes_val (byte_digits n) = n"
proof -
  have "map (unat \<circ> (of_nat :: nat \<Rightarrow> u8)) (to_digits 256 n) = to_digits 256 n"
    by (intro map_idI) (simp add: to_digits_less unat_of_nat_small)
  then show ?thesis by (simp add: bytes_val_def byte_digits_def)
qed

section \<open>The two directions of the round trip\<close>

lemma b58_digits_str_val:
  "list_all b58_valid s \<Longrightarrow> b58_digits (str_val s) = dropWhile (\<lambda>c. c = 49) s"
proof -
  assume v: "list_all b58_valid s"
  have "to_digits 58 (str_val s) = dropWhile (\<lambda>d. d = 0) (map b58_digit s)"
    using v unfolding str_val_def by (intro to_digits_bval) (auto simp: list_all_iff)
  also have "\<dots> = map b58_digit (dropWhile (\<lambda>c. b58_digit c = 0) s)"
    by (simp add: dropWhile_map comp_def)
  also have "dropWhile (\<lambda>c. b58_digit c = 0) s = dropWhile (\<lambda>c. c = 49) s"
    using v by (intro dropWhile_cong) (auto simp: list_all_iff b58_digit_eq_0)
  finally have "b58_digits (str_val s) = map (b58_char \<circ> b58_digit) (dropWhile (\<lambda>c. c = 49) s)"
    by (simp add: b58_digits_def)
  also have "\<dots> = dropWhile (\<lambda>c. c = 49) s"
    using v by (intro map_idI) (auto simp: list_all_iff dest: set_dropWhileD)
  finally show ?thesis .
qed

lemma byte_digits_bytes_val: "byte_digits (bytes_val bs) = dropWhile (\<lambda>b. b = 0) bs"
proof -
  have "to_digits 256 (bytes_val bs) = dropWhile (\<lambda>d. d = 0) (map unat bs)"
    unfolding bytes_val_def by (intro to_digits_bval) auto
  also have "\<dots> = map unat (dropWhile (\<lambda>b. b = 0) bs)"
    by (simp add: dropWhile_map comp_def unat_eq_0)
  finally show ?thesis by (simp add: byte_digits_def comp_def)
qed

lemma leading_b58_encode [simp]: "leading 49 (b58_encode bs) = leading 0 bs"
  unfolding b58_encode_def
  by (intro leading_replicate_append) (use b58_digits_hd in blast)

lemma str_val_b58_encode [simp]: "str_val (b58_encode bs) = bytes_val bs"
  by (simp add: b58_encode_def str_val_append)

lemma b58_encode_valid [simp]: "list_all b58_valid (b58_encode bs)"
  using b58_digits_valid [of "bytes_val bs"] by (auto simp: b58_encode_def list_all_iff)

lemma b58_decode_encode [simp]: "b58_decode (b58_encode bs) = Some bs"
  using leading_split [of bs 0] by (simp add: b58_decode_def byte_digits_bytes_val)

lemma b58_encode_decode: "b58_decode s = Some bs \<Longrightarrow> b58_encode bs = s"
proof -
  assume dec: "b58_decode s = Some bs"
  then have v: "list_all b58_valid s"
    and bs: "bs = replicate (leading 49 s) 0 @ byte_digits (str_val s)"
    by (auto simp: b58_decode_def split: if_splits)
  have "leading 0 bs = leading 49 s"
    unfolding bs by (intro leading_replicate_append) (use byte_digits_hd in blast)
  moreover have "bytes_val bs = str_val s"
    by (simp add: bs bytes_val_append)
  ultimately show ?thesis
    using v leading_split [of s 49] by (simp add: b58_encode_def b58_digits_str_val)
qed

lemma b58_encode_inj: "b58_encode xs = b58_encode ys \<Longrightarrow> xs = ys"
  by (metis b58_decode_encode option.inject)

lemma b58_encode_Nil [simp]: "b58_encode [] = []"
  by (simp add: b58_encode_def)

text \<open>An encoding is recognised by its value, without dividing.\<close>

lemma b58_encode_by_value:
  "list_all b58_valid s \<Longrightarrow> str_val s = bytes_val bs \<Longrightarrow> leading 49 s = leading 0 bs \<Longrightarrow> b58_encode bs = s"
  using leading_split [of s 49] b58_digits_str_val [of s] by (simp add: b58_encode_def)

text \<open>Splitting off the zero bytes first, as every encoder of the package does.\<close>

lemma b58_encode_split:
  "b58_encode bs = replicate (leading 0 bs) 49 @ b58_digits (bytes_val (drop (leading 0 bs) bs))"
  by (simp add: b58_encode_def drop_leading bytes_val_drop_leading)

end
