(* ===== verification/Tables.thy ===== *)
theory Tables
  imports Base58_Spec
begin

unbundle bit_operations_syntax

text \<open>
  \<open>tables.go\<close>: the constants, the alphabet, the conversion matrices and the lookup tables that
  its \<open>init\<close> function fills. The lemmas say what each table holds: the rows of the encode
  matrices are the powers of \<open>2 ^ 32\<close> in base \<open>58 ^ 5\<close>, the rows of the decode matrices the
  powers of \<open>58 ^ 5\<close> in base \<open>2 ^ 32\<close>, the inverse tables invert the alphabet.
\<close>

section \<open>Constants\<close>

abbreviation (input) intermediateSz32 :: nat where "intermediateSz32 \<equiv> 9"
abbreviation (input) intermediateSz64 :: nat where "intermediateSz64 \<equiv> 18"
abbreviation (input) binarySz32 :: nat where "binarySz32 \<equiv> 8"
abbreviation (input) binarySz64 :: nat where "binarySz64 \<equiv> 16"
abbreviation (input) raw58Sz32 :: nat where "raw58Sz32 \<equiv> 45"
abbreviation (input) raw58Sz64 :: nat where "raw58Sz64 \<equiv> 90"
abbreviation (input) raw58Buf32 :: nat where "raw58Buf32 \<equiv> 48"
abbreviation (input) EncodedMaxLen32 :: nat where "EncodedMaxLen32 \<equiv> 44"
abbreviation (input) EncodedMaxLen64 :: nat where "EncodedMaxLen64 \<equiv> 88"

text \<open>\<open>58 ^ 5\<close>, the radix of the intermediate representation.\<close>

definition r1div :: u64 where
  "r1div = 656356768"

definition base58InvalidDigit :: u8 where
  "base58InvalidDigit = 255"

definition base58Chars :: "u8 list" where
  "base58Chars = map of_char
   (''123456789ABCDEFG'' @
    ''HJKLMNPQRSTUVWXY'' @
    ''Zabcdefghijkmnop'' @
    ''qrstuvwxyz'')"

definition decMinBytes :: "u8 list" where
  "decMinBytes =
   [0, 1, 1, 2, 3, 3, 4, 5, 6, 6, 7, 8, 9, 9, 10, 11, 11, 12, 13, 14, 14, 15, 16, 17, 17, 18,
    19, 20, 20, 21, 22, 22, 23, 24, 25, 25, 26, 27, 28, 28, 29, 30, 31, 31, 32, 33, 33, 34, 35,
    36, 36, 37, 38, 39, 39, 40, 41, 42, 42, 43, 44, 44, 45, 46, 47, 47, 48, 49, 50, 50, 51, 52,
    52, 53, 54, 55, 55, 56, 57, 58, 58, 59, 60, 61, 61, 62, 63, 63, 64]"

definition decMaxBytes :: "u8 list" where
  "decMaxBytes =
   [0, 1, 2, 3, 3, 4, 5, 6, 6, 7, 8, 9, 9, 10, 11, 11, 12, 13, 14, 14, 15, 16, 17, 17, 18, 19,
    20, 20, 21, 22, 22, 23, 24, 25, 25, 26, 27, 28, 28, 29, 30, 31, 31, 32, 33, 33, 34, 35, 36,
    36, 37, 38, 39, 39, 40, 41, 42, 42, 43, 44, 44, 45, 46, 47, 47, 48, 49, 50, 50, 51, 52, 52,
    53, 54, 55, 55, 56, 57, 58, 58, 59, 60, 61, 61, 62, 63, 63, 64, 65]"

section \<open>Conversion matrices\<close>

definition encTable32 :: "u32 list list" where
  "encTable32 =
   [[513735, 77223048, 437087610, 300156666, 605448490, 214625350, 141436834, 379377856],
    [0, 78508, 646269101, 118408823, 91512303, 209184527, 413102373, 153715680],
    [0, 0, 11997, 486083817, 3737691, 294005210, 247894721, 289024608],
    [0, 0, 0, 1833, 324463681, 385795061, 551597588, 21339008],
    [0, 0, 0, 0, 280, 127692781, 389432875, 357132832],
    [0, 0, 0, 0, 0, 42, 537767569, 410450016],
    [0, 0, 0, 0, 0, 0, 6, 356826688],
    [0, 0, 0, 0, 0, 0, 0, 1]]"

definition encTable64 :: "u32 list list" where
  "encTable64 =
   [[2631, 149457141, 577092685, 632289089, 81912456, 221591423, 502967496, 403284731,
     377738089, 492128779, 746799, 366351977, 190199623, 38066284, 526403762, 650603058,
     454901440],
    [0, 402, 68350375, 30641941, 266024478, 208884256, 571208415, 337765723, 215140626,
     129419325, 480359048, 398051646, 635841659, 214020719, 136986618, 626219915, 49699360],
    [0, 0, 61, 295059608, 141201404, 517024870, 239296485, 527697587, 212906911, 453637228,
     467589845, 144614682, 45134568, 184514320, 644355351, 104784612, 308625792],
    [0, 0, 0, 9, 256449755, 500124311, 479690581, 372802935, 413254725, 487877412, 520263169,
     176791855, 78190744, 291820402, 74998585, 496097732, 59100544],
    [0, 0, 0, 0, 1, 285573662, 455976778, 379818553, 100001224, 448949512, 109507367,
     117185012, 347328982, 522665809, 36908802, 577276849, 64504928],
    [0, 0, 0, 0, 0, 0, 143945778, 651677945, 281429047, 535878743, 264290972, 526964023,
     199595821, 597442702, 499113091, 424550935, 458949280],
    [0, 0, 0, 0, 0, 0, 0, 21997789, 294590275, 148640294, 595017589, 210481832, 404203788,
     574729546, 160126051, 430102516, 44963712],
    [0, 0, 0, 0, 0, 0, 0, 0, 3361701, 325788598, 30977630, 513969330, 194569730, 164019635,
     136596846, 626087230, 503769920],
    [0, 0, 0, 0, 0, 0, 0, 0, 0, 513735, 77223048, 437087610, 300156666, 605448490, 214625350,
     141436834, 379377856],
    [0, 0, 0, 0, 0, 0, 0, 0, 0, 0, 78508, 646269101, 118408823, 91512303, 209184527, 413102373,
     153715680],
    [0, 0, 0, 0, 0, 0, 0, 0, 0, 0, 0, 11997, 486083817, 3737691, 294005210, 247894721, 289024608],
    [0, 0, 0, 0, 0, 0, 0, 0, 0, 0, 0, 0, 1833, 324463681, 385795061, 551597588, 21339008],
    [0, 0, 0, 0, 0, 0, 0, 0, 0, 0, 0, 0, 0, 280, 127692781, 389432875, 357132832],
    [0, 0, 0, 0, 0, 0, 0, 0, 0, 0, 0, 0, 0, 0, 42, 537767569, 410450016],
    [0, 0, 0, 0, 0, 0, 0, 0, 0, 0, 0, 0, 0, 0, 0, 6, 356826688],
    [0, 0, 0, 0, 0, 0, 0, 0, 0, 0, 0, 0, 0, 0, 0, 0, 1]]"

definition decTable32 :: "u32 list list" where
  "decTable32 =
   [[1277, 2650397687, 3801011509, 2074386530, 3248244966, 687255411, 2959155456, 0],
    [0, 8360, 1184754854, 3047609191, 3418394749, 132556120, 1199103528, 0],
    [0, 0, 54706, 2996985344, 1834629191, 3964963911, 485140318, 1073741824],
    [0, 0, 0, 357981, 1476998812, 3337178590, 1483338760, 4194304000],
    [0, 0, 0, 0, 2342503, 3052466824, 2595180627, 17825792],
    [0, 0, 0, 0, 0, 15328518, 1933902296, 4063920128],
    [0, 0, 0, 0, 0, 0, 100304420, 3355157504],
    [0, 0, 0, 0, 0, 0, 0, 656356768],
    [0, 0, 0, 0, 0, 0, 0, 1]]"

definition decTable64 :: "u32 list list" where
  "decTable64 =
   [[249448, 3719864065, 173911550, 4021557284, 3115810883, 2498525019, 1035889824, 627529458,
     3840888383, 3728167192, 2901437456, 3863405776, 1540739182, 1570766848, 0, 0],
    [0, 1632305, 1882780341, 4128706713, 1023671068, 2618421812, 2005415586, 1062993857,
     3577221846, 3960476767, 1695615427, 2597060712, 669472826, 104923136, 0, 0],
    [0, 0, 10681231, 1422956801, 2406345166, 4058671871, 2143913881, 4169135587, 2414104418,
     2549553452, 997594232, 713340517, 2290070198, 1103833088, 0, 0],
    [0, 0, 0, 69894212, 1038812943, 1785020643, 1285619000, 2301468615, 3492037905, 314610629,
     2761740102, 3410618104, 1699516363, 910779968, 0, 0],
    [0, 0, 0, 0, 457363084, 927569770, 3976106370, 1389513021, 2107865525, 3716679421,
     1828091393, 2088408376, 439156799, 2579227194, 0, 0],
    [0, 0, 0, 0, 0, 2992822783, 383623235, 3862831115, 112778334, 339767049, 1447250220,
     486575164, 3495303162, 2209946163, 268435456, 0],
    [0, 0, 0, 0, 0, 4, 2404108010, 2962826229, 3998086794, 1893006839, 2266258239, 1429430446,
     307953032, 2361423716, 176160768, 0],
    [0, 0, 0, 0, 0, 0, 29, 3596590989, 3044036677, 1332209423, 1014420882, 868688145,
     4264082837, 3688771808, 2485387264, 0],
    [0, 0, 0, 0, 0, 0, 0, 195, 1054003707, 3711696540, 582574436, 3549229270, 1088536814,
     2338440092, 1468637184, 0],
    [0, 0, 0, 0, 0, 0, 0, 0, 1277, 2650397687, 3801011509, 2074386530, 3248244966, 687255411,
     2959155456, 0],
    [0, 0, 0, 0, 0, 0, 0, 0, 0, 8360, 1184754854, 3047609191, 3418394749, 132556120,
     1199103528, 0],
    [0, 0, 0, 0, 0, 0, 0, 0, 0, 0, 54706, 2996985344, 1834629191, 3964963911, 485140318,
     1073741824],
    [0, 0, 0, 0, 0, 0, 0, 0, 0, 0, 0, 357981, 1476998812, 3337178590, 1483338760, 4194304000],
    [0, 0, 0, 0, 0, 0, 0, 0, 0, 0, 0, 0, 2342503, 3052466824, 2595180627, 17825792],
    [0, 0, 0, 0, 0, 0, 0, 0, 0, 0, 0, 0, 0, 15328518, 1933902296, 4063920128],
    [0, 0, 0, 0, 0, 0, 0, 0, 0, 0, 0, 0, 0, 0, 100304420, 3355157504],
    [0, 0, 0, 0, 0, 0, 0, 0, 0, 0, 0, 0, 0, 0, 0, 656356768],
    [0, 0, 0, 0, 0, 0, 0, 0, 0, 0, 0, 0, 0, 0, 0, 1]]"

section \<open>Tables filled by \<open>init\<close>\<close>

definition base58Pairs :: "u16 list" where
  "base58Pairs =
     map (\<lambda>x. push_bit 8 (ucast (base58Chars ! (x mod 58))) OR ucast (base58Chars ! (x div 58)))
       [0..<3364]"

text \<open>A table indexed by every value of its index type is a function of that type.\<close>

definition base58InverseFull :: "u8 \<Rightarrow> u8" where
  "base58InverseFull =
     fold (\<lambda>(d, c) t. t(c := of_nat d)) (enumerate 0 base58Chars) (\<lambda>_. base58InvalidDigit)"

definition pair_index :: "u8 \<Rightarrow> u8 \<Rightarrow> u16" where
  "pair_index c0 c1 = push_bit 8 (ucast c0) OR ucast c1"

definition base58InversePairs :: "u16 \<Rightarrow> u16" where
  "base58InversePairs =
     fold (\<lambda>(d0, c0) t.
         fold (\<lambda>(d1, c1) t. t(pair_index c0 c1 := of_nat (d0 * 58 + d1)))
           (enumerate 0 base58Chars) t)
       (enumerate 0 base58Chars) (\<lambda>_. 0xffff)"

text \<open>The non-zero columns \<open>[lo, hi)\<close> of a row, found by the two loops of \<open>init\<close>.\<close>

fun row_hi :: "u32 list \<Rightarrow> nat \<Rightarrow> nat \<Rightarrow> nat" where
  "row_hi row lo 0 = 0"
| "row_hi row lo (Suc hi) = (if lo < Suc hi \<and> row ! hi = 0 then row_hi row lo hi else Suc hi)"

definition row_bounds :: "u32 list \<Rightarrow> nat \<times> nat" where
  "row_bounds row = (let lo = leading 0 row in (lo, row_hi row lo (length row)))"

definition encRowBounds64 :: "(nat \<times> nat) list" where
  "encRowBounds64 = map row_bounds encTable64"

definition decRowBounds64 :: "(nat \<times> nat) list" where
  "decRowBounds64 = map row_bounds decTable64"

section \<open>The alphabet and its inverses\<close>

lemma base58Chars_alphabet: "base58Chars = alphabet"
  by (simp add: base58Chars_def alphabet_def)

lemma length_base58Chars [simp]: "length base58Chars = 58"
  by (simp add: base58Chars_alphabet)

lemma base58Chars_nth: "d < 58 \<Longrightarrow> base58Chars ! d = b58_char d"
  by (simp add: base58Chars_alphabet b58_char_def)

lemma unat_r1div [simp]: "unat r1div = 58 ^ 5"
  by (simp add: r1div_def)

lemma fold_enumerate_upd:
  assumes "distinct xs"
  shows "fold (\<lambda>(d, c) t. t(c := f d)) (enumerate n xs) t c =
    (if c \<in> set xs then f (n + length (takeWhile (\<lambda>x. x \<noteq> c) xs)) else t c)"
  using assms by (induction xs arbitrary: n t) auto

lemma base58InverseFull_eq:
  "base58InverseFull c = (if b58_valid c then of_nat (b58_digit c) else 255)"
  by (simp add: base58InverseFull_def fold_enumerate_upd base58Chars_alphabet distinct_alphabet
      b58_valid_def b58_digit_def base58InvalidDigit_def)

lemma unat_base58InverseFull:
  "unat (base58InverseFull c) = (if b58_valid c then b58_digit c else 255)"
proof (cases "b58_valid c")
  case True
  then have "b58_digit c < 256" using b58_digit_less [OF True] by linarith
  with True show ?thesis by (simp add: base58InverseFull_eq unat_of_nat_small)
qed (simp add: base58InverseFull_eq)

lemma digit_word: "b58_valid c \<Longrightarrow> (ucast (base58InverseFull c) :: 'a::len word) = of_nat (b58_digit c)"
proof -
  assume "b58_valid c"
  moreover have "(ucast (base58InverseFull c) :: 'a word) = of_nat (unat (base58InverseFull c))" by (simp only: of_nat_unat)
  ultimately show ?thesis by (simp only: unat_base58InverseFull if_True)
qed

lemma pair_index_hi: "ucast (drop_bit 8 (pair_index c0 c1)) = c0"
  by (rule bit_word_eqI) (auto simp: pair_index_def bit_simps dest: bit_imp_le_length)

lemma pair_index_lo: "ucast (pair_index c0 c1) = c1"
  by (rule bit_word_eqI) (auto simp: pair_index_def bit_simps dest: bit_imp_le_length)

lemma pair_index_inj [simp]: "pair_index a b = pair_index c d \<longleftrightarrow> a = c \<and> b = d"
  by (metis pair_index_hi pair_index_lo)

lemma fold_pairs_inner:
  assumes "distinct xs"
  shows "fold (\<lambda>(d1, c1) t. t(pair_index c0 c1 := f d1)) (enumerate n xs) t (pair_index x y) =
    (if x = c0 \<and> y \<in> set xs then f (n + length (takeWhile (\<lambda>c. c \<noteq> y) xs))
     else t (pair_index x y))"
  using assms by (induction xs arbitrary: n t) auto

lemma fold_pairs_outer:
  assumes "distinct xs" "distinct ys"
  shows "fold (\<lambda>(d0, c0) t.
        fold (\<lambda>(d1, c1) t. t(pair_index c0 c1 := f d0 d1)) (enumerate 0 ys) t)
      (enumerate n xs) t (pair_index x y) =
    (if x \<in> set xs \<and> y \<in> set ys
     then f (n + length (takeWhile (\<lambda>c. c \<noteq> x) xs)) (length (takeWhile (\<lambda>c. c \<noteq> y) ys))
     else t (pair_index x y))"
  using assms(1) by (induction xs arbitrary: n t) (auto simp: fold_pairs_inner [OF assms(2)])

lemma base58InversePairs_eq:
  "base58InversePairs (pair_index c0 c1) =
     (if b58_valid c0 \<and> b58_valid c1 then of_nat (b58_digit c0 * 58 + b58_digit c1) else 0xffff)"
  unfolding base58InversePairs_def base58Chars_alphabet
  by (simp add: fold_pairs_outer [OF distinct_alphabet distinct_alphabet]
      b58_valid_def b58_digit_def)

lemma unat_base58InversePairs:
  "unat (base58InversePairs (pair_index c0 c1)) =
     (if b58_valid c0 \<and> b58_valid c1 then b58_digit c0 * 58 + b58_digit c1 else 0xffff)"
proof (cases "b58_valid c0 \<and> b58_valid c1")
  case True
  then have "b58_digit c0 < 58" "b58_digit c1 < 58" by auto
  then have "b58_digit c0 * 58 + b58_digit c1 < 2 ^ LENGTH(16)" by simp
  with True show ?thesis by (simp add: base58InversePairs_eq unat_of_nat_small del: of_nat_add of_nat_mult)
qed (auto simp: base58InversePairs_eq)

lemma base58Pairs_lo: "x < 3364 \<Longrightarrow> ucast (base58Pairs ! x) = base58Chars ! (x div 58)"
  by (rule bit_word_eqI) (auto simp: base58Pairs_def bit_simps dest: bit_imp_le_length)

lemma base58Pairs_hi: "x < 3364 \<Longrightarrow> ucast (drop_bit 8 (base58Pairs ! x)) = base58Chars ! (x mod 58)"
  by (rule bit_word_eqI) (auto simp: base58Pairs_def bit_simps dest: bit_imp_le_length)

lemma length_base58Pairs [simp]: "length base58Pairs = 3364"
  by (simp add: base58Pairs_def)

section \<open>The matrices\<close>

lemma encTable32_rows:
  "map (\<lambda>row. bval (58 ^ 5) (map unat row)) encTable32 = map (\<lambda>j. 2 ^ (32 * (7 - j))) [0..<8]"
  by (simp add: encTable32_def bval_def upt_rec)

lemma encTable64_rows:
  "map (\<lambda>row. bval (58 ^ 5) (map unat row)) encTable64 = map (\<lambda>j. 2 ^ (32 * (15 - j))) [0..<16]"
  by (simp add: encTable64_def bval_def upt_rec)

lemma decTable32_rows:
  "map (\<lambda>row. bval (2 ^ 32) (map unat row)) decTable32 = map (\<lambda>j. (58 ^ 5) ^ (8 - j)) [0..<9]"
  by (simp add: decTable32_def bval_def upt_rec)

lemma decTable64_rows:
  "map (\<lambda>row. bval (2 ^ 32) (map unat row)) decTable64 = map (\<lambda>j. (58 ^ 5) ^ (17 - j)) [0..<18]"
  by (simp add: decTable64_def bval_def upt_rec)

lemma table_shapes:
  "length encTable32 = 8" "list_all (\<lambda>r. length r = 8) encTable32"
  "length encTable64 = 16" "list_all (\<lambda>r. length r = 17) encTable64"
  "length decTable32 = 9" "list_all (\<lambda>r. length r = 8) decTable32"
  "length decTable64 = 18" "list_all (\<lambda>r. length r = 16) decTable64"
  by (simp_all add: encTable32_def encTable64_def decTable32_def decTable64_def)

text \<open>Outside its row bounds a row is zero, so the bounded loops lose nothing.\<close>

lemma row_hi_le: "row_hi row lo n \<le> n"
  by (induction n) auto

lemma row_hi_zero: "row_hi row lo n \<le> k \<Longrightarrow> k < n \<Longrightarrow> row ! k = 0"
  by (induction n) (auto simp: less_Suc_eq split: if_splits)

lemma row_bounds_zero:
  assumes "row_bounds row = (lo, hi)" "k < length row" "k < lo \<or> hi \<le> k"
  shows "row ! k = 0"
  using assms by (auto simp: row_bounds_def Let_def leading_nth intro: row_hi_zero)

lemma row_bounds_le: "row_bounds row = (lo, hi) \<Longrightarrow> hi \<le> length row"
  by (auto simp: row_bounds_def Let_def row_hi_le)

section \<open>The byte-count bounds\<close>

lemma to_digits_length_eq:
  assumes "2 \<le> b" "b ^ k \<le> n" "n < b ^ Suc k"
  shows "length (to_digits b n) = Suc k"
  using to_digits_length_ge [OF assms(1,2)] to_digits_length_le [OF assms(1,3)] by simp

definition byte_count_is :: "nat \<Rightarrow> u8 \<Rightarrow> bool" where
  "byte_count_is n m \<longleftrightarrow> 0 < unat m \<and> 256 ^ (unat m - 1) \<le> n \<and> n < 256 ^ unat m"

lemma byte_count_isD: "byte_count_is n m \<Longrightarrow> unat m = length (to_digits 256 n)"
  using to_digits_length_eq [of 256 "unat m - 1" n] by (simp add: byte_count_is_def)

text \<open>The check of a whole table against the successive powers of 58.\<close>

fun byte_counts :: "nat \<Rightarrow> nat \<Rightarrow> u8 list \<Rightarrow> bool" where
  "byte_counts e p [] = True"
| "byte_counts e p (m # ms) = (byte_count_is (p - e) m \<and> byte_counts e (58 * p) ms)"

lemma byte_counts_nth:
  "byte_counts e p ms \<Longrightarrow> i < length ms \<Longrightarrow> byte_count_is (58 ^ i * p - e) (ms ! i)"
  by (induction e p ms arbitrary: i rule: byte_counts.induct)
    (auto simp: less_Suc_eq_0_disj ac_simps)

lemma decMinBytes_table: "byte_counts 0 1 (tl decMinBytes)"
  by (simp add: decMinBytes_def byte_count_is_def)

lemma decMaxBytes_table: "byte_counts 1 58 (tl decMaxBytes)"
  by (simp add: decMaxBytes_def byte_count_is_def)

lemma length_decBytes [simp]: "length decMinBytes = 89" "length decMaxBytes = 89"
  by (simp_all add: decMinBytes_def decMaxBytes_def)

lemma decMinBytes_nth:
  assumes "1 \<le> k" "k < 89"
  shows "unat (decMinBytes ! k) = length (to_digits 256 (58 ^ (k - 1)))"
proof -
  have "k - 1 < 88" using assms by linarith
  then show ?thesis
    using byte_counts_nth [OF decMinBytes_table, of "k - 1"] assms
    by (auto simp: nth_tl dest: byte_count_isD)
qed

lemma decMaxBytes_nth:
  assumes "1 \<le> k" "k < 89"
  shows "unat (decMaxBytes ! k) = length (to_digits 256 (58 ^ k - 1))"
proof -
  have "(58::nat) ^ (k - 1) * 58 = 58 ^ k"
    using assms by (cases k) simp_all
  moreover have "k - 1 < 88" using assms by linarith
  ultimately show ?thesis
    using byte_counts_nth [OF decMaxBytes_table, of "k - 1"] assms
    by (auto simp: nth_tl dest: byte_count_isD)
qed

end
