(* ===== verification/Carry.thy ===== *)
theory Carry
  imports Tables
begin

unbundle bit_operations_syntax

text \<open>
  Carry propagation: the loops that turn a limb array with oversized entries (the result of a
  matrix product) into proper digits, working from the last limb to the first with the running
  value in a register. \<open>carryLoop\<close> is the encoder's loop in base \<open>58 ^ 5\<close>, which appears in
  \<open>encodeRaw32\<close>, \<open>encodeRaw64\<close> and \<open>encode64Parts\<close> (\<open>encode.go\<close>); \<open>decCarryLoop\<close> is the
  decoder's loop in base \<open>2 ^ 32\<close> of \<open>decode32WriteSlow\<close> and \<open>decode64WriteSlow\<close>
  (\<open>decode.go\<close>). Both are instances of one locale, where the lemmas are proved once.
\<close>

section \<open>The loops\<close>

text \<open>
  \<open>carryLoop i v im\<close> is the state before the iteration with index \<open>i\<close>: the register is \<open>v\<close>,
  and index \<open>0\<close> is the assignment after the loop.
\<close>

fun carryLoop :: "nat \<Rightarrow> u64 \<Rightarrow> u64 list \<Rightarrow> u64 list" where
  "carryLoop 0 v im = im[0 := v]"
| "carryLoop (Suc i) v im =
     (let q = v div r1div
      in carryLoop i (im ! i + q) (im[Suc i := v - q * r1div]))"

fun decCarryLoop :: "nat \<Rightarrow> u64 \<Rightarrow> u64 list \<Rightarrow> u64 list" where
  "decCarryLoop 0 v bin = bin[0 := v]"
| "decCarryLoop (Suc i) v bin =
     decCarryLoop i (bin ! i + drop_bit 32 v) (bin[Suc i := v AND 0xFFFFFFFF])"

section \<open>The contract of a carry loop\<close>

text \<open>Moving the quotient of a limb one place up leaves a positional sum unchanged.\<close>

lemma shift_carry:
  fixes A :: nat
  assumes "A + x * (P * b) = Y + (x + q) * (P * b)" "Y + s * P = X + r * P"
    "V + s * P = X + v * P" "v * P = q * (P * b) + r * P"
  shows "A = V"
  using assms unfolding add_mult_distrib by linarith

locale carry_chain =
  fixes base :: nat
    and quo rest :: "u64 \<Rightarrow> u64"
    and loop :: "nat \<Rightarrow> u64 \<Rightarrow> u64 list \<Rightarrow> u64 list"
  assumes base: "1 < base"
    and quo: "unat (quo v) = unat v div base"
    and rest: "unat (rest v) = unat v mod base"
    and loop_0: "loop 0 v xs = xs[0 := v]"
    and loop_Suc: "loop (Suc i) v xs = loop i (xs ! i + quo v) (xs[Suc i := rest v])"
begin

lemma length_loop: "length (loop i v xs) = length xs"
  by (induction i arbitrary: v xs) (simp_all add: loop_0 loop_Suc)

lemma loop_above: "i < j \<Longrightarrow> loop i v xs ! j = xs ! j"
  by (induction i arbitrary: v xs) (simp_all add: loop_0 loop_Suc)

text \<open>No entry below the last can overflow when a quotient of the register is added to it.\<close>

definition room :: "u64 list \<Rightarrow> nat \<Rightarrow> bool" where
  "room xs i \<longleftrightarrow> (\<forall>j < i. unat (xs ! j) + (2 ^ 64 - 1) div base < 2 ^ 64)"

lemma roomI:
  "\<forall>x \<in> set xs. unat x + (2 ^ 64 - 1) div base < 2 ^ 64 \<Longrightarrow> i \<le> length xs \<Longrightarrow> room xs i"
  by (simp add: room_def)

lemma room_step: "room xs (Suc i) \<Longrightarrow> unat (xs ! i + quo v) = unat (xs ! i) + unat v div base"
proof -
  assume r: "room xs (Suc i)"
  have "unat v \<le> 2 ^ 64 - 1" using unat_lt_pow [of v] by simp
  then have "unat v div base \<le> (2 ^ 64 - 1) div base" by (rule div_le_mono)
  moreover have "unat (xs ! i) + (2 ^ 64 - 1) div base < 2 ^ 64"
    using r by (simp add: room_def)
  ultimately show ?thesis by (simp add: unat_add_nowrap quo)
qed

lemma loop_value:
  assumes "i < length xs" "room xs i"
  shows "bval base (map unat (loop i v xs)) = bval base (map unat (xs[i := v]))"
  using assms
proof (induction i arbitrary: v xs)
  case 0
  then show ?case by (simp add: loop_0)
next
  case (Suc i)
  let ?n = "length xs" and ?v = "unat v"
  let ?P = "base ^ (?n - 1 - Suc i)"
  let ?ys = "xs[Suc i := rest v]"
  have room: "room ?ys i"
    using Suc.prems(2) by (simp add: room_def)
  have IH: "bval base (map unat (loop (Suc i) v xs))
      = bval base ((map unat ?ys)[i := unat (xs ! i) + ?v div base])"
    using Suc.IH [of ?ys "xs ! i + quo v"] Suc.prems room
    by (simp add: loop_Suc map_update room_step)
  have pow: "base ^ (?n - 1 - i) = ?P * base"
    using Suc.prems(1) by (simp flip: power_Suc2 add: Suc_diff_Suc)
  have u1: "bval base ((map unat ?ys)[i := unat (xs ! i) + ?v div base])
        + unat (xs ! i) * (?P * base)
      = bval base (map unat ?ys) + (unat (xs ! i) + ?v div base) * (?P * base)"
    using bval_update [of i "map unat ?ys" base "unat (xs ! i) + ?v div base"] Suc.prems(1) pow
    by simp
  have u2: "bval base (map unat ?ys) + unat (xs ! Suc i) * ?P
      = bval base (map unat xs) + (?v mod base) * ?P"
    using bval_update [of "Suc i" "map unat xs" base "?v mod base"] Suc.prems(1)
    by (simp add: map_update rest)
  have u3: "bval base (map unat (xs[Suc i := v])) + unat (xs ! Suc i) * ?P
      = bval base (map unat xs) + ?v * ?P"
    using bval_update [of "Suc i" "map unat xs" base ?v] Suc.prems(1)
    by (simp add: map_update)
  have "(?v div base * base + ?v mod base) * ?P = (?v div base) * (?P * base) + (?v mod base) * ?P"
    by (simp only: add_mult_distrib mult.assoc mult.commute [of base])
  then have "?v * ?P = (?v div base) * (?P * base) + (?v mod base) * ?P"
    by (simp only: div_mult_mod_eq)
  with u1 u2 u3 show ?case
    unfolding IH by (rule shift_carry)
qed

lemma loop_digit:
  assumes "0 < j" "j \<le> i" "i < length xs"
  shows "unat (loop i v xs ! j) < base"
  using assms
proof (induction i arbitrary: v xs)
  case (Suc i)
  show ?case
  proof (cases "j = Suc i")
    case True
    then show ?thesis using Suc.prems base by (simp add: loop_Suc loop_above rest)
  next
    case False
    then show ?thesis using Suc by (simp add: loop_Suc)
  qed
qed simp

text \<open>
  The whole loop, started on the last limb: the limbs become the digits of the value, provided
  the value fits.
\<close>

lemma loop_value_all:
  assumes "xs \<noteq> []" "room xs (length xs - 1)"
  shows "bval base (map unat (loop (length xs - 1) (last xs) xs)) = bval base (map unat xs)"
  using loop_value [of "length xs - 1" xs "last xs"] assms
  by (simp add: last_conv_nth list_update_id)

lemma loop_fixed:
  assumes "xs \<noteq> []" "room xs (length xs - 1)" "bval base (map unat xs) < base ^ length xs"
  shows "map unat (loop (length xs - 1) (last xs) xs)
       = fixed base (length xs) (bval base (map unat xs))"
proof -
  let ?ys = "map unat (loop (length xs - 1) (last xs) xs)"
  have len: "length ?ys = length xs" by (simp add: length_loop)
  have val: "bval base ?ys = bval base (map unat xs)"
    using assms(1,2) by (rule loop_value_all)
  have ne: "?ys \<noteq> []" using assms(1) len by auto
  have "hd ?ys * base ^ (length xs - 1) \<le> bval base (map unat xs)"
    using bval_ge_hd [OF ne, of base] by (simp only: len val)
  also have "\<dots> < base * base ^ (length xs - 1)"
    using assms(1,3) by (cases xs) simp_all
  finally have "hd ?ys < base" by simp
  then have hd: "?ys ! 0 < base"
    using ne by (simp add: hd_conv_nth)
  have "\<forall>d \<in> set ?ys. d < base"
  proof
    fix d assume "d \<in> set ?ys"
    then obtain j where j: "j < length xs" "d = ?ys ! j"
      by (metis in_set_conv_nth len)
    show "d < base"
    proof (cases "j = 0")
      case True
      with hd j show ?thesis by simp
    next
      case False
      then show ?thesis
        using loop_digit [of j "length xs - 1" xs "last xs"] j by (simp add: length_loop)
    qed
  qed
  then have "fixed base (length ?ys) (bval base ?ys) = ?ys"
    using base by (intro fixed_bval) simp_all
  then show ?thesis by (simp only: len val)
qed

text \<open>Without the size condition the first limb alone carries the excess.\<close>

lemma loop_tl_digits:
  assumes "xs \<noteq> []" "d \<in> set (tl (loop (length xs - 1) (last xs) xs))"
  shows "unat d < base"
proof -
  obtain j where "j < length xs - 1" "d = loop (length xs - 1) (last xs) xs ! Suc j"
    using assms by (auto simp: in_set_conv_nth nth_tl length_loop)
  then show ?thesis
    using loop_digit [of "Suc j" "length xs - 1" xs "last xs"] by simp
qed

end

section \<open>Two 32-bit halves of a word\<close>

lemma two_words: 
  assumes "unat a < 2 ^ 32" "unat b < 2 ^ 32"
  shows "unat (push_bit 32 a OR b :: u64) = unat a * 2 ^ 32 + unat b"
proof -
  have p: "unat (push_bit 32 a) = unat a * 2 ^ 32"
    using assms(1) by (simp add: push_bit_eq_mult unat_mult_nowrap)
  have "take_bit 32 b = b"
    using assms(2) by (intro word_unat_eq_iff [THEN iffD2]) (simp add: unsigned_take_bit_eq take_bit_nat_eq_self)
  then have "\<not> bit b n" if "32 \<le> n" for n
    using that by (metis bit_take_bit_iff not_less)
  then have "push_bit 32 a OR b = push_bit 32 a + b"
    by (intro disjunctive_add [symmetric]) (auto simp: bit_simps not_le)
  then show ?thesis
    using assms p by (simp add: unat_add_nowrap)
qed

section \<open>The two loops of the package\<close>

lemma unat_and_mask32: "unat ((v :: u64) AND 0xFFFFFFFF) = unat v mod 2 ^ 32"
proof -
  have "v AND 0xFFFFFFFF = take_bit 32 v"
    by (simp add: take_bit_eq_mask mask_eq_exp_minus_1)
  then show ?thesis by (simp add: unsigned_take_bit_eq take_bit_eq_mod unat_mod)
qed

lemma unat_shift32: "unat (drop_bit 32 (v :: u64)) = unat v div 2 ^ 32"
  by (simp add: drop_bit_eq_div unat_div)

interpretation enc: carry_chain "58 ^ 5" "\<lambda>v. v div r1div" "\<lambda>v. v - v div r1div * r1div" carryLoop
proof unfold_locales
  show "unat (v - v div r1div * r1div) = unat v mod 58 ^ 5" for v
    by (simp only: unat_sub_div_mult unat_r1div)
qed (simp_all add: unat_div Let_def)

interpretation dec: carry_chain "2 ^ 32" "drop_bit 32" "\<lambda>v. v AND 0xFFFFFFFF" decCarryLoop
  by unfold_locales (simp_all add: unat_and_mask32 unat_shift32 del: and_numerals)

declare carryLoop.simps(2) [simp del]
declare decCarryLoop.simps(2) [simp del]

end
