(* ===== verification/Matmul.thy ===== *)
theory Matmul
  imports Carry
begin

unbundle bit_operations_syntax

text \<open>
  The matrix kernels in portable Go (\<open>matmul_other.go\<close>, \<open>matmul64_generic.go\<close>): an input of
  32-bit words times the matrix of powers of \<open>2 ^ 32\<close> in base \<open>58 ^ 5\<close> (encoding), and of
  base-\<open>58 ^ 5\<close> limbs times the matrix of their powers in base \<open>2 ^ 32\<close> (decoding), accumulated
  in \<open>uint64\<close> with wrap-around. The lemmas show that no accumulator ever wraps, for any input,
  and that the result represents the value of the input.

  Fixed-size arrays (\<open>*[9]uint64\<close> and the like) are lists whose length the lemmas state; their
  indices are loop constants and are read with \<open>!\<close>.
\<close>

section \<open>The kernels\<close>

text \<open>\<open>binary.BigEndian.Uint32\<close>.\<close>

definition beUint32 :: "bytes \<Rightarrow> u32 option" where
  "beUint32 b =
     do { b3 \<leftarrow> idx b 3; b2 \<leftarrow> idx b 2; b1 \<leftarrow> idx b 1; b0 \<leftarrow> idx b 0;
          Some (ucast b3 OR push_bit 8 (ucast b2) OR push_bit 16 (ucast b1) OR push_bit 24 (ucast b0)) }"

text \<open>The first loop of every encode kernel: the words of the input.\<close>

definition loadWords :: "nat \<Rightarrow> bytes \<Rightarrow> u32 list option" where
  "loadWords n src =
     foldM (\<lambda>i bin. do { w \<leftarrow> subslice src (i * 4) (i * 4 + 4); v \<leftarrow> beUint32 w; upd bin i v })
       [0..<n] (replicate n 0)"

text \<open>The inner loop \<open>for k := lo; k < hi; k++ { acc[k+off] += b * uint64(row[k]) }\<close>.\<close>

definition macRow :: "u64 \<Rightarrow> u32 list \<Rightarrow> nat \<Rightarrow> nat \<Rightarrow> nat \<Rightarrow> u64 list \<Rightarrow> u64 list" where
  "macRow b row lo hi off acc =
     fold (\<lambda>k acc. acc[k + off := acc ! (k + off) + b * ucast (row ! k)]) [lo..<hi] acc"

definition encodeMatMul32 :: "bytes \<Rightarrow> u64 list \<Rightarrow> u64 list option" where
  "encodeMatMul32 src intermediate =
     do { bin \<leftarrow> loadWords binarySz32 src;
          Some (fold (\<lambda>i im. macRow (ucast (bin ! i)) (encTable32 ! i) 0 (intermediateSz32 - 1) 1 im)
                  [0..<binarySz32] intermediate) }"

definition decodeMatMul32 :: "u64 list \<Rightarrow> u64 list \<Rightarrow> u64 list" where
  "decodeMatMul32 intermediate bin =
     fold (\<lambda>i bin. macRow (intermediate ! i) (decTable32 ! i) 0 binarySz32 0 bin)
       [0..<intermediateSz32] bin"

definition encodeMatMul64 :: "bytes \<Rightarrow> u64 list \<Rightarrow> u64 list option" where
  "encodeMatMul64 src intermediate =
     do { bin \<leftarrow> loadWords binarySz64 src;
          let row = (\<lambda>i im. macRow (ucast (bin ! i)) (encTable64 ! i)
                       (fst (encRowBounds64 ! i)) (snd (encRowBounds64 ! i)) 1 im);
          let im = fold row [0..<8] intermediate;
          let im = im[intermediateSz64 - 3 :=
                        im ! (intermediateSz64 - 3) + im ! (intermediateSz64 - 2) div r1div];
          let im = im[intermediateSz64 - 2 := im ! (intermediateSz64 - 2) mod r1div];
          Some (fold row [8..<binarySz64] im) }"

definition decodeMatMul64 :: "u64 list \<Rightarrow> u64 list \<Rightarrow> u64 list" where
  "decodeMatMul64 intermediate bin =
     fold (\<lambda>i bin. macRow (intermediate ! i) (decTable64 ! i)
             (fst (decRowBounds64 ! i)) (snd (decRowBounds64 ! i)) 0 bin)
       [0..<intermediateSz64] bin"

section \<open>Reading the input words\<close>

definition be_word :: "bytes \<Rightarrow> u32" where
  "be_word b = of_nat (bytes_val b)"

lemma unat_be_word: "length b \<le> 4 \<Longrightarrow> unat (be_word b) = bytes_val b"
proof -
  assume "length b \<le> 4"
  then have "(256::nat) ^ length b \<le> 256 ^ 4" by (intro power_increasing) simp_all
  then show ?thesis
    using bytes_val_less [of b] by (simp add: be_word_def unat_of_nat_small)
qed

lemma beUint32_eq: "length b = 4 \<Longrightarrow> beUint32 b = Some (be_word b)"
proof -
  assume "length b = 4"
  then obtain b0 b1 b2 b3 where b: "b = [b0, b1, b2, b3]"
    by (auto simp: length_Suc_conv eval_nat_numeral)
  let ?w = "\<lambda>x n. push_bit n (ucast (x :: u8)) :: u32"
  have "(ucast b3 :: u32) OR ?w b2 8 OR ?w b1 16 OR ?w b0 24
      = ucast b3 + (?w b2 8 + (?w b1 16 + ?w b0 24))"
    by (subst (1 2 3) disjunctive_add) (auto simp: bit_simps dest: bit_imp_le_length)
  also have "\<dots> = be_word b"
    by (simp add: be_word_def b bytes_val_Cons push_bit_eq_mult unsigned_ucast_eq)
  finally show ?thesis by (simp add: beUint32_def b)
qed

lemma concat_chunks: "k * n \<le> length xs \<Longrightarrow>
  concat (map (\<lambda>i. take k (drop (k * i) xs)) [0..<n]) = take (k * n) xs"
  by (induction n) (simp_all add: take_add [symmetric] mult_Suc_right add.commute)

definition be_words :: "nat \<Rightarrow> bytes \<Rightarrow> u32 list" where
  "be_words n src = map (\<lambda>i. be_word (take 4 (drop (4 * i) src))) [0..<n]"

lemma length_be_words [simp]: "length (be_words n src) = n"
  by (simp add: be_words_def)

lemma loadWords_prefix:
  assumes "length src = 4 * n" "k \<le> n"
  shows "foldM (\<lambda>i bin. do { w \<leftarrow> subslice src (i * 4) (i * 4 + 4); v \<leftarrow> beUint32 w; upd bin i v })
           [0..<k] (replicate n 0)
       = Some (be_words k src @ replicate (n - k) 0)"
  using assms(2)
proof (induction k)
  case 0
  then show ?case by (simp add: be_words_def)
next
  case (Suc k)
  have "replicate (n - k) (0::u32) = 0 # replicate (n - Suc k) 0"
    using Suc.prems by (metis Suc_diff_Suc Suc_le_lessD replicate_Suc)
  then show ?case
    using Suc assms(1)
    by (simp add: beUint32_eq be_words_def list_update_append mult.commute)
qed

lemma loadWords_eq: "length src = 4 * n \<Longrightarrow> loadWords n src = Some (be_words n src)"
  using loadWords_prefix [of src n n] by (simp add: loadWords_def)

lemma bval_be_words:
  assumes "length src = 4 * n"
  shows "bval (2 ^ 32) (map unat (be_words n src)) = bytes_val src"
proof -
  let ?cs = "map (\<lambda>i. take 4 (drop (4 * i) (map unat src))) [0..<n]"
  have "map unat (be_words n src) = map (bval 256) ?cs"
    by (simp add: be_words_def unat_be_word bytes_val_def take_map drop_map)
  moreover have "\<forall>c \<in> set ?cs. length c = 4"
    using assms by auto
  moreover have "concat ?cs = map unat src"
    using assms by (simp add: concat_chunks)
  ultimately show ?thesis
    using bval_concat [of ?cs 4 256] by (simp add: bytes_val_def)
qed

section \<open>Row accumulation without wrap-around\<close>

definition mac_nat :: "nat \<Rightarrow> nat \<Rightarrow> nat list \<Rightarrow> nat list \<Rightarrow> nat list" where
  "mac_nat off b row A = take off A @ map2 (\<lambda>a r. a + b * r) (drop off A) row"

lemma length_mac_nat [simp]:
  "length A = off + length row \<Longrightarrow> length (mac_nat off b row A) = length A"
  by (simp add: mac_nat_def)

lemma mac_nat_nth:
  "length A = off + length row \<Longrightarrow> j < length A \<Longrightarrow>
     mac_nat off b row A ! j = A ! j + (if off \<le> j then b * row ! (j - off) else 0)"
  by (auto simp: mac_nat_def nth_append)

lemma length_macRow [simp]: "length (macRow b row lo hi off acc) = length acc"
  by (induction hi) (simp_all add: macRow_def)

lemma macRow_nth:
  "j < length acc \<Longrightarrow> macRow b row lo hi off acc ! j =
     (if off + lo \<le> j \<and> j < off + hi then acc ! j + b * ucast (row ! (j - off)) else acc ! j)"
proof (induction hi)
  case (Suc hi)
  have step: "lo \<le> hi \<Longrightarrow> macRow b row lo (Suc hi) off acc = (macRow b row lo hi off acc)
      [hi + off := macRow b row lo hi off acc ! (hi + off) + b * ucast (row ! hi)]"
    by (simp add: macRow_def)
  show ?case
  proof (cases "lo \<le> hi")
    case True
    show ?thesis
      using Suc True by (auto simp: step nth_list_update less_Suc_eq add.commute)
  next
    case False
    then show ?thesis using Suc.prems by (auto simp: macRow_def)
  qed
qed (auto simp: macRow_def)

text \<open>A row whose entries outside \<open>[lo, hi)\<close> are zero.\<close>

definition covers :: "nat \<Rightarrow> nat \<Rightarrow> u32 list \<Rightarrow> bool" where
  "covers lo hi row \<longleftrightarrow> hi \<le> length row \<and> (\<forall>k < length row. k < lo \<or> hi \<le> k \<longrightarrow> row ! k = 0)"

lemma macRow_exact:
  assumes "length acc = off + length row" "covers lo hi row"
    "\<forall>x \<in> set (mac_nat off (unat b) (map unat row) (map unat acc)). x < 2 ^ 64"
  shows "map unat (macRow b row lo hi off acc) = mac_nat off (unat b) (map unat row) (map unat acc)"
    (is "?L = ?R")
proof (rule nth_equalityI)
  show "length ?L = length ?R" using assms(1) by simp
next
  fix j assume "j < length ?L"
  then have j: "j < length acc" by simp
  then have "?R ! j \<in> set ?R" using assms(1) by (intro nth_mem) simp
  then have lt: "?R ! j < 2 ^ 64" using assms(3) by blast
  have R: "?R ! j = unat (acc ! j) + (if off \<le> j then unat b * unat (row ! (j - off)) else 0)"
    using assms(1) j by (simp add: mac_nat_nth)
  show "?L ! j = ?R ! j"
  proof (cases "off + lo \<le> j \<and> j < off + hi")
    case True
    then show ?thesis
      using R lt j by (simp add: macRow_nth unat_mac_nowrap)
  next
    case False
    then have "off \<le> j \<Longrightarrow> row ! (j - off) = 0"
      using assms(1,2) j by (auto simp: covers_def)
    with False R j show ?thesis by (auto simp: macRow_nth)
  qed
qed

lemma mac_nat_mono:
  assumes "list_all2 (\<le>) A B" "b \<le> m" "length A = off + length row"
  shows "list_all2 (\<le>) (mac_nat off b row A) (mac_nat off m row B)"
  using assms by (auto simp: list_all2_conv_all_nth mac_nat_nth add_mono)

lemma mac_nat_ge: "length A = off + length row \<Longrightarrow> list_all2 (\<le>) A (mac_nat off b row A)"
  by (auto simp: list_all2_conv_all_nth mac_nat_nth)

lemma bval_map2_mac:
  "length A = length row \<Longrightarrow> bval R (map2 (\<lambda>a r. a + b * r) A row) = bval R A + b * bval R row"
  by (induction A row rule: list_induct2) (simp_all add: bval_Cons algebra_simps)

lemma bval_mac_nat:
  assumes "length A = off + length row"
  shows "bval R (mac_nat off b row A) = bval R A + b * bval R row"
proof -
  have "bval R A = bval R (take off A @ drop off A)" by simp
  then show ?thesis
    using assms by (simp only: mac_nat_def bval_append) (simp add: bval_map2_mac)
qed

section \<open>Whole products\<close>

definition matN :: "nat \<Rightarrow> (nat \<Rightarrow> nat) \<Rightarrow> (nat \<Rightarrow> nat list) \<Rightarrow> nat list \<Rightarrow> nat list \<Rightarrow> nat list" where
  "matN off c rows js A = fold (\<lambda>i. mac_nat off (c i) (rows i)) js A"

lemma matN_Nil [simp]: "matN off c rows [] A = A"
  by (simp add: matN_def)

lemma matN_Cons [simp]: "matN off c rows (i # js) A = matN off c rows js (mac_nat off (c i) (rows i) A)"
  by (simp add: matN_def)

text \<open>An accumulator has the width of every row it meets.\<close>

definition fits :: "nat \<Rightarrow> (nat \<Rightarrow> nat list) \<Rightarrow> nat list \<Rightarrow> nat list \<Rightarrow> bool" where
  "fits off rows js A \<longleftrightarrow> (\<forall>i \<in> set js. length A = off + length (rows i))"

lemma fits_Cons:
  assumes "fits off rows (i # js) A"
  shows "length A = off + length (rows i)" "length (mac_nat off b (rows i) A) = length A"
    "fits off rows js (mac_nat off b (rows i) A)"
  using assms length_mac_nat [of A off "rows i" b] by (auto simp: fits_def)

lemma length_matN: "fits off rows js A \<Longrightarrow> length (matN off c rows js A) = length A"
  by (induction js arbitrary: A) (auto simp: fits_Cons)

lemma matN_mono:
  assumes "list_all2 (\<le>) A B" "fits off rows js A" "\<forall>i \<in> set js. c i \<le> m"
  shows "list_all2 (\<le>) (matN off c rows js A) (matN off (\<lambda>_. m) rows js B)"
  using assms
proof (induction js arbitrary: A B)
  case (Cons i js)
  then have "list_all2 (\<le>) (mac_nat off (c i) (rows i) A) (mac_nat off m (rows i) B)"
    by (intro mac_nat_mono) (simp_all add: fits_Cons)
  then show ?case
    using Cons.IH Cons.prems by (simp add: fits_Cons)
qed simp

lemma matN_ge: "fits off rows js A \<Longrightarrow> list_all2 (\<le>) A (matN off c rows js A)"
proof (induction js arbitrary: A)
  case (Cons i js)
  have "list_all2 (\<le>) A (mac_nat off (c i) (rows i) A)"
    using Cons.prems by (intro mac_nat_ge) (rule fits_Cons)
  moreover have "list_all2 (\<le>) (mac_nat off (c i) (rows i) A) (matN off c rows (i # js) A)"
    using Cons by (simp add: fits_Cons)
  ultimately show ?case
    by (auto simp: list_all2_conv_all_nth) (metis le_trans)
qed (simp add: list_all2_refl)

lemma bval_matN:
  "fits off rows js A \<Longrightarrow>
     bval R (matN off c rows js A) = bval R A + (\<Sum>i\<leftarrow>js. c i * bval R (rows i))"
  by (induction js arbitrary: A) (simp_all add: bval_mac_nat fits_Cons)

lemma fold_macRow_exact:
  assumes "fits off (\<lambda>i. map unat (rows ! i)) js (map unat acc)"
    "\<forall>i \<in> set js. covers (lo i) (hi i) (rows ! i)"
    "\<forall>x \<in> set (matN off (\<lambda>i. unat (b i)) (\<lambda>i. map unat (rows ! i)) js (map unat acc)). x < 2 ^ 64"
  shows "map unat (fold (\<lambda>i. macRow (b i) (rows ! i) (lo i) (hi i) off) js acc)
       = matN off (\<lambda>i. unat (b i)) (\<lambda>i. map unat (rows ! i)) js (map unat acc)"
  using assms
proof (induction js arbitrary: acc)
  case (Cons i js)
  let ?A = "mac_nat off (unat (b i)) (map unat (rows ! i)) (map unat acc)"
  let ?acc = "macRow (b i) (rows ! i) (lo i) (hi i) off acc"
  have fits: "fits off (\<lambda>i. map unat (rows ! i)) js ?A"
    using Cons.prems(1) by (rule fits_Cons)
  then have "list_all2 (\<le>) ?A (matN off (\<lambda>i. unat (b i)) (\<lambda>i. map unat (rows ! i)) js ?A)"
    by (rule matN_ge)
  then have "\<forall>x \<in> set ?A. x < 2 ^ 64"
    using Cons.prems(3) by (auto simp: list_all2_conv_all_nth all_set_conv_all_nth le_less_trans)
  then have eq: "map unat ?acc = ?A"
    using fits_Cons(1) [OF Cons.prems(1)] Cons.prems(2) by (intro macRow_exact) simp_all
  then show ?case
    using Cons.IH [of ?acc] Cons.prems(2,3) fits by simp
qed simp

text \<open>A number is at least \<open>b * P\<close> when its part above the place \<open>P\<close> is at least \<open>b\<close>.\<close>

lemma positional_ge:
  fixes w :: nat
  assumes "r < P" "N = w * P + r" "M = b * P"
  shows "M \<le> N \<longleftrightarrow> b \<le> w"
proof
  assume "M \<le> N"
  then have "b * P < (w + 1) * P" using assms by simp
  then have "b < w + 1" by (simp only: mult_less_cancel2)
  then show "b \<le> w" by simp
next
  assume "b \<le> w"
  then have "b * P \<le> w * P" by (rule mult_le_mono1)
  then show "M \<le> N" unfolding assms(2,3) by (rule trans_le_add1)
qed

lemma bval_sum: "bval b ds = (\<Sum>i\<leftarrow>[0..<length ds]. ds ! i * b ^ (length ds - 1 - i))"
proof (induction ds rule: rev_induct)
  case (snoc d ds)
  have "(\<Sum>i\<leftarrow>[0..<length ds]. (ds @ [d]) ! i * b ^ (length ds - i))
      = (\<Sum>i\<leftarrow>[0..<length ds]. ds ! i * b ^ (length ds - 1 - i) * b)"
    by (intro arg_cong [where f = sum_list] map_cong)
      (simp_all add: nth_append mult.assoc Suc_diff_Suc flip: power_Suc2)
  with snoc show ?case by (simp add: sum_list_mult_const)
qed simp


section \<open>The contract of the kernels\<close>

text \<open>Room left in every accumulator for the carries that are added to it.\<close>

definition bounded :: "nat \<Rightarrow> u64 list \<Rightarrow> bool" where
  "bounded m xs \<longleftrightarrow> (\<forall>x \<in> set xs. unat x \<le> m)"

locale encode_kernel =
  fixes mm :: "bytes \<Rightarrow> u64 list \<Rightarrow> u64 list option"
    and nb nl :: nat
  assumes nl: "0 < nl"
    and capacity: "256 ^ nb \<le> (58 ^ 5 :: nat) ^ nl"
    and product: "length src = nb \<Longrightarrow> \<exists>im. mm src (replicate nl 0) = Some im \<and> length im = nl \<and>
      bounded (2 ^ 64 - 2 ^ 36) im \<and> bval (58 ^ 5) (map unat im) = bytes_val src"
begin

lemma carried:
  assumes "length src = nb"
  obtains im where "mm src (replicate nl 0) = Some im" "length im = nl"
    "enc.room im (nl - 1)"
    "map unat (carryLoop (nl - 1) (im ! (nl - 1)) im) = fixed (58 ^ 5) nl (bytes_val src)"
proof -
  obtain im where im: "mm src (replicate nl 0) = Some im" "length im = nl"
    "bounded (2 ^ 64 - 2 ^ 36) im" "bval (58 ^ 5) (map unat im) = bytes_val src"
    using product [OF assms] by blast
  have ne: "im \<noteq> []" using im(2) nl by auto
  have room: "enc.room im (length im - 1)"
    using im(3) by (intro enc.roomI) (auto simp: bounded_def)
  have "bytes_val src < (58 ^ 5) ^ length im"
    using bytes_val_less [of src] capacity assms im(2) by (simp only: less_le_trans)
  then have "map unat (carryLoop (length im - 1) (last im) im) = fixed (58 ^ 5) (length im) (bytes_val src)"
    using enc.loop_fixed [OF ne room] im(4) by simp
  moreover have "last im = im ! (length im - 1)"
    using ne by (rule last_conv_nth)
  ultimately show ?thesis
    using that im(1,2) room by simp
qed

end

locale decode_kernel =
  fixes mm :: "u64 list \<Rightarrow> u64 list \<Rightarrow> u64 list"
    and nl nw :: nat
  assumes nw: "0 < nw"
    and product: "length im = nl \<Longrightarrow> \<forall>v \<in> set im. unat v < 58 ^ 5 \<Longrightarrow>
      length (mm im (replicate nw 0)) = nw \<and> bounded (2 ^ 64 - 2 ^ 33) (mm im (replicate nw 0)) \<and>
      bval (2 ^ 32) (map unat (mm im (replicate nw 0))) = bval (58 ^ 5) (map unat im)"
begin

text \<open>
  After the carries the first word exceeds 32 bits exactly when the value does not fit, and
  otherwise the words are the digits of the value.
\<close>

lemma carried:
  fixes im
  defines "bin \<equiv> mm im (replicate nw 0)"
  defines "ws \<equiv> decCarryLoop (nw - 1) (bin ! (nw - 1)) bin"
  assumes "length im = nl" "\<forall>v \<in> set im. unat v < 58 ^ 5"
  shows "length ws = nw"
    and "unat (ws ! 0) > 0xFFFFFFFF \<longleftrightarrow> (2 ^ 32) ^ nw \<le> bval (58 ^ 5) (map unat im)"
    and "bval (58 ^ 5) (map unat im) < (2 ^ 32) ^ nw \<Longrightarrow>
      map unat ws = fixed (2 ^ 32) nw (bval (58 ^ 5) (map unat im))"
proof -
  let ?N = "bval (58 ^ 5) (map unat im)"
  have bin: "length bin = nw" "bounded (2 ^ 64 - 2 ^ 33) bin" "bval (2 ^ 32) (map unat bin) = ?N"
    using product [OF assms(3,4)] by (simp_all add: bin_def)
  have ne: "bin \<noteq> []" using bin(1) nw by auto
  have last: "last bin = bin ! (nw - 1)" using ne bin(1) by (simp add: last_conv_nth)
  have room: "dec.room bin (length bin - 1)"
    using bin(2) by (intro dec.roomI) (auto simp: bounded_def)
  have ws: "ws = decCarryLoop (length bin - 1) (last bin) bin"
    by (simp add: ws_def bin(1) last)
  show len: "length ws = nw" by (simp add: ws dec.length_loop bin(1))
  have val: "bval (2 ^ 32) (map unat ws) = ?N"
    using dec.loop_value_all [OF ne room] bin(3) by (simp add: ws)
  obtain w rest where wr: "ws = w # rest" using len nw by (cases ws) auto
  have "\<forall>d \<in> set (map unat rest). d < 2 ^ 32"
    using dec.loop_tl_digits [OF ne, folded ws] wr by auto
  then have "bval (2 ^ 32) (map unat rest) < (2 ^ 32) ^ length rest"
    using bval_less [of "map unat rest" "2 ^ 32"] by simp
  moreover have "?N = unat w * (2 ^ 32) ^ length rest + bval (2 ^ 32) (map unat rest)"
    using val wr by (simp add: bval_Cons)
  moreover have "(2 ^ 32) ^ nw = 2 ^ 32 * (2 ^ 32 :: nat) ^ length rest"
    using len wr by (simp flip: power_Suc)
  ultimately have "(2 ^ 32) ^ nw \<le> ?N \<longleftrightarrow> 2 ^ 32 \<le> unat w"
    by (simp only: positional_ge)
  then show "unat (ws ! 0) > 0xFFFFFFFF \<longleftrightarrow> (2 ^ 32) ^ nw \<le> ?N"
    by (auto simp: wr)
  show "map unat ws = fixed (2 ^ 32) nw ?N" if "?N < (2 ^ 32) ^ nw"
    using dec.loop_fixed [OF ne room] that bin by (simp add: ws)
qed

end


section \<open>The portable kernels satisfy the contract\<close>

lemma list_all2_le_bound: "list_all2 (\<le>) A B \<Longrightarrow> \<forall>y \<in> set B. y \<le> (m :: nat) \<Longrightarrow> \<forall>x \<in> set A. x \<le> m"
  by (auto simp: list_all2_conv_all_nth all_set_conv_all_nth) (metis le_trans)

text \<open>
  A product whose accumulators stay below a bound for the largest words stays below it for all
  words, is exact, and adds the weighted row values.
\<close>

lemma product_ok:
  fixes rows :: "u32 list list"
  defines "r \<equiv> \<lambda>i. map unat (rows ! i)"
  assumes fits: "fits off r js (map unat acc)" and covers: "\<forall>i \<in> set js. covers (lo i) (hi i) (rows ! i)"
    and b: "\<forall>i \<in> set js. unat (b i) \<le> m" and acc: "list_all2 (\<le>) (map unat acc) A"
    and B: "\<forall>x \<in> set (matN off (\<lambda>_. m) r js A). x \<le> L" and L: "L < 2 ^ 64"
    and val: "\<forall>i \<in> set js. bval R (r i) = w i"
  defines "im \<equiv> fold (\<lambda>i. macRow (b i) (rows ! i) (lo i) (hi i) off) js acc"
  shows "map unat im = matN off (\<lambda>i. unat (b i)) r js (map unat acc)"
    and "length im = length acc"
    and "bounded L im"
    and "bval R (map unat im) = bval R (map unat acc) + (\<Sum>i\<leftarrow>js. unat (b i) * w i)"
    and "list_all2 (\<le>) (map unat im) (matN off (\<lambda>_. m) r js A)"
proof -
  let ?N = "matN off (\<lambda>i. unat (b i)) r js (map unat acc)"
  have le: "list_all2 (\<le>) ?N (matN off (\<lambda>_. m) r js A)"
    using acc fits b by (rule matN_mono)
  then have bnd: "\<forall>x \<in> set ?N. x \<le> L"
    using B by (rule list_all2_le_bound)
  then show eq: "map unat im = ?N"
    unfolding im_def r_def using fits covers L
    by (intro fold_macRow_exact) (auto simp: r_def)
  show "length im = length acc"
    using arg_cong [OF eq, of length] length_matN [OF fits] by simp
  show "bounded L im"
    using bnd eq by (metis bounded_def imageI list.set_map)
  have "(\<Sum>i\<leftarrow>js. unat (b i) * bval R (r i)) = (\<Sum>i\<leftarrow>js. unat (b i) * w i)"
    using val by (intro arg_cong [where f = sum_list] map_cong) simp_all
  then show "bval R (map unat im) = bval R (map unat acc) + (\<Sum>i\<leftarrow>js. unat (b i) * w i)"
    unfolding eq bval_matN [OF fits] by simp
  show "list_all2 (\<le>) (map unat im) (matN off (\<lambda>_. m) r js A)"
    using le eq by simp
qed

text \<open>The accumulator bounds when every input word is as large as possible.\<close>

definition encBound32 :: "nat list" where
  "encBound32 = matN 1 (\<lambda>_. 2 ^ 32 - 1) (\<lambda>i. map unat (encTable32 ! i)) [0..<8] (replicate 9 0)"

definition decBound32 :: "nat list" where
  "decBound32 = matN 0 (\<lambda>_. 58 ^ 5 - 1) (\<lambda>i. map unat (decTable32 ! i)) [0..<9] (replicate 8 0)"

definition decBound64 :: "nat list" where
  "decBound64 = matN 0 (\<lambda>_. 58 ^ 5 - 1) (\<lambda>i. map unat (decTable64 ! i)) [0..<18] (replicate 16 0)"

definition encBound64a :: "nat list" where
  "encBound64a = matN 1 (\<lambda>_. 2 ^ 32 - 1) (\<lambda>i. map unat (encTable64 ! i)) [0..<8] (replicate 18 0)"

text \<open>The bounds after the mini-reduction in the middle of the 64-byte product.\<close>

definition encBound64 :: "nat list" where
  "encBound64 = matN 1 (\<lambda>_. 2 ^ 32 - 1) (\<lambda>i. map unat (encTable64 ! i)) [8..<16]
     (encBound64a[15 := encBound64a ! 15 + encBound64a ! 16 div 58 ^ 5, 16 := 58 ^ 5 - 1])"

lemma encBound32_ok: "\<forall>x \<in> set encBound32. x \<le> 2 ^ 64 - 2 ^ 36"
  by (simp add: encBound32_def encTable32_def upt_rec mac_nat_def replicate_numeral)

lemma decBound32_ok: "\<forall>x \<in> set decBound32. x \<le> 2 ^ 64 - 2 ^ 33"
  by (simp add: decBound32_def decTable32_def upt_rec mac_nat_def replicate_numeral)

lemma decBound64_ok: "\<forall>x \<in> set decBound64. x \<le> 2 ^ 64 - 2 ^ 33"
  by (simp add: decBound64_def decTable64_def upt_rec mac_nat_def replicate_numeral)

lemma encBound64_ok: "\<forall>x \<in> set encBound64. x \<le> 2 ^ 64 - 2 ^ 36"
  by (simp add: encBound64_def encBound64a_def encTable64_def upt_rec mac_nat_def replicate_numeral)

lemma encBound64a_ok: "\<forall>x \<in> set encBound64a. x \<le> 2 ^ 64 - 2 ^ 36"
  by (simp add: encBound64a_def encTable64_def upt_rec mac_nat_def replicate_numeral)


lemma encTable32_nth: "i < 8 \<Longrightarrow> length (encTable32 ! i) = 8 \<and>
    bval (58 ^ 5) (map unat (encTable32 ! i)) = (2 ^ 32) ^ (7 - i)"
  using table_shapes(1,2) arg_cong [OF encTable32_rows, of "\<lambda>xs. xs ! i"]
  by (simp add: list_all_length power_mult del: power_numeral)

lemma encTable64_nth: "i < 16 \<Longrightarrow> length (encTable64 ! i) = 17 \<and>
    bval (58 ^ 5) (map unat (encTable64 ! i)) = (2 ^ 32) ^ (15 - i)"
  using table_shapes(3,4) arg_cong [OF encTable64_rows, of "\<lambda>xs. xs ! i"]
  by (simp add: list_all_length power_mult del: power_numeral)

lemma decTable32_nth: "i < 9 \<Longrightarrow> length (decTable32 ! i) = 8 \<and>
    bval (2 ^ 32) (map unat (decTable32 ! i)) = (58 ^ 5) ^ (8 - i)"
  using table_shapes(5,6) arg_cong [OF decTable32_rows, of "\<lambda>xs. xs ! i"]
  by (simp add: list_all_length del: power_numeral)

lemma decTable64_nth: "i < 18 \<Longrightarrow> length (decTable64 ! i) = 16 \<and>
    bval (2 ^ 32) (map unat (decTable64 ! i)) = (58 ^ 5) ^ (17 - i)"
  using table_shapes(7,8) arg_cong [OF decTable64_rows, of "\<lambda>xs. xs ! i"]
  by (simp add: list_all_length del: power_numeral)

lemma covers_full: "length row = n \<Longrightarrow> covers 0 n row"
  by (simp add: covers_def)

lemma covers_row_bounds: "covers (fst (row_bounds row)) (snd (row_bounds row)) row"
  unfolding covers_def by (metis prod.collapse row_bounds_le row_bounds_zero)

lemma bval_sum_unat:
  assumes "length xs = n"
  shows "(\<Sum>i\<leftarrow>[0..<n]. unat (xs ! i) * b ^ (n - 1 - i)) = bval b (map unat xs)"
proof -
  have "(\<Sum>i\<leftarrow>[0..<n]. unat (xs ! i) * b ^ (n - 1 - i))
      = (\<Sum>i\<leftarrow>[0..<n]. map unat xs ! i * b ^ (n - 1 - i))"
    using assms by (intro arg_cong [where f = sum_list] map_cong) simp_all
  then show ?thesis
    using assms by (simp only: bval_sum [of b] length_map)
qed

lemma bval_sum_words:
  "length src = 4 * n \<Longrightarrow>
   (\<Sum>i\<leftarrow>[0..<n]. unat ((ucast :: u32 \<Rightarrow> u64) (be_words n src ! i)) * (2 ^ 32) ^ (n - 1 - i)) = bytes_val src"
  using bval_sum_unat [of "be_words n src" n "2 ^ 32"] by (simp add: bval_be_words [simplified])

lemma unat_word32_le: "unat ((ucast :: u32 \<Rightarrow> u64) w) \<le> 2 ^ 32 - 1"
  using unat_lt_pow [of w] by simp

lemma encodeMatMul32_product:
  assumes "length src = 32"
  shows "\<exists>im. encodeMatMul32 src (replicate 9 0) = Some im \<and> length im = 9 \<and>
    bounded (2 ^ 64 - 2 ^ 36) im \<and> bval (58 ^ 5) (map unat im) = bytes_val src"
proof -
  let ?bin = "be_words 8 src" and ?r = "\<lambda>i. map unat (encTable32 ! i)"
  let ?w = "\<lambda>i. (2 ^ 32) ^ (8 - 1 - i) :: nat"
  have len: "length src = 4 * 8" using assms by simp
  define im where "im = fold (\<lambda>i. macRow (ucast (?bin ! i)) (encTable32 ! i) 0 8 1) [0..<8] (replicate 9 0)"
  note P = product_ok [where rows = encTable32 and js = "[0..<8]" and acc = "replicate 9 0"
      and off = 1 and lo = "\<lambda>_. 0" and hi = "\<lambda>_. 8" and b = "\<lambda>i. ucast (?bin ! i)"
      and m = "2 ^ 32 - 1" and A = "replicate 9 0" and L = "2 ^ 64 - 2 ^ 36" and R = "58 ^ 5"
      and w = ?w, folded im_def]
  have pre: "fits 1 ?r [0..<8] (map unat (replicate 9 (0::u64)))"
    "\<forall>i \<in> set [0..<8]. covers 0 8 (encTable32 ! i)"
    "\<forall>i \<in> set [0..<8]. unat ((ucast :: u32 \<Rightarrow> u64) (?bin ! i)) \<le> 2 ^ 32 - 1"
    "list_all2 (\<le>) (map unat (replicate 9 (0::u64))) (replicate 9 0)"
    "\<forall>x \<in> set (matN 1 (\<lambda>_. 2 ^ 32 - 1) ?r [0..<8] (replicate 9 0)). x \<le> 2 ^ 64 - 2 ^ 36"
    "2 ^ 64 - 2 ^ 36 < (2::nat) ^ 64"
    using encBound32_ok
    by (auto simp: fits_def encTable32_nth covers_full encBound32_def list_all2_refl
        unat_word32_le [simplified])
  have val: "\<forall>i \<in> set [0..<8]. bval (58 ^ 5) (?r i) = ?w i"
    using encTable32_nth by simp
  have "bval (58 ^ 5) (map unat im) = (\<Sum>i\<leftarrow>[0..<8]. unat ((ucast :: u32 \<Rightarrow> u64) (?bin ! i)) * ?w i)"
    using P(4) [OF pre val] by simp
  also have "\<dots> = bytes_val src"
    using len by (rule bval_sum_words)
  finally show ?thesis
    using P(2,3) [OF pre val] len by (simp add: encodeMatMul32_def loadWords_eq im_def)
qed

interpretation enc32: encode_kernel encodeMatMul32 32 9
  by unfold_locales (simp, simp, rule encodeMatMul32_product)

lemma digits_le: "\<forall>v \<in> set im. unat v < m \<Longrightarrow> i < length im \<Longrightarrow> unat (im ! i) \<le> m - 1"
  using nth_mem [of i im] by fastforce

lemma decodeMatMul32_product:
  assumes "length im = 9" "\<forall>v \<in> set im. unat v < 58 ^ 5"
  shows "length (decodeMatMul32 im (replicate 8 0)) = 8 \<and>
    bounded (2 ^ 64 - 2 ^ 33) (decodeMatMul32 im (replicate 8 0)) \<and>
    bval (2 ^ 32) (map unat (decodeMatMul32 im (replicate 8 0))) = bval (58 ^ 5) (map unat im)"
proof -
  let ?r = "\<lambda>i. map unat (decTable32 ! i)" and ?w = "\<lambda>i. (58 ^ 5) ^ (9 - 1 - i) :: nat"
  note P = product_ok [where rows = decTable32 and js = "[0..<9]" and acc = "replicate 8 0"
      and off = 0 and lo = "\<lambda>_. 0" and hi = "\<lambda>_. 8" and b = "\<lambda>i. im ! i"
      and m = "58 ^ 5 - 1" and A = "replicate 8 0" and L = "2 ^ 64 - 2 ^ 33" and R = "2 ^ 32"
      and w = ?w, folded decodeMatMul32_def]
  have im: "\<forall>i \<in> set [0..<9]. unat (im ! i) \<le> 58 ^ 5 - 1"
    using digits_le [OF assms(2)] assms(1) by simp
  have pre: "fits 0 ?r [0..<9] (map unat (replicate 8 (0::u64)))"
    "\<forall>i \<in> set [0..<9]. covers 0 8 (decTable32 ! i)"
    "\<forall>i \<in> set [0..<9]. unat (im ! i) \<le> 58 ^ 5 - 1"
    "list_all2 (\<le>) (map unat (replicate 8 (0::u64))) (replicate 8 0)"
    "\<forall>x \<in> set (matN 0 (\<lambda>_. 58 ^ 5 - 1) ?r [0..<9] (replicate 8 0)). x \<le> 2 ^ 64 - 2 ^ 33"
    "2 ^ 64 - 2 ^ 33 < (2::nat) ^ 64"
    using decBound32_ok im
    by (auto simp: fits_def decTable32_nth covers_full decBound32_def list_all2_refl)
  have val: "\<forall>i \<in> set [0..<9]. bval (2 ^ 32) (?r i) = ?w i"
    using decTable32_nth by simp
  have "(\<Sum>i\<leftarrow>[0..<9]. unat (im ! i) * ?w i) = bval (58 ^ 5) (map unat im)"
    using assms(1) by (rule bval_sum_unat)
  then show ?thesis
    using P(2-4) [OF pre val] by simp
qed

interpretation dec32: decode_kernel decodeMatMul32 9 8
  by unfold_locales (simp, rule decodeMatMul32_product)


lemma decRowBounds64_nth: "i < 18 \<Longrightarrow> decRowBounds64 ! i = row_bounds (decTable64 ! i)"
  by (simp add: decRowBounds64_def table_shapes)

lemma encRowBounds64_nth: "i < 16 \<Longrightarrow> encRowBounds64 ! i = row_bounds (encTable64 ! i)"
  by (simp add: encRowBounds64_def table_shapes)

lemma decodeMatMul64_product:
  assumes "length im = 18" "\<forall>v \<in> set im. unat v < 58 ^ 5"
  shows "length (decodeMatMul64 im (replicate 16 0)) = 16 \<and>
    bounded (2 ^ 64 - 2 ^ 33) (decodeMatMul64 im (replicate 16 0)) \<and>
    bval (2 ^ 32) (map unat (decodeMatMul64 im (replicate 16 0))) = bval (58 ^ 5) (map unat im)"
proof -
  let ?r = "\<lambda>i. map unat (decTable64 ! i)" and ?w = "\<lambda>i. (58 ^ 5) ^ (18 - 1 - i) :: nat"
  let ?lo = "\<lambda>i. fst (decRowBounds64 ! i)" and ?hi = "\<lambda>i. snd (decRowBounds64 ! i)"
  note P = product_ok [where rows = decTable64 and js = "[0..<18]" and acc = "replicate 16 0"
      and off = 0 and lo = ?lo and hi = ?hi and b = "\<lambda>i. im ! i"
      and m = "58 ^ 5 - 1" and A = "replicate 16 0" and L = "2 ^ 64 - 2 ^ 33" and R = "2 ^ 32"
      and w = ?w, folded decodeMatMul64_def]
  have im: "\<forall>i \<in> set [0..<18]. unat (im ! i) \<le> 58 ^ 5 - 1"
    using digits_le [OF assms(2)] assms(1) by simp
  have pre: "fits 0 ?r [0..<18] (map unat (replicate 16 (0::u64)))"
    "\<forall>i \<in> set [0..<18]. covers (?lo i) (?hi i) (decTable64 ! i)"
    "\<forall>i \<in> set [0..<18]. unat (im ! i) \<le> 58 ^ 5 - 1"
    "list_all2 (\<le>) (map unat (replicate 16 (0::u64))) (replicate 16 0)"
    "\<forall>x \<in> set (matN 0 (\<lambda>_. 58 ^ 5 - 1) ?r [0..<18] (replicate 16 0)). x \<le> 2 ^ 64 - 2 ^ 33"
    "2 ^ 64 - 2 ^ 33 < (2::nat) ^ 64"
    using decBound64_ok im
    by (auto simp: fits_def decTable64_nth decRowBounds64_nth covers_row_bounds decBound64_def
        list_all2_refl)
  have val: "\<forall>i \<in> set [0..<18]. bval (2 ^ 32) (?r i) = ?w i"
    using decTable64_nth by simp
  have "(\<Sum>i\<leftarrow>[0..<18]. unat (im ! i) * ?w i) = bval (58 ^ 5) (map unat im)"
    using assms(1) by (rule bval_sum_unat)
  then show ?thesis
    using P(2-4) [OF pre val] by simp
qed

interpretation dec64: decode_kernel decodeMatMul64 18 16
  by unfold_locales (simp, rule decodeMatMul64_product)


text \<open>The mini-reduction in the middle of the 64-byte product.\<close>

definition mini_reduce :: "u64 list \<Rightarrow> u64 list" where
  "mini_reduce im = (let im = im[15 := im ! 15 + im ! 16 div r1div] in im[16 := im ! 16 mod r1div])"

lemma split_place: "(v :: nat) * b = (v div b) * (b * b) + (v mod b) * b"
proof -
  have "(v div b * b + v mod b) * b = (v div b) * (b * b) + (v mod b) * b"
    by (simp only: add_mult_distrib mult.assoc)
  then show ?thesis by simp
qed

lemma mini_sum:
  fixes C :: nat
  assumes "B + x * P = A + (x + q) * P" "C + v * b = B + r * b" "v * b = q * P + r * b"
  shows "C = A"
  using assms unfolding add_mult_distrib by linarith

lemma mini_reduce:
  assumes "length im = 18" "unat (im ! 15) \<le> 2 ^ 64 - 2 ^ 36"
  shows "map unat (mini_reduce im)
       = (map unat im)[15 := unat (im ! 15) + unat (im ! 16) div 58 ^ 5, 16 := unat (im ! 16) mod 58 ^ 5]"
    and "bval (58 ^ 5) (map unat (mini_reduce im)) = bval (58 ^ 5) (map unat im)"
proof -
  let ?R = "58 ^ 5 :: nat" and ?A = "map unat im"
  let ?x = "unat (im ! 15)" and ?v = "unat (im ! 16)"
  have "unat (im ! 16) \<le> 2 ^ 64 - 1" using unat_lt_pow [of "im ! 16"] by simp
  then have "?v div ?R \<le> (2 ^ 64 - 1) div ?R" by (rule div_le_mono)
  then have "?x + ?v div ?R < 2 ^ 64" using assms(2) by simp
  then show eq: "map unat (mini_reduce im) = ?A[15 := ?x + ?v div ?R, 16 := ?v mod ?R]"
    by (simp add: mini_reduce_def Let_def map_update unat_add_nowrap unat_div unat_mod)
  have "bval ?R (?A[15 := ?x + ?v div ?R]) + ?x * (?R * ?R) = bval ?R ?A + (?x + ?v div ?R) * (?R * ?R)"
    using bval_update [of 15 ?A ?R "?x + ?v div ?R"] assms(1) by (simp add: power2_eq_square)
  moreover have "bval ?R (?A[15 := ?x + ?v div ?R, 16 := ?v mod ?R]) + ?v * ?R
      = bval ?R (?A[15 := ?x + ?v div ?R]) + (?v mod ?R) * ?R"
    using bval_update [of 16 "?A[15 := ?x + ?v div ?R]" ?R "?v mod ?R"] assms(1) by simp
  moreover have "?v * ?R = (?v div ?R) * (?R * ?R) + (?v mod ?R) * ?R"
    by (rule split_place)
  ultimately show "bval ?R (map unat (mini_reduce im)) = bval ?R ?A"
    unfolding eq by (rule mini_sum)
qed

lemma encodeMatMul64_alt:
  "length src = 64 \<Longrightarrow> encodeMatMul64 src im =
     (let row = (\<lambda>i. macRow (ucast (be_words 16 src ! i)) (encTable64 ! i)
            (fst (encRowBounds64 ! i)) (snd (encRowBounds64 ! i)) 1)
      in Some (fold row [8..<16] (mini_reduce (fold row [0..<8] im))))"
  by (simp add: encodeMatMul64_def loadWords_eq [of src 16] mini_reduce_def Let_def)

lemma encodeMatMul64_product:
  assumes "length src = 64"
  shows "\<exists>im. encodeMatMul64 src (replicate 18 0) = Some im \<and> length im = 18 \<and>
    bounded (2 ^ 64 - 2 ^ 36) im \<and> bval (58 ^ 5) (map unat im) = bytes_val src"
proof -
  let ?bin = "be_words 16 src" and ?r = "\<lambda>i. map unat (encTable64 ! i)"
  let ?lo = "\<lambda>i. fst (encRowBounds64 ! i)" and ?hi = "\<lambda>i. snd (encRowBounds64 ! i)"
  let ?w = "\<lambda>i. (2 ^ 32) ^ (16 - 1 - i) :: nat"
  let ?B = "encBound64a[15 := encBound64a ! 15 + encBound64a ! 16 div 58 ^ 5, 16 := 58 ^ 5 - 1]"
  let ?row = "\<lambda>i. macRow (ucast (?bin ! i)) (encTable64 ! i) (?lo i) (?hi i) 1"
  let ?t = "\<lambda>i. unat ((ucast :: u32 \<Rightarrow> u64) (?bin ! i)) * ?w i"
  define im1 where "im1 = fold ?row [0..<8] (replicate 18 0)"
  define im2 where "im2 = mini_reduce im1"
  define im where "im = fold ?row [8..<16] im2"
  have word: "\<forall>i \<in> set js. unat ((ucast :: u32 \<Rightarrow> u64) (?bin ! i)) \<le> 2 ^ 32 - 1" for js
    by (simp add: unat_word32_le [simplified])
  have val: "\<forall>i \<in> set js. bval (58 ^ 5) (?r i) = ?w i" if "set js \<subseteq> {0..<16}" for js
    using encTable64_nth that by auto
  have cov: "\<forall>i \<in> set js. covers (?lo i) (?hi i) (encTable64 ! i)" if "set js \<subseteq> {0..<16}" for js
    using that by (auto simp: encRowBounds64_nth covers_row_bounds)
  have fits: "fits 1 ?r js A" if "set js \<subseteq> {0..<16}" "length A = 18" for js A
    using that encTable64_nth by (auto simp: fits_def)
  have lim: "2 ^ 64 - 2 ^ 36 < (2::nat) ^ 64" by simp
  note P1 = product_ok [where rows = encTable64 and js = "[0..<8]" and acc = "replicate 18 0"
      and off = 1 and lo = ?lo and hi = ?hi and b = "\<lambda>i. ucast (?bin ! i)" and m = "2 ^ 32 - 1"
      and A = "replicate 18 0" and L = "2 ^ 64 - 2 ^ 36" and R = "58 ^ 5" and w = ?w,
      OF fits cov word _ _ lim val, folded im1_def encBound64a_def, OF _ _ _ _ encBound64a_ok]
  have im1: "length im1 = 18" "bounded (2 ^ 64 - 2 ^ 36) im1"
    "bval (58 ^ 5) (map unat im1) = (\<Sum>i\<leftarrow>[0..<8]. ?t i)"
    "list_all2 (\<le>) (map unat im1) encBound64a"
    using P1(2-5) by (simp_all add: list_all2_refl)
  have "unat (im1 ! 15) \<le> 2 ^ 64 - 2 ^ 36"
    using im1(1,2) by (simp add: bounded_def)
  note mr = mini_reduce [OF im1(1) this, folded im2_def]
  have le: "unat (im1 ! i) \<le> encBound64a ! i" if "i < 18" for i
    using list_all2_nthD [OF im1(4), of i] that im1(1) by simp
  have "unat (im1 ! 15) + unat (im1 ! 16) div 58 ^ 5 \<le> encBound64a ! 15 + encBound64a ! 16 div 58 ^ 5"
    by (intro add_mono div_le_mono le) simp_all
  moreover have "unat (im1 ! 16) mod 58 ^ 5 \<le> 58 ^ 5 - 1"
    by simp
  ultimately have acc: "list_all2 (\<le>) (map unat im2) ?B"
    unfolding mr(1) using im1(4) by (intro list_all2_update_cong) simp_all
  have len2: "length im2 = 18"
    using arg_cong [OF mr(1), of length] im1(1) by simp
  note P2 = product_ok [where rows = encTable64 and js = "[8..<16]" and acc = im2
      and off = 1 and lo = ?lo and hi = ?hi and b = "\<lambda>i. ucast (?bin ! i)" and m = "2 ^ 32 - 1"
      and A = ?B and L = "2 ^ 64 - 2 ^ 36" and R = "58 ^ 5" and w = ?w,
      OF fits cov word acc _ lim val, folded im_def encBound64_def, OF _ _ _ encBound64_ok]
  have im: "length im = 18" "bounded (2 ^ 64 - 2 ^ 36) im"
    "bval (58 ^ 5) (map unat im) = (\<Sum>i\<leftarrow>[0..<8]. ?t i) + (\<Sum>i\<leftarrow>[8..<16]. ?t i)"
    using P2(2-4) len2 mr(2) im1(3) by simp_all
  have "[0..<16] = [0..<8] @ [8..<16]" by (simp add: upt_add_eq_append [of 0 8 8, simplified])
  then have "(\<Sum>i\<leftarrow>[0..<8]. ?t i) + (\<Sum>i\<leftarrow>[8..<16]. ?t i) = (\<Sum>i\<leftarrow>[0..<16]. ?t i)"
    by simp
  also have "\<dots> = bytes_val src" using assms by (intro bval_sum_words) simp
  finally show ?thesis
    using im assms by (simp add: encodeMatMul64_alt Let_def im_def im2_def im1_def)
qed

interpretation enc64: encode_kernel encodeMatMul64 64 18
  by unfold_locales (simp, simp, rule encodeMatMul64_product)

end
