(* ===== verification/Chars.thy ===== *)
theory Chars
  imports Tables
begin

text \<open>
  Digit extraction (\<open>encode.go\<close>, \<open>chars_other.go\<close>): rendering base-\<open>58 ^ 5\<close> limbs as
  characters, five at a time, through the two-character table \<open>base58Pairs\<close>.
\<close>

section \<open>Five characters of a limb\<close>

text \<open>\<open>binary.LittleEndian.PutUint16\<close> on a two-byte window.\<close>

definition putUint16LE :: "u16 \<Rightarrow> bytes \<Rightarrow> bytes option" where
  "putUint16LE v w = do { w \<leftarrow> upd w 0 (ucast v); upd w 1 (ucast (drop_bit 8 v)) }"

definition extractChars5 :: "u32 \<Rightarrow> bytes \<Rightarrow> bytes option" where
  "extractChars5 v out =
     do { _ \<leftarrow> idx out 4;
          let q1 = v div 3364;
          pr \<leftarrow> idx base58Pairs (unat (v - q1 * 3364));
          out \<leftarrow> on_slice out 3 5 (putUint16LE pr);
          let q2 = q1 div 3364;
          pr \<leftarrow> idx base58Pairs (unat (q1 - q2 * 3364));
          out \<leftarrow> on_slice out 1 3 (putUint16LE pr);
          c \<leftarrow> idx base58Chars (unat q2);
          upd out 0 c }"

definition digitCount5 :: "u32 \<Rightarrow> nat" where
  "digitCount5 v =
     (if v = 0 then 0 else if v < 58 then 1 else if v < 3364 then 2
      else if v < 195112 then 3 else if v < 11316496 then 4 else 5)"

section \<open>Whole limb arrays\<close>

definition extractChars32Generic :: "u64 list \<Rightarrow> bytes \<Rightarrow> bytes option" where
  "extractChars32Generic intermediate raw =
     foldM (\<lambda>i raw. on_slice raw (5 * i) (5 * i + 5) (extractChars5 (ucast (intermediate ! i))))
       [0, 1, 2, 3, 4, 5, 6, 7, 8] raw"

definition extractChars64Generic :: "u64 list \<Rightarrow> bytes \<Rightarrow> bytes option" where
  "extractChars64Generic intermediate raw =
     foldM (\<lambda>i raw. on_slice raw (5 * i) (5 * i + 5) (extractChars5 (ucast (intermediate ! i))))
       [0..<intermediateSz64] raw"

text \<open>The portable dispatch of \<open>chars_other.go\<close>.\<close>

definition extractChars32 :: "u64 list \<Rightarrow> bytes \<Rightarrow> bytes option" where
  "extractChars32 intermediate raw = extractChars32Generic intermediate raw"

definition extractChars64 :: "u64 list \<Rightarrow> bytes \<Rightarrow> bytes option" where
  "extractChars64 intermediate raw = extractChars64Generic intermediate raw"

definition extractCharsFlat36 :: "u64 list \<Rightarrow> bytes \<Rightarrow> bytes option" where
  "extractCharsFlat36 flat raws =
     foldM (\<lambda>(i, v) raws. on_slice raws (5 * i) (5 * i + 5) (extractChars5 (ucast v)))
       (enumerate 0 flat) raws"

definition extractCharsFlat72 :: "u64 list \<Rightarrow> bytes \<Rightarrow> bytes option" where
  "extractCharsFlat72 flat raws =
     foldM (\<lambda>(i, v) raws. on_slice raws (5 * i) (5 * i + 5) (extractChars5 (ucast v)))
       (enumerate 0 flat) raws"

section \<open>What is rendered\<close>

definition chars5 :: "nat \<Rightarrow> bytes" where
  "chars5 n = map b58_char (fixed 58 5 n)"

lemma length_chars5 [simp]: "length (chars5 n) = 5"
  by (simp add: chars5_def)

lemma fixed5: "fixed 58 5 n =
  [n div 11316496 mod 58, n div 195112 mod 58, n div 3364 mod 58, n div 58 mod 58, n mod 58]"
proof -
  have "fixed b 5 n = [n div b div b div b div b mod b, n div b div b div b mod b,
      n div b div b mod b, n div b mod b, n mod b]" for b
    by (simp add: eval_nat_numeral)
  from this [of 58] show ?thesis by (simp add: div_mult2_eq [symmetric])
qed

lemma putUint16LE_pair:
  "x < 3364 \<Longrightarrow> length w = 2 \<Longrightarrow>
     putUint16LE (base58Pairs ! x) w = Some [b58_char (x div 58), b58_char (x mod 58)]"
  by (auto simp: putUint16LE_def base58Pairs_lo base58Pairs_hi base58Chars_nth
      length_Suc_conv numeral_2_eq_2)

lemma extractChars5_eq:
  assumes "unat v < 58 ^ 5" "5 \<le> length out"
  shows "extractChars5 v out = Some (chars5 (unat v) @ drop 5 out)"
proof -
  obtain a b c d e rest where out: "out = a # b # c # d # e # rest"
    using assms(2) by (auto simp: Suc_le_length_iff eval_nat_numeral)
  define q1 where "q1 = v div 3364"
  define q2 where "q2 = q1 div 3364"
  have q1: "unat q1 = unat v div 3364" by (simp add: q1_def unat_div)
  have q2: "unat q2 = unat v div 11316496" by (simp add: q2_def q1 unat_div div_mult2_eq [symmetric])
  have r1: "unat (v - q1 * 3364) = unat v mod 3364"
    unfolding q1_def by (simp add: unat_sub_div_mult)
  have r2: "unat (q1 - q2 * 3364) = unat v div 3364 mod 3364"
    unfolding q2_def by (simp add: unat_sub_div_mult q1)
  have lt: "unat v div 11316496 < 58"
    using assms(1) by (simp add: less_mult_imp_div_less)
  have m: "n mod 3364 div 58 = n div 58 mod 58" "n mod 3364 mod 58 = n mod 58" for n :: nat
    using mod_mult2_eq [of n 58 58] by simp_all
  show ?thesis
    using lt
    by (simp add: extractChars5_def Let_def q1_def [symmetric] q2_def [symmetric] r1 r2 q2 out
        on_slice_def putUint16LE_pair base58Chars_nth chars5_def fixed5 m
        div_mult2_eq [symmetric])
qed

lemma digitCount5_eq:
  assumes "unat v < 58 ^ 5"
  shows "digitCount5 v = length (to_digits 58 (unat v))"
proof -
  have e: "length (to_digits 58 n) = k" if "58 ^ (k - 1) \<le> n" "n < 58 ^ k" "0 < k" for n k :: nat
    using to_digits_length_eq [of 58 "k - 1" n] that by simp
  show ?thesis
    using assms e [of 1 "unat v"] e [of 2 "unat v"] e [of 3 "unat v"] e [of 4 "unat v"]
      e [of 5 "unat v"]
    by (auto simp: digitCount5_def word_less_nat_alt unat_gt_0 Suc_le_eq not_less)
qed

text \<open>Rendering limb by limb from the left fills a growing prefix.\<close>

lemma foldM_extract:
  assumes "\<And>i. i < n \<Longrightarrow> unat (vs ! i) < 58 ^ 5" "5 * n \<le> length raw"
  shows "foldM (\<lambda>i raw. on_slice raw (5 * i) (5 * i + 5) (extractChars5 (ucast ((vs :: u64 list) ! i))))
           [0..<n] raw
       = Some (concat (map (\<lambda>i. chars5 (unat (vs ! i))) [0..<n]) @ drop (5 * n) raw)"
  using assms
proof (induction n)
  case 0
  then show ?case by simp
next
  case (Suc n)
  let ?pre = "concat (map (\<lambda>i. chars5 (unat (vs ! i))) [0..<n])"
  have len: "length ?pre = 5 * n" by (induction n) simp_all
  have v: "unat (vs ! n) < 58 ^ 5" using Suc.prems by simp
  then have u: "unat (ucast (vs ! n) :: u32) = unat (vs ! n)" by (simp add: unat_ucast_small)
  have "on_slice (?pre @ drop (5 * n) raw) (5 * n) (5 + 5 * n) (extractChars5 (ucast (vs ! n)))
      = Some (?pre @ chars5 (unat (vs ! n)) @ drop (5 + 5 * n) raw)"
    using Suc.prems(2) v
    by (subst on_slice_Some [where w = "chars5 (unat (vs ! n))"])
      (simp_all add: len extractChars5_eq u)
  then show ?case
    using Suc by (simp add: add.commute)
qed

definition chars_of :: "nat list \<Rightarrow> bytes" where
  "chars_of ns = map b58_char (concat (map (fixed 58 5) ns))"

lemma chars_of_alt: "chars_of ns = concat (map chars5 ns)"
  by (simp add: chars_of_def map_concat comp_def flip: chars5_def)

lemma length_chars_of [simp]: "length (chars_of ns) = 5 * length ns"
  by (simp add: chars_of_def)

lemma chars_of_Nil [simp]: "chars_of [] = []"
  by (simp add: chars_of_def)

lemma chars_of_append: "chars_of (xs @ ys) = chars_of xs @ chars_of ys"
  by (simp add: chars_of_def)

lemma chars_of_Cons: "chars_of (x # xs) = chars5 x @ chars_of xs"
  by (simp add: chars_of_def chars5_def)

lemma foldM_extract_all:
  assumes "\<forall>v \<in> set vs. unat v < 58 ^ 5" "5 * length vs \<le> length raw"
  shows "foldM (\<lambda>i raw. on_slice raw (5 * i) (5 * i + 5) (extractChars5 (ucast ((vs :: u64 list) ! i))))
           [0..<length vs] raw
       = Some (chars_of (map unat vs) @ drop (5 * length vs) raw)"
proof -
  have "map (\<lambda>i. chars5 (unat (vs ! i))) [0..<length vs] = map (chars5 \<circ> unat) vs"
    by (rule nth_equalityI) simp_all
  then show ?thesis
    using foldM_extract [of "length vs" vs raw] assms by (simp add: chars_of_alt)
qed

lemma foldM_extract_enumerate:
  "foldM (\<lambda>(i, v) raws. on_slice raws (5 * i) (5 * i + 5) (extractChars5 (ucast v))) (enumerate 0 vs) raws
   = foldM (\<lambda>i raw. on_slice raw (5 * i) (5 * i + 5) (extractChars5 (ucast ((vs :: u64 list) ! i))))
       [0..<length vs] raws"
proof -
  have "foldM (\<lambda>(i, v) s. f i v s) (zip js (map g js)) s = foldM (\<lambda>i s. f i (g i) s) js s"
    for f :: "nat \<Rightarrow> u64 \<Rightarrow> bytes \<Rightarrow> bytes option" and g js s
    by (induction js arbitrary: s) (auto cong: Option.bind_cong)
  from this [of _ "[0..<length vs]" "(!) vs"] show ?thesis
    by (simp add: enumerate_eq_zip map_nth)
qed

text \<open>
  Stripping the \<open>1\<close> characters in front of rendered limbs leaves the base-58 digits of their
  value.
\<close>

lemma strip_chars_of:
  assumes "\<forall>n \<in> set ns. n < 58 ^ 5"
  shows "dropWhile (\<lambda>c. c = 49) (chars_of ns) = b58_digits (bval (58 ^ 5) ns)"
proof -
  let ?ds = "concat (map (fixed 58 5) ns)"
  have lt: "d < 58" if "d \<in> set ?ds" for d
    using that by (auto dest: fixed_less [rotated])
  have "dropWhile (\<lambda>c. c = 49) (chars_of ns) = map b58_char (dropWhile (\<lambda>d. b58_char d = 49) ?ds)"
    by (simp add: chars_of_def dropWhile_map comp_def)
  also have "dropWhile (\<lambda>d. b58_char d = 49) ?ds = dropWhile (\<lambda>d. d = 0) ?ds"
    using lt by (intro dropWhile_cong) (simp_all add: b58_char_eq_1)
  also have "\<dots> = to_digits 58 (bval (58 ^ 5) ns)"
    using assms by (intro to_digits_blocks) auto
  finally show ?thesis by (simp add: b58_digits_def)
qed

lemma chars_of_split:
  assumes "\<forall>n \<in> set ns. n < 58 ^ 5"
  shows "chars_of ns = replicate (5 * length ns - length (b58_digits (bval (58 ^ 5) ns))) 49
           @ b58_digits (bval (58 ^ 5) ns)"
    and "length (b58_digits (bval (58 ^ 5) ns)) \<le> 5 * length ns"
proof -
  let ?D = "b58_digits (bval (58 ^ 5) ns)"
  have eq: "chars_of ns = replicate (leading 49 (chars_of ns)) 49 @ ?D"
    using leading_split [of "chars_of ns" 49] strip_chars_of [OF assms] by simp
  have "length (chars_of ns) = length (replicate (leading 49 (chars_of ns)) 49 @ ?D)"
    using eq by (rule arg_cong)
  then have "5 * length ns = leading 49 (chars_of ns) + length ?D"
    by (simp only: length_append length_replicate length_chars_of)
  with eq show "chars_of ns = replicate (5 * length ns - length ?D) 49 @ ?D"
    and "length ?D \<le> 5 * length ns" by simp_all
qed

end
