(* ===== verification/Go_Slice.thy ===== *)
theory Go_Slice
  imports Base58_Spec
begin

text \<open>
  Go byte slices with capacity, for the append-style operations: what they keep of the
  destination, where they write, and when they allocate.
\<close>

text \<open>
  \<open>buf\<close> is the backing array from the start of the slice to its capacity, \<open>len\<close> the length of
  the slice, \<open>fresh\<close> says that the array was allocated by the operation itself.
\<close>

record gslice =
  buf :: bytes
  len :: nat
  fresh :: bool

definition cap :: "gslice \<Rightarrow> nat" where
  "cap s = length (buf s)"

definition contents :: "gslice \<Rightarrow> bytes" where
  "contents s = take (len s) (buf s)"

definition wf_slice :: "gslice \<Rightarrow> bool" where
  "wf_slice s \<longleftrightarrow> len s \<le> cap s"

definition nil_slice :: gslice where
  "nil_slice = \<lparr>buf = [], len = 0, fresh = False\<rparr>"

text \<open>\<open>make([]byte, n, c)\<close> followed by \<open>copy(grown, dst)\<close>.\<close>

definition make_copy :: "nat \<Rightarrow> nat \<Rightarrow> gslice \<Rightarrow> gslice" where
  "make_copy n c dst =
     \<lparr>buf = go_copy (replicate n 0) (contents dst) @ replicate (c - n) 0, len = n, fresh = True\<rparr>"

text \<open>\<open>dst[:n]\<close> within the capacity.\<close>

definition reslice :: "gslice \<Rightarrow> nat \<Rightarrow> gslice option" where
  "reslice dst n = (if n \<le> cap dst then Some (dst\<lparr>len := n\<rparr>) else None)"

text \<open>
  The growth step the package uses everywhere: reuse the array when \<open>tot\<close> fits, otherwise a
  new array with capacity \<open>c\<close>.
\<close>

definition grow_to :: "gslice \<Rightarrow> nat \<Rightarrow> nat \<Rightarrow> gslice option" where
  "grow_to dst tot c =
     (if cap dst < tot then Some (make_copy tot c dst) else reslice dst tot)"

text \<open>A write through the window \<open>s[lo:hi]\<close> of the slice.\<close>

definition slice_write :: "gslice \<Rightarrow> nat \<Rightarrow> nat \<Rightarrow> (bytes \<Rightarrow> bytes option) \<Rightarrow> gslice option" where
  "slice_write s lo hi f =
     (if hi \<le> len s
      then do { b \<leftarrow> on_slice (buf s) lo hi f; Some (s\<lparr>buf := b\<rparr>) }
      else None)"

lemma wf_nil [simp]: "wf_slice nil_slice" "contents nil_slice = []" "cap nil_slice = 0"
  by (simp_all add: wf_slice_def nil_slice_def contents_def cap_def)

lemma length_contents [simp]: "wf_slice s \<Longrightarrow> length (contents s) = len s"
  by (simp add: wf_slice_def contents_def cap_def)

text \<open>What an append operation that writes \<open>out\<close> behind \<open>dst\<close> may return.\<close>

definition appended :: "gslice \<Rightarrow> bytes \<Rightarrow> gslice \<Rightarrow> bool" where
  "appended dst out s \<longleftrightarrow>
     wf_slice s \<and> contents s = contents dst @ out \<and> len s = len dst + length out \<and>
     (if len dst + length out \<le> cap dst
      then fresh s = fresh dst \<and>
           buf s = contents dst @ out @ drop (len dst + length out) (buf dst)
      else fresh s)"

lemma appended_contents: "appended dst out s \<Longrightarrow> contents s = contents dst @ out"
  by (simp add: appended_def)

lemma appended_reuse:
  "appended dst out s \<Longrightarrow> len dst + length out \<le> cap dst \<Longrightarrow>
     fresh s = fresh dst \<and> drop (len s) (buf s) = drop (len s) (buf dst) \<and> cap s = cap dst"
  by (auto simp: appended_def contents_def cap_def wf_slice_def min_def)

text \<open>
  Growing to the exact length and overwriting the new part with \<open>out\<close> is an append.
\<close>

lemma grow_write_appended:
  assumes "wf_slice dst" "tot = len dst + length out" "tot \<le> c"
    and "\<And>w. length w = length out \<Longrightarrow> f w = Some out"
  shows "\<exists>s. do { d \<leftarrow> grow_to dst tot c; slice_write d (tot - length out) tot f } = Some s \<and>
    appended dst out s"
proof (cases "cap dst < tot")
  case True
  have ld: "length (contents dst) = len dst" using assms(1) by simp
  have "f (take (length out) (replicate (length out) 0)) = Some out"
    using assms(4) by simp
  then show ?thesis
    using True assms(1-3) ld
    by (auto simp: grow_to_def make_copy_def slice_write_def on_slice_def subslice_def go_copy_def
        appended_def wf_slice_def cap_def contents_def)
next
  case False
  then have le: "tot \<le> length (buf dst)" by (simp add: cap_def)
  have "f (take (length out) (drop (len dst) (buf dst))) = Some out"
    using assms(2) le by (intro assms(4)) simp
  then show ?thesis
    using False assms(1,2) le
    by (auto simp: grow_to_def reslice_def slice_write_def on_slice_def subslice_def
        appended_def wf_slice_def cap_def contents_def)
qed

lemma grown:
  assumes "wf_slice dst" "len dst \<le> L"
  shows "\<exists>g. grow_to dst L L = Some g \<and> len g = L \<and> L \<le> length (buf g) \<and>
    take (len dst) (buf g) = contents dst \<and>
    (if L \<le> cap dst then fresh g = fresh dst \<and> buf g = buf dst else fresh g)"
proof (cases "cap dst < L")
  case True
  then show ?thesis using assms
    by (intro exI [of _ "make_copy L L dst"]) (simp add: grow_to_def make_copy_def go_copy_def)
next
  case False
  then show ?thesis
    by (intro exI [of _ "dst\<lparr>len := L\<rparr>"]) (simp add: grow_to_def reslice_def cap_def contents_def)
qed

text \<open>
  Go's \<open>append\<close>: it reuses the array when the elements fit and otherwise moves to an array that is
  large enough; how large is the runtime's choice, the parameter \<open>grow\<close> (old capacity, new length).
\<close>

definition go_append :: "(nat \<Rightarrow> nat \<Rightarrow> nat) \<Rightarrow> gslice \<Rightarrow> bytes \<Rightarrow> gslice" where
  "go_append grow s xs =
     (let n = len s + length xs
      in if n \<le> cap s
         then s\<lparr>buf := contents s @ xs @ drop n (buf s), len := n\<rparr>
         else \<lparr>buf = contents s @ xs @ replicate (grow (cap s) n - n) 0, len = n, fresh = True\<rparr>)"

lemma go_append_appended: "wf_slice dst \<Longrightarrow> appended dst xs (go_append grow dst xs)"
  by (auto simp: go_append_def appended_def Let_def wf_slice_def cap_def contents_def)

lemma appended_trans:
  assumes "appended a xs b" "appended b ys c"
  shows "appended a (xs @ ys) c"
proof (cases "len a + length xs \<le> cap a")
  case True
  have la: "length (contents a) = len a" using True by (simp add: contents_def cap_def)
  have b: "fresh b = fresh a" "buf b = contents a @ xs @ drop (len a + length xs) (buf a)" "len b = len a + length xs"
    "contents b = contents a @ xs" "wf_slice b"
    using assms(1) True by (simp_all add: appended_def)
  then have "cap b = cap a" using True la by (simp add: cap_def)
  then show ?thesis using assms(2) b la by (simp add: appended_def add.assoc add.commute add.left_commute)
next
  case False
  then have b: "fresh b" "len b = len a + length xs" "contents b = contents a @ xs"
    using assms(1) by (simp_all add: appended_def)
  then have "fresh c" using assms(2) by (simp add: appended_def split: if_splits)
  then show ?thesis using assms(2) False b by (simp add: appended_def)
qed

lemma appended_Nil: "wf_slice dst \<Longrightarrow> appended dst [] dst"
  by (simp add: appended_def wf_slice_def cap_def contents_def)

lemma append_ones:
  assumes "wf_slice dst"
  shows "appended dst (replicate n x) (fold (\<lambda>_ dst. go_append grow dst [x]) [0..<n] dst)"
proof (induction n)
  case 0
  then show ?case using assms by (simp add: appended_Nil)
next
  case (Suc n)
  have "wf_slice (fold (\<lambda>_ dst. go_append grow dst [x]) [0..<n] dst)" using Suc by (simp add: appended_def)
  from appended_trans [OF Suc go_append_appended [OF this, of "[x]" grow]] show ?case by (simp add: replicate_append_same)
qed

text \<open>
  What an append that works in a window of \<open>room\<close> bytes behind \<open>dst\<close> may return: with that much
  capacity it stays in the array of \<open>dst\<close> and leaves everything behind the window alone.
\<close>

definition window_appended :: "gslice \<Rightarrow> nat \<Rightarrow> bytes \<Rightarrow> gslice \<Rightarrow> bool" where
  "window_appended dst room out s \<longleftrightarrow>
     wf_slice s \<and> contents s = contents dst @ out \<and> len s = len dst + length out \<and>
     (if len dst + room \<le> cap dst
      then fresh s = fresh dst \<and> cap s = cap dst \<and> drop (len dst + room) (buf s) = drop (len dst + room) (buf dst)
      else fresh s)"

lemma window_appended_exact:
  assumes "appended dst out s"
  shows "window_appended dst (length out) out s"
proof (cases "len dst + length out \<le> cap dst")
  case True
  have l: "len s = len dst + length out" using assms by (simp add: appended_def)
  show ?thesis
    using assms True appended_reuse [OF assms True] unfolding l
    by (simp add: window_appended_def appended_def)
qed (use assms in \<open>simp add: window_appended_def appended_def\<close>)

lemma window_appended_trans:
  assumes "appended a xs b" "window_appended b room ys c" "length ys \<le> room"
  shows "window_appended a (length xs + room) (xs @ ys) c"
proof (cases "len a + length xs \<le> cap a")
  case True
  have la: "length (contents a) = len a" using True by (simp add: contents_def cap_def)
  have b: "fresh b = fresh a" "buf b = contents a @ xs @ drop (len a + length xs) (buf a)" "len b = len a + length xs"
    "contents b = contents a @ xs"
    using assms(1) True by (simp_all add: appended_def)
  then have "cap b = cap a" using True la by (simp add: cap_def)
  moreover have "drop (len a + (length xs + room)) (buf b) = drop (len a + (length xs + room)) (buf a)"
    unfolding b(2) using la by (simp add: add.commute add.left_commute)
  ultimately show ?thesis using assms(2) b(1,3,4) by (simp add: window_appended_def add.assoc cong: if_cong)
next
  case False
  then have b: "fresh b" "len b = len a + length xs" "contents b = contents a @ xs"
    using assms(1) by (simp_all add: appended_def)
  then have "fresh c" using assms(2) by (simp add: window_appended_def split: if_splits)
  then show ?thesis using assms(2) False b by (simp add: window_appended_def)
qed

end
