(* ===== verification/Encode_Fixed.thy ===== *)
theory Encode_Fixed
  imports Matmul Chars Go_Slice
begin

text \<open>
  The fixed-width encoders of \<open>encode.go\<close> in the portable build: \<open>Encode32\<close>, \<open>Encode64\<close>,
  \<open>AppendEncode32\<close> and \<open>AppendEncode64\<close> with their helpers, from the matrix product over the
  carry chain to the characters. The main results say that each returns the base58 encoding of
  its input and never panics, and that the append variants leave the destination as it was,
  write only the encoding and allocate exactly when it does not fit.

  The functions that every build shares take the functions of the build they call as arguments
  (\<open>_on\<close>); under their own names they stand for the portable build.
\<close>

section \<open>The 32-byte path\<close>

text \<open>
  The fused loop of \<open>encode32Render\<close> for \<open>i, i-1, \<dots>, 1\<close>: carry, render, and remember the first
  non-zero limb.
\<close>

fun renderLoop :: "nat \<Rightarrow> u64 \<Rightarrow> u64 list \<Rightarrow> nat \<times> u32 \<Rightarrow> bytes \<Rightarrow> (u64 \<times> (nat \<times> u32) \<times> bytes) option" where
  "renderLoop 0 v intermediate izTop raw = Some (v, izTop, raw)"
| "renderLoop (Suc i) v intermediate izTop raw =
     (let q = v div r1div;
          r = (ucast (v - q * r1div) :: u32)
      in do { raw \<leftarrow> on_slice raw (5 * Suc i) (5 * Suc i + 5) (extractChars5 r);
              renderLoop i (intermediate ! i + q) intermediate
                (if r \<noteq> 0 then (Suc i, r) else izTop) raw })"

definition encode32Render_on :: "(bytes \<Rightarrow> u64 list \<Rightarrow> u64 list option) \<Rightarrow> bytes \<Rightarrow> bytes \<Rightarrow> (bytes \<times> nat \<times> nat) option" where
  "encode32Render_on mm src raw =
     do { intermediate \<leftarrow> mm src (replicate intermediateSz32 0);
          (v, izTop, raw) \<leftarrow> renderLoop (intermediateSz32 - 1) (intermediate ! (intermediateSz32 - 1))
            intermediate (intermediateSz32, 0) raw;
          let r0 = (ucast v :: u32);
          raw \<leftarrow> on_slice raw 0 5 (extractChars5 r0);
          let (iz, top) = (if r0 \<noteq> 0 then (0, r0) else izTop);
          let inZeros = leading 0 src;
          if iz = intermediateSz32 then Some (raw, inZeros, raw58Sz32)
          else do {
            let dc = digitCount5 top;
            let outLen = inZeros + dc + 5 * (intermediateSz32 - 1 - iz);
            skip \<leftarrow> isub raw58Sz32 outLen;
            Some (raw, outLen, skip) } }"

definition encode32Render :: "bytes \<Rightarrow> bytes \<Rightarrow> (bytes \<times> nat \<times> nat) option" where
  "encode32Render src raw = encode32Render_on encodeMatMul32 src raw"

text \<open>The common end of \<open>Encode32\<close> and \<open>appendEncode32\<close>: copy the window, pad with \<open>1\<close>.\<close>

definition place32 :: "bytes \<Rightarrow> nat \<Rightarrow> nat \<Rightarrow> bytes \<Rightarrow> bytes option" where
  "place32 raw skip outLen out =
     do { w \<leftarrow> subslice raw skip raw58Sz32;
          let n = min (length out) (length w);
          foldM (\<lambda>i out. upd out i (byte CHR ''1'')) [n..<outLen] (go_copy out w) }"

definition encode32Fast :: "bytes \<Rightarrow> bytes option" where
  "encode32Fast src = None"

definition Encode32_on :: "bytes option \<Rightarrow> (bytes \<Rightarrow> u64 list \<Rightarrow> u64 list option) \<Rightarrow> bytes \<Rightarrow> bytes option" where
  "Encode32_on fast mm src =
     (case fast of
        Some out \<Rightarrow> Some out
      | None \<Rightarrow>
          do { (raw, outLen, skip) \<leftarrow> encode32Render_on mm src (replicate raw58Buf32 0);
               place32 raw skip outLen (replicate outLen 0) })"

definition Encode32 :: "bytes \<Rightarrow> bytes option" where
  "Encode32 src = Encode32_on (encode32Fast src) encodeMatMul32 src"

definition appendEncode32GenericCapacity_on ::
    "(bytes \<Rightarrow> u64 list \<Rightarrow> u64 list option) \<Rightarrow> gslice \<Rightarrow> bytes \<Rightarrow> nat \<Rightarrow> gslice option" where
  "appendEncode32GenericCapacity_on mm dst src minEncodedCap =
     do { (raw, outLen, skip) \<leftarrow> encode32Render_on mm src (replicate raw58Buf32 0);
          let tot = len dst + outLen;
          dst \<leftarrow> grow_to dst tot (len dst + max outLen minEncodedCap);
          slice_write dst (tot - outLen) tot (place32 raw skip outLen) }"

definition appendEncode32GenericCapacity :: "gslice \<Rightarrow> bytes \<Rightarrow> nat \<Rightarrow> gslice option" where
  "appendEncode32GenericCapacity dst src minEncodedCap = appendEncode32GenericCapacity_on encodeMatMul32 dst src minEncodedCap"

definition appendEncode32Generic :: "gslice \<Rightarrow> bytes \<Rightarrow> gslice option" where
  "appendEncode32Generic dst src = appendEncode32GenericCapacity dst src 0"

text \<open>\<open>append32_other.go\<close>.\<close>

definition AppendEncode32 :: "gslice \<Rightarrow> bytes \<Rightarrow> gslice option" where
  "AppendEncode32 dst src = appendEncode32Generic dst src"

text \<open>The raw variants, with the carry loop on the array, used by the batch encoders.\<close>

definition encodeRaw32_on :: "(bytes \<Rightarrow> u64 list \<Rightarrow> u64 list option) \<Rightarrow>
    (u64 list \<Rightarrow> bytes \<Rightarrow> bytes option) \<Rightarrow> bytes \<Rightarrow> bytes \<Rightarrow> (bytes \<times> int) option" where
  "encodeRaw32_on mm extract src raw =
     do { intermediate \<leftarrow> mm src (replicate intermediateSz32 0);
          let intermediate = carryLoop (intermediateSz32 - 1) (intermediate ! (intermediateSz32 - 1)) intermediate;
          raw \<leftarrow> extract intermediate raw;
          let inLeading0s = leading 0 src;
          let rawLeading0s = leading (byte CHR ''1'') (take raw58Sz32 raw);
          Some (raw, int rawLeading0s - int inLeading0s) }"

definition encodeRaw32 :: "bytes \<Rightarrow> bytes \<Rightarrow> (bytes \<times> int) option" where
  "encodeRaw32 src raw = encodeRaw32_on encodeMatMul32 extractChars32 src raw"

section \<open>The 64-byte path\<close>

definition encodeRaw64_on :: "(bytes \<Rightarrow> u64 list \<Rightarrow> u64 list option) \<Rightarrow>
    (u64 list \<Rightarrow> bytes \<Rightarrow> bytes option) \<Rightarrow> bytes \<Rightarrow> bytes \<Rightarrow> (bytes \<times> int) option" where
  "encodeRaw64_on mm extract src raw =
     do { intermediate \<leftarrow> mm src (replicate intermediateSz64 0);
          let intermediate = carryLoop (intermediateSz64 - 1) (intermediate ! (intermediateSz64 - 1)) intermediate;
          raw \<leftarrow> extract intermediate raw;
          let inLeading0s = leading 0 src;
          let rawLeading0s = leading (byte CHR ''1'') raw;
          Some (raw, int rawLeading0s - int inLeading0s) }"

definition encodeRaw64 :: "bytes \<Rightarrow> bytes \<Rightarrow> (bytes \<times> int) option" where
  "encodeRaw64 src raw = encodeRaw64_on encodeMatMul64 extractChars64 src raw"

definition encode64Parts_on ::
    "(bytes \<Rightarrow> u64 list \<Rightarrow> u64 list option) \<Rightarrow> bytes \<Rightarrow> u64 list \<Rightarrow> (u64 list \<times> nat \<times> nat \<times> nat \<times> nat) option" where
  "encode64Parts_on mm src intermediate =
     do { intermediate \<leftarrow> mm src intermediate;
          let intermediate = carryLoop (intermediateSz64 - 1) (intermediate ! (intermediateSz64 - 1)) intermediate;
          let inZeros = leading 0 src;
          let iz = leading 0 intermediate;
          if iz = intermediateSz64 then Some (intermediate, inZeros, iz, 0, inZeros)
          else do {
            let dc = digitCount5 (ucast (intermediate ! iz));
            let outLen = inZeros + dc + 5 * (intermediateSz64 - 1 - iz);
            Some (intermediate, outLen, iz, dc, inZeros) } }"

definition encode64Parts :: "bytes \<Rightarrow> u64 list \<Rightarrow> (u64 list \<times> nat \<times> nat \<times> nat \<times> nat) option" where
  "encode64Parts src intermediate = encode64Parts_on encodeMatMul64 src intermediate"

text \<open>
  \<open>out\<close> is written front to back: the leading ones, the significant digits of the first
  non-zero limb, then five characters per limb at the running position.
\<close>

definition encode64WriteGeneric :: "u64 list \<Rightarrow> nat \<Rightarrow> nat \<Rightarrow> nat \<Rightarrow> bytes \<Rightarrow> bytes option" where
  "encode64WriteGeneric intermediate iz dc inZeros out =
     do { out \<leftarrow> foldM (\<lambda>k out. upd out k (byte CHR ''1'')) [0..<inZeros] out;
          if iz = intermediateSz64 then Some out
          else do {
            tmp \<leftarrow> extractChars5 (ucast (intermediate ! iz)) (replicate 5 0);
            lo \<leftarrow> isub 5 dc;
            w \<leftarrow> subslice tmp lo 5;
            out \<leftarrow> on_slice out inZeros (length out) (\<lambda>o'. Some (go_copy o' w));
            (pos, out) \<leftarrow> foldM (\<lambda>i (pos, out).
                do { out \<leftarrow> on_slice out pos (pos + 5) (extractChars5 (ucast (intermediate ! i)));
                     Some (pos + 5, out) })
              [iz + 1..<intermediateSz64] (inZeros + dc, out);
            Some out } }"

definition encode64Write :: "u64 list \<Rightarrow> nat \<Rightarrow> nat \<Rightarrow> nat \<Rightarrow> bytes \<Rightarrow> bytes option" where
  "encode64Write intermediate iz dc inZeros out = encode64WriteGeneric intermediate iz dc inZeros out"

definition encode64Generic_on :: "(bytes \<Rightarrow> u64 list \<Rightarrow> u64 list option) \<Rightarrow>
    (u64 list \<Rightarrow> nat \<Rightarrow> nat \<Rightarrow> nat \<Rightarrow> bytes \<Rightarrow> bytes option) \<Rightarrow> bytes \<Rightarrow> bytes option" where
  "encode64Generic_on mm write src =
     do { (intermediate, outLen, iz, dc, inZeros) \<leftarrow> encode64Parts_on mm src (replicate intermediateSz64 0);
          write intermediate iz dc inZeros (replicate outLen 0) }"

definition encode64Generic :: "bytes \<Rightarrow> bytes option" where
  "encode64Generic src = encode64Generic_on encodeMatMul64 encode64Write src"

text \<open>\<open>encode64_other.go\<close>.\<close>

definition Encode64 :: "bytes \<Rightarrow> bytes option" where
  "Encode64 src = encode64Generic src"

text \<open>\<open>chars_other.go\<close>: the portable build has no fast append.\<close>

definition appendEncode64Fast :: "gslice \<Rightarrow> bytes \<Rightarrow> gslice option" where
  "appendEncode64Fast dst src = None"

definition AppendEncode64_on :: "gslice option \<Rightarrow> (bytes \<Rightarrow> u64 list \<Rightarrow> u64 list option) \<Rightarrow>
    (u64 list \<Rightarrow> nat \<Rightarrow> nat \<Rightarrow> nat \<Rightarrow> bytes \<Rightarrow> bytes option) \<Rightarrow> gslice \<Rightarrow> bytes \<Rightarrow> gslice option" where
  "AppendEncode64_on fast mm write dst src =
     (case fast of
        Some out \<Rightarrow> Some out
      | None \<Rightarrow>
          do { (intermediate, outLen, iz, dc, inZeros) \<leftarrow> encode64Parts_on mm src (replicate intermediateSz64 0);
               let tot = len dst + outLen;
               dst \<leftarrow> grow_to dst tot tot;
               slice_write dst (tot - outLen) tot (write intermediate iz dc inZeros) })"

definition AppendEncode64 :: "gslice \<Rightarrow> bytes \<Rightarrow> gslice option" where
  "AppendEncode64 dst src = AppendEncode64_on (appendEncode64Fast dst src) encodeMatMul64 encode64Write dst src"

section \<open>Lengths\<close>

lemma to_digits_shift:
  assumes "2 \<le> b" "0 < d" "r < b ^ k"
  shows "to_digits b (d * b ^ k + r) = to_digits b d @ fixed b k r"
proof -
  have "bval b (to_digits b d @ fixed b k r) = d * b ^ k + r"
    using assms by (simp add: bval_append)
  moreover have "dropWhile (\<lambda>d. d = 0) (to_digits b d @ fixed b k r) = to_digits b d @ fixed b k r"
    using assms to_digits_hd [of b d] to_digits_eq_Nil [of b d]
    by (cases "to_digits b d") auto
  moreover have "\<forall>x \<in> set (to_digits b d @ fixed b k r). x < b"
    using assms(1) by (auto simp: to_digits_less fixed_less)
  ultimately show ?thesis
    using to_digits_bval [of b "to_digits b d @ fixed b k r"] assms(1) by simp
qed

text \<open>The output length is computed from the first non-zero limb.\<close>

lemma length_digits_limbs:
  assumes "\<forall>d \<in> set ds. d < 58 ^ 5" "iz = leading 0 ds" "iz < length ds"
  shows "length (b58_digits (bval (58 ^ 5) ds)) = length (to_digits 58 (ds ! iz)) + 5 * (length ds - 1 - iz)"
proof -
  let ?rest = "drop (Suc iz) ds"
  have ds: "ds = replicate iz 0 @ ds ! iz # ?rest"
    using assms(2,3) by (metis id_take_nth_drop take_leading)
  have pos: "0 < ds ! iz"
    using leading_stop [of 0 ds] assms(2,3) by simp
  have "bval (58 ^ 5) ?rest < (58 ^ 5) ^ length ?rest"
    using assms(1) by (intro bval_less) (auto dest: in_set_dropD)
  then have lt: "bval (58 ^ 5) ?rest < 58 ^ (5 * length ?rest)"
    by (simp only: power_mult)
  have "bval (58 ^ 5) ds = ds ! iz * 58 ^ (5 * length ?rest) + bval (58 ^ 5) ?rest"
    by (subst ds) (simp only: bval_append bval_Cons bval_replicate_0 power_mult mult_0 add_0)
  then have "to_digits 58 (bval (58 ^ 5) ds)
      = to_digits 58 (ds ! iz) @ fixed 58 (5 * length ?rest) (bval (58 ^ 5) ?rest)"
    using to_digits_shift [OF _ pos lt] by simp
  then show ?thesis
    by (simp add: b58_digits_def)
qed

lemma b58_encode_length:
  assumes "length src = nb" "256 ^ nb \<le> (58 :: nat) ^ L" "nb \<le> L"
  shows "length (b58_encode src) \<le> L"
proof -
  let ?z = "leading 0 src"
  have z: "?z \<le> nb" using assms(1) leading_le by metis
  have "bytes_val src = bytes_val (drop ?z src)"
    by (simp add: drop_leading bytes_val_drop_leading)
  also have "\<dots> < 256 ^ (nb - ?z)"
    using bytes_val_less [of "drop ?z src"] assms(1) by simp
  also have "(256 :: nat) ^ (nb - ?z) \<le> 58 ^ (L - ?z)"
  proof -
    have "256 ^ (nb - ?z) * 58 ^ ?z \<le> 256 ^ (nb - ?z) * (256 :: nat) ^ ?z"
      by (simp add: power_mono)
    also have "\<dots> = 256 ^ nb" using z by (simp flip: power_add)
    also have "\<dots> \<le> 58 ^ L" by (rule assms(2))
    also have "(58 :: nat) ^ L = 58 ^ (L - ?z) * 58 ^ ?z"
      using z assms(3) by (simp flip: power_add)
    finally show ?thesis by simp
  qed
  finally have "length (to_digits 58 (bytes_val src)) \<le> L - ?z"
    by (intro to_digits_length_le) simp_all
  then show ?thesis
    using z assms(3) by (simp add: b58_encode_def b58_digits_def)
qed


section \<open>Fixed-width digits of the input\<close>

abbreviation limbs58 :: "nat \<Rightarrow> bytes \<Rightarrow> nat list" where
  "limbs58 n src \<equiv> fixed (58 ^ 5) n (bytes_val src)"

lemma limbs58_less: "\<forall>d \<in> set (limbs58 n src). d < 58 ^ 5"
  using fixed_less [of "58 ^ 5"] by simp

lemma bval_limbs58:
  "length src = nb \<Longrightarrow> 256 ^ nb \<le> (58 ^ 5 :: nat) ^ n \<Longrightarrow> bval (58 ^ 5) (limbs58 n src) = bytes_val src"
  using bytes_val_less [of src] by (intro bval_fixed_less) (simp only: less_le_trans)

lemma limbs58_32: "length src = 32 \<Longrightarrow> bval (58 ^ 5) (limbs58 9 src) = bytes_val src"
  by (rule bval_limbs58 [of _ 32]) simp_all

lemma limbs58_64: "length src = 64 \<Longrightarrow> bval (58 ^ 5) (limbs58 18 src) = bytes_val src"
  by (rule bval_limbs58 [of _ 64]) simp_all

lemma b58_encode_length32: "length src = 32 \<Longrightarrow> length (b58_encode src) \<le> 44"
  by (rule b58_encode_length [of _ 32]) simp_all

lemma b58_encode_length64: "length src = 64 \<Longrightarrow> length (b58_encode src) \<le> 88"
  by (rule b58_encode_length [of _ 64]) simp_all

lemma length_b58_encode: "length (b58_encode src) = leading 0 src + length (b58_digits (bytes_val src))"
  by (simp add: b58_encode_def)

text \<open>
  The rendered limbs end with the digits of the value; cut off the surplus ones and the
  encoding remains.
\<close>

lemma drop_chars_of:
  assumes "\<forall>d \<in> set ds. d < 58 ^ 5" "bval (58 ^ 5) ds = bytes_val src"
    "length (b58_encode src) \<le> 5 * length ds"
  shows "drop (5 * length ds - length (b58_encode src)) (chars_of ds) = b58_encode src"
proof -
  let ?D = "b58_digits (bytes_val src)" and ?L = "5 * length ds"
  have "chars_of ds = replicate (?L - length ?D) 49 @ ?D"
    using chars_of_split(1) [OF assms(1)] assms(2) by simp
  then show ?thesis
    using assms(3) by (simp add: length_b58_encode) (simp add: b58_encode_def)
qed

text \<open>The rendered limbs; the skip count cuts them down to the encoding.\<close>

lemma leading_slot:
  assumes "bval (58 ^ 5) (limbs58 n src) = bytes_val src"
  shows "length (b58_digits (bytes_val src)) \<le> 5 * n"
    and "int (leading 49 (chars_of (limbs58 n src))) - int (leading 0 src) = int (5 * n) - int (length (b58_encode src))"
proof -
  let ?D = "b58_digits (bytes_val src)"
  have split: "chars_of (limbs58 n src) = replicate (5 * n - length ?D) 49 @ ?D"
    and le: "length ?D \<le> 5 * n"
    using chars_of_split [OF limbs58_less [of n src]] unfolding assms by simp_all
  show "length ?D \<le> 5 * n" by (rule le)
  have "leading 49 (chars_of (limbs58 n src)) = 5 * n - length ?D"
    unfolding split by (intro leading_replicate_append) (use b58_digits_hd in blast)
  with le show "int (leading 49 (chars_of (limbs58 n src))) - int (leading 0 src)
      = int (5 * n) - int (length (b58_encode src))"
    by (simp add: length_b58_encode of_nat_diff)
qed

section \<open>The fused render loop\<close>

text \<open>The limb \<open>encode32Render\<close> remembers: the first non-zero one of \<open>d 1, \<dots>, d i\<close>.\<close>

definition first_nz :: "(nat \<Rightarrow> u64) \<Rightarrow> nat list \<Rightarrow> nat \<times> u32 \<Rightarrow> nat \<times> u32" where
  "first_nz d js dflt = (case find (\<lambda>j. d j \<noteq> 0) js of Some j \<Rightarrow> (j, ucast (d j)) | None \<Rightarrow> dflt)"

lemma first_nz_append: "first_nz d (xs @ ys) dflt = first_nz d xs (first_nz d ys dflt)"
  by (induction xs) (simp_all add: first_nz_def)

lemma first_nz_single: "first_nz d [j] dflt = (if d j \<noteq> 0 then (j, ucast (d j)) else dflt)"
  by (simp add: first_nz_def)

lemma first_nz_cong: "(\<And>j. j \<in> set js \<Longrightarrow> d j = e j) \<Longrightarrow> first_nz d js dflt = first_nz e js dflt"
  by (induction js) (auto simp: first_nz_def)

lemma carryLoop_ignore:
  assumes "i < k" "j \<le> i"
  shows "carryLoop i v (xs[k := x]) ! j = carryLoop i v xs ! j"
proof (cases "k < length xs")
  case True
  with assms show ?thesis
  proof (induction i arbitrary: v xs)
    case 0
    then show ?case by (cases xs; cases k; simp)
  next
    case (Suc i)
    then show ?case
      by (cases "j = Suc i") (simp_all add: enc.loop_Suc enc.loop_above list_update_swap [of k "Suc i"])
  qed
qed (simp add: list_update_beyond)

lemma ucast_eq_0: "unat (v :: u64) < 2 ^ 32 \<Longrightarrow> (ucast v :: u32) = 0 \<longleftrightarrow> v = 0"
proof -
  assume "unat v < 2 ^ 32"
  then have "unat (ucast v :: u32) = unat v" by (simp add: unat_ucast_small)
  then show ?thesis by (metis unat_eq_0)
qed

lemma renderLoop_eq:
  assumes "i < length im" "5 * i + 5 \<le> length raw"
  shows "renderLoop i v im it raw =
    Some (carryLoop i v im ! 0, first_nz (\<lambda>j. carryLoop i v im ! j) [1..<Suc i] it,
      take 5 raw @ concat (map (\<lambda>j. chars5 (unat (carryLoop i v im ! j))) [1..<Suc i])
        @ drop (5 * i + 5) raw)"
  using assms
proof (induction i arbitrary: v it raw)
  case 0
  then show ?case by (cases im) (simp_all add: first_nz_def)
next
  case (Suc i)
  define q where "q = v div r1div"
  define r where "r = v - q * r1div"
  let ?v = "im ! i + q"
  have r: "unat r < 58 ^ 5" by (simp add: r_def q_def unat_sub_div_mult)
  then have ur: "unat (ucast r :: u32) = unat r" by (simp add: unat_ucast_small)
  have low: "carryLoop (Suc i) v im ! j = carryLoop i ?v im ! j" if "j \<le> i" for j
    using that by (simp add: enc.loop_Suc q_def carryLoop_ignore)
  have top: "carryLoop (Suc i) v im ! Suc i = r"
    using Suc.prems(1) by (simp add: enc.loop_Suc q_def r_def enc.loop_above)
  have win: "on_slice raw (5 * Suc i) (5 * Suc i + 5) (extractChars5 (ucast r))
      = Some (take (5 * Suc i) raw @ chars5 (unat r) @ drop (5 * Suc i + 5) raw)"
    using Suc.prems(2) r by (subst on_slice_Some [where w = "chars5 (unat r)"]) (simp_all add: extractChars5_eq ur)
  let ?raw = "take (5 * Suc i) raw @ chars5 (unat r) @ drop (5 * Suc i + 5) raw"
  let ?it = "if ucast r \<noteq> (0 :: u32) then (Suc i, ucast r) else it"
  have IH: "renderLoop i ?v im ?it ?raw =
    Some (carryLoop i ?v im ! 0, first_nz (\<lambda>j. carryLoop i ?v im ! j) [1..<Suc i] ?it,
      take 5 ?raw @ concat (map (\<lambda>j. chars5 (unat (carryLoop i ?v im ! j))) [1..<Suc i])
        @ drop (5 * i + 5) ?raw)"
    using Suc.prems by (intro Suc.IH) simp_all
  have it: "?it = first_nz (\<lambda>j. carryLoop (Suc i) v im ! j) [Suc i] it"
    using r ucast_eq_0 [of r] by (simp add: first_nz_single top)
  have fnz: "first_nz (\<lambda>j. carryLoop i ?v im ! j) [1..<Suc i] ?it
      = first_nz (\<lambda>j. carryLoop (Suc i) v im ! j) [1..<Suc (Suc i)] it"
  proof -
    have "first_nz (\<lambda>j. carryLoop i ?v im ! j) [1..<Suc i] ?it
        = first_nz (\<lambda>j. carryLoop (Suc i) v im ! j) [1..<Suc i] ?it"
      by (rule first_nz_cong) (auto simp: low)
    also have "\<dots> = first_nz (\<lambda>j. carryLoop (Suc i) v im ! j) ([1..<Suc i] @ [Suc i]) it"
      unfolding it by (rule first_nz_append [symmetric])
    finally show ?thesis by simp
  qed
  have cs: "map (\<lambda>j. chars5 (unat (carryLoop i ?v im ! j))) [1..<Suc i]
      = map (\<lambda>j. chars5 (unat (carryLoop (Suc i) v im ! j))) [1..<Suc i]"
    by (auto simp: low)
  have step: "renderLoop (Suc i) v im it raw = renderLoop i ?v im ?it ?raw"
    using win by (simp add: Let_def q_def [symmetric] r_def [symmetric])
  have win: "take 5 ?raw = take 5 raw"
    "drop (5 * i + 5) ?raw = chars5 (unat r) @ drop (5 * Suc i + 5) raw"
    using Suc.prems(2) by simp_all
  have "[1..<Suc (Suc i)] = [1..<Suc i] @ [Suc i]" by simp
  then have cs': "concat (map (\<lambda>j. chars5 (unat (carryLoop (Suc i) v im ! j))) [1..<Suc (Suc i)])
      = concat (map (\<lambda>j. chars5 (unat (carryLoop (Suc i) v im ! j))) [1..<Suc i]) @ chars5 (unat r)"
    by (simp only: map_append concat_append list.map concat.simps append_Nil2 top)
  show ?case
    unfolding step IH fnz cs cs' win low [of 0, simplified] by simp
qed


section \<open>Rendering 32 bytes\<close>

lemma leading_map_unat: "leading (0 :: nat) (map unat vs) = leading 0 vs"
  using map_leading [of vs unat 0] by (simp add: unat_eq_0)

lemma first_nz_leading:
  "first_nz (\<lambda>j. vs ! j) [0..<length vs] dflt =
     (if leading 0 vs < length vs then (leading 0 vs, ucast (vs ! leading 0 vs)) else dflt)"
proof (cases "leading 0 vs < length vs")
  case True
  then have "find (\<lambda>j. vs ! j \<noteq> 0) [0..<length vs] = Some (leading 0 vs)"
    unfolding find_Some_iff using leading_stop [OF True] leading_nth [of _ 0 vs]
    by (intro exI [of _ "leading 0 vs"]) auto
  with True show ?thesis by (simp add: first_nz_def)
next
  case False
  then have "leading 0 vs = length vs" using leading_le [of 0 vs] by simp
  then have "find (\<lambda>j. vs ! j \<noteq> 0) [0..<length vs] = None"
    unfolding find_None_iff using leading_nth [of _ 0 vs] by auto
  with False show ?thesis by (simp add: first_nz_def)
qed

lemma encode32Render_eq:
  assumes "length src = 32" "48 \<le> length raw"
  shows "encode32Render src raw =
    Some (chars_of (limbs58 9 src) @ drop 45 raw, length (b58_encode src),
      if bytes_val src = 0 then 45 else 45 - length (b58_encode src))"
proof -
  obtain im where im: "encodeMatMul32 src (replicate 9 0) = Some im" "length im = 9"
    and ds: "map unat (carryLoop 8 (im ! 8) im) = limbs58 9 src"
    using enc32.carried [OF assms(1)] by auto
  define vs where "vs = carryLoop 8 (im ! 8) im"
  have vs: "length vs = 9" "map unat vs = limbs58 9 src"
    using im(2) ds by (simp_all add: vs_def enc.length_loop)
  have lt: "unat (vs ! j) < 58 ^ 5" if "j < 9" for j
    using limbs58_less [of 9 src] that vs by (metis length_map nth_map nth_mem)
  define raw1 where "raw1 = take 5 raw @ concat (map (\<lambda>j. chars5 (unat (vs ! j))) [1..<9]) @ drop 45 raw"
  define it where "it = first_nz ((!) vs) [1..<9] (9, 0)"
  have loop: "renderLoop 8 (im ! 8) im (9, 0) raw = Some (vs ! 0, it, raw1)"
    using renderLoop_eq [of 8 im raw "im ! 8" "(9, 0)"] im(2) assms(2)
    by (simp add: vs_def raw1_def it_def)
  have u0: "unat (ucast (vs ! 0) :: u32) = unat (vs ! 0)"
    using lt [of 0] by (simp add: unat_ucast_small)
  have all: "chars_of (limbs58 9 src) = concat (map (\<lambda>j. chars5 (unat (vs ! j))) [0..<9])"
  proof -
    have "map (\<lambda>j. chars5 (unat (vs ! j))) [0..<9] = map chars5 (map unat vs)"
      using vs(1) by (intro nth_equalityI) simp_all
    then show ?thesis by (simp add: chars_of_alt vs(2))
  qed
  have upt: "[0..<9] = 0 # [1..<9 :: nat]" by (simp add: upt_rec)
  have win: "on_slice raw1 0 5 (extractChars5 (ucast (vs ! 0))) = Some (chars_of (limbs58 9 src) @ drop 45 raw)"
    using lt [of 0] assms(2) unfolding all upt
    by (subst on_slice_Some [where w = "chars5 (unat (vs ! 0))"])
      (simp_all add: extractChars5_eq u0 raw1_def)
  have "first_nz ((!) vs) [0..<9] (9, 0)
      = (if vs ! 0 \<noteq> 0 then (0, ucast (vs ! 0)) else it)"
    unfolding upt it_def by (simp only: first_nz_append [of _ "[0]", simplified] first_nz_single)
  moreover have "(ucast (vs ! 0) :: u32) = 0 \<longleftrightarrow> vs ! 0 = 0"
    using lt [of 0] by (intro ucast_eq_0) simp
  ultimately have iz: "(if (ucast (vs ! 0) :: u32) \<noteq> 0 then (0, ucast (vs ! 0)) else it)
      = (if leading 0 vs < 9 then (leading 0 vs, ucast (vs ! leading 0 vs)) else (9, 0))"
    using first_nz_leading [of vs "(9, 0)"] by (simp only: vs(1))
  have bv: "bval (58 ^ 5) (limbs58 9 src) = bytes_val src"
    using assms(1) by (rule limbs58_32)
  have lead: "leading 0 vs = leading 0 (limbs58 9 src)"
    using leading_map_unat [of vs] vs(2) by simp
  show ?thesis
  proof (cases "leading 0 vs < 9")
    case False
    then have "leading 0 vs = length vs" using leading_le [of 0 vs] vs(1) by simp
    then have "set (limbs58 9 src) \<subseteq> {0}"
      using leading_eq_length [of 0 "limbs58 9 src"] lead vs(1) by (metis length_fixed set_replicate_conv_if subset_refl empty_subsetI)
    then have z: "bytes_val src = 0" using bv bval_zeros by metis
    then show ?thesis
      using False iz loop win im by (simp add: encode32Render_def encode32Render_on_def length_b58_encode Let_def)
  next
    case True
    let ?iz = "leading 0 vs"
    have dc: "digitCount5 (ucast (vs ! ?iz)) = length (to_digits 58 (unat (vs ! ?iz)))"
      using lt [OF True] by (subst digitCount5_eq) (simp_all add: unat_ucast_small)
    have "length (b58_digits (bytes_val src)) = length (to_digits 58 (limbs58 9 src ! ?iz)) + 5 * (9 - 1 - ?iz)"
      using length_digits_limbs [OF limbs58_less [of 9 src] lead] True bv by simp
    moreover have "limbs58 9 src ! ?iz = unat (vs ! ?iz)"
      using True vs by (metis nth_map)
    ultimately have len: "length (b58_encode src) = leading 0 src + digitCount5 (ucast (vs ! ?iz)) + 5 * (8 - ?iz)"
      using True vs(1) by (simp add: length_b58_encode dc)
    have "bytes_val src \<noteq> 0"
    proof
      assume "bytes_val src = 0"
      with bv have "bval (58 ^ 5) (limbs58 9 src) = 0" by (rule trans)
      then have zeros: "set (limbs58 9 src) \<subseteq> {0}" by (subst (asm) bval_eq_0_iff) simp_all
      have less: "leading 0 (limbs58 9 src) < length (limbs58 9 src)"
        using True by (simp only: lead length_fixed)
      then have "limbs58 9 src ! leading 0 (limbs58 9 src) \<in> {0}"
        by (intro subsetD [OF zeros] nth_mem)
      with leading_stop [OF less] show False by (simp only: singleton_iff)
    qed
    moreover have "encode32Render src raw =
      do { let outLen = leading 0 src + digitCount5 (ucast (vs ! ?iz)) + 5 * (8 - ?iz);
           skip \<leftarrow> isub 45 outLen;
           Some (chars_of (limbs58 9 src) @ drop 45 raw, outLen, skip) }"
      using True iz loop win im(1) by (simp add: encode32Render_def encode32Render_on_def Let_def)
    ultimately show ?thesis
      using b58_encode_length32 [OF assms(1)] unfolding len [symmetric] by (simp add: Let_def)
  qed
qed


lemma foldM_fill:
  "k \<le> length out \<Longrightarrow> foldM (\<lambda>i out. upd out i c) [0..<k] out = Some (replicate k c @ drop k out)"
proof (induction k)
  case (Suc k)
  then have "drop k out = out ! k # drop (Suc k) out" by (simp add: Cons_nth_drop_Suc)
  with Suc show ?case by (simp add: list_update_append replicate_append_same)
qed simp

lemma place32_eq:
  assumes "length src = 32" "length raw = 48" "length out = length (b58_encode src)"
  shows "place32 (chars_of (limbs58 9 src) @ drop 45 raw)
      (if bytes_val src = 0 then 45 else 45 - length (b58_encode src)) (length (b58_encode src)) out
    = Some (b58_encode src)"
proof (cases "bytes_val src = 0")
  case True
  then have "b58_encode src = replicate (leading 0 src) 49"
    by (simp add: b58_encode_def)
  with True assms(3) show ?thesis
    by (simp add: place32_def go_copy_def foldM_fill)
next
  case False
  have le: "length (b58_encode src) \<le> 44" using assms(1) by (rule b58_encode_length32)
  have "drop (45 - length (b58_encode src)) (chars_of (limbs58 9 src)) = b58_encode src"
    using drop_chars_of [OF limbs58_less limbs58_32, of src] assms(1) le by simp
  with False le assms(3) show ?thesis
    by (simp add: place32_def go_copy_def drop_append)
qed

lemma Encode32_eq: "length src = 32 \<Longrightarrow> Encode32 src = Some (b58_encode src)"
  using place32_eq [of src "replicate 48 0" "replicate (length (b58_encode src)) 0"]
  by (simp add: Encode32_def Encode32_on_def encode32Fast_def encode32Render_eq flip: encode32Render_def)

lemma appendEncode32GenericCapacity_eq:
  assumes "length src = 32" "wf_slice dst"
  shows "\<exists>s. appendEncode32GenericCapacity dst src m = Some s \<and> appended dst (b58_encode src) s"
proof -
  let ?out = "b58_encode src"
  have "\<exists>s. do { d \<leftarrow> grow_to dst (len dst + length ?out) (len dst + max (length ?out) m);
      slice_write d (len dst + length ?out - length ?out) (len dst + length ?out)
        (place32 (chars_of (limbs58 9 src) @ replicate 3 0)
           (if bytes_val src = 0 then 45 else 45 - length ?out) (length ?out)) } = Some s \<and> appended dst ?out s"
    using place32_eq [OF assms(1), of "replicate 48 0"] assms
    by (intro grow_write_appended) simp_all
  then show ?thesis
    using assms(1) by (simp add: appendEncode32GenericCapacity_def appendEncode32GenericCapacity_on_def encode32Render_eq Let_def flip: encode32Render_def)
qed

text \<open>Only the product matters of what the build supplies.\<close>

lemma encode32_on_eq:
  assumes "mm src (replicate 9 0) = encodeMatMul32 src (replicate 9 0)"
  shows "Encode32_on None mm src = Encode32 src"
    and "appendEncode32GenericCapacity_on mm dst src m = appendEncode32GenericCapacity dst src m"
  using assms by (simp_all add: Encode32_def Encode32_on_def encode32Fast_def encode32Render_on_def
      appendEncode32GenericCapacity_def appendEncode32GenericCapacity_on_def)

lemma AppendEncode32_eq:
  assumes "length src = 32" "wf_slice dst"
  shows "\<exists>s. AppendEncode32 dst src = Some s \<and> appended dst (b58_encode src) s"
  using appendEncode32GenericCapacity_eq [OF assms] by (simp add: AppendEncode32_def appendEncode32Generic_def)

text \<open>
  What the raw encoders rely on: \<open>ex\<close> renders \<open>n\<close> limbs into the slot at the front of an array of
  \<open>m\<close> bytes and leaves the rest of it.
\<close>

definition extracts :: "nat \<Rightarrow> nat \<Rightarrow> (u64 list \<Rightarrow> bytes \<Rightarrow> bytes option) \<Rightarrow> bool" where
  "extracts n m ex \<longleftrightarrow> (\<forall>v raw. length v = n \<and> (\<forall>x \<in> set v. unat x < 58 ^ 5) \<and> length raw = m \<longrightarrow>
     ex v raw = Some (chars_of (map unat v) @ drop (5 * n) raw))"

lemma slot_facts:
  assumes "length src = nb" "256 ^ nb \<le> (58 ^ 5 :: nat) ^ nl" "length (b58_encode src) \<le> 5 * nl"
  shows "drop (5 * nl - length (b58_encode src)) (chars_of (limbs58 nl src)) = b58_encode src"
    and "int (leading 49 (chars_of (limbs58 nl src))) - int (leading 0 src) = int (5 * nl) - int (length (b58_encode src))"
  using drop_chars_of [OF limbs58_less bval_limbs58 [OF assms(1,2)]] assms(3)
    leading_slot(2) [OF bval_limbs58 [OF assms(1,2)]] by simp_all

lemma slot_rendered:
  assumes "encode_kernel mm nb nl" "extracts nl m ex" "length src = nb" "length raw = m"
  obtains im where "mm src (replicate nl 0) = Some im"
    "ex (carryLoop (nl - 1) (im ! (nl - 1)) im) raw = Some (chars_of (limbs58 nl src) @ drop (5 * nl) raw)"
proof -
  obtain im where im: "mm src (replicate nl 0) = Some im" "length im = nl"
    "map unat (carryLoop (nl - 1) (im ! (nl - 1)) im) = limbs58 nl src"
    using encode_kernel.carried [OF assms(1,3)] .
  let ?vs = "carryLoop (nl - 1) (im ! (nl - 1)) im"
  have "length ?vs = nl" "\<forall>v \<in> set ?vs. unat v < 58 ^ 5"
    using im(2) limbs58_less [of nl src] unfolding im(3) [symmetric] by (simp_all add: enc.length_loop)
  then have "ex ?vs raw = Some (chars_of (limbs58 nl src) @ drop (5 * nl) raw)"
    using assms(2,4) unfolding extracts_def im(3) [symmetric] by blast
  then show ?thesis using that im(1) by blast
qed

lemma encodeRaw32_on_eq:
  assumes "encode_kernel mm 32 9" "extracts 9 48 ex" "length src = 32" "length raw = 48"
  shows "encodeRaw32_on mm ex src raw = Some (chars_of (limbs58 9 src) @ drop 45 raw,
    45 - int (length (b58_encode src)))"
proof -
  obtain im where "mm src (replicate 9 0) = Some im"
    "ex (carryLoop 8 (im ! 8) im) raw = Some (chars_of (limbs58 9 src) @ drop 45 raw)"
    using slot_rendered [OF assms] by auto
  moreover have "int (leading 49 (chars_of (limbs58 9 src))) - int (leading 0 src) = 45 - int (length (b58_encode src))"
    using slot_facts(2) [OF assms(3), of 9] b58_encode_length32 [OF assms(3)] by simp
  ultimately show ?thesis by (simp add: encodeRaw32_on_def Let_def)
qed

lemma extracts32: "extracts 9 48 extractChars32"
  unfolding extracts_def
proof (intro allI impI, elim conjE)
  fix v :: "u64 list" and raw :: bytes
  assume v: "length v = 9" "\<forall>x \<in> set v. unat x < 58 ^ 5" and raw: "length raw = 48"
  have upt: "[0, 1, 2, 3, 4, 5, 6, 7, 8] = [0..<length v]" unfolding v(1) by (simp add: upt_rec)
  show "extractChars32 v raw = Some (chars_of (map unat v) @ drop (5 * 9) raw)"
    unfolding extractChars32_def extractChars32Generic_def upt
    using foldM_extract_all [OF v(2), of raw] v(1) raw by simp
qed

section \<open>The 64-byte path is correct\<close>

lemma limbs_zero:
  assumes "bval (58 ^ 5) ds = bytes_val src"
  shows "leading 0 ds = length ds \<longleftrightarrow> bytes_val src = 0"
proof -
  have "leading 0 ds = length ds \<longleftrightarrow> set ds \<subseteq> {0}"
    using leading_le [of 0] by (induction ds) (auto simp: le_Suc_eq)
  also have "\<dots> \<longleftrightarrow> bval (58 ^ 5) ds = 0"
    by (rule bval_eq_0_iff [symmetric]) simp
  finally show ?thesis unfolding assms .
qed

text \<open>The digits of the value, split at the first non-zero limb.\<close>

lemma b58_digits_limbs:
  assumes "\<forall>d \<in> set ds. d < 58 ^ 5" "iz = leading 0 ds" "iz < length ds"
  shows "b58_digits (bval (58 ^ 5) ds)
    = drop (5 - length (to_digits 58 (ds ! iz))) (chars5 (ds ! iz)) @ chars_of (drop (Suc iz) ds)"
proof -
  let ?dc = "length (to_digits 58 (ds ! iz))" and ?D = "b58_digits (bval (58 ^ 5) ds)"
  have ds: "ds = replicate iz 0 @ ds ! iz # drop (Suc iz) ds"
    using assms(2,3) by (metis id_take_nth_drop take_leading)
  have dc: "?dc \<le> 5"
    using assms(1,3) by (intro to_digits_length_le) simp_all
  have len: "length ?D = ?dc + 5 * (length ds - 1 - iz)"
    using assms by (rule length_digits_limbs)
  have split: "chars_of ds = replicate (5 * length ds - length ?D) 49 @ ?D"
    using assms(1) by (rule chars_of_split)
  then have "?D = drop (5 * length ds - length ?D) (chars_of ds)"
    by (metis append_eq_conv_conj length_replicate)
  also have "5 * length ds - length ?D = 5 * iz + (5 - ?dc)"
    using len dc assms(3) by linarith
  also have "drop (5 * iz + (5 - ?dc)) (chars_of ds)
      = drop (5 - ?dc) (chars5 (ds ! iz) @ chars_of (drop (Suc iz) ds))"
    by (subst ds) (simp add: chars_of_append chars_of_Cons)
  finally show ?thesis by (simp add: drop_append)
qed

lemma encode64Parts_eq:
  assumes "length src = 64"
  obtains vs where "length vs = 18" "map unat vs = limbs58 18 src"
    "encode64Parts src (replicate 18 0) = Some (vs, length (b58_encode src), leading 0 vs,
       if leading 0 vs = 18 then 0 else length (to_digits 58 (unat (vs ! leading 0 vs))), leading 0 src)"
proof -
  obtain im where im: "encodeMatMul64 src (replicate 18 0) = Some im" "length im = 18"
    and ds: "map unat (carryLoop 17 (im ! 17) im) = limbs58 18 src"
    using enc64.carried [OF assms] by auto
  define vs where "vs = carryLoop 17 (im ! 17) im"
  have vs: "length vs = 18" "map unat vs = limbs58 18 src"
    using im(2) ds by (simp_all add: vs_def enc.length_loop)
  have bv: "bval (58 ^ 5) (limbs58 18 src) = bytes_val src"
    using assms by (rule limbs58_64)
  let ?iz = "leading 0 vs"
  have lead: "?iz = leading 0 (limbs58 18 src)"
    using leading_map_unat [of vs] vs(2) by simp
  have iz18: "?iz = 18 \<longleftrightarrow> bytes_val src = 0"
    using limbs_zero [OF bv] unfolding lead length_fixed .
  have "encode64Parts src (replicate 18 0) = Some (vs, length (b58_encode src), ?iz,
       if ?iz = 18 then 0 else length (to_digits 58 (unat (vs ! ?iz))), leading 0 src)"
  proof (cases "?iz = 18")
    case True
    then show ?thesis
      using im(1) iz18 by (simp add: encode64Parts_def encode64Parts_on_def vs_def [symmetric] length_b58_encode Let_def)
  next
    case False
    then have lt: "?iz < 18" using leading_le [of 0 vs] vs(1) by simp
    have nth: "limbs58 18 src ! ?iz = unat (vs ! ?iz)"
      using lt vs by (metis nth_map)
    then have "unat (vs ! ?iz) < 58 ^ 5"
      using limbs58_less [of 18 src] lt nth_mem [of ?iz "limbs58 18 src"] by (simp only: length_fixed)
    then have dc: "digitCount5 (ucast (vs ! ?iz)) = length (to_digits 58 (unat (vs ! ?iz)))"
      by (subst digitCount5_eq) (simp_all add: unat_ucast_small)
    have "length (b58_digits (bytes_val src)) = length (to_digits 58 (unat (vs ! ?iz))) + 5 * (18 - 1 - ?iz)"
      using length_digits_limbs [OF limbs58_less [of 18 src] lead] lt unfolding bv nth length_fixed .
    then show ?thesis
      using False im(1)
      by (simp add: encode64Parts_def encode64Parts_on_def vs_def [symmetric] length_b58_encode Let_def dc)
  qed
  with vs show ?thesis by (rule that)
qed

text \<open>The character loop writes one block of five after another.\<close>

lemma foldM_blocks:
  assumes "\<forall>i \<in> set js. unat (vs ! i) < 58 ^ 5" "pos + 5 * length js \<le> length out"
  shows "foldM (\<lambda>i (pos, out).
        do { out \<leftarrow> on_slice out pos (pos + 5) (extractChars5 (ucast ((vs :: u64 list) ! i)));
             Some (pos + 5, out) }) js (pos, out)
    = Some (pos + 5 * length js,
        take pos out @ concat (map (\<lambda>i. chars5 (unat (vs ! i))) js) @ drop (pos + 5 * length js) out)"
  using assms
proof (induction js arbitrary: pos out)
  case (Cons i js)
  let ?c = "chars5 (unat (vs ! i))"
  have u: "unat (ucast (vs ! i) :: u32) = unat (vs ! i)"
    using Cons.prems(1) by (simp add: unat_ucast_small)
  have "on_slice out pos (pos + 5) (extractChars5 (ucast (vs ! i)))
      = Some (take pos out @ ?c @ drop (pos + 5) out)"
    using Cons.prems u by (subst on_slice_Some [where w = ?c]) (simp_all add: extractChars5_eq)
  then show ?case
    using Cons.IH [of "pos + 5" "take pos out @ ?c @ drop (pos + 5) out"] Cons.prems
    by (simp add: ac_simps)
qed simp

lemma map_nth_drop: "map (\<lambda>i. f (xs ! i)) [k..<length xs] = map f (drop k xs)"
  by (intro nth_equalityI) simp_all

lemma encode64Write_eq:
  assumes "length src = 64" "length vs = 18" "map unat vs = limbs58 18 src"
    "length out = length (b58_encode src)"
  shows "encode64Write vs (leading 0 vs)
      (if leading 0 vs = 18 then 0 else length (to_digits 58 (unat (vs ! leading 0 vs))))
      (leading 0 src) out = Some (b58_encode src)"
proof -
  let ?iz = "leading 0 vs" and ?z = "leading 0 src"
  have bv: "bval (58 ^ 5) (limbs58 18 src) = bytes_val src"
    using assms(1) by (rule limbs58_64)
  have lead: "?iz = leading 0 (limbs58 18 src)"
    using leading_map_unat [of vs] assms(3) by simp
  have iz18: "?iz = 18 \<longleftrightarrow> bytes_val src = 0"
    using limbs_zero [OF bv] unfolding lead length_fixed .
  have fill: "foldM (\<lambda>k out. upd out k 49) [0..<?z] out = Some (replicate ?z 49 @ drop ?z out)"
    using assms(4) by (intro foldM_fill) (simp add: length_b58_encode)
  show ?thesis
  proof (cases "?iz = 18")
    case True
    then show ?thesis
      using fill iz18 assms(4)
      by (simp add: encode64Write_def encode64WriteGeneric_def length_b58_encode b58_encode_def)
  next
    case False
    then have lt: "?iz < 18" using leading_le [of 0 vs] assms(2) by simp
    let ?d = "unat (vs ! ?iz)" and ?rest = "drop (Suc ?iz) (limbs58 18 src)"
    let ?dc = "length (to_digits 58 ?d)"
    have nth: "limbs58 18 src ! ?iz = ?d"
      using lt assms(2,3) by (metis nth_map)
    have all: "\<forall>v \<in> set vs. unat v < 58 ^ 5"
      using limbs58_less [of 18 src] unfolding assms(3) [symmetric] by simp
    then have d: "?d < 58 ^ 5" using lt assms(2) by simp
    then have u: "unat (ucast (vs ! ?iz) :: u32) = ?d" by (simp add: unat_ucast_small)
    have dc: "?dc \<le> 5" using d by (intro to_digits_length_le) simp_all
    have digits: "b58_digits (bytes_val src) = drop (5 - ?dc) (chars5 ?d) @ chars_of ?rest"
      using b58_digits_limbs [OF limbs58_less [of 18 src] lead] lt unfolding bv nth length_fixed .
    have len: "length out = ?z + ?dc + 5 * (17 - ?iz)"
      using assms(4) dc by (simp add: length_b58_encode digits)
    let ?w = "drop (5 - ?dc) (chars5 ?d)"
    let ?o1 = "replicate ?z 49 @ ?w @ drop (?z + ?dc) out"
    have js: "\<forall>i \<in> set [?iz + 1..<18]. unat (vs ! i) < 58 ^ 5"
      using all assms(2) by simp
    have rest: "concat (map (\<lambda>i. chars5 (unat (vs ! i))) [Suc ?iz..<18]) = chars_of ?rest"
    proof -
      have "?rest = map unat (drop (Suc ?iz) vs)"
        by (simp only: assms(3) [symmetric] drop_map)
      then show ?thesis
        using map_nth_drop [of "\<lambda>v. chars5 (unat v)" vs "Suc ?iz"] unfolding assms(2)
        by (simp only: chars_of_alt map_map comp_def)
    qed
    have "subslice (chars5 ?d) (5 - ?dc) 5 = Some ?w"
      using dc by simp
    moreover have "on_slice (replicate ?z 49 @ drop ?z out) ?z (?z + (length out - ?z)) (\<lambda>o'. Some (go_copy o' ?w)) = Some ?o1"
      using len dc by (simp add: on_slice_def go_copy_def add.commute)
    moreover have "foldM (\<lambda>i (pos, out).
        do { out \<leftarrow> on_slice out pos (pos + 5) (extractChars5 (ucast (vs ! i)));
             Some (pos + 5, out) }) [?iz + 1..<18] (?z + ?dc, ?o1)
      = Some (?z + ?dc + 5 * (17 - ?iz), replicate ?z 49 @ ?w @ chars_of ?rest)"
    proof -
      have n: "length [?iz + 1..<18] = 17 - ?iz" by simp
      have o1: "length ?o1 = length out" "take (?z + ?dc) ?o1 = replicate ?z 49 @ ?w"
        "drop (?z + ?dc + 5 * (17 - ?iz)) ?o1 = []"
        using len dc by simp_all
      show ?thesis
        using foldM_blocks [OF js, of "?z + ?dc" ?o1] unfolding n o1 rest [unfolded Suc_eq_plus1] len
        by (simp only: le_refl append_assoc append_Nil2 simp_thms True_implies_equals Suc_eq_plus1)
    qed
    ultimately show ?thesis
      using fill False d dc u
      by (simp add: encode64Write_def encode64WriteGeneric_def extractChars5_eq b58_encode_def digits
          del: foldM.simps)
  qed
qed

text \<open>What the shared code needs of a build's write function.\<close>

definition writes64 :: "bytes \<Rightarrow> (u64 list \<Rightarrow> nat \<Rightarrow> nat \<Rightarrow> nat \<Rightarrow> bytes \<Rightarrow> bytes option) \<Rightarrow> bool" where
  "writes64 src write \<longleftrightarrow> (\<forall>vs out. length vs = 18 \<and> map unat vs = limbs58 18 src \<and> length out = length (b58_encode src) \<longrightarrow>
     write vs (leading 0 vs) (if leading 0 vs = 18 then 0 else length (to_digits 58 (unat (vs ! leading 0 vs)))) (leading 0 src) out =
       Some (b58_encode src))"

lemma encode64Parts_on_eq:
  assumes "length src = 64" "mm src (replicate 18 0) = encodeMatMul64 src (replicate 18 0)"
  shows "\<exists>vs. length vs = 18 \<and> map unat vs = limbs58 18 src \<and>
    encode64Parts_on mm src (replicate 18 0) = Some (vs, length (b58_encode src), leading 0 vs,
       if leading 0 vs = 18 then 0 else length (to_digits 58 (unat (vs ! leading 0 vs))), leading 0 src)"
  using encode64Parts_eq [OF assms(1)] unfolding encode64Parts_def encode64Parts_on_def assms(2) by blast

lemma encode64Generic_on_eq:
  assumes "length src = 64" "mm src (replicate 18 0) = encodeMatMul64 src (replicate 18 0)" "writes64 src write"
  shows "encode64Generic_on mm write src = Some (b58_encode src)"
proof -
  obtain vs where vs: "length vs = 18" "map unat vs = limbs58 18 src"
    and parts: "encode64Parts_on mm src (replicate 18 0) = Some (vs, length (b58_encode src), leading 0 vs,
       if leading 0 vs = 18 then 0 else length (to_digits 58 (unat (vs ! leading 0 vs))), leading 0 src)"
    using encode64Parts_on_eq [of src mm, OF assms(1,2)] by blast
  have "length (replicate (length (b58_encode src)) 0) = length (b58_encode src)" by simp
  then show ?thesis
    using assms(3) vs unfolding writes64_def by (simp add: encode64Generic_on_def parts del: if_split)
qed

lemma AppendEncode64_on_eq:
  assumes "length src = 64" "mm src (replicate 18 0) = encodeMatMul64 src (replicate 18 0)" "writes64 src write" "wf_slice dst"
  shows "\<exists>s. AppendEncode64_on None mm write dst src = Some s \<and> appended dst (b58_encode src) s"
proof -
  obtain vs where vs: "length vs = 18" "map unat vs = limbs58 18 src"
    and parts: "encode64Parts_on mm src (replicate 18 0) = Some (vs, length (b58_encode src), leading 0 vs,
       if leading 0 vs = 18 then 0 else length (to_digits 58 (unat (vs ! leading 0 vs))), leading 0 src)"
    using encode64Parts_on_eq [of src mm, OF assms(1,2)] by blast
  let ?out = "b58_encode src"
  let ?f = "write vs (leading 0 vs)
    (if leading 0 vs = 18 then 0 else length (to_digits 58 (unat (vs ! leading 0 vs)))) (leading 0 src)"
  have f: "?f w = Some ?out" if "length w = length ?out" for w using assms(3) vs that unfolding writes64_def by blast
  have "\<exists>s. do { d \<leftarrow> grow_to dst (len dst + length ?out) (len dst + length ?out);
      slice_write d (len dst + length ?out - length ?out) (len dst + length ?out) ?f } = Some s \<and>
      appended dst ?out s"
    using assms(4) f by (intro grow_write_appended) simp_all
  then show ?thesis
    by (simp add: AppendEncode64_on_def parts Let_def del: if_split)
qed

lemma encode64Write_writes64: "length src = 64 \<Longrightarrow> writes64 src encode64Write"
  using encode64Write_eq unfolding writes64_def by blast

lemma Encode64_eq: "length src = 64 \<Longrightarrow> Encode64 src = Some (b58_encode src)"
  using encode64Generic_on_eq [where mm = encodeMatMul64, OF _ refl encode64Write_writes64] by (simp add: Encode64_def encode64Generic_def)

lemma AppendEncode64_eq:
  assumes "length src = 64" "wf_slice dst"
  shows "\<exists>s. AppendEncode64 dst src = Some s \<and> appended dst (b58_encode src) s"
  using AppendEncode64_on_eq [where mm = encodeMatMul64, OF assms(1) refl encode64Write_writes64 assms(2)] assms(1)
  by (simp add: AppendEncode64_def appendEncode64Fast_def)

lemma encodeRaw64_on_eq:
  assumes "encode_kernel mm 64 18" "extracts 18 90 ex" "length src = 64" "length raw = 90"
  shows "encodeRaw64_on mm ex src raw = Some (chars_of (limbs58 18 src), 90 - int (length (b58_encode src)))"
proof -
  obtain im where "mm src (replicate 18 0) = Some im"
    "ex (carryLoop 17 (im ! 17) im) raw = Some (chars_of (limbs58 18 src) @ drop 90 raw)"
    using slot_rendered [OF assms] by auto
  moreover have "int (leading 49 (chars_of (limbs58 18 src))) - int (leading 0 src) = 90 - int (length (b58_encode src))"
    using slot_facts(2) [OF assms(3), of 18] b58_encode_length64 [OF assms(3)] by simp
  ultimately show ?thesis using assms(4) by (simp add: encodeRaw64_on_def Let_def)
qed

lemma extracts64: "extracts 18 90 extractChars64"
  unfolding extracts_def
proof (intro allI impI, elim conjE)
  fix v :: "u64 list" and raw :: bytes
  assume v: "length v = 18" "\<forall>x \<in> set v. unat x < 58 ^ 5" and raw: "length raw = 90"
  show "extractChars64 v raw = Some (chars_of (map unat v) @ drop (5 * 18) raw)"
    using foldM_extract_all [OF v(2), of raw] v(1) raw by (simp add: extractChars64_def extractChars64Generic_def)
qed

end
