(* ===== verification/Batch.thy ===== *)
theory Batch
  imports Encode_Fixed
begin

text \<open>
  The batch encoders (\<open>batch.go\<close>): keys are encoded four at a time into consecutive slots of
  one backing array, and the returned strings are views of that array. The model keeps the
  views as windows of the array and reads them when the batch is complete, so that the theorem
  also says that no later write of the batch disturbs a string already handed out.
\<close>

section \<open>Four carry chains in one loop\<close>

text \<open>
  \<open>ia\<close>, \<open>ib\<close>, \<open>ic\<close>, \<open>idd\<close> are the four disjoint windows of the source's array \<open>flat\<close>.
\<close>

fun carryLoop4 :: "nat \<Rightarrow> u64 \<times> u64 \<times> u64 \<times> u64 \<Rightarrow> u64 list \<times> u64 list \<times> u64 list \<times> u64 list \<Rightarrow>
    u64 list \<times> u64 list \<times> u64 list \<times> u64 list" where
  "carryLoop4 0 (va, vb, vc, vd) (ia, ib, ic, idd) = (ia[0 := va], ib[0 := vb], ic[0 := vc], idd[0 := vd])"
| "carryLoop4 (Suc i) (va, vb, vc, vd) (ia, ib, ic, idd) =
     (let qa = va div r1div;
          ia = ia[Suc i := va - qa * r1div];
          va = ia ! i + qa;
          qb = vb div r1div;
          ib = ib[Suc i := vb - qb * r1div];
          vb = ib ! i + qb;
          qc = vc div r1div;
          ic = ic[Suc i := vc - qc * r1div];
          vc = ic ! i + qc;
          qd = vd div r1div;
          idd = idd[Suc i := vd - qd * r1div];
          vd = idd ! i + qd
      in carryLoop4 i (va, vb, vc, vd) (ia, ib, ic, idd))"

definition encodeRaw32x4_on :: "(bytes \<Rightarrow> u64 list \<Rightarrow> u64 list option) \<Rightarrow>
    (u64 list \<Rightarrow> bytes \<Rightarrow> bytes option) \<Rightarrow> bytes list \<Rightarrow> bytes \<Rightarrow> bytes option" where
  "encodeRaw32x4_on mm flat srcs raws =
     do { ia \<leftarrow> mm (srcs ! 0) (replicate intermediateSz32 0);
          ib \<leftarrow> mm (srcs ! 1) (replicate intermediateSz32 0);
          ic \<leftarrow> mm (srcs ! 2) (replicate intermediateSz32 0);
          idd \<leftarrow> mm (srcs ! 3) (replicate intermediateSz32 0);
          let (ia, ib, ic, idd) = carryLoop4 (intermediateSz32 - 1)
            (ia ! (intermediateSz32 - 1), ib ! (intermediateSz32 - 1),
             ic ! (intermediateSz32 - 1), idd ! (intermediateSz32 - 1)) (ia, ib, ic, idd);
          flat (ia @ ib @ ic @ idd) raws }"

definition encodeRaw32x4 :: "bytes list \<Rightarrow> bytes \<Rightarrow> bytes option" where
  "encodeRaw32x4 srcs raws = encodeRaw32x4_on encodeMatMul32 extractCharsFlat36 srcs raws"

definition encodeRaw64x4_on :: "(bytes \<Rightarrow> u64 list \<Rightarrow> u64 list option) \<Rightarrow>
    (u64 list \<Rightarrow> bytes \<Rightarrow> bytes option) \<Rightarrow> bytes list \<Rightarrow> bytes \<Rightarrow> bytes option" where
  "encodeRaw64x4_on mm flat srcs raws =
     do { ia \<leftarrow> mm (srcs ! 0) (replicate intermediateSz64 0);
          ib \<leftarrow> mm (srcs ! 1) (replicate intermediateSz64 0);
          ic \<leftarrow> mm (srcs ! 2) (replicate intermediateSz64 0);
          idd \<leftarrow> mm (srcs ! 3) (replicate intermediateSz64 0);
          let (ia, ib, ic, idd) = carryLoop4 (intermediateSz64 - 1)
            (ia ! (intermediateSz64 - 1), ib ! (intermediateSz64 - 1),
             ic ! (intermediateSz64 - 1), idd ! (intermediateSz64 - 1)) (ia, ib, ic, idd);
          flat (ia @ ib @ ic @ idd) raws }"

definition encodeRaw64x4 :: "bytes list \<Rightarrow> bytes \<Rightarrow> bytes option" where
  "encodeRaw64x4 srcs raws = encodeRaw64x4_on encodeMatMul64 extractCharsFlat72 srcs raws"

definition rawSkip32 :: "bytes \<Rightarrow> bytes \<Rightarrow> int" where
  "rawSkip32 src raw =
     (let inLeading0s = leading 0 src; rawLeading0s = leading (byte CHR ''1'') raw
      in int rawLeading0s - int inLeading0s)"

definition rawSkip64 :: "bytes \<Rightarrow> bytes \<Rightarrow> int" where
  "rawSkip64 src raw =
     (let inLeading0s = leading 0 src; rawLeading0s = leading (byte CHR ''1'') raw
      in int rawLeading0s - int inLeading0s)"

section \<open>The batches\<close>

text \<open>
  The loop over groups of four. The state is the backing array and the windows of the strings
  in \<open>out\<close>; \<open>sz\<close> is the slot size.
\<close>

definition batchGroups :: "(bytes list \<Rightarrow> bytes \<Rightarrow> bytes option) \<Rightarrow> (bytes \<Rightarrow> bytes \<Rightarrow> int) \<Rightarrow> nat \<Rightarrow>
    bytes list \<Rightarrow> nat list \<Rightarrow> bytes \<times> (nat \<times> nat) list \<Rightarrow> (bytes \<times> (nat \<times> nat) list) option" where
  "batchGroups raw4 rawSkip sz srcs =
     foldM (\<lambda>i (backing, out).
       do { g \<leftarrow> subslice srcs i (i + 4);
            backing \<leftarrow> on_slice backing (i * sz) (length backing) (raw4 g);
            out \<leftarrow> foldM (\<lambda>j out.
              do { slot \<leftarrow> subslice backing ((i + j) * sz) ((i + j + 1) * sz);
                   src \<leftarrow> idx srcs (i + j);
                   skip \<leftarrow> bound (rawSkip src slot);
                   _ \<leftarrow> subslice slot skip sz;
                   upd out (i + j) ((i + j) * sz + skip, (i + j + 1) * sz) })
              [0, 1, 2, 3] out;
            Some (backing, out) })"

text \<open>The loop over the remaining keys; \<open>buf\<close> is the size of the array the slot is cast to.\<close>

definition batchRest :: "(bytes \<Rightarrow> bytes \<Rightarrow> (bytes \<times> int) option) \<Rightarrow> nat \<Rightarrow> nat \<Rightarrow>
    bytes list \<Rightarrow> nat list \<Rightarrow> bytes \<times> (nat \<times> nat) list \<Rightarrow> (bytes \<times> (nat \<times> nat) list) option" where
  "batchRest raw1 sz bufsz srcs =
     foldM (\<lambda>i (backing, out).
       do { w \<leftarrow> subslice backing (i * sz) (i * sz + bufsz);
            src \<leftarrow> idx srcs i;
            (w, skip) \<leftarrow> raw1 src w;
            let backing = take (i * sz) backing @ w @ drop (i * sz + bufsz) backing;
            lo \<leftarrow> bound (int (i * sz) + skip);
            _ \<leftarrow> subslice backing lo ((i + 1) * sz);
            out \<leftarrow> upd out i (lo, (i + 1) * sz);
            Some (backing, out) })"

text \<open>The strings, read from the finished array.\<close>

definition readViews :: "bytes \<Rightarrow> (nat \<times> nat) list \<Rightarrow> bytes list option" where
  "readViews backing out = those (map (\<lambda>(lo, hi). subslice backing lo hi) out)"

definition Encode32Batch_on :: "(bytes \<Rightarrow> u64 list \<Rightarrow> u64 list option) \<Rightarrow>
    (u64 list \<Rightarrow> bytes \<Rightarrow> bytes option) \<Rightarrow> (u64 list \<Rightarrow> bytes \<Rightarrow> bytes option) \<Rightarrow> bytes list \<Rightarrow> bytes list option" where
  "Encode32Batch_on mm extract flat srcs =
     (let n = length srcs; out = replicate n (0, 0)
      in if n = 0 then Some []
         else do {
           let backing = replicate (n * raw58Sz32 + 6) 0;
           (backing, out) \<leftarrow> batchGroups (encodeRaw32x4_on mm flat) rawSkip32 raw58Sz32 srcs
             (map (\<lambda>k. 4 * k) [0..<n div 4]) (backing, out);
           (backing, out) \<leftarrow> batchRest (encodeRaw32_on mm extract) raw58Sz32 raw58Buf32 srcs
             [4 * (n div 4)..<n] (backing, out);
           readViews backing out })"

definition Encode32Batch :: "bytes list \<Rightarrow> bytes list option" where
  "Encode32Batch srcs = Encode32Batch_on encodeMatMul32 extractChars32 extractCharsFlat36 srcs"

definition Encode64Batch_on :: "(bytes \<Rightarrow> u64 list \<Rightarrow> u64 list option) \<Rightarrow>
    (u64 list \<Rightarrow> bytes \<Rightarrow> bytes option) \<Rightarrow> (u64 list \<Rightarrow> bytes \<Rightarrow> bytes option) \<Rightarrow> bytes list \<Rightarrow> bytes list option" where
  "Encode64Batch_on mm extract flat srcs =
     (let n = length srcs; out = replicate n (0, 0)
      in if n = 0 then Some []
         else do {
           let backing = replicate (n * raw58Sz64 + 6) 0;
           (backing, out) \<leftarrow> batchGroups (encodeRaw64x4_on mm flat) rawSkip64 raw58Sz64 srcs
             (map (\<lambda>k. 4 * k) [0..<n div 4]) (backing, out);
           (backing, out) \<leftarrow> batchRest (encodeRaw64_on mm extract) raw58Sz64 raw58Sz64 srcs
             [4 * (n div 4)..<n] (backing, out);
           readViews backing out })"

definition Encode64Batch :: "bytes list \<Rightarrow> bytes list option" where
  "Encode64Batch srcs = Encode64Batch_on encodeMatMul64 extractChars64 extractCharsFlat72 srcs"

section \<open>Slots\<close>

lemma carryLoop4_eq:
  assumes "i < length ia" "i < length ib" "i < length ic" "i < length idd"
  shows "carryLoop4 i (va, vb, vc, vd) (ia, ib, ic, idd)
    = (carryLoop i va ia, carryLoop i vb ib, carryLoop i vc ic, carryLoop i vd idd)"
  using assms
  by (induction i arbitrary: va vb vc vd ia ib ic idd) (simp_all add: Let_def enc.loop_Suc)

text \<open>
  What the groups rely on: \<open>fl\<close> fills the slots of \<open>n\<close> limbs with their characters. It may change six
  bytes behind them, so that the array has to have room for these.
\<close>

definition fills :: "nat \<Rightarrow> (u64 list \<Rightarrow> bytes \<Rightarrow> bytes option) \<Rightarrow> bool" where
  "fills n fl \<longleftrightarrow> (\<forall>v raws. length v = n \<and> (\<forall>x \<in> set v. unat x < 58 ^ 5) \<and> 5 * n + 6 \<le> length raws \<longrightarrow>
     (\<exists>r. fl v raws = Some r \<and> take (5 * n) r = chars_of (map unat v) \<and> length r = length raws))"

lemma flat_fills: "fills 36 extractCharsFlat36" "fills 72 extractCharsFlat72"
proof -
  have "fills n (\<lambda>v raws. foldM (\<lambda>(i, v) raws. on_slice raws (5 * i) (5 * i + 5) (extractChars5 (ucast v))) (enumerate 0 v) raws)" for n
    unfolding fills_def
  proof (intro allI impI, elim conjE)
    fix v :: "u64 list" and raws :: bytes
    assume v: "length v = n" "\<forall>x \<in> set v. unat x < 58 ^ 5" and raws: "5 * n + 6 \<le> length raws"
    show "\<exists>r. foldM (\<lambda>(i, v) raws. on_slice raws (5 * i) (5 * i + 5) (extractChars5 (ucast v))) (enumerate 0 v) raws = Some r \<and>
        take (5 * n) r = chars_of (map unat v) \<and> length r = length raws"
      using foldM_extract_all [OF v(2), of raws] v(1) raws by (simp add: foldM_extract_enumerate)
  qed
  from this [of 36] this [of 72] show "fills 36 extractCharsFlat36" "fills 72 extractCharsFlat72"
    by (simp_all only: extractCharsFlat36_def [abs_def] extractCharsFlat72_def [abs_def])
qed

lemma length4E:
  assumes "length g = 4"
  obtains a b c d where "g = [a, b, c, d]"
  using assms by (auto simp: length_Suc_conv eval_nat_numeral)

text \<open>Four interleaved chains render what four separate ones do.\<close>

lemma encode_x4:
  assumes "encode_kernel mm nb nl" "fills (4 * nl) fl" "length g = 4" "\<forall>src \<in> set g. length src = nb"
    "20 * nl + 6 \<le> length raws"
  shows "\<exists>r. do { ia \<leftarrow> mm (g ! 0) (replicate nl 0);
          ib \<leftarrow> mm (g ! 1) (replicate nl 0);
          ic \<leftarrow> mm (g ! 2) (replicate nl 0);
          idd \<leftarrow> mm (g ! 3) (replicate nl 0);
          let (ia, ib, ic, idd) = carryLoop4 (nl - 1)
            (ia ! (nl - 1), ib ! (nl - 1), ic ! (nl - 1), idd ! (nl - 1)) (ia, ib, ic, idd);
          fl (ia @ ib @ ic @ idd) raws } = Some r \<and>
    take (20 * nl) r = concat (map (\<lambda>src. chars_of (limbs58 nl src)) g) \<and> length r = length raws"
proof -
  obtain a b c d where g: "g = [a, b, c, d]" using assms(3) by (rule length4E)
  have nl: "0 < nl" using assms(1) by (rule encode_kernel.nl)
  have K: "\<exists>im. mm src (replicate nl 0) = Some im \<and> length im = nl \<and>
      map unat (carryLoop (nl - 1) (im ! (nl - 1)) im) = limbs58 nl src"
    if "src \<in> set g" for src
    using encode_kernel.carried [OF assms(1)] assms(4) that by metis
  obtain ia where a: "mm a (replicate nl 0) = Some ia" "length ia = nl"
    "map unat (carryLoop (nl - 1) (ia ! (nl - 1)) ia) = limbs58 nl a" using K [of a] g by auto
  obtain ib where b: "mm b (replicate nl 0) = Some ib" "length ib = nl"
    "map unat (carryLoop (nl - 1) (ib ! (nl - 1)) ib) = limbs58 nl b" using K [of b] g by auto
  obtain ic where c: "mm c (replicate nl 0) = Some ic" "length ic = nl"
    "map unat (carryLoop (nl - 1) (ic ! (nl - 1)) ic) = limbs58 nl c" using K [of c] g by auto
  obtain idd where d: "mm d (replicate nl 0) = Some idd" "length idd = nl"
    "map unat (carryLoop (nl - 1) (idd ! (nl - 1)) idd) = limbs58 nl d" using K [of d] g by auto
  let ?cl = "\<lambda>im. carryLoop (nl - 1) (im ! (nl - 1)) im"
  let ?flat = "?cl ia @ ?cl ib @ ?cl ic @ ?cl idd"
  have U: "map unat ?flat = limbs58 nl a @ limbs58 nl b @ limbs58 nl c @ limbs58 nl d"
    by (simp only: map_append a(3) b(3) c(3) d(3))
  have "\<forall>x \<in> set (map unat ?flat). x < 58 ^ 5"
    unfolding U using limbs58_less [of nl a] limbs58_less [of nl b] limbs58_less [of nl c] limbs58_less [of nl d]
    by (simp only: set_append ball_Un simp_thms)
  then have lt: "\<forall>v \<in> set ?flat. unat v < 58 ^ 5" by (simp only: set_map ball_simps)
  have len: "length ?flat = 4 * nl" by (simp add: enc.length_loop a b c d)
  obtain r where r: "fl ?flat raws = Some r" "take (20 * nl) r = chars_of (map unat ?flat)" "length r = length raws"
    using assms(2,5) len lt unfolding fills_def by fastforce
  then show ?thesis
    unfolding U using a b c d nl
    by (simp add: g carryLoop4_eq chars_of_append)
qed

lemma encodeRaw32x4_on_eq:
  "encode_kernel mm 32 9 \<Longrightarrow> fills 36 fl \<Longrightarrow> length g = 4 \<Longrightarrow> \<forall>src \<in> set g. length src = 32 \<Longrightarrow> 186 \<le> length raws \<Longrightarrow>
    \<exists>r. encodeRaw32x4_on mm fl g raws = Some r \<and>
      take 180 r = concat (map (\<lambda>src. chars_of (limbs58 9 src)) g) \<and> length r = length raws"
  using encode_x4 [of mm 32 9 fl g raws] unfolding encodeRaw32x4_on_def by simp

lemma encodeRaw64x4_on_eq:
  "encode_kernel mm 64 18 \<Longrightarrow> fills 72 fl \<Longrightarrow> length g = 4 \<Longrightarrow> \<forall>src \<in> set g. length src = 64 \<Longrightarrow> 366 \<le> length raws \<Longrightarrow>
    \<exists>r. encodeRaw64x4_on mm fl g raws = Some r \<and>
      take 360 r = concat (map (\<lambda>src. chars_of (limbs58 18 src)) g) \<and> length r = length raws"
  using encode_x4 [of mm 64 18 fl g raws] unfolding encodeRaw64x4_on_def by simp

section \<open>The batch loops\<close>

text \<open>
  What the batch loops rely on: \<open>raw4\<close> fills four slots and may scribble on what stands behind them,
  \<open>raw1\<close> fills one slot and nothing else, and the skip count leaves the encoding.
\<close>

locale batch_kernel =
  fixes raw4 :: "bytes list \<Rightarrow> bytes \<Rightarrow> bytes option"
    and raw1 :: "bytes \<Rightarrow> bytes \<Rightarrow> (bytes \<times> int) option"
    and rawSkip :: "bytes \<Rightarrow> bytes \<Rightarrow> int"
    and slot :: "bytes \<Rightarrow> bytes"
    and nb sz bufsz :: nat
  assumes sizes: "0 < sz" "sz \<le> bufsz" "bufsz \<le> sz + 6"
    and slot: "length src = nb \<Longrightarrow> length (slot src) = sz \<and> length (b58_encode src) \<le> sz \<and>
      drop (sz - length (b58_encode src)) (slot src) = b58_encode src"
    and raw4: "length g = 4 \<Longrightarrow> \<forall>src \<in> set g. length src = nb \<Longrightarrow> 4 * sz + 6 \<le> length w \<Longrightarrow>
      \<exists>r. raw4 g w = Some r \<and> take (4 * sz) r = concat (map slot g) \<and> length r = length w"
    and raw1: "length src = nb \<Longrightarrow> length w = bufsz \<Longrightarrow>
      raw1 src w = Some (slot src @ drop sz w, int sz - int (length (b58_encode src)))"
    and rawSkip: "length src = nb \<Longrightarrow> rawSkip src (slot src) = int sz - int (length (b58_encode src))"
begin

text \<open>The window of the string of key \<open>i\<close>, and the array after the first \<open>k\<close> keys.\<close>

definition window :: "bytes list \<Rightarrow> nat \<Rightarrow> nat \<times> nat" where
  "window srcs i = (i * sz + (sz - length (b58_encode (srcs ! i))), (i + 1) * sz)"

definition filled :: "bytes list \<Rightarrow> nat \<Rightarrow> bytes \<times> (nat \<times> nat) list \<Rightarrow> bool" where
  "filled srcs k = (\<lambda>(backing, out).
     length backing = length srcs * sz + 6 \<and> length out = length srcs \<and>
     take (k * sz) backing = concat (map slot (take k srcs)) \<and>
     (\<forall>i < k. out ! i = window srcs i))"

lemma length_slots: "\<forall>src \<in> set srcs. length src = nb \<Longrightarrow> length (concat (map slot srcs)) = length srcs * sz"
  by (induction srcs) (simp_all add: slot)

lemma rest_step:
  assumes srcs: "\<forall>src \<in> set srcs. length src = nb" and k: "k < length srcs"
    and inv: "filled srcs k (backing, out)"
  shows "\<exists>s. batchRest raw1 sz bufsz srcs [k] (backing, out) = Some s \<and> filled srcs (Suc k) s"
proof -
  let ?src = "srcs ! k" and ?w = "take bufsz (drop (k * sz) backing)"
  have lb: "length backing = length srcs * sz + 6" "length out = length srcs"
    and tk: "take (k * sz) backing = concat (map slot (take k srcs))"
    and win: "\<And>i. i < k \<Longrightarrow> out ! i = window srcs i"
    using inv by (auto simp: filled_def)
  have "Suc k * sz \<le> length srcs * sz" using k by (intro mult_le_mono1) simp
  then have fit: "k * sz + bufsz \<le> length backing" "k * sz + sz \<le> length backing"
    using sizes lb by simp_all
  have src: "length ?src = nb" using srcs k by simp
  note S = slot [OF src]
  let ?w' = "slot ?src @ drop sz ?w"
  have raw: "raw1 ?src ?w = Some (?w', int sz - int (length (b58_encode ?src)))"
    using fit src by (intro raw1) simp_all
  let ?b = "take (k * sz) backing @ ?w' @ drop (k * sz + bufsz) backing"
  have lw: "length ?w' = bufsz" using S fit sizes by simp
  define skip where "skip = int sz - int (length (b58_encode ?src))"
  have bd: "bound (skip + int k * int sz) = Some (k * sz + (sz - length (b58_encode ?src)))"
    using S by (auto simp: skip_def bound_def nat_add_distrib nat_diff_distrib' simp flip: of_nat_mult of_nat_add)
  have lb': "length ?b = length backing" using lw fit by simp
  have run: "batchRest raw1 sz bufsz srcs [k] (backing, out)
      = Some (?b, out[k := window srcs k])"
    using raw fit k lb lb' lw unfolding skip_def [symmetric]
    by (simp add: batchRest_def Let_def bd window_def add.commute)
  have "take (Suc k * sz) ?b = take (k * sz) backing @ slot ?src"
    using S fit by simp
  then have "filled srcs (Suc k) (?b, out[k := window srcs k])"
    using lb lb' tk k win by (auto simp: filled_def take_Suc_conv_app_nth less_Suc_eq)
  with run show ?thesis by blast
qed

lemma groups_step:
  assumes srcs: "\<forall>src \<in> set srcs. length src = nb" and k: "k + 4 \<le> length srcs"
    and inv: "filled srcs k (backing, out)"
  shows "\<exists>s. batchGroups raw4 rawSkip sz srcs [k] (backing, out) = Some s \<and> filled srcs (k + 4) s"
proof -
  let ?g = "take 4 (drop k srcs)"
  have lb: "length backing = length srcs * sz + 6" "length out = length srcs"
    and tk: "take (k * sz) backing = concat (map slot (take k srcs))"
    and win: "\<And>i. i < k \<Longrightarrow> out ! i = window srcs i"
    using inv by (auto simp: filled_def)
  have "(k + 4) * sz \<le> length srcs * sz" using k by (intro mult_le_mono1) simp
  then have fit: "k * sz + 4 * sz + 6 \<le> length backing"
    using lb by (simp add: add_mult_distrib)
  have g: "length ?g = 4" "\<forall>src \<in> set ?g. length src = nb"
    using k srcs by (auto dest: in_set_takeD in_set_dropD)
  have "4 * sz + 6 \<le> length (drop (k * sz) backing)" using fit by simp
  from raw4 [OF g this] obtain r where
    raw: "raw4 ?g (drop (k * sz) backing) = Some r" "take (4 * sz) r = concat (map slot ?g)"
    "length r = length (drop (k * sz) backing)" by blast
  let ?rest = "drop (4 * sz) r"
  have r: "r = concat (map slot ?g) @ ?rest" using raw(2) by (metis append_take_drop_id)
  let ?b = "take (k * sz) backing @ concat (map slot ?g) @ ?rest"
  have bk: "on_slice backing (k * sz) (length backing) (raw4 ?g) = Some ?b"
    using raw(1,3) fit unfolding r [symmetric] by (simp add: on_slice_def)
  have lb': "length ?b = length backing" using raw(3) fit unfolding r [symmetric] by simp
  have tk': "take (k + 4) srcs = take k srcs @ ?g" by (simp add: take_add)
  have tkb: "take ((k + 4) * sz) ?b = concat (map slot (take (k + 4) srcs))"
  proof -
    have "?b = concat (map slot (take (k + 4) srcs)) @ ?rest"
      unfolding tk' tk by simp
    moreover have "length (concat (map slot (take (k + 4) srcs))) = (k + 4) * sz"
      using length_slots [of "take (k + 4) srcs"] srcs k by (auto dest: in_set_takeD)
    ultimately show ?thesis by (metis append_eq_conv_conj)
  qed
  have slots: "take sz (drop ((k + j) * sz) ?b) = slot (srcs ! (k + j))" if j: "j < 4" for j
  proof -
    have g1: "?g = take j ?g @ srcs ! (k + j) # drop (Suc j) ?g"
      using j k by (subst id_take_nth_drop [of j]) simp_all
    have "length (concat (map slot (take j (drop k srcs)))) = length (take j (drop k srcs)) * sz"
      using srcs by (intro length_slots) (auto dest: in_set_takeD in_set_dropD)
    moreover have "length (take j (drop k srcs)) = j" using j k by simp
    ultimately have "length (concat (map slot (take j ?g))) = j * sz" using j by (simp add: min_absorb1)
    moreover have "length (srcs ! (k + j)) = nb" using srcs k j by simp
    moreover have "concat (map slot ?g)
        = concat (map slot (take j ?g)) @ slot (srcs ! (k + j)) @ concat (map slot (drop (Suc j) ?g))"
      by (subst g1) simp
    ultimately show ?thesis
      using fit slot [of "srcs ! (k + j)"] by (simp add: add_mult_distrib)
  qed
  let ?f = "\<lambda>j out. do { slot \<leftarrow> subslice ?b ((k + j) * sz) ((k + j + 1) * sz);
              src \<leftarrow> idx srcs (k + j);
              skip \<leftarrow> bound (rawSkip src slot);
              _ \<leftarrow> subslice slot skip sz;
              upd out (k + j) ((k + j) * sz + skip, (k + j + 1) * sz) }"
  have f: "?f j out' = Some (out'[k + j := window srcs (k + j)])"
    if j: "j < 4" and "length out' = length srcs" for j out'
  proof -
    have src: "length (srcs ! (k + j)) = nb" using srcs k j by simp
    note S = slot [OF src]
    have "(k + j + 1) * sz \<le> (k + 4) * sz" using j by (intro mult_le_mono1) simp
    also have "(k + 4) * sz \<le> length backing" using fit by (simp add: add_mult_distrib)
    finally have "(k + j + 1) * sz \<le> length ?b" unfolding lb' .
    then have "subslice ?b ((k + j) * sz) ((k + j + 1) * sz) = Some (slot (srcs ! (k + j)))"
      using slots [OF j] by (simp add: subslice_def)
    moreover have "bound (rawSkip (srcs ! (k + j)) (slot (srcs ! (k + j)))) = Some (sz - length (b58_encode (srcs ! (k + j))))"
      using S by (simp add: rawSkip [OF src] bound_def of_nat_diff)
    ultimately show ?thesis
      using S k j that(2) by (simp add: window_def)
  qed
  let ?o = "out[k := window srcs k, k + 1 := window srcs (k + 1), k + 2 := window srcs (k + 2), k + 3 := window srcs (k + 3)]"
  have inner: "foldM ?f [0, 1, 2, 3] out = Some ?o"
  proof -
    have "foldM ?f [0, 1, 2, 3] out = Some (fold (\<lambda>j out. out[k + j := window srcs (k + j)]) [0, 1, 2, 3] out)"
      using lb by (intro foldM_updates [where n = "length srcs"] f) auto
    then show ?thesis by simp
  qed
  have "subslice srcs k (k + 4) = Some ?g" using k by simp
  then have run: "batchGroups raw4 rawSkip sz srcs [k] (backing, out) = Some (?b, ?o)"
    by (simp only: batchGroups_def foldM_single prod.case Option.bind.simps bk inner)
  have "?o ! i = window srcs i" if "i < k + 4" for i
  proof -
    have "i < k \<or> i = k \<or> i = k + 1 \<or> i = k + 2 \<or> i = k + 3" using that by linarith
    then show ?thesis using win lb k by (auto simp: nth_list_update)
  qed
  then have "filled srcs (k + 4) (?b, ?o)"
    using lb lb' tkb by (simp add: filled_def)
  with run show ?thesis by blast
qed

lemma groups_run:
  assumes "\<forall>src \<in> set srcs. length src = nb" "4 * m \<le> length srcs" "filled srcs 0 s"
  shows "\<exists>s'. batchGroups raw4 rawSkip sz srcs (map (\<lambda>k. 4 * k) [0..<m]) s = Some s' \<and> filled srcs (4 * m) s'"
  using assms(2)
proof (induction m)
  case 0
  with assms(3) show ?case by (simp add: batchGroups_def)
next
  case (Suc m)
  then obtain b out where IH: "batchGroups raw4 rawSkip sz srcs (map (\<lambda>k. 4 * k) [0..<m]) s = Some (b, out)"
    "filled srcs (4 * m) (b, out)" by auto
  obtain s' where s': "batchGroups raw4 rawSkip sz srcs [4 * m] (b, out) = Some s'" "filled srcs (4 * m + 4) s'"
    using groups_step [OF assms(1) _ IH(2)] Suc.prems by auto
  have "batchGroups raw4 rawSkip sz srcs (map (\<lambda>k. 4 * k) [0..<Suc m]) s
      = Option.bind (batchGroups raw4 rawSkip sz srcs (map (\<lambda>k. 4 * k) [0..<m]) s)
          (batchGroups raw4 rawSkip sz srcs [4 * m])"
    by (simp only: upt_Suc_append le0 map_append list.map batchGroups_def foldM_append)
  then show ?case using IH s' by (simp add: add.commute)
qed

lemma rest_run:
  assumes "\<forall>src \<in> set srcs. length src = nb" "k \<le> n" "n \<le> length srcs" "filled srcs k s"
  shows "\<exists>s'. batchRest raw1 sz bufsz srcs [k..<n] s = Some s' \<and> filled srcs n s'"
  using assms(2,3)
proof (induction n rule: dec_induct)
  case base
  with assms(4) show ?case by (simp add: batchRest_def)
next
  case (step n)
  then obtain b out where IH: "batchRest raw1 sz bufsz srcs [k..<n] s = Some (b, out)"
    "filled srcs n (b, out)" by auto
  obtain s' where s': "batchRest raw1 sz bufsz srcs [n] (b, out) = Some s'" "filled srcs (Suc n) s'"
    using rest_step [OF assms(1) _ IH(2)] step by auto
  have "batchRest raw1 sz bufsz srcs [k..<Suc n] s
      = Option.bind (batchRest raw1 sz bufsz srcs [k..<n] s) (batchRest raw1 sz bufsz srcs [n])"
    using step(1) by (simp only: upt_Suc_append batchRest_def foldM_append)
  then show ?case using IH s' by simp
qed

lemma view:
  assumes "\<forall>src \<in> set srcs. length src = nb" "i < length srcs" "filled srcs (length srcs) (backing, out)"
  shows "subslice backing (fst (window srcs i)) (snd (window srcs i)) = Some (b58_encode (srcs ! i))"
proof -
  let ?src = "srcs ! i" and ?L = "length (b58_encode (srcs ! i))"
  have lb: "length backing = length srcs * sz + 6"
    and tk: "take (length srcs * sz) backing = concat (map slot srcs)"
    using assms(3) by (auto simp: filled_def)
  have src: "length ?src = nb" using assms(1,2) by simp
  note S = slot [OF src]
  have "concat (map slot srcs) = concat (map slot (take i srcs)) @ slot ?src @ concat (map slot (drop (Suc i) srcs))"
    using id_take_nth_drop [OF assms(2)] by (metis concat.simps(2) concat_append list.map(2) map_append)
  then have b: "backing = concat (map slot (take i srcs)) @ slot ?src @
      (concat (map slot (drop (Suc i) srcs)) @ drop (length srcs * sz) backing)"
    using tk append_take_drop_id [of "length srcs * sz" backing] by simp
  have li: "length (concat (map slot (take i srcs))) = i * sz"
    using length_slots [of "take i srcs"] assms(1,2) by (auto dest: in_set_takeD)
  have "(i + 1) * sz \<le> length srcs * sz" using assms(2) by (intro mult_le_mono1) simp
  then have hi: "i * sz + sz \<le> length backing" using lb by simp
  have "drop (i * sz + (sz - ?L)) backing = b58_encode ?src @
      (concat (map slot (drop (Suc i) srcs)) @ drop (length srcs * sz) backing)"
  proof -
    have skip: "drop (length xs + m) (xs @ ys @ zs) = drop m ys @ zs" if "m \<le> length ys"
      for xs ys zs :: bytes and m
      using that by simp
    show ?thesis
      by (subst b, subst li [symmetric], subst skip) (use S in simp_all)
  qed
  then show ?thesis
    using S hi by (auto simp: window_def subslice_def)
qed

lemma views:
  assumes "\<forall>src \<in> set srcs. length src = nb" "filled srcs (length srcs) (backing, out)"
  shows "readViews backing out = Some (map b58_encode srcs)"
proof -
  have out: "out = map (window srcs) [0..<length srcs]"
    using assms(2) by (intro nth_equalityI) (auto simp: filled_def)
  have "those (map (\<lambda>i. subslice backing (fst (window srcs i)) (snd (window srcs i))) [0..<length srcs])
      = Some (map (\<lambda>i. b58_encode (srcs ! i)) [0..<length srcs])"
    using view [OF assms(1) _ assms(2)] by (intro those_map_Some) simp
  moreover have "map (\<lambda>i. b58_encode (srcs ! i)) [0..<length srcs] = map b58_encode srcs"
    by (intro nth_equalityI) simp_all
  ultimately show ?thesis
    by (simp add: readViews_def out comp_def case_prod_beta)
qed

lemma batch:
  assumes "\<forall>src \<in> set srcs. length src = nb" "srcs \<noteq> []"
  shows "do { (backing, out) \<leftarrow> batchGroups raw4 rawSkip sz srcs
             (map (\<lambda>k. 4 * k) [0..<length srcs div 4]) (replicate (length srcs * sz + 6) 0, replicate (length srcs) (0, 0));
           (backing, out) \<leftarrow> batchRest raw1 sz bufsz srcs
             [4 * (length srcs div 4)..<length srcs] (backing, out);
           readViews backing out } = Some (map b58_encode srcs)"
proof -
  have m: "4 * (length srcs div 4) \<le> length srcs" by simp
  have "filled srcs 0 (replicate (length srcs * sz + 6) 0, replicate (length srcs) (0, 0))"
    by (simp add: filled_def)
  from groups_run [OF assms(1) m this] obtain s1 where
    1: "batchGroups raw4 rawSkip sz srcs (map (\<lambda>k. 4 * k) [0..<length srcs div 4])
      (replicate (length srcs * sz + 6) 0, replicate (length srcs) (0, 0)) = Some s1"
    "filled srcs (4 * (length srcs div 4)) s1" by blast
  from rest_run [OF assms(1) m order_refl 1(2)] obtain b out where
    2: "batchRest raw1 sz bufsz srcs [4 * (length srcs div 4)..<length srcs] s1 = Some (b, out)"
    "filled srcs (length srcs) (b, out)" by auto
  show ?thesis
    using 1(1) 2(1) views [OF assms(1) 2(2)] by (cases s1) simp
qed

end

text \<open>The two sizes are instances over any product and any extraction that keep their contracts.\<close>

lemma batch_kernel32:
  assumes "encode_kernel mm 32 9" "extracts 9 48 ex" "fills 36 fl"
  shows "batch_kernel (encodeRaw32x4_on mm fl) (encodeRaw32_on mm ex) rawSkip32 (\<lambda>src. chars_of (limbs58 9 src)) 32 45 48"
proof
  fix src :: bytes assume src: "length src = 32"
  have le: "length (b58_encode src) \<le> 45" using b58_encode_length32 [OF src] by simp
  note F = slot_facts [of src 32 9, OF src enc32.capacity]
  show "length (chars_of (limbs58 9 src)) = 45 \<and> length (b58_encode src) \<le> 45 \<and>
      drop (45 - length (b58_encode src)) (chars_of (limbs58 9 src)) = b58_encode src"
    using F(1) le by simp
  show "rawSkip32 src (chars_of (limbs58 9 src)) = int 45 - int (length (b58_encode src))"
    using F(2) le by (simp add: rawSkip32_def Let_def)
qed (use encodeRaw32x4_on_eq [OF assms(1,3)] in \<open>simp_all add: encodeRaw32_on_eq [OF assms(1,2)]\<close>)

lemma batch_kernel64:
  assumes "encode_kernel mm 64 18" "extracts 18 90 ex" "fills 72 fl"
  shows "batch_kernel (encodeRaw64x4_on mm fl) (encodeRaw64_on mm ex) rawSkip64 (\<lambda>src. chars_of (limbs58 18 src)) 64 90 90"
proof
  fix src :: bytes assume src: "length src = 64"
  have le: "length (b58_encode src) \<le> 90" using b58_encode_length64 [OF src] by simp
  note F = slot_facts [of src 64 18, OF src enc64.capacity]
  show "length (chars_of (limbs58 18 src)) = 90 \<and> length (b58_encode src) \<le> 90 \<and>
      drop (90 - length (b58_encode src)) (chars_of (limbs58 18 src)) = b58_encode src"
    using F(1) le by simp
  show "rawSkip64 src (chars_of (limbs58 18 src)) = int 90 - int (length (b58_encode src))"
    using F(2) le by (simp add: rawSkip64_def Let_def)
qed (use encodeRaw64x4_on_eq [OF assms(1,3)] in \<open>simp_all add: encodeRaw64_on_eq [OF assms(1,2)]\<close>)

lemma Encode32Batch_on_eq:
  assumes "encode_kernel mm 32 9" "extracts 9 48 ex" "fills 36 fl" "\<forall>src \<in> set srcs. length src = 32"
  shows "Encode32Batch_on mm ex fl srcs = Some (map b58_encode srcs)"
  using batch_kernel.batch [OF batch_kernel32 [OF assms(1-3)] assms(4)]
  by (cases "srcs = []") (simp_all add: Encode32Batch_on_def Let_def)

lemma Encode64Batch_on_eq:
  assumes "encode_kernel mm 64 18" "extracts 18 90 ex" "fills 72 fl" "\<forall>src \<in> set srcs. length src = 64"
  shows "Encode64Batch_on mm ex fl srcs = Some (map b58_encode srcs)"
  using batch_kernel.batch [OF batch_kernel64 [OF assms(1-3)] assms(4)]
  by (cases "srcs = []") (simp_all add: Encode64Batch_on_def Let_def)

text \<open>The portable build.\<close>

interpretation batch32: batch_kernel "encodeRaw32x4_on encodeMatMul32 extractCharsFlat36"
  "encodeRaw32_on encodeMatMul32 extractChars32" rawSkip32 "\<lambda>src. chars_of (limbs58 9 src)" 32 45 48
  by (rule batch_kernel32 [OF enc32.encode_kernel_axioms extracts32 flat_fills(1)])

interpretation batch64: batch_kernel "encodeRaw64x4_on encodeMatMul64 extractCharsFlat72"
  "encodeRaw64_on encodeMatMul64 extractChars64" rawSkip64 "\<lambda>src. chars_of (limbs58 18 src)" 64 90 90
  by (rule batch_kernel64 [OF enc64.encode_kernel_axioms extracts64 flat_fills(2)])

lemma Encode32Batch_eq:
  "\<forall>src \<in> set srcs. length src = 32 \<Longrightarrow> Encode32Batch srcs = Some (map b58_encode srcs)"
  using batch32.batch [of srcs] by (cases "srcs = []") (simp_all add: Encode32Batch_def Encode32Batch_on_def Let_def)

lemma Encode64Batch_eq:
  "\<forall>src \<in> set srcs. length src = 64 \<Longrightarrow> Encode64Batch srcs = Some (map b58_encode srcs)"
  using batch64.batch [of srcs] by (cases "srcs = []") (simp_all add: Encode64Batch_def Encode64Batch_on_def Let_def)

end
