(* ===== verification/Decode_Fixed.thy ===== *)
theory Decode_Fixed
  imports Encode_Fixed
begin

unbundle bit_operations_syntax

text \<open>
  The fixed-width decoders (\<open>decode.go\<close>, \<open>decode_fused_other.go\<close>, \<open>decode_write_other.go\<close>):
  \<open>Decode32\<close> and \<open>Decode64\<close> in the portable build. A decoder writes through its array argument
  and returns an error or nil, so its model takes the array and returns the pair of the error
  and the array it leaves behind. The main results give the outcome of every call, errors and
  final array included, and say that a call succeeds exactly on the encodings of arrays of the
  right size.
\<close>

section \<open>The decoders\<close>

datatype decode_error = ErrInvalidChar | ErrInvalidLength | ErrValueTooLarge | ErrLeadingZeros

text \<open>The head group: the first \<open>head\<close> characters, with the union of the digits seen.\<close>

definition readHead :: "bytes \<Rightarrow> nat \<Rightarrow> (u8 \<times> u32) option" where
  "readHead encoded head =
     foldM (\<lambda>i (bad, g).
         do { c \<leftarrow> idx encoded i;
              let d = base58InverseFull c;
              Some (bad OR d, g * 58 + ucast d) })
       [0..<head] (0, 0)"

text \<open>The body of the two group loops: the new union of lookups and the value of five characters.\<close>

definition group32 :: "bytes \<Rightarrow> u16 \<Rightarrow> u16 \<times> u64" where
  "group32 c pairBad =
     (let p0 = base58InversePairs (push_bit 8 (ucast (c ! 0)) OR ucast (c ! 1));
          p1 = base58InversePairs (push_bit 8 (ucast (c ! 2)) OR ucast (c ! 3));
          d4 = base58InverseFull (c ! 4)
      in (pairBad OR (p0 OR p1 OR push_bit 8 (ucast d4)),
          ucast p0 * 195112 + ucast p1 * 58 + ucast d4))"

definition group64 :: "bytes \<Rightarrow> u8 \<Rightarrow> u8 \<times> u64" where
  "group64 c bad =
     (let d0 = base58InverseFull (c ! 0);
          d1 = base58InverseFull (c ! 1);
          d2 = base58InverseFull (c ! 2);
          d3 = base58InverseFull (c ! 3);
          d4 = base58InverseFull (c ! 4)
      in (bad OR (d0 OR d1 OR d2 OR d3 OR d4),
          ucast d0 * 11316496 + ucast d1 * 195112 + ucast d2 * 3364 + ucast d3 * 58 + ucast d4))"

text \<open>The loop over the groups after the head, for either body.\<close>

definition groupLoop :: "(bytes \<Rightarrow> 'b \<Rightarrow> 'b \<times> u64) \<Rightarrow> bytes \<Rightarrow> nat list \<Rightarrow>
    nat \<times> 'b \<times> u64 list \<Rightarrow> (nat \<times> 'b \<times> u64 list) option" where
  "groupLoop f encoded =
     foldM (\<lambda>gi (i, bad, im).
         do { c \<leftarrow> subslice encoded i (i + 5);
              let (bad, v) = f c bad;
              im \<leftarrow> upd im gi v;
              Some (i + 5, bad, im) })"

text \<open>\<open>binary.BigEndian.PutUint64\<close>.\<close>

definition putUint64BE :: "u64 \<Rightarrow> bytes \<Rightarrow> bytes option" where
  "putUint64BE v b =
     do { _ \<leftarrow> idx b 7;
          b \<leftarrow> upd b 0 (ucast (drop_bit 56 v)); b \<leftarrow> upd b 1 (ucast (drop_bit 48 v));
          b \<leftarrow> upd b 2 (ucast (drop_bit 40 v)); b \<leftarrow> upd b 3 (ucast (drop_bit 32 v));
          b \<leftarrow> upd b 4 (ucast (drop_bit 24 v)); b \<leftarrow> upd b 5 (ucast (drop_bit 16 v));
          b \<leftarrow> upd b 6 (ucast (drop_bit 8 v)); upd b 7 (ucast v) }"

text \<open>The output loop of both write functions: two 32-bit words at a time.\<close>

definition writeWords :: "u64 list \<Rightarrow> nat \<Rightarrow> bytes \<Rightarrow> bytes option" where
  "writeWords bin n =
     foldM (\<lambda>i dst. on_slice dst (i * 4) (i * 4 + 8) (putUint64BE (push_bit 32 (bin ! i) OR bin ! (i + 1))))
       (map (\<lambda>k. 2 * k) [0..<n div 2])"

definition decode32WriteSlow :: "u64 list \<Rightarrow> bytes \<Rightarrow> (bool \<times> bytes) option" where
  "decode32WriteSlow intermediate dst =
     (let bin = decodeMatMul32 intermediate (replicate binarySz32 0);
          bin = decCarryLoop (binarySz32 - 1) (bin ! (binarySz32 - 1)) bin
      in if bin ! 0 > 0xFFFFFFFF then Some (False, dst)
         else do { dst \<leftarrow> writeWords bin binarySz32 dst; Some (True, dst) })"

definition decode64WriteSlow :: "u64 list \<Rightarrow> bytes \<Rightarrow> (bool \<times> bytes) option" where
  "decode64WriteSlow intermediate dst =
     (let bin = decodeMatMul64 intermediate (replicate binarySz64 0);
          bin = decCarryLoop (binarySz64 - 1) (bin ! (binarySz64 - 1)) bin
      in if bin ! 0 > 0xFFFFFFFF then Some (False, dst)
         else do { dst \<leftarrow> writeWords bin binarySz64 dst; Some (True, dst) })"

text \<open>\<open>decode_write_other.go\<close>.\<close>

definition decode32Write :: "u64 list \<Rightarrow> bytes \<Rightarrow> (bool \<times> bytes) option" where
  "decode32Write intermediate dst = decode32WriteSlow intermediate dst"

definition decode64Write :: "u64 list \<Rightarrow> bytes \<Rightarrow> (bool \<times> bytes) option" where
  "decode64Write intermediate dst = decode64WriteSlow intermediate dst"

definition validateLeadingZeros :: "bytes \<Rightarrow> bytes \<Rightarrow> decode_error option" where
  "validateLeadingZeros encoded dst =
     (let inLeading1s = leading (byte CHR ''1'') encoded; outLeading0s = leading 0 dst
      in if inLeading1s \<noteq> outLeading0s then Some ErrLeadingZeros else None)"

text \<open>
  \<open>decode32Generic\<close> and \<open>decode64Generic\<close>, which every build shares; the write function is that of the
  build.
\<close>

definition decode32Generic_on :: "(u64 list \<Rightarrow> bytes \<Rightarrow> (bool \<times> bytes) option) \<Rightarrow> bytes \<Rightarrow> bytes \<Rightarrow> (decode_error option \<times> bytes) option" where
  "decode32Generic_on write encoded dst =
     do { let encLen = length encoded;
          let head = (if encLen mod 5 = 0 then 5 else encLen mod 5);
          (bad, g) \<leftarrow> readHead encoded head;
          g0 \<leftarrow> isub intermediateSz32 ((encLen + 4) div 5);
          intermediate \<leftarrow> upd (replicate intermediateSz32 0) g0 (ucast g);
          (i, pairBad, intermediate) \<leftarrow> groupLoop group32 encoded [g0 + 1..<intermediateSz32]
            (head, 0, intermediate);
          if bad \<ge> 64 \<or> pairBad \<ge> 0x8000 then Some (Some ErrInvalidChar, dst)
          else do {
            (ok, dst) \<leftarrow> write intermediate dst;
            if \<not> ok then Some (Some ErrValueTooLarge, dst)
            else Some (validateLeadingZeros encoded dst, dst) } }"

definition decode32Generic :: "bytes \<Rightarrow> bytes \<Rightarrow> (decode_error option \<times> bytes) option" where
  "decode32Generic encoded dst = decode32Generic_on decode32Write encoded dst"

definition decode64Generic_on :: "(u64 list \<Rightarrow> bytes \<Rightarrow> (bool \<times> bytes) option) \<Rightarrow> bytes \<Rightarrow> bytes \<Rightarrow> (decode_error option \<times> bytes) option" where
  "decode64Generic_on write encoded dst =
     do { let encLen = length encoded;
          let head = (if encLen mod 5 = 0 then 5 else encLen mod 5);
          (bad, g) \<leftarrow> readHead encoded head;
          g0 \<leftarrow> isub intermediateSz64 ((encLen + 4) div 5);
          intermediate \<leftarrow> upd (replicate intermediateSz64 0) g0 (ucast g);
          (i, bad, intermediate) \<leftarrow> groupLoop group64 encoded [g0 + 1..<intermediateSz64]
            (head, bad, intermediate);
          if bad \<ge> 64 then Some (Some ErrInvalidChar, dst)
          else do {
            (ok, dst) \<leftarrow> write intermediate dst;
            if \<not> ok then Some (Some ErrValueTooLarge, dst)
            else Some (validateLeadingZeros encoded dst, dst) } }"

definition decode64Generic :: "bytes \<Rightarrow> bytes \<Rightarrow> (decode_error option \<times> bytes) option" where
  "decode64Generic encoded dst = decode64Generic_on decode64Write encoded dst"

text \<open>\<open>decode_fused_other.go\<close>.\<close>

definition Decode32 :: "bytes \<Rightarrow> bytes \<Rightarrow> (decode_error option \<times> bytes) option" where
  "Decode32 encoded dst =
     (if length encoded = 0 \<or> length encoded > raw58Sz32 then Some (Some ErrInvalidLength, dst)
      else decode32Generic encoded dst)"

definition Decode64 :: "bytes \<Rightarrow> bytes \<Rightarrow> (decode_error option \<times> bytes) option" where
  "Decode64 encoded dst =
     (if length encoded = 0 \<or> length encoded > raw58Sz64 then Some (Some ErrInvalidLength, dst)
      else decode64Generic encoded dst)"

section \<open>Detecting characters outside the alphabet\<close>

lemma or_ge_pow:
  fixes x y :: "'a::len word"
  assumes "n < LENGTH('a)"
  shows "2 ^ n \<le> (x OR y) \<longleftrightarrow> 2 ^ n \<le> x \<or> 2 ^ n \<le> y"
proof -
  have ge: "2 ^ n \<le> v \<longleftrightarrow> drop_bit n v \<noteq> 0" for v :: "'a word"
  proof -
    have "unat ((2 :: 'a word) ^ n) = 2 ^ n"
      using assms unat_of_nat_small [of "2 ^ n", where 'a = 'a] by simp
    moreover have "drop_bit n v = 0 \<longleftrightarrow> unat v div 2 ^ n = 0"
      by (metis drop_bit_eq_div unat_drop_bit_eq unat_eq_0)
    ultimately show ?thesis
      by (simp add: word_le_nat_alt div_eq_0_iff not_less)
  qed
  show ?thesis by (simp add: ge drop_bit_or or_eq_0_iff)
qed

lemma or_ge_64: "64 \<le> (x OR y :: u8) \<longleftrightarrow> 64 \<le> x \<or> 64 \<le> y"
  using or_ge_pow [of 6 x y] by simp

lemma or_ge_8000: "0x8000 \<le> (x OR y :: u16) \<longleftrightarrow> 0x8000 \<le> x \<or> 0x8000 \<le> y"
  using or_ge_pow [of 15 x y] by simp

lemma invalid_digit: "64 \<le> base58InverseFull c \<longleftrightarrow> \<not> b58_valid c"
proof (cases "b58_valid c")
  case True
  with b58_digit_less [OF True] show ?thesis
    by (simp add: word_le_nat_alt unat_base58InverseFull del: b58_digit_less)
qed (simp add: word_le_nat_alt unat_base58InverseFull)

section \<open>Reading the characters\<close>

lemma str_val_Cons: "str_val (c # s) = b58_digit c * 58 ^ length s + str_val s"
  by (simp add: str_val_def bval_Cons)

lemma length5E:
  assumes "length c = 5"
  obtains c0 c1 c2 c3 c4 where "c = [c0, c1, c2, c3, c4]"
  using assms by (auto simp: length_Suc_conv eval_nat_numeral)

lemma readHead_prefix:
  assumes "head \<le> length s" "head \<le> 5"
  shows "\<exists>bad g. readHead s head = Some (bad, g) \<and>
    (64 \<le> bad \<longleftrightarrow> \<not> list_all b58_valid (take head s)) \<and>
    (list_all b58_valid (take head s) \<longrightarrow> unat g = str_val (take head s))"
  using assms
proof (induction head)
  case 0
  then show ?case by (simp add: readHead_def)
next
  case (Suc h)
  then obtain bad g where IH: "readHead s h = Some (bad, g)"
    "64 \<le> bad \<longleftrightarrow> \<not> list_all b58_valid (take h s)"
    "list_all b58_valid (take h s) \<Longrightarrow> unat g = str_val (take h s)" by auto
  let ?c = "s ! h" and ?d = "base58InverseFull (s ! h)"
  have take: "take (Suc h) s = take h s @ [?c]"
    using Suc.prems by (simp add: take_Suc_conv_app_nth)
  have run: "readHead s (Suc h) = Some (bad OR ?d, g * 58 + ucast ?d)"
    using IH(1) Suc.prems(1) by (simp add: readHead_def Let_def)
  have bad: "64 \<le> (bad OR ?d) \<longleftrightarrow> \<not> list_all b58_valid (take (Suc h) s)"
    by (simp add: or_ge_64 IH(2) invalid_digit take)
  have val: "unat (g * 58 + ucast ?d) = str_val (take (Suc h) s)" if v: "list_all b58_valid (take (Suc h) s)"
  proof -
    have v': "list_all b58_valid (take h s)" and c: "b58_valid ?c" using v by (simp_all add: take)
    have "str_val (take h s) < 58 ^ length (take h s)" using v' by (rule str_val_less)
    also have "\<dots> \<le> 58 ^ 4" using Suc.prems by (intro power_increasing) simp_all
    finally have "unat g < 58 ^ 4" by (simp only: IH(3) [OF v'])
    moreover have "b58_digit ?c < 58" using c by (rule b58_digit_less)
    moreover have "unat (ucast ?d :: u32) = b58_digit ?c"
      using c by (simp add: unat_base58InverseFull)
    moreover have u58: "unat (58 :: u32) = 58" by simp
    ultimately have "unat (ucast ?d + g * 58 :: u32) = unat (ucast ?d :: u32) + unat g * unat (58 :: u32)"
      by (intro unat_mac_nowrap) simp
    also have "\<dots> = b58_digit ?c + str_val (take h s) * 58"
      using c by (simp only: u58 IH(3) [OF v'] \<open>unat (ucast ?d :: u32) = b58_digit ?c\<close>)
    finally show ?thesis
      by (simp add: take str_val_append str_val_Cons add.commute)
  qed
  from run bad val show ?case by blast
qed

lemma head_groups:
  fixes n nl :: nat
  assumes "0 < n" "n \<le> 5 * nl"
  shows "n = (if n mod 5 = 0 then 5 else n mod 5) + 5 * ((n + 4) div 5 - 1)
    \<and> 1 \<le> (if n mod 5 = 0 then 5 else n mod 5) \<and> (if n mod 5 = 0 then 5 else n mod 5) \<le> 5
    \<and> (if n mod 5 = 0 then 5 else n mod 5) \<le> n \<and> 1 \<le> (n + 4) div 5 \<and> (n + 4) div 5 \<le> nl"
proof -
  obtain q r :: nat where n: "n = r + 5 * q" "r < 5"
    using that [of "n mod 5" "n div 5"] by simp
  show ?thesis
  proof (cases "r = 0")
    case True
    then have "n mod 5 = 0" "(n + 4) div 5 = q" "0 < q" using n assms(1) by simp_all
    then show ?thesis using n True assms(2) by simp
  next
    case False
    then have "(r + 4) div 5 = 1" using n(2) by simp
    moreover have "n + 4 = r + 4 + q * 5" using n(1) by simp
    ultimately have "n mod 5 = r" "(n + 4) div 5 = Suc q" using n by (simp_all only: div_mult_self1 mod_mult_self1) simp_all
    then show ?thesis using n False assms(2) by simp
  qed
qed

text \<open>
  What the body of a group loop promises: the union detects every character outside the
  alphabet, and the value of a valid group is the base-58 value of its five characters.
\<close>

locale group_reader =
  fixes f :: "bytes \<Rightarrow> 'b \<Rightarrow> 'b \<times> u64"
    and isbad :: "'b \<Rightarrow> bool"
  assumes detects: "length c = 5 \<Longrightarrow> isbad (fst (f c b)) \<longleftrightarrow> isbad b \<or> \<not> list_all b58_valid c"
    and reads: "length c = 5 \<Longrightarrow> list_all b58_valid c \<Longrightarrow> unat (snd (f c b)) = str_val c"
begin

lemma loop:
  assumes "length s = i + 5 * k" "length pre + k = length im"
  shows "\<exists>b' vs. groupLoop f s [length pre..<length im] (i, b, pre @ drop (length pre) im) =
      Some (length s, b', pre @ vs) \<and> length vs = k \<and>
    (isbad b' \<longleftrightarrow> isbad b \<or> \<not> list_all b58_valid (drop i s)) \<and>
    (list_all b58_valid (drop i s) \<longrightarrow>
       (\<forall>v \<in> set vs. unat v < 58 ^ 5) \<and> bval (58 ^ 5) (map unat vs) = str_val (drop i s))"
  using assms
proof (induction k arbitrary: i b pre)
  case 0
  then show ?case by (simp add: groupLoop_def)
next
  case (Suc k)
  let ?c = "take 5 (drop i s)" and ?n = "length pre"
  have c: "length ?c = 5" using Suc.prems(1) by simp
  obtain b1 v where f: "f ?c b = (b1, v)" by (cases "f ?c b")
  have upt: "[?n..<length im] = ?n # [length (pre @ [v])..<length im]"
    using Suc.prems(2) by (simp add: upt_conv_Cons)
  have im: "drop ?n im = im ! ?n # drop (length (pre @ [v])) im"
    using Suc.prems(2) by (simp add: Cons_nth_drop_Suc)
  obtain b' vs where IH: "groupLoop f s [length (pre @ [v])..<length im]
        (i + 5, b1, (pre @ [v]) @ drop (length (pre @ [v])) im) = Some (length s, b', (pre @ [v]) @ vs)"
    "length vs = k" "isbad b' \<longleftrightarrow> isbad b1 \<or> \<not> list_all b58_valid (drop (i + 5) s)"
    "list_all b58_valid (drop (i + 5) s) \<Longrightarrow>
       (\<forall>v \<in> set vs. unat v < 58 ^ 5) \<and> bval (58 ^ 5) (map unat vs) = str_val (drop (i + 5) s)"
    using Suc.IH [of "i + 5" "pre @ [v]" b1] Suc.prems by auto
  have run: "groupLoop f s [?n..<length im] (i, b, pre @ drop ?n im) = Some (length s, b', pre @ v # vs)"
    using IH(1) Suc.prems(1) f unfolding upt im by (simp add: groupLoop_def list_update_append)
  have split: "drop i s = ?c @ drop (i + 5) s"
    by (metis append_take_drop_id drop_drop add.commute)
  have "isbad b1 \<longleftrightarrow> isbad b \<or> \<not> list_all b58_valid ?c"
    using detects [OF c, of b] f by simp
  then have bad: "isbad b' \<longleftrightarrow> isbad b \<or> \<not> list_all b58_valid (drop i s)"
    using IH(3) by (subst split) simp
  have len: "length (drop (i + 5) s) = 5 * k" using Suc.prems(1) by simp
  have "(\<forall>x \<in> set (v # vs). unat x < 58 ^ 5) \<and> bval (58 ^ 5) (map unat (v # vs)) = str_val (drop i s)"
    if valid: "list_all b58_valid (drop i s)"
  proof -
    have vc: "list_all b58_valid ?c" and vr: "list_all b58_valid (drop (i + 5) s)"
      using valid by (subst (asm) split, simp)+
    have v: "unat v = str_val ?c" using reads [OF c vc, of b] f by simp
    have "str_val ?c < 58 ^ 5" using str_val_less [OF vc] c by simp
    moreover have "bval (58 ^ 5) (map unat (v # vs)) = str_val ?c * (58 ^ 5) ^ k + str_val (drop (i + 5) s)"
      using IH(2,4) vr v by (simp only: list.map bval_Cons length_map)
    moreover have "str_val (drop i s) = str_val ?c * (58 ^ 5) ^ k + str_val (drop (i + 5) s)"
      by (subst split) (simp only: str_val_append len power_mult)
    ultimately show ?thesis
      using IH(4) [OF vr] v by (simp only: list.set ball_simps) simp
  qed
  then show ?case
    using run bad IH(2) by (intro exI [of _ b'] exI [of _ "v # vs"]) simp
qed

text \<open>Head and groups together: the limbs represent the value of the whole string.\<close>

lemma read_all:
  fixes s :: bytes and nl :: nat
  defines "head \<equiv> (if length s mod 5 = 0 then 5 else length s mod 5)"
    and "g0 \<equiv> nl - (length s + 4) div 5"
  assumes "0 < length s" "length s \<le> 5 * nl"
  obtains bad g where "readHead s head = Some (bad, g)" "g0 < nl" "(length s + 4) div 5 \<le> nl"
    "64 \<le> bad \<longleftrightarrow> \<not> list_all b58_valid (take head s)"
    "\<And>b. \<exists>b' im. groupLoop f s [g0 + 1..<nl] (head, b, (replicate nl 0)[g0 := ucast g]) = Some (length s, b', im) \<and>
       length im = nl \<and> (isbad b' \<longleftrightarrow> isbad b \<or> \<not> list_all b58_valid (drop head s)) \<and>
       (list_all b58_valid s \<longrightarrow>
         (\<forall>v \<in> set im. unat v < 58 ^ 5) \<and> bval (58 ^ 5) (map unat im) = str_val s)"
proof -
  let ?n5 = "(length s + 4) div 5"
  have ar: "length s = head + 5 * (?n5 - 1)" "1 \<le> head" "head \<le> 5" "head \<le> length s" "1 \<le> ?n5" "?n5 \<le> nl"
    using head_groups [OF assms(3,4)] unfolding head_def by blast+
  obtain bad g where h: "readHead s head = Some (bad, g)"
    "64 \<le> bad \<longleftrightarrow> \<not> list_all b58_valid (take head s)"
    "list_all b58_valid (take head s) \<longrightarrow> unat g = str_val (take head s)"
    using readHead_prefix [OF ar(4,3)] by blast
  let ?pre = "replicate g0 0 @ [ucast g :: u64]" and ?im0 = "(replicate nl 0)[g0 := ucast g :: u64]"
  have g0: "g0 < nl" using ar by (simp add: g0_def)
  have pre: "length ?pre = g0 + 1" "length ?im0 = nl" by simp_all
  have n: "replicate nl (0::u64) = replicate g0 0 @ 0 # replicate (?n5 - 1) 0"
    using ar by (simp add: g0_def flip: replicate_add replicate_Suc)
  have im0: "?pre @ drop (length ?pre) ?im0 = ?im0"
    unfolding n by (simp add: list_update_append)
  have groups: "\<exists>b' im. groupLoop f s [g0 + 1..<nl] (head, b, ?im0) = Some (length s, b', im) \<and>
       length im = nl \<and> (isbad b' \<longleftrightarrow> isbad b \<or> \<not> list_all b58_valid (drop head s)) \<and>
       (list_all b58_valid s \<longrightarrow>
         (\<forall>v \<in> set im. unat v < 58 ^ 5) \<and> bval (58 ^ 5) (map unat im) = str_val s)" for b
  proof -
    have k: "length ?pre + (?n5 - 1) = length ?im0" using ar by (simp add: g0_def)
    obtain b' vs where L: "groupLoop f s [length ?pre..<length ?im0] (head, b, ?pre @ drop (length ?pre) ?im0)
        = Some (length s, b', ?pre @ vs)" "length vs = ?n5 - 1"
      "isbad b' \<longleftrightarrow> isbad b \<or> \<not> list_all b58_valid (drop head s)"
      "list_all b58_valid (drop head s) \<longrightarrow>
         (\<forall>v \<in> set vs. unat v < 58 ^ 5) \<and> bval (58 ^ 5) (map unat vs) = str_val (drop head s)"
      using loop [OF ar(1) k, of b] by blast
    have run: "groupLoop f s [g0 + 1..<nl] (head, b, ?im0) = Some (length s, b', ?pre @ vs)"
      using L(1) unfolding im0 unfolding pre .
    have len: "length (?pre @ vs) = nl" using L(2) k pre by simp
    have "(\<forall>v \<in> set (?pre @ vs). unat v < 58 ^ 5) \<and> bval (58 ^ 5) (map unat (?pre @ vs)) = str_val s"
      if v: "list_all b58_valid s"
    proof -
      have s: "s = take head s @ drop head s" by simp
      have vt: "list_all b58_valid (take head s)" "list_all b58_valid (drop head s)"
        using v by (auto simp: list_all_iff dest: in_set_takeD in_set_dropD)
      have "str_val (take head s) < 58 ^ length (take head s)" using vt(1) by (rule str_val_less)
      also have "\<dots> \<le> 58 ^ 5" using ar by (intro power_increasing) simp_all
      finally have g: "unat (ucast g :: u64) = str_val (take head s)" "str_val (take head s) < 58 ^ 5"
        using h(3) vt(1) by simp_all
      have "bval (58 ^ 5) (map unat (?pre @ vs))
          = str_val (take head s) * (58 ^ 5) ^ (?n5 - 1) + str_val (drop head s)"
        using L(2,4) vt(2) g(1)
        by (simp only: map_append map_replicate unsigned_0 append_assoc bval_append [of _ "replicate g0 0"]
            bval_replicate_0 mult_0 add_0 list.map append_Cons append_Nil bval_Cons length_map)
      also have "\<dots> = str_val s"
      proof -
        have "length (drop head s) = 5 * (?n5 - 1)" using ar(1) by simp
        then show ?thesis
          using str_val_append [of "take head s" "drop head s"]
          by (simp only: append_take_drop_id power_mult)
      qed
      finally show ?thesis
        using L(4) vt(2) g by (simp only: set_append list.set ball_simps ball_Un) auto
    qed
    then show ?thesis using run len L(3) by blast
  qed
  show ?thesis by (rule that [OF h(1) g0 ar(6) h(2) groups])
qed

end

lemma pair_index_fold: "push_bit 8 (ucast a) OR ucast b = pair_index a b"
  by (simp add: pair_index_def)

lemma invalid_pair:
  "0x8000 \<le> base58InversePairs (pair_index a b) \<longleftrightarrow> \<not> (b58_valid a \<and> b58_valid b)"
proof (cases "b58_valid a \<and> b58_valid b")
  case True
  then have "b58_digit a < 58" "b58_digit b < 58" by (simp_all only: b58_digit_less)
  then have "b58_digit a * 58 + b58_digit b < 58 * 58" by linarith
  then show ?thesis using True by (simp add: word_le_nat_alt unat_base58InversePairs)
qed (auto simp: word_le_nat_alt unat_base58InversePairs)

lemma invalid_digit_high: "0x8000 \<le> (push_bit 8 (ucast (base58InverseFull c)) :: u16) \<longleftrightarrow> \<not> b58_valid c"
proof -
  let ?d = "ucast (base58InverseFull c) :: u16"
  have u: "unat ?d = (if b58_valid c then b58_digit c else 255)"
    by (simp add: unat_base58InverseFull)
  have dl: "b58_valid c \<Longrightarrow> b58_digit c < 58" by (rule b58_digit_less)
  have lt: "unat ?d * 256 < 2 ^ 16"
  proof (cases "b58_valid c")
    case True
    with dl have "unat ?d < 58" using u by simp
    then show ?thesis by simp
  qed (simp add: u)
  have "push_bit 8 ?d = ?d * 256" by (simp add: push_bit_eq_mult)
  then have "unat (push_bit 8 ?d) = unat ?d * 256"
    using unat_mult_nowrap [of ?d 256] lt by simp
  then show ?thesis
    using dl u by (cases "b58_valid c") (simp_all add: word_le_nat_alt del: b58_digit_less unat_ucast_up)
qed

lemma unat_group:
  fixes a b c :: u64
  assumes "unat a * 195112 + unat b * 58 + unat c < 2 ^ 64"
  shows "unat (a * 195112 + b * 58 + c) = unat a * 195112 + unat b * 58 + unat c"
  using assms by (simp add: unat_word_ariths mod_simps)

lemma unat_group_single:
  fixes a b c d e :: u64
  assumes "unat a * 11316496 + unat b * 195112 + unat c * 3364 + unat d * 58 + unat e < 2 ^ 64"
  shows "unat (a * 11316496 + b * 195112 + c * 3364 + d * 58 + e)
    = unat a * 11316496 + unat b * 195112 + unat c * 3364 + unat d * 58 + unat e"
  using assms by (simp add: unat_word_ariths mod_simps)

lemma str_val5: "str_val [c0, c1, c2, c3, c4] =
  b58_digit c0 * 11316496 + b58_digit c1 * 195112 + b58_digit c2 * 3364 + b58_digit c3 * 58 + b58_digit c4"
  by (simp add: str_val_Cons)

interpretation groups32: group_reader group32 "\<lambda>b. 0x8000 \<le> b"
proof
  fix c :: bytes and b :: u16
  assume "length c = 5"
  then obtain c0 c1 c2 c3 c4 where c: "c = [c0, c1, c2, c3, c4]" by (rule length5E)
  show "0x8000 \<le> fst (group32 c b) \<longleftrightarrow> 0x8000 \<le> b \<or> \<not> list_all b58_valid c"
    by (auto simp: c group32_def Let_def or_ge_8000 pair_index_fold invalid_pair invalid_digit_high)
  assume v: "list_all b58_valid c"
  then have "b58_digit c0 < 58" "b58_digit c1 < 58" "b58_digit c2 < 58" "b58_digit c3 < 58" "b58_digit c4 < 58"
    by (simp_all add: c del: b58_digit_less) (simp_all only: b58_digit_less)
  then show "unat (snd (group32 c b)) = str_val c"
    using v by (simp add: c group32_def Let_def pair_index_fold unat_group unat_base58InversePairs
        unat_base58InverseFull str_val5 add_mult_distrib del: b58_digit_less)
qed

interpretation groups64: group_reader group64 "\<lambda>b. 64 \<le> b"
proof
  fix c :: bytes and b :: u8
  assume "length c = 5"
  then obtain c0 c1 c2 c3 c4 where c: "c = [c0, c1, c2, c3, c4]" by (rule length5E)
  show "64 \<le> fst (group64 c b) \<longleftrightarrow> 64 \<le> b \<or> \<not> list_all b58_valid c"
    by (auto simp: c group64_def Let_def or_ge_64 invalid_digit)
  assume v: "list_all b58_valid c"
  then have "b58_digit c0 < 58" "b58_digit c1 < 58" "b58_digit c2 < 58" "b58_digit c3 < 58" "b58_digit c4 < 58"
    by (simp_all add: c del: b58_digit_less) (simp_all only: b58_digit_less)
  then show "unat (snd (group64 c b)) = str_val c"
    using v by (simp add: c group64_def Let_def unat_group_single
        unat_base58InverseFull str_val5 del: b58_digit_less)
qed
section \<open>Writing the bytes\<close>

definition be_bytes :: "nat \<Rightarrow> nat \<Rightarrow> bytes" where
  "be_bytes n v = map of_nat (fixed 256 n v)"

lemma length_be_bytes [simp]: "length (be_bytes n v) = n"
  by (simp add: be_bytes_def)

lemma fixed_256_8: "fixed 256 8 n =
  [n div 2 ^ 56 mod 256, n div 2 ^ 48 mod 256, n div 2 ^ 40 mod 256, n div 2 ^ 32 mod 256,
   n div 2 ^ 24 mod 256, n div 2 ^ 16 mod 256, n div 2 ^ 8 mod 256, n mod 256]"
proof -
  have "fixed b 8 n = [n div b div b div b div b div b div b div b mod b,
      n div b div b div b div b div b div b mod b, n div b div b div b div b div b mod b,
      n div b div b div b div b mod b, n div b div b div b mod b, n div b div b mod b,
      n div b mod b, n mod b]" for b
    by (simp add: eval_nat_numeral)
  from this [of 256] show ?thesis by (simp add: div_mult2_eq [symmetric])
qed

lemma ucast_byte: "(ucast (v :: u64) :: u8) = of_nat (unat v mod 256)"
  by (rule word_unat_eq_iff [THEN iffD2]) (simp add: unsigned_ucast_eq take_bit_eq_mod unat_of_nat)

lemma unat_drop_bit64: "unat (drop_bit k (v :: u64)) = unat v div 2 ^ k"
  by (simp only: unat_drop_bit_eq) (simp only: drop_bit_eq_div)

lemma putUint64BE_eq: "length w = 8 \<Longrightarrow> putUint64BE v w = Some (be_bytes 8 (unat v))"
proof -
  assume "length w = 8"
  then obtain a b c d e f g h where w: "w = [a, b, c, d, e, f, g, h]"
    by (auto simp: length_Suc_conv eval_nat_numeral)
  show ?thesis
    by (simp add: w putUint64BE_def be_bytes_def fixed_256_8 ucast_byte unat_drop_bit64)
qed

lemma be_bytes_append:
  assumes "b < 256 ^ n"
  shows "be_bytes (m + n) (a * 256 ^ n + b) = be_bytes m a @ be_bytes n b"
proof -
  let ?ds = "fixed 256 m a @ fixed 256 n b"
  have "bval 256 ?ds = (a mod 256 ^ m) * 256 ^ n + b"
    using assms by (simp add: bval_append bval_fixed)
  moreover have "(a * 256 ^ n + b) mod 256 ^ (m + n) = (a mod 256 ^ m) * 256 ^ n + b"
    using assms by (simp add: power_add mod_mult2_eq mult.commute [of "256 ^ m"] mult.commute [of _ "256 ^ n"])
  ultimately have "bval 256 (fixed 256 (m + n) (a * 256 ^ n + b)) = bval 256 ?ds"
    by (simp only: bval_fixed)
  then have "fixed 256 (m + n) (a * 256 ^ n + b) = ?ds"
    by (intro bval_inj [where b = 256]) (auto dest: fixed_less [rotated])
  then show ?thesis by (simp add: be_bytes_def)
qed

lemma be_bytes_words:
  assumes "\<forall>n \<in> set ns. n < 2 ^ 32"
  shows "concat (map (be_bytes 4) ns) = be_bytes (4 * length ns) (bval (2 ^ 32) ns)"
  using assms
proof (induction ns rule: rev_induct)
  case (snoc n ns)
  then show ?case
    using be_bytes_append [of n 4 "4 * length ns" "bval (2 ^ 32) ns"] by (simp add: add.commute)
qed (simp add: be_bytes_def)

lemma writeWords_prefix:
  assumes "\<forall>v \<in> set bin. unat v < 2 ^ 32" "2 * k \<le> length bin" "8 * k \<le> length dst"
  shows "foldM (\<lambda>i dst. on_slice dst (i * 4) (i * 4 + 8) (putUint64BE (push_bit 32 (bin ! i) OR bin ! (i + 1))))
      (map (\<lambda>k. 2 * k) [0..<k]) dst
    = Some (concat (map (be_bytes 4) (map unat (take (2 * k) bin))) @ drop (8 * k) dst)"
  using assms
proof (induction k)
  case (Suc k)
  let ?a = "bin ! (2 * k)" and ?b = "bin ! (2 * k + 1)"
  let ?pre = "concat (map (be_bytes 4) (map unat (take (2 * k) bin)))"
  have ab: "unat ?a < 2 ^ 32" "unat ?b < 2 ^ 32" using Suc.prems(1,2) by simp_all
  have "length ?pre = (\<Sum>x\<leftarrow>take (2 * k) bin. 4)" by (simp add: length_concat comp_def)
  then have len: "length ?pre = 8 * k" using Suc.prems(2) by (simp add: sum_list_triv)
  have two: "be_bytes 8 (unat (push_bit 32 ?a OR ?b)) = be_bytes 4 (unat ?a) @ be_bytes 4 (unat ?b)"
    using be_bytes_append [of "unat ?b" 4 4 "unat ?a"] ab by (simp add: two_words)
  have take: "take (2 * Suc k) bin = take (2 * k) bin @ [?a, ?b]"
    using Suc.prems(2) by (simp add: take_Suc_conv_app_nth)
  have "on_slice (?pre @ drop (8 * k) dst) (2 * k * 4) (2 * k * 4 + 8) (putUint64BE (push_bit 32 ?a OR ?b))
      = Some (?pre @ be_bytes 8 (unat (push_bit 32 ?a OR ?b)) @ drop (8 * Suc k) dst)"
    using Suc.prems(3) len
    by (subst on_slice_Some [where w = "be_bytes 8 (unat (push_bit 32 ?a OR ?b))"])
      (simp_all add: putUint64BE_eq)
  then show ?case
    using Suc unfolding take two by simp
qed simp

lemma writeWords_eq:
  assumes "\<forall>v \<in> set bin. unat v < 2 ^ 32" "length bin = n" "even n" "length dst = 4 * n"
  shows "writeWords bin n dst = Some (be_bytes (4 * n) (bval (2 ^ 32) (map unat bin)))"
  using writeWords_prefix [of bin "n div 2" dst] assms be_bytes_words [of "map unat bin"]
  by (auto simp: writeWords_def elim!: evenE)
section \<open>The outcome of every call\<close>

text \<open>
  What a decoder for \<open>nb\<close> bytes and at most \<open>maxLen\<close> characters promises: which error it
  reports, in the order of its checks, and the array it leaves.
\<close>

definition decode_spec :: "nat \<Rightarrow> nat \<Rightarrow> bytes \<Rightarrow> bytes \<Rightarrow> decode_error option \<times> bytes" where
  "decode_spec nb maxLen s dst =
     (if s = [] \<or> maxLen < length s then (Some ErrInvalidLength, dst)
      else if \<not> list_all b58_valid s then (Some ErrInvalidChar, dst)
      else if 256 ^ nb \<le> str_val s then (Some ErrValueTooLarge, dst)
      else let out = be_bytes nb (str_val s)
           in (if leading 49 s = leading 0 out then None else Some ErrLeadingZeros, out))"

lemma unat_max32: "unat (0xFFFFFFFF :: u64) = 0xFFFFFFFF"
  by simp

lemma decode32Write_eq:
  assumes "length im = 9" "\<forall>v \<in> set im. unat v < 58 ^ 5" "length dst = 32"
    and "bval (58 ^ 5) (map unat im) = N"
  shows "decode32Write im dst =
    Some (if 256 ^ 32 \<le> N then (False, dst) else (True, be_bytes 32 N))"
proof -
  let ?ws = "decCarryLoop (8 - 1) (decodeMatMul32 im (replicate 8 0) ! (8 - 1)) (decodeMatMul32 im (replicate 8 0))"
  have pow: "(2 ^ 32) ^ 8 = (256 ^ 32 :: nat)" by simp
  note C = dec32.carried [OF assms(1,2), unfolded assms(4) pow]
  have gt: "?ws ! 0 > 0xFFFFFFFF \<longleftrightarrow> 256 ^ 32 \<le> N"
    using C(2) by (simp only: word_less_nat_alt unat_max32)
  have "writeWords ?ws 8 dst = Some (be_bytes 32 N)" if lt: "N < 256 ^ 32"
  proof -
    have ws: "map unat ?ws = fixed (2 ^ 32) 8 N" using lt by (rule C(3))
    have "\<forall>n \<in> set (map unat ?ws). n < 2 ^ 32"
      unfolding ws by (auto simp only: zero_less_numeral zero_less_power dest: fixed_less [rotated])
    then have "\<forall>v \<in> set ?ws. unat v < 2 ^ 32" by simp
    from writeWords_eq [OF this C(1)] show ?thesis
      using assms(3) lt unfolding ws by simp
  qed
  with gt show ?thesis
    by (simp add: decode32Write_def decode32WriteSlow_def Let_def)
qed

lemma decode64Write_eq:
  assumes "length im = 18" "\<forall>v \<in> set im. unat v < 58 ^ 5" "length dst = 64"
    and "bval (58 ^ 5) (map unat im) = N"
  shows "decode64Write im dst =
    Some (if 256 ^ 64 \<le> N then (False, dst) else (True, be_bytes 64 N))"
proof -
  let ?ws = "decCarryLoop (16 - 1) (decodeMatMul64 im (replicate 16 0) ! (16 - 1)) (decodeMatMul64 im (replicate 16 0))"
  have pow: "(2 ^ 32) ^ 16 = (256 ^ 64 :: nat)" by simp
  note C = dec64.carried [OF assms(1,2), unfolded assms(4) pow]
  have gt: "?ws ! 0 > 0xFFFFFFFF \<longleftrightarrow> 256 ^ 64 \<le> N"
    using C(2) by (simp only: word_less_nat_alt unat_max32)
  have "writeWords ?ws 16 dst = Some (be_bytes 64 N)" if lt: "N < 256 ^ 64"
  proof -
    have ws: "map unat ?ws = fixed (2 ^ 32) 16 N" using lt by (rule C(3))
    have "\<forall>n \<in> set (map unat ?ws). n < 2 ^ 32"
      unfolding ws by (auto simp only: zero_less_numeral zero_less_power dest: fixed_less [rotated])
    then have "\<forall>v \<in> set ?ws. unat v < 2 ^ 32" by simp
    from writeWords_eq [OF this C(1)] show ?thesis
      using assms(3) lt unfolding ws by simp
  qed
  with gt show ?thesis
    by (simp add: decode64Write_def decode64WriteSlow_def Let_def)
qed

text \<open>The common end of the two generic decoders.\<close>

lemma decode_tail:
  assumes "s \<noteq> []" "length s \<le> maxLen" "w = Some (if 256 ^ nb \<le> str_val s then (False, dst) else (True, be_bytes nb (str_val s)))"
    and "list_all b58_valid s"
  shows "do { (ok, dst) \<leftarrow> w;
      if \<not> ok then Some (Some ErrValueTooLarge, dst)
      else Some (validateLeadingZeros s dst, dst) } = Some (decode_spec nb maxLen s dst)"
  using assms by (simp add: decode_spec_def validateLeadingZeros_def Let_def)

lemma decode32Generic_run:
  assumes "s \<noteq> []" "length s \<le> 45"
  shows "\<exists>im. length im = 9 \<and>
    (list_all b58_valid s \<longrightarrow> (\<forall>v \<in> set im. unat v < 58 ^ 5) \<and> bval (58 ^ 5) (map unat im) = str_val s) \<and>
    decode32Generic_on write s dst =
      (if \<not> list_all b58_valid s then Some (Some ErrInvalidChar, dst)
       else do { (ok, dst) \<leftarrow> write im dst;
            if \<not> ok then Some (Some ErrValueTooLarge, dst)
            else Some (validateLeadingZeros s dst, dst) })"
proof -
  have s: "0 < length s" "length s \<le> 5 * 9" using assms by simp_all
  let ?head = "if length s mod 5 = 0 then 5 else length s mod 5"
  let ?g0 = "9 - (length s + 4) div 5"
  obtain bad g where R: "readHead s ?head = Some (bad, g)" "?g0 < 9" "(length s + 4) div 5 \<le> 9"
    "64 \<le> bad \<longleftrightarrow> \<not> list_all b58_valid (take ?head s)"
    and G: "\<And>b. \<exists>b' im. groupLoop group32 s [?g0 + 1..<9] (?head, b, (replicate 9 0)[?g0 := ucast g]) = Some (length s, b', im) \<and>
       length im = 9 \<and> (0x8000 \<le> b' \<longleftrightarrow> 0x8000 \<le> b \<or> \<not> list_all b58_valid (drop ?head s)) \<and>
       (list_all b58_valid s \<longrightarrow>
         (\<forall>v \<in> set im. unat v < 58 ^ 5) \<and> bval (58 ^ 5) (map unat im) = str_val s)"
    using groups32.read_all [OF s] by metis
  obtain b' im where L: "groupLoop group32 s [?g0 + 1..<9] (?head, 0, (replicate 9 0)[?g0 := ucast g]) = Some (length s, b', im)"
    "length im = 9" "0x8000 \<le> b' \<longleftrightarrow> 0x8000 \<le> (0 :: u16) \<or> \<not> list_all b58_valid (drop ?head s)"
    "list_all b58_valid s \<longrightarrow>
         (\<forall>v \<in> set im. unat v < 58 ^ 5) \<and> bval (58 ^ 5) (map unat im) = str_val s"
    using G [of 0] by blast
  have bad: "(64 \<le> bad \<or> 0x8000 \<le> b') \<longleftrightarrow> \<not> list_all b58_valid s"
  proof -
    have "list_all b58_valid s \<longleftrightarrow> list_all b58_valid (take ?head s) \<and> list_all b58_valid (drop ?head s)"
      using list_all_append [of b58_valid "take ?head s" "drop ?head s"] by (simp only: append_take_drop_id)
    then show ?thesis using R(4) L(3) by auto
  qed
  have "decode32Generic_on write s dst =
    (if 64 \<le> bad \<or> 0x8000 \<le> b' then Some (Some ErrInvalidChar, dst)
     else do { (ok, dst) \<leftarrow> write im dst;
            if \<not> ok then Some (Some ErrValueTooLarge, dst)
            else Some (validateLeadingZeros s dst, dst) })"
    using R(1-3) L(1) by (simp add: decode32Generic_on_def Let_def)
  then show ?thesis using L(2,4) unfolding bad by blast
qed

text \<open>Any write function that does what the portable one does gives the outcome of the specification.\<close>

lemma decode32Generic_on_eq:
  assumes "\<And>im. length im = 9 \<Longrightarrow> write im dst = decode32Write im dst"
    and "length dst = 32" "s \<noteq> []" "length s \<le> 45"
  shows "decode32Generic_on write s dst = Some (decode_spec 32 45 s dst)"
proof -
  obtain im where im: "length im = 9"
    "list_all b58_valid s \<longrightarrow> (\<forall>v \<in> set im. unat v < 58 ^ 5) \<and> bval (58 ^ 5) (map unat im) = str_val s"
    and run: "decode32Generic_on write s dst =
      (if \<not> list_all b58_valid s then Some (Some ErrInvalidChar, dst)
       else do { (ok, dst) \<leftarrow> write im dst;
            if \<not> ok then Some (Some ErrValueTooLarge, dst)
            else Some (validateLeadingZeros s dst, dst) })"
    using decode32Generic_run [OF assms(3,4)] by blast
  show ?thesis
  proof (cases "list_all b58_valid s")
    case True
    then have "write im dst = Some (if 256 ^ 32 \<le> str_val s then (False, dst) else (True, be_bytes 32 (str_val s)))"
      unfolding assms(1) [OF im(1)] using im assms(2) by (intro decode32Write_eq) simp_all
    then show ?thesis
      unfolding run using True assms(3,4) decode_tail [of s 45 _ 32 dst] by simp
  next
    case False
    then show ?thesis unfolding run using assms(3,4) by (simp add: decode_spec_def)
  qed
qed

lemma decode32Generic_eq:
  "length dst = 32 \<Longrightarrow> s \<noteq> [] \<Longrightarrow> length s \<le> 45 \<Longrightarrow> decode32Generic s dst = Some (decode_spec 32 45 s dst)"
  unfolding decode32Generic_def by (rule decode32Generic_on_eq [OF refl])

lemma decode64Generic_run:
  assumes "s \<noteq> []" "length s \<le> 90"
  shows "\<exists>im. length im = 18 \<and>
    (list_all b58_valid s \<longrightarrow> (\<forall>v \<in> set im. unat v < 58 ^ 5) \<and> bval (58 ^ 5) (map unat im) = str_val s) \<and>
    decode64Generic_on write s dst =
      (if \<not> list_all b58_valid s then Some (Some ErrInvalidChar, dst)
       else do { (ok, dst) \<leftarrow> write im dst;
            if \<not> ok then Some (Some ErrValueTooLarge, dst)
            else Some (validateLeadingZeros s dst, dst) })"
proof -
  have s: "0 < length s" "length s \<le> 5 * 18" using assms by simp_all
  let ?head = "if length s mod 5 = 0 then 5 else length s mod 5"
  let ?g0 = "18 - (length s + 4) div 5"
  obtain bad g where R: "readHead s ?head = Some (bad, g)" "?g0 < 18" "(length s + 4) div 5 \<le> 18"
    "64 \<le> bad \<longleftrightarrow> \<not> list_all b58_valid (take ?head s)"
    and G: "\<And>b. \<exists>b' im. groupLoop group64 s [?g0 + 1..<18] (?head, b, (replicate 18 0)[?g0 := ucast g]) = Some (length s, b', im) \<and>
       length im = 18 \<and> (64 \<le> b' \<longleftrightarrow> 64 \<le> b \<or> \<not> list_all b58_valid (drop ?head s)) \<and>
       (list_all b58_valid s \<longrightarrow>
         (\<forall>v \<in> set im. unat v < 58 ^ 5) \<and> bval (58 ^ 5) (map unat im) = str_val s)"
    using groups64.read_all [OF s] by metis
  obtain b' im where L: "groupLoop group64 s [?g0 + 1..<18] (?head, bad, (replicate 18 0)[?g0 := ucast g]) = Some (length s, b', im)"
    "length im = 18" "64 \<le> b' \<longleftrightarrow> 64 \<le> bad \<or> \<not> list_all b58_valid (drop ?head s)"
    "list_all b58_valid s \<longrightarrow>
         (\<forall>v \<in> set im. unat v < 58 ^ 5) \<and> bval (58 ^ 5) (map unat im) = str_val s"
    using G [of bad] by blast
  have bad: "64 \<le> b' \<longleftrightarrow> \<not> list_all b58_valid s"
  proof -
    have "list_all b58_valid s \<longleftrightarrow> list_all b58_valid (take ?head s) \<and> list_all b58_valid (drop ?head s)"
      using list_all_append [of b58_valid "take ?head s" "drop ?head s"] by (simp only: append_take_drop_id)
    then show ?thesis using R(4) L(3) by auto
  qed
  have "decode64Generic_on write s dst =
    (if 64 \<le> b' then Some (Some ErrInvalidChar, dst)
     else do { (ok, dst) \<leftarrow> write im dst;
            if \<not> ok then Some (Some ErrValueTooLarge, dst)
            else Some (validateLeadingZeros s dst, dst) })"
    using R(1-3) L(1) by (simp add: decode64Generic_on_def Let_def)
  then show ?thesis using L(2,4) unfolding bad by blast
qed

lemma decode64Generic_eq:
  assumes "length dst = 64" "s \<noteq> []" "length s \<le> 90"
  shows "decode64Generic s dst = Some (decode_spec 64 90 s dst)"
proof -
  obtain im where im: "length im = 18"
    "list_all b58_valid s \<longrightarrow> (\<forall>v \<in> set im. unat v < 58 ^ 5) \<and> bval (58 ^ 5) (map unat im) = str_val s"
    and run: "decode64Generic_on decode64Write s dst =
      (if \<not> list_all b58_valid s then Some (Some ErrInvalidChar, dst)
       else do { (ok, dst) \<leftarrow> decode64Write im dst;
            if \<not> ok then Some (Some ErrValueTooLarge, dst)
            else Some (validateLeadingZeros s dst, dst) })"
    using decode64Generic_run [OF assms(2,3)] by blast
  show ?thesis
  proof (cases "list_all b58_valid s")
    case True
    then have "decode64Write im dst = Some (if 256 ^ 64 \<le> str_val s then (False, dst) else (True, be_bytes 64 (str_val s)))"
      using im assms(1) by (intro decode64Write_eq) simp_all
    then show ?thesis
      unfolding decode64Generic_def run using True assms(2,3) decode_tail [of s 90 _ 64 dst] by simp
  next
    case False
    then show ?thesis unfolding decode64Generic_def run using assms(2,3) by (simp add: decode_spec_def)
  qed
qed

lemma Decode32_eq:
  assumes "length dst = 32"
  shows "Decode32 s dst = Some (decode_spec 32 45 s dst)"
proof (cases "s = [] \<or> 45 < length s")
  case False
  then show ?thesis using decode32Generic_eq [OF assms, of s] by (simp add: Decode32_def)
qed (auto simp: Decode32_def decode_spec_def)

lemma Decode64_eq:
  assumes "length dst = 64"
  shows "Decode64 s dst = Some (decode_spec 64 90 s dst)"
proof (cases "s = [] \<or> 90 < length s")
  case False
  then show ?thesis using decode64Generic_eq [OF assms, of s] by (simp add: Decode64_def)
qed (auto simp: Decode64_def decode_spec_def)

section \<open>Success is canonicity\<close>

lemma bytes_val_be_bytes: "n < 256 ^ k \<Longrightarrow> bytes_val (be_bytes k n) = n"
proof -
  assume n: "n < 256 ^ k"
  have "map (unat \<circ> (of_nat :: nat \<Rightarrow> u8)) (fixed 256 k n) = fixed 256 k n"
    by (intro map_idI) (auto simp: unat_of_nat_small dest: fixed_less [rotated])
  then show ?thesis using n by (simp add: bytes_val_def be_bytes_def)
qed

lemma be_bytes_bytes_val: "be_bytes (length bs) (bytes_val bs) = bs"
proof -
  have "fixed 256 (length (map unat bs)) (bval 256 (map unat bs)) = map unat bs"
    by (intro fixed_bval) auto
  then show ?thesis by (simp add: be_bytes_def bytes_val_def comp_def)
qed

lemma decode_spec_success:
  assumes "0 < nb" "\<And>src. length src = nb \<Longrightarrow> length (b58_encode src) \<le> maxLen"
  shows "decode_spec nb maxLen s dst = (None, out) \<longleftrightarrow> length out = nb \<and> b58_encode out = s"
proof
  assume ok: "decode_spec nb maxLen s dst = (None, out)"
  then have v: "list_all b58_valid s" "str_val s < 256 ^ nb"
    and out: "out = be_bytes nb (str_val s)" "leading 49 s = leading 0 out"
    by (auto simp: decode_spec_def Let_def split: if_splits)
  have "bytes_val out = str_val s" using v(2) by (simp add: out(1) bytes_val_be_bytes)
  then have "b58_encode out = s"
    using v(1) leading_split [of s 49] by (simp add: b58_encode_def b58_digits_str_val out(2))
  then show "length out = nb \<and> b58_encode out = s" by (simp add: out(1))
next
  assume enc: "length out = nb \<and> b58_encode out = s"
  then have "s \<noteq> []" using assms(1) b58_decode_encode [of out] by (auto simp: b58_decode_def)
  moreover have "str_val s < 256 ^ nb" using enc bytes_val_less [of out] by auto
  ultimately show "decode_spec nb maxLen s dst = (None, out)"
    using enc assms(2) [of out] be_bytes_bytes_val [of out] by (auto simp: decode_spec_def Let_def)
qed

lemma Decode32_success:
  "length dst = 32 \<Longrightarrow> Decode32 s dst = Some (None, out) \<longleftrightarrow> length out = 32 \<and> b58_encode out = s"
  using decode_spec_success [of 32 45 s dst out] le_trans [OF b58_encode_length32, of _ 45]
  by (simp add: Decode32_eq)

lemma Decode64_success:
  "length dst = 64 \<Longrightarrow> Decode64 s dst = Some (None, out) \<longleftrightarrow> length out = 64 \<and> b58_encode out = s"
  using decode_spec_success [of 64 90 s dst out] le_trans [OF b58_encode_length64, of _ 90]
  by (simp add: Decode64_eq)

end
