(* ===== verification/Asm_Memory.thy ===== *)
theory Asm_Memory
  imports Decode_Fixed
begin

text \<open>
  What the assembly files use of the machine: little-endian loads from a region of bytes, with the
  bounds of the region checked (\<open>None\<close> is an access outside), byte swaps, and 256-bit registers as
  lists of 32 bytes that the vector instructions read as lanes of a width of their own.
\<close>

section \<open>Filling an array\<close>

lemma fill_all:
  assumes "\<And>i. i < n \<Longrightarrow> f i = Some (g i)"
  shows "foldM (\<lambda>i r. do { v \<leftarrow> f i; upd r i v }) [0..<n] (replicate n z) = Some (map g [0..<n])"
proof -
  have "foldM (\<lambda>i r. do { v \<leftarrow> f i; upd r i v }) [0..<k] (replicate n z) = Some (map g [0..<k] @ replicate (n - k) z)" if "k \<le> n" for k
    using that
  proof (induction k)
    case (Suc k)
    then have "replicate (n - k) z = z # replicate (n - Suc k) z" by (simp add: Suc_diff_Suc flip: replicate_Suc)
    then show ?case using Suc assms [of k] by (simp add: list_update_append)
  qed simp
  from this [of n] show ?thesis by simp
qed

section \<open>Words in memory\<close>

text \<open>The bytes of a word from the lowest address on, and the word they are.\<close>

definition le_bytes :: "nat \<Rightarrow> 'a::len word \<Rightarrow> bytes" where
  "le_bytes n w = rev (be_bytes n (unat w))"

definition le_word :: "bytes \<Rightarrow> 'a::len word" where
  "le_word b = of_nat (bytes_val (rev b))"

text \<open>An array of words as it lies in memory.\<close>

definition mem_of :: "nat \<Rightarrow> 'a::len word list \<Rightarrow> bytes" where
  "mem_of n ws = concat (map (le_bytes n) ws)"

text \<open>\<open>MOVL\<close> and \<open>MOVQ\<close> from an address in a region.\<close>

definition load32 :: "bytes \<Rightarrow> nat \<Rightarrow> u32 option" where
  "load32 mem a = do { b \<leftarrow> subslice mem a (a + 4); Some (le_word b) }"

definition load64 :: "bytes \<Rightarrow> nat \<Rightarrow> u64 option" where
  "load64 mem a = do { b \<leftarrow> subslice mem a (a + 8); Some (le_word b) }"

text \<open>\<open>BSWAPL\<close> and \<open>REVW\<close>.\<close>

definition bswap32 :: "u32 \<Rightarrow> u32" where
  "bswap32 w = le_word (rev (le_bytes 4 w))"

lemma length_le_bytes [simp]: "length (le_bytes n w) = n"
  by (simp add: le_bytes_def)

lemma length_mem_of [simp]: "length (mem_of n ws) = n * length ws"
  by (simp add: mem_of_def length_concat comp_def sum_list_triv)

lemma fixed_zero: "fixed b k 0 = replicate k 0"
  by (induction k) (simp_all add: replicate_append_same)

lemma le_word_bytes:
  assumes "LENGTH('a) = 8 * n"
  shows "le_word (le_bytes n w) = (w :: 'a::len word)"
proof -
  have "unat w < 256 ^ n"
    using unat_lt_pow [of w] by (simp add: assms power_mult)
  then show ?thesis by (simp add: le_word_def le_bytes_def bytes_val_be_bytes)
qed

lemmas le_word_bytes_width =
  le_word_bytes [where 'a = 32 and n = 4, simplified]
  le_word_bytes [where 'a = 64 and n = 8, simplified]

lemma unat_le_word: "8 * length b \<le> LENGTH('a) \<Longrightarrow> unat (le_word b :: 'a::len word) = bytes_val (rev b)"
proof -
  assume "8 * length b \<le> LENGTH('a)"
  then have "(256 :: nat) ^ length b \<le> 2 ^ LENGTH('a)"
    using power_increasing [of "8 * length b" "LENGTH('a)" "2 :: nat"] by (simp add: power_mult)
  then show ?thesis using bytes_val_less [of "rev b"] by (simp add: le_word_def unat_of_nat_small)
qed

lemma le_bytes_word: "length b = n \<Longrightarrow> 8 * n \<le> LENGTH('a) \<Longrightarrow> le_bytes n (le_word b :: 'a::len word) = b"
  using be_bytes_bytes_val [of "rev b"] by (simp add: le_bytes_def unat_le_word)

lemma bswap32_load: "length b = 4 \<Longrightarrow> bswap32 (le_word b) = be_word b"
  by (simp add: bswap32_def le_bytes_word) (simp add: le_word_def be_word_def)

lemma mem_of_Nil [simp]: "mem_of n [] = []"
  by (simp add: mem_of_def)

lemma mem_of_append: "mem_of n (xs @ ys) = mem_of n xs @ mem_of n ys"
  by (simp add: mem_of_def)

lemma drop_mem_of: "drop (n * k) (mem_of n ws) = mem_of n (drop k ws)"
proof (cases "k \<le> length ws")
  case True
  have "mem_of n ws = mem_of n (take k ws) @ mem_of n (drop k ws)" by (simp flip: mem_of_append)
  then show ?thesis using True by simp
qed simp

lemma take_mem_of: "take (n * k) (mem_of n ws) = mem_of n (take k ws)"
proof (cases "k \<le> length ws")
  case True
  have "mem_of n ws = mem_of n (take k ws) @ mem_of n (drop k ws)" by (simp flip: mem_of_append)
  then show ?thesis using True by simp
qed simp

lemma subslice_mem_of:
  assumes "k + m \<le> length ws" "a = n * k" "c = a + n * m"
  shows "subslice (mem_of n ws) a c = Some (mem_of n (take m (drop k ws)))"
proof -
  have "n * k + n * m \<le> n * length ws" using assms(1) by (simp flip: distrib_left)
  then show ?thesis using assms(2,3) by (simp add: drop_mem_of take_mem_of)
qed

lemma mem_of_single: "mem_of n [w] = le_bytes n w"
  by (simp add: mem_of_def)

lemma load32_mem_of: "k < length ws \<Longrightarrow> load32 (mem_of 4 ws) (4 * k) = Some (ws ! k)"
  using subslice_mem_of [of k 1 ws "4 * k" 4 "4 * k + 4"]
  by (simp add: load32_def take_Suc hd_drop_conv_nth mem_of_single le_word_bytes_width)

lemma load64_mem_of: "k < length ws \<Longrightarrow> load64 (mem_of 8 ws) (8 * k) = Some (ws ! k)"
  using subslice_mem_of [of k 1 ws "8 * k" 8 "8 * k + 8"]
  by (simp add: load64_def take_Suc hd_drop_conv_nth mem_of_single le_word_bytes_width)

text \<open>A 32-bit load at a quadword reads its low half.\<close>

lemma load32_low:
  assumes "k < length ws" "unat (ws ! k :: u64) < 2 ^ 32"
  shows "load32 (mem_of 8 ws) (8 * k) = Some (ucast (ws ! k))"
proof -
  let ?b = "le_bytes 8 (ws ! k)"
  have "be_bytes 8 (unat (ws ! k)) = be_bytes 4 0 @ be_bytes 4 (unat (ws ! k))"
    using be_bytes_append [of "unat (ws ! k)" 4 4 0] assms(2) by simp
  then have "take 4 ?b = rev (be_bytes 4 (unat (ws ! k)))" by (simp add: le_bytes_def)
  then have "le_word (take 4 ?b) = (ucast (ws ! k) :: u32)"
    using assms(2) by (simp add: le_word_def bytes_val_be_bytes of_nat_unat)
  moreover have "drop (8 * k) (mem_of 8 ws) = ?b @ mem_of 8 (drop (Suc k) ws)"
    using assms(1) by (simp add: drop_mem_of Cons_nth_drop_Suc [symmetric]) (simp add: mem_of_def)
  moreover have "8 * k + 4 \<le> 8 * length ws" using assms(1) by simp
  ultimately show ?thesis by (simp add: load32_def)
qed

section \<open>Tables\<close>

lemma concat_rows_nth:
  assumes "\<forall>r \<in> set t. length r = s" "i < length t" "k < s"
  shows "concat t ! (s * i + k) = t ! i ! k"
  using assms
proof (induction t arbitrary: i)
  case (Cons r t)
  then show ?case by (cases i) (simp_all add: nth_append)
qed simp

lemma length_concat_rows: "\<forall>r \<in> set t. length r = s \<Longrightarrow> length (concat t) = s * length t"
  by (induction t) simp_all

lemma row_index:
  fixes s i k n :: nat
  assumes "i < n" "k < s"
  shows "s * i + k < s * n"
proof -
  have "s * i + k < s * Suc i" using assms(2) by simp
  also have "\<dots> \<le> s * n" using assms(1) by (intro mult_le_mono2) simp
  finally show ?thesis .
qed

lemma load32_table:
  assumes "\<forall>r \<in> set t. length r = s" "i < length t" "k < s"
  shows "load32 (mem_of 4 (concat t)) (4 * (s * i + k)) = Some (t ! i ! k)"
  using assms by (subst load32_mem_of) (simp_all add: concat_rows_nth length_concat_rows [OF assms(1)] row_index)

lemma ucast_down_up: "ucast (ucast (x :: u32) :: u64) = x"
proof -
  have "unat (ucast (ucast x :: u64) :: u32) = unat (ucast x :: u64)"
    using unat_lt_pow [of x] by (intro unat_ucast_small) simp
  then show ?thesis by (simp add: word_unat_eq_iff)
qed

section \<open>Vector registers\<close>

text \<open>The lanes of \<open>n\<close> bytes, from the lowest on.\<close>

definition lanes :: "nat \<Rightarrow> bytes \<Rightarrow> 'a::len word list" where
  "lanes n y = map (\<lambda>i. le_word (take n (drop (n * i) y))) [0..<length y div n]"

definition load256 :: "bytes \<Rightarrow> nat \<Rightarrow> bytes option" where
  "load256 mem a = subslice mem a (a + 32)"

definition vpbroadcastd :: "bytes \<Rightarrow> nat \<Rightarrow> bytes option" where
  "vpbroadcastd mem a = do { b \<leftarrow> subslice mem a (a + 4); Some (concat (replicate 8 b)) }"

text \<open>In each half of the register, the byte that the low four bits of the mask select, or zero.\<close>

definition pshufb :: "bytes \<Rightarrow> bytes \<Rightarrow> bytes" where
  "pshufb sel v = map (\<lambda>b. if bit b 7 then 0 else v ! unat (b AND 15)) sel"

definition vpshufb :: "bytes \<Rightarrow> bytes \<Rightarrow> bytes" where
  "vpshufb sel v = pshufb (take 16 sel) (take 16 v) @ pshufb (drop 16 sel) (drop 16 v)"

definition vpmuludq :: "bytes \<Rightarrow> bytes \<Rightarrow> bytes" where
  "vpmuludq x y = mem_of 8 
     (map2 (\<lambda>a b. ucast (ucast a :: u32) * ucast (ucast b :: u32) :: u64) (lanes 8 x :: u64 list) (lanes 8 y :: u64 list))"

definition vpaddq :: "bytes \<Rightarrow> bytes \<Rightarrow> bytes" where
  "vpaddq x y = mem_of 8 (map2 (+) (lanes 8 x) (lanes 8 y :: u64 list))"

lemma lanes_mem_of:
  assumes "LENGTH('a) = 8 * n" "0 < n"
  shows "lanes n (mem_of n ws) = (ws :: 'a::len word list)"
proof (rule nth_equalityI)
  fix i
  assume "i < length (lanes n (mem_of n ws) :: 'a word list)"
  then have i: "i < length ws" using assms(2) by (simp add: lanes_def)
  then have "take n (drop (n * i) (mem_of n ws)) = le_bytes n (ws ! i)"
    using take_mem_of [of n 1 "drop i ws"] by (simp add: drop_mem_of take_Suc hd_drop_conv_nth mem_of_single)
  then show "lanes n (mem_of n ws) ! i = ws ! i"
    using i assms by (simp add: lanes_def le_word_bytes)
qed (use assms(2) in \<open>simp add: lanes_def\<close>)

lemmas lanes_mem_of_width =
  lanes_mem_of [where 'a = 8 and n = 1, simplified]
  lanes_mem_of [where 'a = 16 and n = 2, simplified]
  lanes_mem_of [where 'a = 32 and n = 4, simplified]
  lanes_mem_of [where 'a = 64 and n = 8, simplified]

lemma length_lanes [simp]: "length (lanes n y) = length y div n"
  by (simp add: lanes_def)

end
