(* ===== verification/Amd64_Matmul.thy ===== *)
theory Amd64_Matmul
  imports Matmul
begin

text \<open>
  The amd64 build of the matrix products (\<open>matmul_amd64.go\<close>).  The Go functions are modelled; the
  assembly kernels they call are the fields of a record, the first argument of every definition,
  and what the comments above the kernels document of them is the contract \<open>matmul_documented\<close>.
  A kernel takes the array it writes to and returns it updated.  Under the contract both builds
  compute the same arrays, word for word.
\<close>

section \<open>The kernels and their documentation\<close>

record matmul_kernels =
  useAVX2 :: bool
  encodeMatMul32Scalar :: "bytes \<Rightarrow> u64 list \<Rightarrow> u64 list"
  encodeMatMul32AVX2 :: "bytes \<Rightarrow> u64 list \<Rightarrow> u64 list"
  decodeMatMul32Scalar :: "u64 list \<Rightarrow> u64 list \<Rightarrow> u64 list"
  decodeMatMul32AVX2 :: "u64 list \<Rightarrow> u64 list \<Rightarrow> u64 list"
  encodeMatMul64Head :: "bytes \<Rightarrow> u64 list \<Rightarrow> u64 list"
  encodeMatMul64HeadAVX2 :: "bytes \<Rightarrow> u64 list \<Rightarrow> u64 list"
  decodeMatMul64Head :: "u64 list \<Rightarrow> u64 list \<Rightarrow> u64 list"
  decodeMatMul64AVX2 :: "u64 list \<Rightarrow> u64 list \<Rightarrow> u64 list"

text \<open>\<open>intermediate[k+1] += bswap32(src[4i:4i+4]) * table[i][k]\<close> and \<open>bin[k] += intermediate[i] * table[i][k]\<close>.\<close>

definition enc_sum :: "bytes \<Rightarrow> u32 list list \<Rightarrow> nat \<Rightarrow> nat \<Rightarrow> u64" where
  "enc_sum src table rows k =
     sum_list (map (\<lambda>i. ucast (be_word (take 4 (drop (4 * i) src))) * ucast (table ! i ! k)) [0..<rows])"

definition dec_sum :: "u64 list \<Rightarrow> u32 list list \<Rightarrow> nat \<Rightarrow> nat \<Rightarrow> u64" where
  "dec_sum im table rows k = sum_list (map (\<lambda>i. im ! i * ucast (table ! i ! k)) [0..<rows])"

text \<open>
  The 32-byte kernels compute the whole product, the head kernels the first eight rows (nine for
  decoding) into an array that the caller has cleared, and the fused decode kernel all rows.  The
  decode kernels need limbs below \<open>58 ^ 5\<close>: they read the low half of each.
\<close>

definition matmul_documented :: "'a matmul_kernels_scheme \<Rightarrow> bool" where
  "matmul_documented k \<longleftrightarrow>
     (\<forall>f \<in> {encodeMatMul32Scalar k, encodeMatMul32AVX2 k}. \<forall>src. length src = 32 \<longrightarrow>
        f src (replicate 9 0) = 0 # map (enc_sum src encTable32 8) [0..<8]) \<and>
     (\<forall>f \<in> {decodeMatMul32Scalar k, decodeMatMul32AVX2 k}. \<forall>im. length im = 9 \<and> (\<forall>v \<in> set im. unat v < 58 ^ 5) \<longrightarrow>
        f im (replicate 8 0) = map (dec_sum im decTable32 9) [0..<8]) \<and>
     (\<forall>f \<in> {encodeMatMul64Head k, encodeMatMul64HeadAVX2 k}. \<forall>src. length src = 64 \<longrightarrow>
        f src (replicate 18 0) = 0 # map (enc_sum src encTable64 8) [0..<17]) \<and>
     (\<forall>im. length im = 18 \<and> (\<forall>v \<in> set im. unat v < 58 ^ 5) \<longrightarrow>
        decodeMatMul64Head k im (replicate 16 0) = map (dec_sum im decTable64 9) [0..<16] \<and>
        decodeMatMul64AVX2 k im (replicate 16 0) = map (dec_sum im decTable64 18) [0..<16])"

section \<open>The Go functions\<close>

definition encodeMatMul32_amd64 :: "'a matmul_kernels_scheme \<Rightarrow> bytes \<Rightarrow> u64 list \<Rightarrow> u64 list" where
  "encodeMatMul32_amd64 k src intermediate =
     (if useAVX2 k then encodeMatMul32AVX2 k src intermediate
      else encodeMatMul32Scalar k src intermediate)"

definition decodeMatMul32_amd64 :: "'a matmul_kernels_scheme \<Rightarrow> u64 list \<Rightarrow> u64 list \<Rightarrow> u64 list" where
  "decodeMatMul32_amd64 k intermediate bin =
     (if useAVX2 k then decodeMatMul32AVX2 k intermediate bin
      else decodeMatMul32Scalar k intermediate bin)"

text \<open>The tables widened for the vector kernels; \<open>init\<close> leaves them zero without AVX2.\<close>

definition widen :: "bool \<Rightarrow> nat \<Rightarrow> nat \<Rightarrow> nat \<Rightarrow> u32 list list \<Rightarrow> u64 list list" where
  "widen avx2 rows cols width table =
     (if avx2
      then fold (\<lambda>i t. t[i := fold (\<lambda>k row. row[k := ucast (table ! i ! k)]) [0..<cols] (t ! i)])
             [0..<rows] (replicate rows (replicate width 0))
      else replicate rows (replicate width 0))"

definition encWide64 :: "bool \<Rightarrow> u64 list list" where
  "encWide64 avx2 = widen avx2 8 (intermediateSz64 - 1) 20 encTable64"

definition decWide64 :: "bool \<Rightarrow> u64 list list" where
  "decWide64 avx2 = widen avx2 9 binarySz64 16 decTable64"

definition encWide32 :: "bool \<Rightarrow> u64 list list" where
  "encWide32 avx2 = widen avx2 8 (intermediateSz32 - 1) 8 encTable32"

definition decWide32 :: "bool \<Rightarrow> u64 list list" where
  "decWide32 avx2 = widen avx2 9 binarySz32 8 decTable32"

definition decodeMatMul64_amd64 :: "'a matmul_kernels_scheme \<Rightarrow> u64 list \<Rightarrow> u64 list \<Rightarrow> u64 list option" where
  "decodeMatMul64_amd64 k intermediate bin =
     (if useAVX2 k then Some (decodeMatMul64AVX2 k intermediate bin)
      else do {
        let bin = decodeMatMul64Head k intermediate bin;
        w \<leftarrow> subslice intermediate 9 (9 + intermediateSz32);
        let tail = decodeMatMul32_amd64 k w (replicate binarySz32 0);
        foldM (\<lambda>j bin. do { t \<leftarrow> idx tail j; b \<leftarrow> idx bin (j + 8); upd bin (j + 8) (b + t) })
          [0..<binarySz32] bin })"

definition encodeMatMul64_amd64 :: "'a matmul_kernels_scheme \<Rightarrow> bytes \<Rightarrow> u64 list \<Rightarrow> u64 list option" where
  "encodeMatMul64_amd64 k src intermediate =
     do { let im = (if useAVX2 k then encodeMatMul64HeadAVX2 k src intermediate
                    else encodeMatMul64Head k src intermediate);
          p \<leftarrow> idx im (intermediateSz64 - 2);
          q \<leftarrow> idx im (intermediateSz64 - 3);
          im \<leftarrow> upd im (intermediateSz64 - 3) (q + p div r1div);
          im \<leftarrow> upd im (intermediateSz64 - 2) (p mod r1div);
          w \<leftarrow> subslice src 32 64;
          let tail = encodeMatMul32_amd64 k w (replicate intermediateSz32 0);
          foldM (\<lambda>j im. do { t \<leftarrow> idx tail j; v \<leftarrow> idx im (j + 9); upd im (j + 9) (v + t) })
            [1..<intermediateSz32] im }"

text \<open>A loop that overwrites the elements in front.\<close>

lemma fold_update:
  "n \<le> length t \<Longrightarrow> fold (\<lambda>i t. t[i := g i (t ! i)]) [0..<n] t = map (\<lambda>i. g i (t ! i)) [0..<n] @ drop n t"
proof (induction n)
  case (Suc n)
  then have "drop n t = t ! n # drop (Suc n) t" by (simp add: Cons_nth_drop_Suc)
  then show ?case using Suc by (simp add: nth_append list_update_append)
qed simp

text \<open>The widened tables hold the entries of the narrow ones, and zeros behind them.\<close>

lemma widen_eq:
  assumes "cols \<le> width"
  shows "widen True rows cols width table =
    map (\<lambda>i. map (\<lambda>k. ucast (table ! i ! k)) [0..<cols] @ replicate (width - cols) 0) [0..<rows]"
proof -
  have row: "fold (\<lambda>k row. row[k := ucast (table ! i ! k)]) [0..<cols] (replicate width 0) =
      map (\<lambda>k. ucast (table ! i ! k)) [0..<cols] @ replicate (width - cols) (0 :: u64)" for i
    using fold_update [of cols "replicate width 0" "\<lambda>k _. ucast (table ! i ! k)"] assms by simp
  have "widen True rows cols width table =
      map (\<lambda>i. fold (\<lambda>k row. row[k := ucast (table ! i ! k)]) [0..<cols] (replicate rows (replicate width 0) ! i)) [0..<rows]"
    using fold_update [of rows "replicate rows (replicate width 0)"
        "\<lambda>i r. fold (\<lambda>k row. row[k := ucast (table ! i ! k)]) [0..<cols] r"]
    by (simp add: widen_def)
  also have "\<dots> = map (\<lambda>i. map (\<lambda>k. ucast (table ! i ! k)) [0..<cols] @ replicate (width - cols) 0) [0..<rows]"
    by (intro map_cong refl) (simp add: row)
  finally show ?thesis .
qed

section \<open>Columns of the portable products\<close>

lemma fold_macRow_nth:
  "j < length acc \<Longrightarrow> fold (\<lambda>i. macRow (b i) (rows ! i) (lo i) (hi i) off) js acc ! j =
     acc ! j + sum_list (map (\<lambda>i. if off + lo i \<le> j \<and> j < off + hi i then b i * ucast (rows ! i ! (j - off)) else 0) js)"
  by (induction js arbitrary: acc) (simp_all add: macRow_nth add.assoc)

lemma length_fold_macRow [simp]:
  "length (fold (\<lambda>i. macRow (b i) (rows ! i) (lo i) (hi i) off) js acc) = length acc"
  by (induction js arbitrary: acc) simp_all

text \<open>Skipping the zero entries of a row does not change a column.\<close>

lemma fold_macRow_column:
  assumes "j < length acc" "off \<le> j" "\<forall>i \<in> set js. covers (lo i) (hi i) (rows ! i) \<and> j - off < length (rows ! i)"
  shows "fold (\<lambda>i. macRow (b i) (rows ! i) (lo i) (hi i) off) js acc ! j =
    acc ! j + sum_list (map (\<lambda>i. b i * ucast (rows ! i ! (j - off))) js)"
proof -
  have "(if off + lo i \<le> j \<and> j < off + hi i then b i * ucast (rows ! i ! (j - off)) else 0)
      = b i * ucast (rows ! i ! (j - off))" if "i \<in> set js" for i
    using that assms(2,3) unfolding covers_def by (auto simp: not_le not_less)
  then show ?thesis
    unfolding fold_macRow_nth [OF assms(1)] by (intro arg_cong2 [where f = "(+)"] refl arg_cong [where f = sum_list] map_cong)
qed

lemma fold_macRow_left:
  assumes "j < length acc" "j < off"
  shows "fold (\<lambda>i. macRow (b i) (rows ! i) (lo i) (hi i) off) js acc ! j = acc ! j"
proof -
  have "(if off + lo i \<le> j \<and> j < off + hi i then b i * ucast (rows ! i ! (j - off)) else 0) = 0" for i
    using assms(2) by simp
  then show ?thesis unfolding fold_macRow_nth [OF assms(1)] by simp
qed

text \<open>The lower rows of the 64-byte tables are the rows of the 32-byte tables behind zeros.\<close>

lemma encTable64_low: "i < 8 \<Longrightarrow> encTable64 ! (i + 8) = replicate 9 0 @ encTable32 ! i"
proof -
  have "map (\<lambda>i. encTable64 ! (i + 8)) [0..<8] = map (\<lambda>i. replicate 9 0 @ encTable32 ! i) [0..<8]"
    by (simp add: encTable64_def encTable32_def upt_rec replicate_numeral)
  then show "i < 8 \<Longrightarrow> encTable64 ! (i + 8) = replicate 9 0 @ encTable32 ! i"
    by (metis (no_types, lifting) add_0 diff_zero length_upt nth_map nth_upt)
qed

lemma decTable64_low: "i < 9 \<Longrightarrow> decTable64 ! (i + 9) = replicate 8 0 @ decTable32 ! i"
proof -
  have "map (\<lambda>i. decTable64 ! (i + 9)) [0..<9] = map (\<lambda>i. replicate 8 0 @ decTable32 ! i) [0..<9]"
    by (simp add: decTable64_def decTable32_def upt_rec replicate_numeral)
  then show "i < 9 \<Longrightarrow> decTable64 ! (i + 9) = replicate 8 0 @ decTable32 ! i"
    by (metis (no_types, lifting) add_0 diff_zero length_upt nth_map nth_upt)
qed

lemma upt_shift: "[a..<a + n] = map (\<lambda>i. i + a) [0..<n]"
  by (simp add: map_add_upt add.commute)

lemma be_words_nth: "i < n \<Longrightarrow> be_words n src ! i = be_word (take 4 (drop (4 * i) src))"
  by (simp add: be_words_def)

lemma sum_words:
  "n \<le> m \<Longrightarrow> sum_list (map (\<lambda>i. ucast (be_words m src ! i) * f i) [0..<n]) =
    sum_list (map (\<lambda>i. ucast (be_word (take 4 (drop (4 * i) src))) * f i) [0..<n])"
  for f :: "nat \<Rightarrow> u64"
  by (intro arg_cong [where f = sum_list] map_cong) (simp_all add: be_words_nth)

lemma product_columns:
  assumes "\<forall>i < r. covers (lo i) (hi i) (rows ! i) \<and> length (rows ! i) = n"
  shows "fold (\<lambda>i. macRow (b i) (rows ! i) (lo i) (hi i) off) [0..<r] (replicate (off + n) 0)
    = replicate off 0 @ map (\<lambda>c. sum_list (map (\<lambda>i. b i * ucast (rows ! i ! c)) [0..<r])) [0..<n]"
    (is "?im = _")
proof (rule nth_equalityI)
  fix j
  assume "j < length ?im"
  then have j: "j < off + n" by simp
  show "?im ! j = (replicate off 0 @ map (\<lambda>c. sum_list (map (\<lambda>i. b i * ucast (rows ! i ! c)) [0..<r])) [0..<n]) ! j"
  proof (cases "j < off")
    case True
    then show ?thesis using j by (simp add: fold_macRow_left nth_append)
  next
    case False
    have "?im ! j = replicate (off + n) 0 ! j + sum_list (map (\<lambda>i. b i * ucast (rows ! i ! (j - off))) [0..<r])"
      using j False assms by (intro fold_macRow_column) auto
    moreover have "[0..<n] ! (j - off) = j - off" using j False by simp
    ultimately show ?thesis using j False by (simp add: nth_append)
  qed
qed simp

lemma encodeMatMul32_columns:
  assumes "length src = 32"
  shows "encodeMatMul32 src (replicate 9 0) = Some (0 # map (enc_sum src encTable32 8) [0..<8])"
proof -
  have "\<forall>i < 8. covers 0 8 (encTable32 ! i) \<and> length (encTable32 ! i) = 8"
    by (simp add: covers_full encTable32_nth)
  from product_columns [OF this, of "\<lambda>i. ucast (be_words 8 src ! i)" 1] show ?thesis
    using assms by (simp add: encodeMatMul32_def loadWords_eq [of src 8] sum_words enc_sum_def [abs_def])
qed

lemma decodeMatMul32_columns: "decodeMatMul32 im (replicate 8 0) = map (dec_sum im decTable32 9) [0..<8]"
proof -
  have "\<forall>i < 9. covers 0 8 (decTable32 ! i) \<and> length (decTable32 ! i) = 8"
    by (simp add: covers_full decTable32_nth)
  from product_columns [OF this, of "\<lambda>i. im ! i" 0] show ?thesis
    by (simp add: decodeMatMul32_def dec_sum_def [abs_def])
qed

lemma decodeMatMul64_columns: "decodeMatMul64 im (replicate 16 0) = map (dec_sum im decTable64 18) [0..<16]"
proof -
  have "\<forall>i < 18. covers (fst (decRowBounds64 ! i)) (snd (decRowBounds64 ! i)) (decTable64 ! i) \<and> length (decTable64 ! i) = 16"
    by (simp add: covers_row_bounds decRowBounds64_nth decTable64_nth)
  from product_columns [OF this, of "\<lambda>i. im ! i" 0] show ?thesis
    by (simp add: decodeMatMul64_def dec_sum_def [abs_def])
qed

section \<open>Adding the product of the low half\<close>

lemma add_shifted:
  fixes im :: "u64 list"
  assumes "b + d \<le> length im" "b \<le> length tail"
  shows "foldM (\<lambda>j im. do { t \<leftarrow> idx tail j; v \<leftarrow> idx im (j + d); upd im (j + d) (v + t) }) [a..<b] im
    = Some (map (\<lambda>j. im ! j + (if a + d \<le> j \<and> j < b + d then tail ! (j - d) else 0)) [0..<length im])"
  using assms
proof (induction b)
  case 0
  have "map (\<lambda>j. im ! j + (if a + d \<le> j \<and> j < 0 + d then tail ! (j - d) else 0)) [0..<length im] = im"
    by (intro nth_equalityI) auto
  then show ?case by simp
next
  case (Suc b)
  let ?f = "\<lambda>b j. im ! j + (if a + d \<le> j \<and> j < b + d then tail ! (j - d) else 0)"
  show ?case
  proof (cases "a \<le> b")
    case True
    have "(map (?f b) [0..<length im])[b + d := im ! (b + d) + tail ! b] = map (?f (Suc b)) [0..<length im]"
      using Suc.prems True by (intro nth_equalityI) (auto simp: nth_list_update)
    then show ?thesis using Suc True by simp
  next
    case False
    then have "map (?f (Suc b)) [0..<length im] = im" by (intro nth_equalityI) auto
    then show ?thesis using False by (simp add: map_nth)
  qed
qed

lemma enc_sum_low:
  assumes "length src = 64" "c < 17"
  shows "sum_list (map (\<lambda>i. ucast (be_words 16 src ! i) * ucast (encTable64 ! i ! c)) [8..<16])
    = (if 9 \<le> c then enc_sum (drop 32 src) encTable32 8 (c - 9) else 0)"
proof -
  have "sum_list (map (\<lambda>i. ucast (be_words 16 src ! i) * ucast (encTable64 ! i ! c)) [8..<16])
      = sum_list (map (\<lambda>i. ucast (be_words 16 src ! (i + 8)) * (ucast (encTable64 ! (i + 8) ! c) :: u64)) [0..<8])"
    using upt_shift [of 8 8] by (simp add: comp_def)
  also have "\<dots> = sum_list (map (\<lambda>i. if 9 \<le> c then ucast (be_word (take 4 (drop (4 * i) (drop 32 src)))) *
      ucast (encTable32 ! i ! (c - 9)) else 0) [0..<8])"
    using assms(2) by (intro arg_cong [where f = sum_list] map_cong)
      (auto simp: be_words_nth encTable64_low nth_append add.commute)
  finally show ?thesis by (simp add: enc_sum_def)
qed

lemma dec_sum_low:
  assumes "c < 16" "length im = 18"
  shows "dec_sum im decTable64 18 c = dec_sum im decTable64 9 c + (if 8 \<le> c then dec_sum (drop 9 im) decTable32 9 (c - 8) else 0)"
proof -
  have "sum_list (map (\<lambda>i. im ! i * ucast (decTable64 ! i ! c)) [9..<18])
      = sum_list (map (\<lambda>i. im ! (i + 9) * ucast (decTable64 ! (i + 9) ! c)) [0..<9])"
    using upt_shift [of 9 9] by (simp add: comp_def)
  also have "\<dots> = sum_list (map (\<lambda>i. if 8 \<le> c then drop 9 im ! i * ucast (decTable32 ! i ! (c - 8)) else 0) [0..<9])"
    using assms by (intro arg_cong [where f = sum_list] map_cong)
      (auto simp: decTable64_low nth_append add.commute)
  finally have low: "sum_list (map (\<lambda>i. im ! i * ucast (decTable64 ! i ! c)) [9..<18])
      = (if 8 \<le> c then dec_sum (drop 9 im) decTable32 9 (c - 8) else 0)" by (simp add: dec_sum_def)
  have "[0..<18] = [0..<9] @ [9..<18]" using upt_add_eq_append [of 0 9 9] by simp
  then show ?thesis unfolding dec_sum_def [of im decTable64] low [symmetric] by simp
qed

section \<open>Both builds compute the same products\<close>

lemma encodeMatMul32_amd64_eq:
  assumes "matmul_documented k" "length src = 32"
  shows "Some (encodeMatMul32_amd64 k src (replicate 9 0)) = encodeMatMul32 src (replicate 9 0)"
  using assms by (simp add: matmul_documented_def encodeMatMul32_amd64_def encodeMatMul32_columns)

lemma decodeMatMul32_amd64_eq:
  assumes "matmul_documented k" "length im = 9" "\<forall>v \<in> set im. unat v < 58 ^ 5"
  shows "decodeMatMul32_amd64 k im (replicate 8 0) = decodeMatMul32 im (replicate 8 0)"
  using assms unfolding matmul_documented_def decodeMatMul32_amd64_def decodeMatMul32_columns by simp

lemma decodeMatMul64_amd64_eq:
  assumes "matmul_documented k" "length im = 18" "\<forall>v \<in> set im. unat v < 58 ^ 5"
  shows "decodeMatMul64_amd64 k im (replicate 16 0) = Some (decodeMatMul64 im (replicate 16 0))"
proof (cases "useAVX2 k")
  case True
  then show ?thesis
    using assms unfolding matmul_documented_def decodeMatMul64_amd64_def decodeMatMul64_columns by simp
next
  case False
  have im: "length (drop 9 im) = 9" "\<forall>v \<in> set (drop 9 im). unat v < 58 ^ 5"
    using assms(2,3) set_drop_subset [of 9 im] by (simp, blast)
  have tail: "decodeMatMul32_amd64 k (drop 9 im) (replicate 8 0) = map (dec_sum (drop 9 im) decTable32 9) [0..<8]"
    using decodeMatMul32_amd64_eq [OF assms(1) im] by (simp add: decodeMatMul32_columns)
  let ?h = "map (dec_sum im decTable64 9) [0..<16]"
  have "decodeMatMul64Head k im (replicate 16 0) = ?h"
    using assms unfolding matmul_documented_def by blast
  then have "decodeMatMul64_amd64 k im (replicate 16 0) =
      Some (map (\<lambda>j. ?h ! j + (if 0 + 8 \<le> j \<and> j < 8 + 8 then map (dec_sum (drop 9 im) decTable32 9) [0..<8] ! (j - 8) else 0)) [0..<length ?h])"
    using False assms(2) tail add_shifted [of 8 8 ?h "map (dec_sum (drop 9 im) decTable32 9) [0..<8]" 0]
    by (simp add: decodeMatMul64_amd64_def del: nth_map map_map)
  also have "\<dots> = Some (map (dec_sum im decTable64 18) [0..<16])"
    using assms(2) by (intro arg_cong [where f = Some] map_cong) (auto simp: dec_sum_low)
  finally show ?thesis unfolding decodeMatMul64_columns .
qed

lemma encodeMatMul64_amd64_eq:
  assumes "matmul_documented k" "length src = 64"
  shows "encodeMatMul64_amd64 k src (replicate 18 0) = encodeMatMul64 src (replicate 18 0)"
proof -
  let ?A = "0 # map (enc_sum src encTable64 8) [0..<17]"
  let ?t = "0 # map (enc_sum (drop 32 src) encTable32 8) [0..<8]"
  let ?row = "\<lambda>i. macRow (ucast (be_words 16 src ! i)) (encTable64 ! i) (fst (encRowBounds64 ! i)) (snd (encRowBounds64 ! i)) 1"
  have rows: "covers (fst (encRowBounds64 ! i)) (snd (encRowBounds64 ! i)) (encTable64 ! i) \<and> length (encTable64 ! i) = 17"
    if "i < 16" for i
    using that by (simp add: covers_row_bounds encRowBounds64_nth encTable64_nth)
  have head: "(if useAVX2 k then encodeMatMul64HeadAVX2 k src (replicate 18 0) else encodeMatMul64Head k src (replicate 18 0)) = ?A"
    using assms unfolding matmul_documented_def by simp
  have tail: "encodeMatMul32_amd64 k (drop 32 src) (replicate 9 0) = ?t"
    using encodeMatMul32_amd64_eq [OF assms(1), of "drop 32 src"] assms(2) by (simp add: encodeMatMul32_columns)
  have A: "fold ?row [0..<8] (replicate 18 0) = ?A"
    using product_columns [of 8 "\<lambda>i. fst (encRowBounds64 ! i)" "\<lambda>i. snd (encRowBounds64 ! i)" encTable64 17
        "\<lambda>i. ucast (be_words 16 src ! i)" 1] rows
    by (simp add: sum_words enc_sum_def [abs_def])
  have lm: "length (mini_reduce ?A) = 18" by (simp add: mini_reduce_def Let_def)
  have portable: "fold ?row [8..<16] (mini_reduce ?A) =
      map (\<lambda>j. mini_reduce ?A ! j + (if 1 + 9 \<le> j \<and> j < 9 + 9 then ?t ! (j - 9) else 0)) [0..<length (mini_reduce ?A)]"
  proof (rule nth_equalityI)
    fix j
    assume "j < length (fold ?row [8..<16] (mini_reduce ?A))"
    then have j: "j < 18" by (simp add: lm)
    show "fold ?row [8..<16] (mini_reduce ?A) ! j =
      map (\<lambda>j. mini_reduce ?A ! j + (if 1 + 9 \<le> j \<and> j < 9 + 9 then ?t ! (j - 9) else 0)) [0..<length (mini_reduce ?A)] ! j"
    proof (cases j)
      case 0
      then have "fold ?row [8..<16] (mini_reduce ?A) ! j = mini_reduce ?A ! j"
        by (intro fold_macRow_left) (simp_all add: lm)
      then show ?thesis using 0 lm by simp
    next
      case (Suc c)
      have "fold ?row [8..<16] (mini_reduce ?A) ! j = mini_reduce ?A ! j +
          sum_list (map (\<lambda>i. ucast (be_words 16 src ! i) * ucast (encTable64 ! i ! (j - 1))) [8..<16])"
        using j Suc lm rows by (intro fold_macRow_column) auto
      also have "\<dots> = mini_reduce ?A ! j + (if 9 \<le> c then enc_sum (drop 32 src) encTable32 8 (c - 9) else 0)"
        using enc_sum_low [OF assms(2), of c] j Suc by simp
      finally show ?thesis using j Suc lm by (auto simp: nth_Cons' Suc_diff_le)
    qed
  qed (simp add: lm)
  have "encodeMatMul64_amd64 k src (replicate 18 0) =
      foldM (\<lambda>j im. do { t \<leftarrow> idx ?t j; v \<leftarrow> idx im (j + 9); upd im (j + 9) (v + t) }) [1..<9] (mini_reduce ?A)"
    using assms(2) tail head by (simp add: encodeMatMul64_amd64_def mini_reduce_def Let_def)
  also have "\<dots> = Some (fold ?row [8..<16] (mini_reduce ?A))"
    unfolding portable by (intro add_shifted) (simp_all add: lm)
  finally show ?thesis using encodeMatMul64_alt [OF assms(2)] A by (simp add: Let_def)
qed

text \<open>The contract can be met: kernels that follow their documentation to the letter.\<close>

definition reference_matmul :: "bool \<Rightarrow> matmul_kernels" where
  "reference_matmul avx2 =
     (let enc32 = (\<lambda>src im. im ! 0 # map (enc_sum src encTable32 8) [0..<8]);
          dec32 = (\<lambda>im bin. map (dec_sum im decTable32 9) [0..<8]);
          enc64 = (\<lambda>src im. im ! 0 # map (enc_sum src encTable64 8) [0..<17])
      in \<lparr>useAVX2 = avx2, encodeMatMul32Scalar = enc32, encodeMatMul32AVX2 = enc32,
          decodeMatMul32Scalar = dec32, decodeMatMul32AVX2 = dec32,
          encodeMatMul64Head = enc64, encodeMatMul64HeadAVX2 = enc64,
          decodeMatMul64Head = (\<lambda>im bin. map (dec_sum im decTable64 9) [0..<16]),
          decodeMatMul64AVX2 = (\<lambda>im bin. map (dec_sum im decTable64 18) [0..<16])\<rparr>)"

lemma reference_matmul: "matmul_documented (reference_matmul avx2)"
  by (simp add: matmul_documented_def reference_matmul_def Let_def)

end
