(* ===== verification/Amd64_Text.thy ===== *)
theory Amd64_Text
  imports Amd64_Matmul Encode_Fixed Decode_Fixed
begin

text \<open>
  The amd64 build of digit extraction and of the fixed-width operations (\<open>chars_amd64.go\<close>,
  \<open>append32_amd64.go\<close>, \<open>encode64_amd64.go\<close>, \<open>encode_full_amd64.go\<close>, \<open>decode_fixed_amd64.go\<close>,
  \<open>decode_fused_amd64.go\<close>).  The assembly kernels are again fields of a record.  A kernel that writes
  through a pointer takes the bytes from there to the end of the array and returns them updated.
\<close>

section \<open>The kernels\<close>

record text_kernels = matmul_kernels +
  digitsToChars16Fast :: "u64 list \<Rightarrow> bytes \<Rightarrow> bytes"
  digitsToChars36 :: "u64 list \<Rightarrow> bytes \<Rightarrow> bytes"
  encode32AppendAVX2 :: "bytes \<Rightarrow> bytes \<Rightarrow> nat \<times> bytes"
  encode64DirectAVX2 :: "bytes \<Rightarrow> bytes \<Rightarrow> nat \<times> bytes"
  encode64FullAppendAVX2 :: "bytes \<Rightarrow> bytes \<Rightarrow> nat \<times> bytes"
  encode64FullOwnedAVX2 :: "bytes \<Rightarrow> bytes \<Rightarrow> nat \<times> bytes"
  encode64FullAVX2 :: "bytes \<Rightarrow> bytes \<Rightarrow> bool \<Rightarrow> nat \<times> bytes"
  decode32FusedAVX2 :: "bytes \<Rightarrow> nat \<Rightarrow> bytes \<Rightarrow> nat \<times> bytes"
  decode32Fused43AVX2 :: "bytes \<Rightarrow> bytes \<Rightarrow> nat \<times> bytes"
  decode64FusedAVX2 :: "bytes \<Rightarrow> nat \<Rightarrow> bytes \<Rightarrow> nat \<times> bytes"
  decode64Fused87AVX2 :: "bytes \<Rightarrow> bytes \<Rightarrow> nat \<times> bytes"
  decode32WriteAsm :: "u64 list \<Rightarrow> bytes \<Rightarrow> bool \<times> bytes"
  decode64WriteAsm :: "u64 list \<Rightarrow> bytes \<Rightarrow> bool \<times> bytes"

section \<open>Digit extraction\<close>

definition extractChars32_amd64 :: "u64 list \<Rightarrow> bytes \<Rightarrow> bytes option" where
  "extractChars32_amd64 intermediate raw = extractChars32Generic intermediate raw"

text \<open>The kernel for sixteen limbs and two scalar limbs behind it.\<close>

definition render18 :: "'a text_kernels_scheme \<Rightarrow> u64 list \<Rightarrow> bytes \<Rightarrow> bytes option" where
  "render18 k intermediate raw =
     do { let raw = digitsToChars16Fast k intermediate raw;
          v \<leftarrow> idx intermediate 16;
          raw \<leftarrow> on_slice raw 80 85 (extractChars5 (ucast v));
          v \<leftarrow> idx intermediate 17;
          on_slice raw 85 90 (extractChars5 (ucast v)) }"

definition extractChars64_amd64 :: "'a text_kernels_scheme \<Rightarrow> u64 list \<Rightarrow> bytes \<Rightarrow> bytes option" where
  "extractChars64_amd64 k intermediate raw =
     (if useAVX2 k then render18 k intermediate raw else extractChars64Generic intermediate raw)"

definition extractCharsFlat36_amd64 :: "'a text_kernels_scheme \<Rightarrow> u64 list \<Rightarrow> bytes \<Rightarrow> bytes option" where
  "extractCharsFlat36_amd64 k flat raws =
     (if useAVX2 k
      then do { _ \<leftarrow> idx raws 185; Some (digitsToChars36 k flat raws) }
      else foldM (\<lambda>(i, v) raws. on_slice raws (5 * i) (5 * i + 5) (extractChars5 (ucast v)))
             (enumerate 0 flat) raws)"

definition extractCharsFlat72_amd64 :: "'a text_kernels_scheme \<Rightarrow> u64 list \<Rightarrow> bytes \<Rightarrow> bytes option" where
  "extractCharsFlat72_amd64 k flat raws =
     (if useAVX2 k
      then do { _ \<leftarrow> idx raws 365;
                let raws = digitsToChars36 k flat raws;
                on_slice raws 180 (length raws) (\<lambda>w. Some (digitsToChars36 k (drop 36 flat) w)) }
      else foldM (\<lambda>(i, v) raws. on_slice raws (5 * i) (5 * i + 5) (extractChars5 (ucast v)))
             (enumerate 0 flat) raws)"

definition encode64Write_amd64 :: "'a text_kernels_scheme \<Rightarrow> u64 list \<Rightarrow> nat \<Rightarrow> nat \<Rightarrow> nat \<Rightarrow> bytes \<Rightarrow> bytes option" where
  "encode64Write_amd64 k intermediate iz dc inZeros out =
     (if \<not> useAVX2 k then encode64WriteGeneric intermediate iz dc inZeros out
      else do {
        raw \<leftarrow> render18 k intermediate (replicate raw58Sz64 0);
        lo \<leftarrow> isub raw58Sz64 (length out);
        w \<leftarrow> subslice raw lo (length raw);
        Some (go_copy out w) })"

section \<open>Encoding\<close>

abbreviation product32 :: "'a text_kernels_scheme \<Rightarrow> bytes \<Rightarrow> u64 list \<Rightarrow> u64 list option" where
  "product32 k src im \<equiv> Some (encodeMatMul32_amd64 k src im)"

text \<open>The outer option is a panic, the inner one the pair \<open>nil, false\<close>.\<close>

definition appendEncode64Fast_amd64 :: "'a text_kernels_scheme \<Rightarrow> gslice \<Rightarrow> bytes \<Rightarrow> gslice option option" where
  "appendEncode64Fast_amd64 k dst src =
     (let start = len dst
      in if \<not> useAVX2 k \<or> cap dst - start < EncodedMaxLen64 then Some None
         else do {
           storage \<leftarrow> reslice dst (cap dst);
           c \<leftarrow> idx src 0;
           let w = drop start (buf storage);
           let (n, w) = (if c = 0 then encode64DirectAVX2 k src w else encode64FullAppendAVX2 k src w);
           s \<leftarrow> reslice (storage\<lparr>buf := take start (buf storage) @ w\<rparr>) (start + n);
           Some (Some s) })"

definition AppendEncode32_amd64 :: "'a text_kernels_scheme \<Rightarrow> gslice \<Rightarrow> bytes \<Rightarrow> gslice option" where
  "AppendEncode32_amd64 k dst src =
     (if \<not> useAVX2 k then appendEncode32GenericCapacity_on (product32 k) dst src 0
      else if cap dst - len dst < EncodedMaxLen32
      then appendEncode32GenericCapacity_on (product32 k) dst src EncodedMaxLen32
      else do {
        let start = len dst;
        dst \<leftarrow> reslice dst (start + EncodedMaxLen32);
        let (n, w) = encode32AppendAVX2 k src (drop start (buf dst));
        reslice (dst\<lparr>buf := take start (buf dst) @ w\<rparr>) (start + n) })"

definition encode32Fast_amd64 :: "'a text_kernels_scheme \<Rightarrow> bytes \<Rightarrow> gslice option option" where
  "encode32Fast_amd64 k src =
     (if \<not> useAVX2 k then Some None
      else do { out \<leftarrow> AppendEncode32_amd64 k \<lparr>buf = replicate EncodedMaxLen32 0, len = 0, fresh = True\<rparr> src;
                Some (Some out) })"

definition encode64LeadingAVX2 :: "'a text_kernels_scheme \<Rightarrow> bytes \<Rightarrow> bytes option" where
  "encode64LeadingAVX2 k src =
     (let (n, out) = encode64FullAVX2 k src (replicate 96 0) True in subslice out 0 n)"

definition Encode64_amd64 :: "'a text_kernels_scheme \<Rightarrow> bytes \<Rightarrow> bytes option" where
  "Encode64_amd64 k src =
     (if \<not> useAVX2 k then encode64Generic_on (encodeMatMul64_amd64 k) (encode64Write_amd64 k) src
      else do {
        c \<leftarrow> idx src 0;
        if c = 0 then encode64LeadingAVX2 k src
        else do {
          let (skip, out) = encode64FullOwnedAVX2 k src (replicate 96 0);
          n \<leftarrow> isub raw58Sz64 skip;
          subslice out skip (skip + n) } })"

text \<open>The functions of \<open>encode.go\<close> that call them.\<close>

definition Encode32_amd64 :: "'a text_kernels_scheme \<Rightarrow> bytes \<Rightarrow> bytes option" where
  "Encode32_amd64 k src =
     do { fast \<leftarrow> encode32Fast_amd64 k src;
          Encode32_on (map_option contents fast) (product32 k) src }"

definition AppendEncode64_amd64 :: "'a text_kernels_scheme \<Rightarrow> gslice \<Rightarrow> bytes \<Rightarrow> gslice option" where
  "AppendEncode64_amd64 k dst src =
     do { fast \<leftarrow> appendEncode64Fast_amd64 k dst src;
          AppendEncode64_on fast (encodeMatMul64_amd64 k) (encode64Write_amd64 k) dst src }"

section \<open>Decoding\<close>

text \<open>What a fused kernel reports becomes an error; only a possible zero byte needs the last check.\<close>

definition fused_result :: "bytes \<Rightarrow> nat \<times> bytes \<Rightarrow> decode_error option \<times> bytes" where
  "fused_result encoded r =
     (let (status, dst) = r
      in if status = 0 then (None, dst)
         else if status = 1 then (Some ErrInvalidChar, dst)
         else if status = 2 then (Some ErrValueTooLarge, dst)
         else (validateLeadingZeros encoded dst, dst))"

definition Decode32_amd64 :: "'a text_kernels_scheme \<Rightarrow> bytes \<Rightarrow> bytes \<Rightarrow> (decode_error option \<times> bytes) option" where
  "Decode32_amd64 k encoded dst =
     (let n = length encoded
      in if n = 0 \<or> n > raw58Sz32 then Some (Some ErrInvalidLength, dst)
         else if useAVX2 k \<and> n \<ge> 32
         then Some (fused_result encoded
                (if n = 43 then decode32Fused43AVX2 k encoded dst else decode32FusedAVX2 k encoded n dst))
         else decode32Generic_on (\<lambda>im dst. Some (decode32WriteAsm k im dst)) encoded dst)"

definition Decode64_amd64 :: "'a text_kernels_scheme \<Rightarrow> bytes \<Rightarrow> bytes \<Rightarrow> (decode_error option \<times> bytes) option" where
  "Decode64_amd64 k encoded dst =
     (let n = length encoded
      in if n = 0 \<or> n > raw58Sz64 then Some (Some ErrInvalidLength, dst)
         else if useAVX2 k \<and> n \<ge> 64
         then Some (fused_result encoded
                (if n = 87 then decode64Fused87AVX2 k encoded dst else decode64FusedAVX2 k encoded n dst))
         else decode64Generic_on (\<lambda>im dst. Some (decode64WriteAsm k im dst)) encoded dst)"

text \<open>The tables widened for the fused kernels, and the 32-byte constants they are given.\<close>

definition decFusedTable32 :: "bool \<Rightarrow> u64 list list" where
  "decFusedTable32 avx2 = widen avx2 intermediateSz32 binarySz32 binarySz32 decTable32"

definition decFusedTable64 :: "bool \<Rightarrow> u64 list list" where
  "decFusedTable64 avx2 = widen avx2 intermediateSz64 binarySz64 binarySz64 decTable64"

definition encFullTable64 :: "bool \<Rightarrow> u64 list list" where
  "encFullTable64 avx2 = widen avx2 binarySz64 (intermediateSz64 - 1) 20 encTable64"

definition fusedRep :: "bytes \<Rightarrow> bytes option" where
  "fusedRep b =
     (if b = [] then None
      else foldM (\<lambda>i out. do { c \<leftarrow> idx b (i mod length b); upd out i c }) [0..<32] (replicate 32 0))"

section \<open>What the kernels document\<close>

definition render_documented :: "'a text_kernels_scheme \<Rightarrow> bool" where
  "render_documented k \<longleftrightarrow>
     (\<forall>v out. 16 \<le> length v \<and> (\<forall>x \<in> set (take 16 v). unat x < 58 ^ 5) \<and> 86 \<le> length out \<longrightarrow>
        take 80 (digitsToChars16Fast k v out) = chars_of (map unat (take 16 v)) \<and>
        drop 86 (digitsToChars16Fast k v out) = drop 86 out \<and> length (digitsToChars16Fast k v out) = length out) \<and>
     (\<forall>v out. 36 \<le> length v \<and> (\<forall>x \<in> set (take 36 v). unat x < 58 ^ 5) \<and> 186 \<le> length out \<longrightarrow>
        take 180 (digitsToChars36 k v out) = chars_of (map unat (take 36 v)) \<and>
        drop 186 (digitsToChars36 k v out) = drop 186 out \<and> length (digitsToChars36 k v out) = length out)"

lemma render16:
  assumes "render_documented k" "16 \<le> length v" "\<forall>x \<in> set (take 16 v). unat x < 58 ^ 5" "86 \<le> length out"
  shows "take 80 (digitsToChars16Fast k v out) = chars_of (map unat (take 16 v))"
    and "drop 86 (digitsToChars16Fast k v out) = drop 86 out"
    and "length (digitsToChars16Fast k v out) = length out"
  using assms unfolding render_documented_def by blast+

lemma render36:
  assumes "render_documented k" "36 \<le> length v" "\<forall>x \<in> set (take 36 v). unat x < 58 ^ 5" "186 \<le> length out"
  shows "take 180 (digitsToChars36 k v out) = chars_of (map unat (take 36 v))"
    and "drop 186 (digitsToChars36 k v out) = drop 186 out"
    and "length (digitsToChars36 k v out) = length out"
  using assms unfolding render_documented_def by blast+

text \<open>The six bytes of garbage behind the kernel's characters are overwritten by the scalar limbs.\<close>

lemma render18_eq:
  assumes "render_documented k" "length v = 18" "\<forall>x \<in> set v. unat x < 58 ^ 5" "length raw = 90"
  shows "render18 k v raw = Some (chars_of (map unat v))"
proof -
  let ?o = "digitsToChars16Fast k v raw"
  have s: "\<forall>x \<in> set (take 16 v). unat x < 58 ^ 5" using assms(3) set_take_subset [of 16 v] by blast
  have "16 \<le> length v" "86 \<le> length raw" using assms(2,4) by simp_all
  note D = render16 [OF assms(1) this(1) s this(2)]
  have c: "unat (v ! 16) < 58 ^ 5" "unat (v ! 17) < 58 ^ 5" using assms(2,3) by simp_all
  then have u: "unat (ucast (v ! 16) :: u32) = unat (v ! 16)" "unat (ucast (v ! 17) :: u32) = unat (v ! 17)"
    by (simp_all add: unat_ucast_small)
  have 1: "on_slice ?o 80 85 (extractChars5 (ucast (v ! 16))) = Some (take 80 ?o @ chars5 (unat (v ! 16)) @ drop 85 ?o)"
    using D(3) assms(4) c(1) by (subst on_slice_Some [where w = "chars5 (unat (v ! 16))"]) (simp_all add: extractChars5_eq u)
  have 2: "on_slice (take 80 ?o @ chars5 (unat (v ! 16)) @ drop 85 ?o) 85 90 (extractChars5 (ucast (v ! 17)))
      = Some (take 80 ?o @ chars5 (unat (v ! 16)) @ chars5 (unat (v ! 17)))"
    using D(3) assms(4) c(2) by (subst on_slice_Some [where w = "chars5 (unat (v ! 17))"]) (simp_all add: extractChars5_eq u)
  have "v = take (Suc (Suc 16)) v" using assms(2) by simp
  also have "\<dots> = take 16 v @ [v ! 16, v ! 17]" using assms(2) by (simp only: take_Suc_conv_app_nth) simp
  finally have "map unat v = map unat (take 16 v) @ [unat (v ! 16), unat (v ! 17)]"
    by (metis list.simps(8,9) map_append)
  then have "chars_of (map unat v) = chars_of (map unat (take 16 v)) @ chars5 (unat (v ! 16)) @ chars5 (unat (v ! 17))"
    by (simp add: chars_of_append chars_of_Cons)
  then show ?thesis using assms(2) 1 2 D(1) by (simp add: render18_def)
qed

lemma extractChars64_amd64_eq:
  assumes "render_documented k" "length v = 18" "\<forall>x \<in> set v. unat x < 58 ^ 5" "length raw = 90"
  shows "extractChars64_amd64 k v raw = extractChars64 v raw"
proof -
  have "extractChars64 v raw = Some (chars_of (map unat v))"
    using foldM_extract_all [OF assms(3), of raw] assms(2,4) by (simp add: extractChars64_def extractChars64Generic_def)
  then show ?thesis
    using render18_eq [OF assms] by (auto simp: extractChars64_amd64_def extractChars64_def)
qed

text \<open>
  The flat variants fill their slots with the same characters; the vector kernel also scribbles on
  the six bytes behind the last slot, which belong to slots filled later or to the padding.
\<close>

lemma extractCharsFlat36_amd64_eq:
  assumes "render_documented k" "length v = 36" "\<forall>x \<in> set v. unat x < 58 ^ 5" "186 \<le> length raws"
  shows "\<exists>r. extractCharsFlat36_amd64 k v raws = Some r \<and> take 180 r = chars_of (map unat v) \<and>
    length r = length raws \<and> drop 186 r = drop 186 raws"
proof (cases "useAVX2 k")
  case True
  then show ?thesis using render36 [OF assms(1), of v raws] assms by (simp add: extractCharsFlat36_amd64_def)
next
  case False
  then show ?thesis
    using foldM_extract_enumerate [of v raws] foldM_extract_all [OF assms(3), of raws] assms(2,4)
    by (simp add: extractCharsFlat36_amd64_def)
qed

lemma extractCharsFlat72_amd64_eq:
  assumes "render_documented k" "length v = 72" "\<forall>x \<in> set v. unat x < 58 ^ 5" "366 \<le> length raws"
  shows "\<exists>r. extractCharsFlat72_amd64 k v raws = Some r \<and> take 360 r = chars_of (map unat v) \<and>
    length r = length raws \<and> drop 366 r = drop 366 raws"
proof (cases "useAVX2 k")
  case True
  have s: "\<forall>x \<in> set (take 36 v). unat x < 58 ^ 5" "\<forall>x \<in> set (take 36 (drop 36 v)). unat x < 58 ^ 5"
    using assms(3) by (auto dest!: in_set_takeD in_set_dropD simp del: power_numeral)
  let ?r = "digitsToChars36 k v raws"
  have A: "take 180 ?r = chars_of (map unat (take 36 v))" "drop 186 ?r = drop 186 raws" "length ?r = length raws"
    using assms(2,4) by (intro render36 assms(1) s; simp)+
  let ?w = "digitsToChars36 k (drop 36 v) (drop 180 ?r)"
  have B: "take 180 ?w = chars_of (map unat (take 36 (drop 36 v)))" "drop 186 ?w = drop 186 (drop 180 ?r)"
    "length ?w = length (drop 180 ?r)"
    using assms(2,4) A(3) by (intro render36 assms(1) s; simp)+
  have "extractCharsFlat72_amd64 k v raws = Some (take 180 ?r @ ?w)"
    using True assms(4) A(3) by (simp add: extractCharsFlat72_amd64_def on_slice_def Let_def)
  moreover have "take 360 (take 180 ?r @ ?w) = chars_of (map unat v)"
  proof -
    have "take 36 (drop 36 v) = drop 36 v" using assms(2) by simp
    then have "chars_of (map unat (take 36 v)) @ chars_of (map unat (take 36 (drop 36 v))) = chars_of (map unat v)"
      by (simp only: chars_of_append [symmetric] map_append [symmetric] append_take_drop_id)
    then show ?thesis using A B assms(2,4) by simp
  qed
  moreover have "drop 366 (take 180 ?r @ ?w) = drop 366 raws"
    using arg_cong [OF A(2), of "drop 180"] A(3) B(2) assms(4) by simp
  ultimately show ?thesis using A(3) B(3) assms(4) by simp
next
  case False
  then show ?thesis
    using foldM_extract_enumerate [of v raws] foldM_extract_all [OF assms(3), of raws] assms(2,4)
    by (simp add: extractCharsFlat72_amd64_def)
qed

text \<open>Rendering everything and copying the end gives what the portable writer writes front to back.\<close>

lemma encode64Write_amd64_eq:
  assumes "render_documented k" "length src = 64" "length vs = 18" "map unat vs = limbs58 18 src"
    "length out = length (b58_encode src)"
  shows "encode64Write_amd64 k vs (leading 0 vs)
      (if leading 0 vs = 18 then 0 else length (to_digits 58 (unat (vs ! leading 0 vs))))
      (leading 0 src) out = Some (b58_encode src)"
proof (cases "useAVX2 k")
  case True
  have less: "\<forall>x \<in> set vs. unat x < 58 ^ 5"
    using limbs58_less [of 18 src] unfolding assms(4) [symmetric] by simp
  have R: "render18 k vs (replicate 90 0) = Some (chars_of (limbs58 18 src))"
    using render18_eq [OF assms(1,3) less] by (simp add: assms(4))
  have le: "length (b58_encode src) \<le> 90" using b58_encode_length64 [OF assms(2)] by simp
  have "drop (90 - length (b58_encode src)) (chars_of (limbs58 18 src)) = b58_encode src"
    using drop_chars_of [OF limbs58_less limbs58_64 [OF assms(2)]] le by simp
  then show ?thesis using True R le assms(5) by (simp add: encode64Write_amd64_def go_copy_def)
next
  case False
  then show ?thesis
    using encode64Write_eq [OF assms(2-5)] by (simp add: encode64Write_amd64_def encode64Write_def del: if_split)
qed

section \<open>Encoding under the contract\<close>

text \<open>
  A kernel that stores directly: the encoding at the front of the window, its length returned, and
  nothing written behind the longest encoding.
\<close>

definition stores :: "nat \<Rightarrow> bytes \<Rightarrow> bytes \<Rightarrow> nat \<times> bytes \<Rightarrow> bool" where
  "stores room src w r \<longleftrightarrow> fst r = length (b58_encode src) \<and> length (snd r) = length w \<and>
     take (fst r) (snd r) = b58_encode src \<and> drop room (snd r) = drop room w"

text \<open>
  The 32-byte kernel writes only the encoded bytes.  The one for owned output leaves the 90
  characters of the raw form and returns how many of them to skip.
\<close>

definition encode_documented :: "'a text_kernels_scheme \<Rightarrow> bool" where
  "encode_documented k \<longleftrightarrow>
     (\<forall>src w. length src = 32 \<and> 44 \<le> length w \<longrightarrow>
        stores (length (b58_encode src)) src w (encode32AppendAVX2 k src w)) \<and>
     (\<forall>src w. length src = 64 \<and> 88 \<le> length w \<longrightarrow> stores 88 src w (encode64DirectAVX2 k src w)) \<and>
     (\<forall>src w. length src = 64 \<and> hd src \<noteq> 0 \<and> 88 \<le> length w \<longrightarrow> stores 88 src w (encode64FullAppendAVX2 k src w)) \<and>
     (\<forall>src w. length src = 64 \<and> length w = 96 \<longrightarrow> stores 96 src w (encode64FullAVX2 k src w True)) \<and>
     (\<forall>src w. length src = 64 \<and> hd src \<noteq> 0 \<and> length w = 96 \<longrightarrow>
        (case encode64FullOwnedAVX2 k src w of (skip, out) \<Rightarrow>
           length out = 96 \<and> take 90 out = chars_of (limbs58 18 src) \<and> skip = leading 49 (chars_of (limbs58 18 src))))"

lemma amd64_writes64: "render_documented k \<Longrightarrow> length src = 64 \<Longrightarrow> writes64 src (encode64Write_amd64 k)"
  using encode64Write_amd64_eq unfolding writes64_def by blast

lemma Encode64_amd64_eq:
  assumes "encode_documented k" "length src = 64" "matmul_documented k" "render_documented k"
  shows "Encode64_amd64 k src = Some (b58_encode src)"
proof -
  have h: "src ! 0 = hd src" using assms(2) by (cases src) simp_all
  consider "\<not> useAVX2 k" | "useAVX2 k" "hd src = 0" | "useAVX2 k" "hd src \<noteq> 0" by blast
  then show ?thesis
  proof cases
    case 1
    then show ?thesis
      using encode64Generic_on_eq [where mm = "encodeMatMul64_amd64 k", OF assms(2) encodeMatMul64_amd64_eq [OF assms(3,2)] amd64_writes64 [OF assms(4,2)]]
      by (simp add: Encode64_amd64_def)
  next
    case 2
    obtain n out where K: "encode64FullAVX2 k src (replicate 96 0) True = (n, out)" by (cases "encode64FullAVX2 k src (replicate 96 0) True")
    have "stores 96 src (replicate 96 0) (encode64FullAVX2 k src (replicate 96 0) True)"
      using assms unfolding encode_documented_def by simp
    then have "n \<le> length out" "take n out = b58_encode src"
      using b58_encode_length64 [OF assms(2)] by (auto simp: stores_def K)
    then show ?thesis using 2 assms(2) by (simp add: Encode64_amd64_def encode64LeadingAVX2_def K h)
  next
    case 3
    obtain skip out where K: "encode64FullOwnedAVX2 k src (replicate 96 0) = (skip, out)" by (cases "encode64FullOwnedAVX2 k src (replicate 96 0)")
    let ?c = "chars_of (limbs58 18 src)"
    have "case encode64FullOwnedAVX2 k src (replicate 96 0) of (skip, out) \<Rightarrow>
        length out = 96 \<and> take 90 out = ?c \<and> skip = leading 49 ?c"
      using assms 3(2) unfolding encode_documented_def by simp
    then have S: "length out = 96" "take 90 out = ?c" "skip = leading 49 ?c" by (simp_all add: K)
    have le: "skip \<le> 90" using S(3) leading_le [of 49 ?c] by simp
    have "drop skip ?c = dropWhile (\<lambda>c. c = 49) ?c" unfolding S(3) by (simp add: drop_leading)
    also have "\<dots> = b58_digits (bytes_val src)"
      using strip_chars_of [OF limbs58_less [of 18 src]] limbs58_64 [OF assms(2)] by simp
    also have "\<dots> = b58_encode src"
      using assms(2) 3(2) by (cases src) (simp_all add: b58_encode_def)
    finally have "drop skip (take 90 out) = b58_encode src" unfolding S(2) .
    then have "take (90 - skip) (drop skip out) = b58_encode src" by (simp add: drop_take)
    then show ?thesis using 3 assms(2) S(1) le by (simp add: Encode64_amd64_def K h)
  qed
qed

lemma appendEncode64Fast_amd64_eq:
  assumes "encode_documented k" "length src = 64" "wf_slice dst"
  shows "if useAVX2 k \<and> len dst + 88 \<le> cap dst
    then \<exists>s. appendEncode64Fast_amd64 k dst src = Some (Some s) \<and> window_appended dst 88 (b58_encode src) s
    else appendEncode64Fast_amd64 k dst src = Some None"
proof (cases "useAVX2 k \<and> len dst + 88 \<le> cap dst")
  case True
  have h: "src ! 0 = hd src" using assms(2) by (cases src) simp_all
  let ?w = "drop (len dst) (buf dst)"
  define r where "r = (if hd src = 0 then encode64DirectAVX2 k src ?w else encode64FullAppendAVX2 k src ?w)"
  obtain n w where K: "r = (n, w)" by (cases r)
  have "88 \<le> length ?w" using True by (auto simp: cap_def)
  then have "stores 88 src ?w r" using assms(1,2) unfolding encode_documented_def r_def by simp
  then have S: "n = length (b58_encode src)" "length w = length ?w" "take n w = b58_encode src" "drop 88 w = drop 88 ?w"
    by (auto simp: stores_def K)
  have n: "n \<le> 88" using S(1) b58_encode_length64 [OF assms(2)] by simp
  let ?s = "dst\<lparr>buf := take (len dst) (buf dst) @ w, len := len dst + n\<rparr>"
  have "appendEncode64Fast_amd64 k dst src = Some (Some ?s)"
  proof -
    have K': "(if src ! 0 = 0 then encode64DirectAVX2 k src ?w else encode64FullAppendAVX2 k src ?w) = (n, w)"
      using K unfolding r_def h .
    have c: "useAVX2 k" "\<not> cap dst - len dst < 88" "length w = cap dst - len dst" "n \<le> cap dst - len dst"
      using True S(2) n by (auto simp: cap_def)
    have "appendEncode64Fast_amd64 k dst src =
        do { s \<leftarrow> reslice (dst\<lparr>len := cap dst, buf := take (len dst) (buf dst) @ w\<rparr>) (len dst + n); Some (Some s) }"
      using c(1,2) assms(2) K' by (cases "src ! 0 = 0") (simp_all add: appendEncode64Fast_amd64_def reslice_def [of dst] Let_def)
    also have "\<dots> = Some (Some ?s)" using c(3,4) True by (auto simp: reslice_def cap_def)
    finally show ?thesis .
  qed
  moreover have "window_appended dst 88 (b58_encode src) ?s"
    using True S n by (simp add: window_appended_def wf_slice_def cap_def contents_def min_def add.commute)
  ultimately show ?thesis using True by simp
next
  case False
  then have "\<not> useAVX2 k \<or> cap dst - len dst < 88" by auto
  then show ?thesis using False by (simp add: appendEncode64Fast_amd64_def Let_def del: not_less)
qed

lemma AppendEncode32_amd64_eq:
  assumes "encode_documented k" "length src = 32" "wf_slice dst" "matmul_documented k"
  shows "\<exists>s. AppendEncode32_amd64 k dst src = Some s \<and> appended dst (b58_encode src) s"
proof -
  have generic: "appendEncode32GenericCapacity_on (product32 k) dst src m = appendEncode32GenericCapacity dst src m" for m
    using encode32_on_eq(2) [of "product32 k"] encodeMatMul32_amd64_eq [OF assms(4,2)] by blast
  consider "\<not> useAVX2 k" | "useAVX2 k" "cap dst - len dst < 44" | "useAVX2 k" "len dst + 44 \<le> cap dst" by linarith
  then show ?thesis
  proof cases
    case 3
    let ?w = "drop (len dst) (buf dst)"
    obtain n w where K: "encode32AppendAVX2 k src ?w = (n, w)" by (cases "encode32AppendAVX2 k src ?w")
    have "44 \<le> length ?w" using 3 by (simp add: cap_def)
    then have "stores (length (b58_encode src)) src ?w (n, w)"
      using assms(1,2) K unfolding encode_documented_def by metis
    then have S: "n = length (b58_encode src)" "length w = length ?w" "take n w = b58_encode src" "drop n w = drop n ?w"
      by (auto simp: stores_def)
    have n: "n \<le> 44" using S(1) b58_encode_length32 [OF assms(2)] by simp
    have w: "w = b58_encode src @ drop n ?w" using S(3,4) by (metis append_take_drop_id)
    let ?s = "dst\<lparr>len := len dst + n, buf := take (len dst) (buf dst) @ w\<rparr>"
    have "AppendEncode32_amd64 k dst src = Some ?s"
      using 3 n S(2) K by (auto simp: AppendEncode32_amd64_def reslice_def cap_def Let_def)
    moreover have "appended dst (b58_encode src) ?s"
      using 3 n S(1) by (simp add: appended_def wf_slice_def cap_def contents_def w min_def add.commute)
    ultimately show ?thesis by blast
  qed (use appendEncode32GenericCapacity_eq [OF assms(2,3)] in
      \<open>simp_all add: AppendEncode32_amd64_def generic\<close>)
qed

lemma Encode32_amd64_eq:
  assumes "encode_documented k" "length src = 32" "matmul_documented k"
  shows "Encode32_amd64 k src = Encode32 src"
proof (cases "useAVX2 k")
  case True
  have wf: "wf_slice \<lparr>buf = replicate 44 0, len = 0, fresh = True\<rparr>" by (simp add: wf_slice_def)
  from AppendEncode32_amd64_eq [OF assms(1,2) wf assms(3)] obtain s where
    "AppendEncode32_amd64 k \<lparr>buf = replicate 44 0, len = 0, fresh = True\<rparr> src = Some s"
    "appended \<lparr>buf = replicate 44 0, len = 0, fresh = True\<rparr> (b58_encode src) s" by blast
  then show ?thesis
    using True Encode32_eq [OF assms(2)] by (auto simp: Encode32_amd64_def Encode32_on_def encode32Fast_amd64_def appended_def contents_def)
next
  case False
  then show ?thesis
    using encode32_on_eq(1) [of "product32 k" src] encodeMatMul32_amd64_eq [OF assms(3,2)]
    by (simp add: Encode32_amd64_def encode32Fast_amd64_def)
qed

text \<open>Either in a window of 88 bytes behind the destination, or exactly as in the portable build.\<close>

lemma AppendEncode64_amd64_eq:
  assumes "encode_documented k" "length src = 64" "wf_slice dst" "matmul_documented k" "render_documented k"
  shows "\<exists>s. AppendEncode64_amd64 k dst src = Some s \<and>
    (if useAVX2 k \<and> len dst + 88 \<le> cap dst then window_appended dst 88 (b58_encode src) s else appended dst (b58_encode src) s)"
proof (cases "useAVX2 k \<and> len dst + 88 \<le> cap dst")
  case True
  then show ?thesis
    using appendEncode64Fast_amd64_eq [OF assms(1-3)] by (auto simp: AppendEncode64_amd64_def AppendEncode64_on_def)
next
  case False
  then have "appendEncode64Fast_amd64 k dst src = Some None" using appendEncode64Fast_amd64_eq [OF assms(1-3)] by simp
  then have "AppendEncode64_amd64 k dst src = AppendEncode64_on None (encodeMatMul64_amd64 k) (encode64Write_amd64 k) dst src"
    by (simp add: AppendEncode64_amd64_def)
  then show ?thesis
    unfolding if_not_P [OF False]
    using AppendEncode64_on_eq [where mm = "encodeMatMul64_amd64 k", OF assms(2) encodeMatMul64_amd64_eq [OF assms(4,2)] amd64_writes64 [OF assms(5,2)] assms(3)]
    by simp
qed

section \<open>Decoding under the contract\<close>

text \<open>
  What the Go switch relies on: 1 for a character outside the alphabet, with the array untouched, 2
  for a value that does not fit, otherwise the value in the array, and 0 only when neither the
  string starts with a \<open>1\<close> nor the array with a zero byte.
\<close>

definition fused :: "nat \<Rightarrow> bytes \<Rightarrow> bytes \<Rightarrow> nat \<times> bytes \<Rightarrow> bool" where
  "fused nb s dst r \<longleftrightarrow>
     (if \<not> list_all b58_valid s then r = (1, dst)
      else if 256 ^ nb \<le> str_val s then fst r = 2 \<and> length (snd r) = nb
      else fst r \<noteq> 1 \<and> fst r \<noteq> 2 \<and> snd r = be_bytes nb (str_val s) \<and>
        (fst r = 0 \<longrightarrow> hd s \<noteq> 49 \<and> hd (snd r) \<noteq> 0))"

text \<open>The write functions report whether the value fits; an array it does not fit may be changed.\<close>

definition written :: "nat \<Rightarrow> nat \<Rightarrow> bool \<times> bytes \<Rightarrow> bool" where
  "written nb N r \<longleftrightarrow>
     (if N < 256 ^ nb then r = (True, be_bytes nb N) else \<not> fst r \<and> length (snd r) = nb)"

definition decode_documented :: "'a text_kernels_scheme \<Rightarrow> bool" where
  "decode_documented k \<longleftrightarrow>
     (\<forall>im dst. length im = 9 \<and> (\<forall>v \<in> set im. unat v < 58 ^ 5) \<and> length dst = 32 \<longrightarrow>
        written 32 (bval (58 ^ 5) (map unat im)) (decode32WriteAsm k im dst)) \<and>
     (\<forall>im dst. length im = 18 \<and> (\<forall>v \<in> set im. unat v < 58 ^ 5) \<and> length dst = 64 \<longrightarrow>
        written 64 (bval (58 ^ 5) (map unat im)) (decode64WriteAsm k im dst)) \<and>
     (\<forall>s dst. length dst = 32 \<and> 32 \<le> length s \<and> length s \<le> 45 \<longrightarrow>
        fused 32 s dst (decode32FusedAVX2 k s (length s) dst) \<and>
        (length s = 43 \<longrightarrow> fused 32 s dst (decode32Fused43AVX2 k s dst))) \<and>
     (\<forall>s dst. length dst = 64 \<and> 64 \<le> length s \<and> length s \<le> 90 \<longrightarrow>
        fused 64 s dst (decode64FusedAVX2 k s (length s) dst) \<and>
        (length s = 87 \<longrightarrow> fused 64 s dst (decode64Fused87AVX2 k s dst)))"

text \<open>
  Only after \<open>ErrValueTooLarge\<close> may the array differ from what the portable build leaves in it.
\<close>

definition same_outcome :: "decode_error option \<times> bytes \<Rightarrow> decode_error option \<times> bytes \<Rightarrow> bool" where
  "same_outcome r r' \<longleftrightarrow> fst r = fst r' \<and> (fst r \<noteq> Some ErrValueTooLarge \<longrightarrow> snd r = snd r')"

lemma fused_result_eq:
  assumes "fused nb s dst r" "0 < nb" "s \<noteq> []" "length s \<le> maxLen"
  shows "same_outcome (fused_result s r) (decode_spec nb maxLen s dst)"
proof -
  obtain status out where r: "r = (status, out)" by (cases r)
  consider "\<not> list_all b58_valid s" | "list_all b58_valid s" "256 ^ nb \<le> str_val s"
    | "list_all b58_valid s" "\<not> 256 ^ nb \<le> str_val s" by blast
  then show ?thesis
  proof cases
    case 3
    then have F: "status \<noteq> 1" "status \<noteq> 2" "out = be_bytes nb (str_val s)"
      "status = 0 \<Longrightarrow> hd s \<noteq> 49 \<and> hd out \<noteq> 0" using assms(1) by (auto simp: fused_def r)
    have "leading 49 s = leading 0 out" if "status = 0"
    proof -
      have "out \<noteq> []" using F(3) assms(2) by (metis length_be_bytes length_greater_0_conv)
      then show ?thesis using F(4) [OF that] assms(3) by (cases s; cases out) simp_all
    qed
    then show ?thesis
      using F 3 assms(3,4)
      by (auto simp: same_outcome_def fused_result_def r decode_spec_def validateLeadingZeros_def Let_def)
  qed (use assms in \<open>auto simp: same_outcome_def fused_result_def fused_def r decode_spec_def Let_def\<close>)
qed

text \<open>The generic decoders with a write function of this kind.\<close>

lemma write_outcome:
  assumes "written nb (str_val s) r" "list_all b58_valid s" "s \<noteq> []" "length s \<le> maxLen"
  shows "\<exists>q. (case r of (ok, dst) \<Rightarrow> if \<not> ok then Some (Some ErrValueTooLarge, dst)
      else Some (validateLeadingZeros s dst, dst)) = Some q \<and> same_outcome q (decode_spec nb maxLen s dst)"
  using assms by (cases r) (auto simp: written_def same_outcome_def decode_spec_def validateLeadingZeros_def Let_def split: if_splits)

lemma decode32Generic_amd64:
  assumes "decode_documented k" "length dst = 32" "s \<noteq> []" "length s \<le> 45"
  shows "\<exists>r. decode32Generic_on (\<lambda>im dst. Some (decode32WriteAsm k im dst)) s dst = Some r \<and> same_outcome r (decode_spec 32 45 s dst)"
proof -
  obtain im where im: "length im = 9"
    "list_all b58_valid s \<longrightarrow> (\<forall>v \<in> set im. unat v < 58 ^ 5) \<and> bval (58 ^ 5) (map unat im) = str_val s"
    and run: "decode32Generic_on (\<lambda>im dst. Some (decode32WriteAsm k im dst)) s dst =
      (if \<not> list_all b58_valid s then Some (Some ErrInvalidChar, dst)
       else do { (ok, dst) \<leftarrow> Some (decode32WriteAsm k im dst);
            if \<not> ok then Some (Some ErrValueTooLarge, dst)
            else Some (validateLeadingZeros s dst, dst) })"
    using decode32Generic_run [OF assms(3,4), of "\<lambda>im dst. Some (decode32WriteAsm k im dst)" dst] by blast
  show ?thesis
  proof (cases "list_all b58_valid s")
    case True
    then have "written 32 (str_val s) (decode32WriteAsm k im dst)"
      using im assms(1,2) unfolding decode_documented_def by metis
    then show ?thesis
      unfolding run using True write_outcome [OF _ True assms(3,4)] by simp
  next
    case False
    then show ?thesis unfolding run using assms(3,4) by (simp add: decode_spec_def same_outcome_def)
  qed
qed

lemma decode64Generic_amd64:
  assumes "decode_documented k" "length dst = 64" "s \<noteq> []" "length s \<le> 90"
  shows "\<exists>r. decode64Generic_on (\<lambda>im dst. Some (decode64WriteAsm k im dst)) s dst = Some r \<and> same_outcome r (decode_spec 64 90 s dst)"
proof -
  obtain im where im: "length im = 18"
    "list_all b58_valid s \<longrightarrow> (\<forall>v \<in> set im. unat v < 58 ^ 5) \<and> bval (58 ^ 5) (map unat im) = str_val s"
    and run: "decode64Generic_on (\<lambda>im dst. Some (decode64WriteAsm k im dst)) s dst =
      (if \<not> list_all b58_valid s then Some (Some ErrInvalidChar, dst)
       else do { (ok, dst) \<leftarrow> Some (decode64WriteAsm k im dst);
            if \<not> ok then Some (Some ErrValueTooLarge, dst)
            else Some (validateLeadingZeros s dst, dst) })"
    using decode64Generic_run [OF assms(3,4), of "\<lambda>im dst. Some (decode64WriteAsm k im dst)" dst] by blast
  show ?thesis
  proof (cases "list_all b58_valid s")
    case True
    then have "written 64 (str_val s) (decode64WriteAsm k im dst)"
      using im assms(1,2) unfolding decode_documented_def by metis
    then show ?thesis
      unfolding run using True write_outcome [OF _ True assms(3,4)] by simp
  next
    case False
    then show ?thesis unfolding run using assms(3,4) by (simp add: decode_spec_def same_outcome_def)
  qed
qed

lemma Decode32_amd64_eq:
  assumes "decode_documented k" "length dst = 32"
  shows "\<exists>r r'. Decode32_amd64 k s dst = Some r \<and> Decode32 s dst = Some r' \<and> same_outcome r r'"
proof -
  consider "length s = 0 \<or> 45 < length s" | "\<not> (useAVX2 k \<and> 32 \<le> length s)" "length s \<noteq> 0" "length s \<le> 45"
    | "useAVX2 k" "32 \<le> length s" "length s \<le> 45" by linarith
  then show ?thesis
  proof cases
    case 1
    then have "Decode32_amd64 k s dst = Decode32 s dst"
      by (auto simp: Decode32_amd64_def Decode32_def Let_def)
    then show ?thesis using Decode32_eq [OF assms(2)] by (simp add: same_outcome_def)
  next
    case 2
    then have "Decode32_amd64 k s dst = decode32Generic_on (\<lambda>im dst. Some (decode32WriteAsm k im dst)) s dst"
      by (auto simp: Decode32_amd64_def Let_def)
    moreover have "s \<noteq> []" using 2(2) by simp
    ultimately show ?thesis
      using decode32Generic_amd64 [OF assms _ 2(3)] Decode32_eq [OF assms(2)] by metis
  next
    case 3
    let ?r = "if length s = 43 then decode32Fused43AVX2 k s dst else decode32FusedAVX2 k s (length s) dst"
    have "fused 32 s dst ?r" using assms 3 unfolding decode_documented_def by simp
    then have "same_outcome (fused_result s ?r) (decode_spec 32 45 s dst)" by (rule fused_result_eq) (use 3 in auto)
    moreover have "Decode32_amd64 k s dst = Some (fused_result s ?r)"
      using 3 by (auto simp: Decode32_amd64_def Let_def)
    ultimately show ?thesis using Decode32_eq [OF assms(2)] by blast
  qed
qed

lemma Decode64_amd64_eq:
  assumes "decode_documented k" "length dst = 64"
  shows "\<exists>r r'. Decode64_amd64 k s dst = Some r \<and> Decode64 s dst = Some r' \<and> same_outcome r r'"
proof -
  consider "length s = 0 \<or> 90 < length s" | "\<not> (useAVX2 k \<and> 64 \<le> length s)" "length s \<noteq> 0" "length s \<le> 90"
    | "useAVX2 k" "64 \<le> length s" "length s \<le> 90" by linarith
  then show ?thesis
  proof cases
    case 1
    then have "Decode64_amd64 k s dst = Decode64 s dst"
      by (auto simp: Decode64_amd64_def Decode64_def Let_def)
    then show ?thesis using Decode64_eq [OF assms(2)] by (simp add: same_outcome_def)
  next
    case 2
    then have "Decode64_amd64 k s dst = decode64Generic_on (\<lambda>im dst. Some (decode64WriteAsm k im dst)) s dst"
      by (auto simp: Decode64_amd64_def Let_def)
    moreover have "s \<noteq> []" using 2(2) by simp
    ultimately show ?thesis
      using decode64Generic_amd64 [OF assms _ 2(3)] Decode64_eq [OF assms(2)] by metis
  next
    case 3
    let ?r = "if length s = 87 then decode64Fused87AVX2 k s dst else decode64FusedAVX2 k s (length s) dst"
    have "fused 64 s dst ?r" using assms 3 unfolding decode_documented_def by simp
    then have "same_outcome (fused_result s ?r) (decode_spec 64 90 s dst)" by (rule fused_result_eq) (use 3 in auto)
    moreover have "Decode64_amd64 k s dst = Some (fused_result s ?r)"
      using 3 by (auto simp: Decode64_amd64_def Let_def)
    ultimately show ?thesis using Decode64_eq [OF assms(2)] by blast
  qed
qed

text \<open>The three contracts can be met together.\<close>

definition reference_text :: "bool \<Rightarrow> text_kernels" where
  "reference_text avx2 =
     (let m = reference_matmul avx2;
          store = (\<lambda>src w. (length (b58_encode src), b58_encode src @ drop (length (b58_encode src)) w));
          dec = (\<lambda>nb s dst.
            if \<not> list_all b58_valid s then (1, dst)
            else if 256 ^ nb \<le> str_val s then (2, dst)
            else let out = be_bytes nb (str_val s) in (if hd s \<noteq> 49 \<and> hd out \<noteq> 0 then 0 else 4, out));
          wr = (\<lambda>nb im (_ :: bytes). let N = bval (58 ^ 5) (map unat im) in (N < 256 ^ nb, be_bytes nb N))
      in \<lparr>useAVX2 = avx2,
          encodeMatMul32Scalar = encodeMatMul32Scalar m, encodeMatMul32AVX2 = encodeMatMul32AVX2 m,
          decodeMatMul32Scalar = decodeMatMul32Scalar m, decodeMatMul32AVX2 = decodeMatMul32AVX2 m,
          encodeMatMul64Head = encodeMatMul64Head m, encodeMatMul64HeadAVX2 = encodeMatMul64HeadAVX2 m,
          decodeMatMul64Head = decodeMatMul64Head m, decodeMatMul64AVX2 = decodeMatMul64AVX2 m,
          digitsToChars16Fast = (\<lambda>v out. chars_of (map unat (take 16 v)) @ drop 80 out),
          digitsToChars36 = (\<lambda>v out. chars_of (map unat (take 36 v)) @ drop 180 out),
          encode32AppendAVX2 = store, encode64DirectAVX2 = store, encode64FullAppendAVX2 = store,
          encode64FullOwnedAVX2 = (\<lambda>src out.
            (leading 49 (chars_of (limbs58 18 src)), chars_of (limbs58 18 src) @ drop 90 out)),
          encode64FullAVX2 = (\<lambda>src out _. store src out),
          decode32FusedAVX2 = (\<lambda>s _. dec 32 s), decode32Fused43AVX2 = dec 32,
          decode64FusedAVX2 = (\<lambda>s _. dec 64 s), decode64Fused87AVX2 = dec 64,
          decode32WriteAsm = wr 32, decode64WriteAsm = wr 64\<rparr>)"

lemma reference_text:
  "matmul_documented (reference_text avx2)" "render_documented (reference_text avx2)"
  "encode_documented (reference_text avx2)" "decode_documented (reference_text avx2)"
proof -
  show "matmul_documented (reference_text avx2)"
    by (simp add: matmul_documented_def reference_text_def reference_matmul_def Let_def)
  show "render_documented (reference_text avx2)"
    by (simp add: render_documented_def reference_text_def Let_def)
  show "encode_documented (reference_text avx2)"
    using b58_encode_length32 b58_encode_length64
    by (auto simp: encode_documented_def reference_text_def stores_def Let_def dest!: b58_encode_length32 b58_encode_length64)
  show "decode_documented (reference_text avx2)"
    by (simp add: decode_documented_def reference_text_def fused_def written_def Let_def)
qed

end
