(* ===== verification/Asm_Fused.thy ===== *)
theory Asm_Fused
  imports Asm_Memory Amd64_Text
begin

text \<open>
  The two macros at the heart of the fused decoders (\<open>decode_fused_amd64.s\<close>), with the byte constants
  they use (\<open>decode_fused_amd64.go\<close>): \<open>FUSED_C2D\<close> turns characters into digits and marks the bytes
  outside the alphabet, \<open>FUSED_HORNER\<close> turns fifteen digits per half into three limbs of base \<open>58 ^ 5\<close>.
\<close>

section \<open>Vector instructions\<close>

definition vpand :: "bytes \<Rightarrow> bytes \<Rightarrow> bytes" where
  "vpand x y = map2 (AND) x y"

definition vpor :: "bytes \<Rightarrow> bytes \<Rightarrow> bytes" where
  "vpor x y = map2 (OR) x y"

text \<open>Go writes the subtrahend first.\<close>

definition vpsubb :: "bytes \<Rightarrow> bytes \<Rightarrow> bytes" where
  "vpsubb x y = map2 (\<lambda>a b. b - a) x y"

definition vpcmpeqb :: "bytes \<Rightarrow> bytes \<Rightarrow> bytes" where
  "vpcmpeqb x y = map2 (\<lambda>a b. if a = b then 255 else 0) x y"

definition vpsrlw :: "nat \<Rightarrow> bytes \<Rightarrow> bytes" where
  "vpsrlw k x = mem_of 2 (map (drop_bit k) (lanes 2 x :: u16 list))"

text \<open>The top bits of the bytes, as the number that the register receives.\<close>

definition vpmovmskb :: "bytes \<Rightarrow> nat" where
  "vpmovmskb x = horner_sum of_bool 2 (map (\<lambda>b. bit b 7) x)"

text \<open>In each half, \<open>k\<close> bytes down.\<close>

definition vpsrldq :: "nat \<Rightarrow> bytes \<Rightarrow> bytes" where
  "vpsrldq k x = drop k (take 16 x) @ replicate k 0 @ drop k (drop 16 x) @ replicate k 0"

text \<open>Products of unsigned and signed bytes, added in pairs with saturation; and of signed words.\<close>

definition maddubs :: "u8 \<Rightarrow> u8 \<Rightarrow> u8 \<Rightarrow> u8 \<Rightarrow> u16" where
  "maddubs a b x y = word_of_int (max (- 32768) (min 32767 (uint a * sint x + uint b * sint y)))"

definition maddwd :: "u16 \<Rightarrow> u16 \<Rightarrow> u16 \<Rightarrow> u16 \<Rightarrow> u32" where
  "maddwd a b x y = word_of_int (sint a * sint x + sint b * sint y)"

text \<open>The operation on adjacent pairs of two lists.\<close>

fun on_pairs :: "('a \<Rightarrow> 'a \<Rightarrow> 'b \<Rightarrow> 'b \<Rightarrow> 'c) \<Rightarrow> 'a list \<Rightarrow> 'b list \<Rightarrow> 'c list" where
  "on_pairs f (a # b # as) (x # y # xs) = f a b x y # on_pairs f as xs"
| "on_pairs f _ _ = []"

definition vpmaddubsw :: "bytes \<Rightarrow> bytes \<Rightarrow> bytes" where
  "vpmaddubsw w v = mem_of 2 (on_pairs maddubs v w)"

definition vpmaddwd :: "bytes \<Rightarrow> bytes \<Rightarrow> bytes" where
  "vpmaddwd w v = mem_of 4 (on_pairs maddwd (lanes 2 v) (lanes 2 w))"

definition vpmulld :: "bytes \<Rightarrow> bytes \<Rightarrow> bytes" where
  "vpmulld w v = mem_of 4 (map2 (*) (lanes 4 v) (lanes 4 w :: u32 list))"

definition vpaddd :: "bytes \<Rightarrow> bytes \<Rightarrow> bytes" where
  "vpaddd x y = mem_of 4 (map2 (+) (lanes 4 x) (lanes 4 y :: u32 list))"

section \<open>The constants\<close>

definition decFusedIota :: bytes where
  "decFusedIota = the (fusedRep [0, 1, 2, 3, 4, 5, 6, 7, 8, 9, 10, 11, 12, 13, 14, 15])"

definition decFusedPad43 :: bytes where
  "decFusedPad43 = [0x80, 0x80, 0, 1, 2, 3, 4, 5, 6, 7, 8, 9, 10, 11, 12, 13,
     0, 1, 2, 3, 4, 5, 6, 7, 8, 9, 10, 11, 12, 13, 14, 15]"

definition decFusedPad87 :: bytes where
  "decFusedPad87 = [0x80, 0x80, 0x80, 0, 1, 2, 3, 4, 5, 6, 7, 8, 9, 10, 11, 12,
     0, 1, 2, 3, 4, 5, 6, 7, 8, 9, 10, 11, 12, 13, 14, 15]"

definition decFusedP :: bytes where
  "decFusedP = the (fusedRep [0, 1, 2, 3, 5, 6, 7, 8, 10, 11, 12, 13, 0x80, 0x80, 0x80, 0x80])"

definition decFusedQ :: bytes where
  "decFusedQ = the (fusedRep [4, 0x80, 0x80, 0x80, 9, 0x80, 0x80, 0x80, 14, 0x80, 0x80, 0x80, 0x80, 0x80, 0x80, 0x80])"

definition decFusedTail :: bytes where
  "decFusedTail = [0, 1, 2, 3, 4, 5, 6, 7, 8, 9, 10, 11, 12, 13, 14, 15,
     1, 2, 3, 4, 5, 6, 7, 8, 9, 10, 11, 12, 13, 14, 15, 0x80]"

definition decFusedW1 :: bytes where
  "decFusedW1 = the (fusedRep [58, 1])"

definition decFusedW2 :: bytes where
  "decFusedW2 = the (fusedRep [0x24, 0x0D, 1, 0])"

definition decFusedLoNib :: bytes where
  "decFusedLoNib = the (fusedRep [72, 91, 91, 91, 91, 91, 91, 91, 91, 89, 92, 20, 4, 36, 36, 32])"

definition decFusedHiNib :: bytes where
  "decFusedHiNib = the (fusedRep [0, 0, 0, 1, 6, 8, 48, 64, 0, 0, 0, 0, 0, 0, 0, 0])"

definition decFusedBase :: bytes where
  "decFusedBase = the (fusedRep [0, 49, 56, 0, 57, 0, 0, 0, 58, 0, 0, 0, 0, 0, 0, 0])"

definition decFusedBaseHi :: bytes where
  "decFusedBaseHi = the (fusedRep [0, 64, 65, 0, 65, 0, 0, 0, 0, 0, 0, 0, 0, 0, 0, 0])"

definition decFusedB15 :: bytes where
  "decFusedB15 = the (fusedRep [0x0F])"

definition decFusedD58 :: bytes where
  "decFusedD58 = the (fusedRep [58, 0, 0, 0])"

section \<open>The macros\<close>

text \<open>The digits, and the mask of invalid bytes with those of this register added.\<close>

definition FUSED_C2D :: "bytes \<Rightarrow> bytes \<Rightarrow> bytes \<times> bytes" where
  "FUSED_C2D v bad =
     (let t1 = vpand decFusedB15 v;
          t2 = vpshufb t1 decFusedLoNib;
          y10 = vpsrlw 4 v;
          y10 = vpand decFusedB15 y10;
          y10 = vpshufb y10 decFusedHiNib;
          t2 = vpand y10 t2;
          y10 = vpcmpeqb (replicate 32 0) t2;
          bad = vpor y10 bad;
          t1 = vpshufb t2 decFusedBase;
          y10 = vpsrlw 4 t2;
          y10 = vpand decFusedB15 y10;
          y10 = vpshufb y10 decFusedBaseHi;
          t1 = vpor y10 t1
      in (vpsubb t1 v, bad))"

definition FUSED_HORNER :: "bytes \<Rightarrow> bytes" where
  "FUSED_HORNER v =
     (let p = vpshufb decFusedP v;
          q = vpshufb decFusedQ v;
          p = vpmaddubsw decFusedW1 p;
          p = vpmaddwd decFusedW2 p;
          p = vpmulld decFusedD58 p
      in vpaddd q p)"

section \<open>The constants as lists\<close>

lemma fusedRep_eq: "length b = n \<Longrightarrow> 0 < n \<Longrightarrow> fusedRep b = Some (map (\<lambda>i. b ! (i mod n)) [0..<32])"
  using fill_all [of 32 "\<lambda>i. idx b (i mod length b)" "\<lambda>i. b ! (i mod length b)" 0] by (auto simp: fusedRep_def)

lemma upt32: "[0..<32] = [0, 1, 2, 3, 4, 5, 6, 7, 8, 9, 10, 11, 12, 13, 14, 15,
    16, 17, 18, 19, 20, 21, 22, 23, 24, 25, 26, 27, 28, 29, 30, 31]"
  by (simp add: upt_rec)

text \<open>Both halves of a constant are the same.\<close>

lemma fused_constants:
  "decFusedIota = [0, 1, 2, 3, 4, 5, 6, 7, 8, 9, 10, 11, 12, 13, 14, 15] @ [0, 1, 2, 3, 4, 5, 6, 7, 8, 9, 10, 11, 12, 13, 14, 15]"
  "decFusedP = [0, 1, 2, 3, 5, 6, 7, 8, 10, 11, 12, 13, 0x80, 0x80, 0x80, 0x80] @ [0, 1, 2, 3, 5, 6, 7, 8, 10, 11, 12, 13, 0x80, 0x80, 0x80, 0x80]"
  "decFusedQ = [4, 0x80, 0x80, 0x80, 9, 0x80, 0x80, 0x80, 14, 0x80, 0x80, 0x80, 0x80, 0x80, 0x80, 0x80] @ [4, 0x80, 0x80, 0x80, 9, 0x80, 0x80, 0x80, 14, 0x80, 0x80, 0x80, 0x80, 0x80, 0x80, 0x80]"
  "decFusedW1 = [58, 1, 58, 1, 58, 1, 58, 1, 58, 1, 58, 1, 58, 1, 58, 1] @ [58, 1, 58, 1, 58, 1, 58, 1, 58, 1, 58, 1, 58, 1, 58, 1]"
  "decFusedW2 = [0x24, 0x0D, 1, 0, 0x24, 0x0D, 1, 0, 0x24, 0x0D, 1, 0, 0x24, 0x0D, 1, 0] @ [0x24, 0x0D, 1, 0, 0x24, 0x0D, 1, 0, 0x24, 0x0D, 1, 0, 0x24, 0x0D, 1, 0]"
  "decFusedLoNib = [72, 91, 91, 91, 91, 91, 91, 91, 91, 89, 92, 20, 4, 36, 36, 32] @ [72, 91, 91, 91, 91, 91, 91, 91, 91, 89, 92, 20, 4, 36, 36, 32]"
  "decFusedHiNib = [0, 0, 0, 1, 6, 8, 48, 64, 0, 0, 0, 0, 0, 0, 0, 0] @ [0, 0, 0, 1, 6, 8, 48, 64, 0, 0, 0, 0, 0, 0, 0, 0]"
  "decFusedBase = [0, 49, 56, 0, 57, 0, 0, 0, 58, 0, 0, 0, 0, 0, 0, 0] @ [0, 49, 56, 0, 57, 0, 0, 0, 58, 0, 0, 0, 0, 0, 0, 0]"
  "decFusedBaseHi = [0, 64, 65, 0, 65, 0, 0, 0, 0, 0, 0, 0, 0, 0, 0, 0] @ [0, 64, 65, 0, 65, 0, 0, 0, 0, 0, 0, 0, 0, 0, 0, 0]"
  "decFusedB15 = [0x0F, 0x0F, 0x0F, 0x0F, 0x0F, 0x0F, 0x0F, 0x0F, 0x0F, 0x0F, 0x0F, 0x0F, 0x0F, 0x0F, 0x0F, 0x0F] @ [0x0F, 0x0F, 0x0F, 0x0F, 0x0F, 0x0F, 0x0F, 0x0F, 0x0F, 0x0F, 0x0F, 0x0F, 0x0F, 0x0F, 0x0F, 0x0F]"
  "decFusedD58 = [58, 0, 0, 0, 58, 0, 0, 0, 58, 0, 0, 0, 58, 0, 0, 0] @ [58, 0, 0, 0, 58, 0, 0, 0, 58, 0, 0, 0, 58, 0, 0, 0]"
  by (simp_all add: decFusedIota_def decFusedP_def decFusedQ_def decFusedW1_def decFusedW2_def decFusedLoNib_def
      decFusedHiNib_def decFusedBase_def decFusedBaseHi_def decFusedB15_def decFusedD58_def upt32
      fusedRep_eq [where n = 1] fusedRep_eq [where n = 2] fusedRep_eq [where n = 4] fusedRep_eq [where n = 16])

section \<open>Characters to digits\<close>

text \<open>The class of a character, one bit of seven or none, and the digit that the base of its class gives.\<close>

definition c2d_class :: "u8 \<Rightarrow> u8" where
  "c2d_class c = take 16 decFusedHiNib ! unat (drop_bit 4 c) AND take 16 decFusedLoNib ! unat (c AND 15)"

definition c2d_digit :: "u8 \<Rightarrow> u8" where
  "c2d_digit c =
     (let t = c2d_class c
      in c - (take 16 decFusedBaseHi ! unat (drop_bit 4 t) OR (if bit t 7 then 0 else take 16 decFusedBase ! unat (t AND 15))))"

lemma c2d_valid:
  "map c2d_digit alphabet = map of_nat [0..<58]" "list_all (\<lambda>c. c2d_class c \<noteq> 0) alphabet"
  unfolding c2d_class_def c2d_digit_def fused_constants alphabet_eq Let_def
  by (simp_all add: upt_rec)

lemma c2d_rows:
  "list_all (\<lambda>h. list_all (\<lambda>l. take 16 decFusedHiNib ! h AND take 16 decFusedLoNib ! l = 0 \<longleftrightarrow> 16 * h + l \<notin> set (map unat alphabet))
    [0..<16]) [3, 4, 5, 6, 7]"
  unfolding fused_constants alphabet_eq by (simp add: upt_rec)

lemma c2d_gaps:
  "list_all (\<lambda>h. take 16 decFusedHiNib ! h = 0) [0, 1, 2, 8, 9, 10, 11, 12, 13, 14, 15]"
  "list_all (\<lambda>c. unat c div 16 \<in> {3, 4, 5, 6, 7}) alphabet"
  unfolding fused_constants alphabet_eq by simp_all

lemma other_rows: "h < 16 \<Longrightarrow> h \<notin> {3, 4, 5, 6, 7} \<Longrightarrow> h \<in> set [0, 1, 2, 8, 9, 10, 11, 12, 13, 14, 15]" for h :: nat
  by simp presburger

lemma unat_and_15: "unat (c AND 15 :: u8) = unat c mod 16"
proof -
  have "c AND 15 = take_bit 4 c" by (simp add: take_bit_eq_mask mask_eq_exp_minus_1)
  then have "unat (c AND 15) = unat (take_bit 4 c)" by (rule arg_cong)
  also have "\<dots> = take_bit 4 (unat c)" by (rule unsigned_take_bit_eq)
  finally show ?thesis by (simp add: take_bit_eq_mod)
qed

lemma c2d_class_valid: "c2d_class c = 0 \<longleftrightarrow> \<not> b58_valid c"
proof -
  let ?h = "unat (drop_bit 4 c)" and ?l = "unat (c AND 15)"
  have h: "?h = unat c div 16" by (simp only: unat_drop_bit_eq) (simp add: drop_bit_eq_div)
  have l: "?l = unat c mod 16" by (rule unat_and_15)
  have "unat c < 16 * 16" using unat_lt_pow [of c] by simp
  then have hl: "?h < 16" "?l < 16" "16 * ?h + ?l = unat c"
    unfolding h l by (rule less_mult_imp_div_less) simp_all
  have "c2d_class c = 0 \<longleftrightarrow> unat c \<notin> set (map unat alphabet)"
  proof (cases "?h \<in> {3, 4, 5, 6, 7}")
    case True
    then show ?thesis using c2d_rows hl by (auto simp: c2d_class_def list_all_iff)
  next
    case False
    then have "?h \<in> set [0, 1, 2, 8, 9, 10, 11, 12, 13, 14, 15]" using hl(1) by (intro other_rows)
    then have "take 16 decFusedHiNib ! ?h = 0" using c2d_gaps(1) by (simp only: list_all_iff)
    moreover have "unat c \<notin> set (map unat alphabet)" using False c2d_gaps(2) unfolding h by (auto simp: list_all_iff)
    ultimately show ?thesis by (simp add: c2d_class_def)
  qed
  also have "\<dots> \<longleftrightarrow> \<not> b58_valid c" by (auto simp: b58_valid_def) (metis word_unat_eq_iff)
  finally show ?thesis .
qed

lemma c2d_digit_valid: "b58_valid c \<Longrightarrow> c2d_digit c = of_nat (b58_digit c)"
proof -
  assume "b58_valid c"
  then obtain d where d: "d < 58" "c = b58_char d" by (rule b58_validE)
  then have "c2d_digit c = map c2d_digit alphabet ! d" by (simp add: b58_char_def)
  also have "\<dots> = of_nat d" unfolding c2d_valid(1) using d(1) by simp
  finally show ?thesis using d by simp
qed

section \<open>The macro on whole registers\<close>

lemma map2_same: "map2 f (map g xs) (map h xs) = map (\<lambda>x. f (g x) (h x)) xs"
  by (induction xs) simp_all

lemma map2_replicate: "map2 f (replicate (length xs) a) (map h xs) = map (\<lambda>x. f a (h x)) xs"
  by (induction xs) simp_all

text \<open>A shuffle of a constant whose halves agree is a lookup in one half.\<close>

lemma vpshufb_table:
  assumes "length sel = 32" "length t = 16"
  shows "vpshufb sel (t @ t) = map (\<lambda>b. if bit b 7 then 0 else t ! unat (b AND 15)) sel"
proof -
  have "map f sel = map f (take 16 sel) @ map f (drop 16 sel)" for f :: "u8 \<Rightarrow> u8"
    by (metis append_take_drop_id map_append)
  then show ?thesis using assms(2) by (simp add: vpshufb_def pshufb_def)
qed

lemma lanes_Cons2: "lanes 2 (a # b # x) = le_word [a, b] # lanes 2 x"
proof -
  have "[0..<Suc (length x div 2)] = 0 # map Suc [0..<length x div 2]" by (simp add: upt_conv_Cons map_Suc_upt del: upt_Suc)
  then show ?thesis by (simp add: lanes_def comp_def)
qed

lemma nibble:
  fixes a b :: u8
  shows "map ((AND) 15) (le_bytes 2 (drop_bit 4 (le_word [a, b] :: u16))) = map (drop_bit 4) [a, b]"
proof -
  let ?w = "le_word [a, b] :: u16"
  have ab: "unat a < 256" "unat b < 256" using unat_lt_pow [of a] unat_lt_pow [of b] by simp_all
  have w: "unat ?w = unat a + 256 * unat b"
    by (simp add: unat_le_word bytes_val_def bval_def)
  have d: "unat (drop_bit 4 ?w) = (unat a + 256 * unat b) div 16"
    by (simp only: unat_drop_bit_eq w) (simp add: drop_bit_eq_div)
  have "le_bytes 2 (drop_bit 4 ?w) = [of_nat ((unat a + 256 * unat b) div 16 mod 256), of_nat ((unat a + 256 * unat b) div 16 div 256 mod 256)]"
    unfolding le_bytes_def be_bytes_def d by (simp add: numeral_2_eq_2)
  moreover have "15 AND of_nat n = (of_nat (unat c div 16) :: u8)" if "n mod 16 = unat c div 16" for n and c :: u8
  proof -
    have "unat (of_nat n AND 15 :: u8) = n mod 256 mod 16" by (simp add: unat_and_15 unat_of_nat)
    also have "\<dots> = unat c div 16" using that by (simp add: mod_mod_cancel)
    finally have "unat (15 AND of_nat n :: u8) = unat c div 16" by (simp add: and.commute)
    then show ?thesis by (metis of_nat_unat ucast_id)
  qed
  moreover have "(unat a + 256 * unat b) div 16 mod 16 = unat a div 16"
    using ab(1) div_mult_self1 [of 16 "unat a" "16 * unat b"] by (simp add: less_mult_imp_div_less)
  moreover have "(unat a + 256 * unat b) div 16 div 256 mod 16 = unat b div 16"
  proof -
    have "(unat a + 256 * unat b) div 16 div 256 = (unat a + 256 * unat b) div 256 div 16"
      by (simp only: div_mult2_eq [symmetric] mult.commute)
    also have "\<dots> = unat b div 16" using ab(1) by simp
    finally show ?thesis using ab(2) by (simp add: less_mult_imp_div_less)
  qed
  moreover have "drop_bit 4 c = (of_nat (unat c div 16) :: u8)" for c :: u8
  proof -
    have "unat (drop_bit 4 c) = unat c div 16" by (simp only: unat_drop_bit_eq) (simp add: drop_bit_eq_div)
    then show ?thesis by (metis of_nat_unat ucast_id)
  qed
  ultimately show ?thesis by (simp add: mod_mod_cancel)
qed

text \<open>The nibble of each byte, although the instruction shifts 16-bit words.\<close>

lemma vpsrlw_nibbles:
  "even (length v) \<Longrightarrow> map ((AND) 15) (vpsrlw 4 v) = map (drop_bit 4) v"
proof (induction v rule: induct_list012)
  case (3 a b v)
  have "vpsrlw 4 (a # b # v) = le_bytes 2 (drop_bit 4 (le_word [a, b] :: u16)) @ vpsrlw 4 v"
    by (simp add: vpsrlw_def lanes_Cons2 mem_of_def)
  then show ?case using 3 nibble [of a b] by simp
qed (simp_all add: vpsrlw_def lanes_def)

lemma unat_drop_bit_4: "unat (drop_bit 4 c :: u8) = unat c div 16"
  by (simp only: unat_drop_bit_eq) (simp add: drop_bit_eq_div)

text \<open>A nibble as a selector: its top bit is clear and its low bits are all of it.\<close>

lemma small_selector:
  assumes "unat (b :: u8) < 16"
  shows "\<not> bit b 7" "b AND 15 = b"
proof -
  have "unat (b AND 15) = unat b" using assms by (simp add: unat_and_15)
  then show "b AND 15 = b" by (simp add: word_unat_eq_iff)
  then have "bit b 7 = bit (b AND 15) 7" by simp
  then show "\<not> bit b 7" by (simp add: bit_and_iff)
qed

lemma vpshufb_nibbles:
  assumes "length v = 32" "length t = 16" "\<forall>c. unat (f c :: u8) < 16"
  shows "vpshufb (map f v) (t @ t) = map (\<lambda>c. t ! unat (f c)) v"
  using assms small_selector [of "f _"] by (simp add: vpshufb_table)

lemma low_nibbles: "vpand decFusedB15 v = map ((AND) 15) v" if "length v = 32"
proof -
  have "decFusedB15 = replicate (length v) 15" using that by (simp add: fused_constants replicate_numeral)
  then show ?thesis using map2_replicate [of "(AND)" v 15 "\<lambda>c. c"] by (simp add: vpand_def)
qed

lemma length_vpsrlw [simp]: "length (vpsrlw k v) = 2 * (length v div 2)"
  by (simp add: vpsrlw_def)

lemma fused_halves:
  "decFusedLoNib = take 16 decFusedLoNib @ take 16 decFusedLoNib" "length (take 16 decFusedLoNib) = 16"
  "decFusedHiNib = take 16 decFusedHiNib @ take 16 decFusedHiNib" "length (take 16 decFusedHiNib) = 16"
  "decFusedBase = take 16 decFusedBase @ take 16 decFusedBase" "length (take 16 decFusedBase) = 16"
  "decFusedBaseHi = take 16 decFusedBaseHi @ take 16 decFusedBaseHi" "length (take 16 decFusedBaseHi) = 16"
  by (simp_all add: fused_constants)

lemma FUSED_C2D_eq:
  assumes "length v = 32"
  shows "FUSED_C2D v bad = (map c2d_digit v, map2 (OR) (map (\<lambda>c. if b58_valid c then 0 else 255) v) bad)"
proof -
  have lo: "unat (15 AND c :: u8) < 16" for c using unat_and_15 [of c] by (simp add: and.commute)
  have hi: "unat (drop_bit 4 c :: u8) < 16" for c
    using unat_lt_pow [of c] unfolding unat_drop_bit_4 by (intro less_mult_imp_div_less) simp
  have t2: "vpand (vpshufb (vpand decFusedB15 (vpsrlw 4 v)) decFusedHiNib) (vpshufb (vpand decFusedB15 v) decFusedLoNib) = map c2d_class v"
  proof -
    have "vpshufb (map ((AND) 15) v) decFusedLoNib = map (\<lambda>c. take 16 decFusedLoNib ! unat (15 AND c)) v"
      using lo by (subst fused_halves(1), intro vpshufb_nibbles assms fused_halves(2)) simp
    moreover have "vpshufb (map (drop_bit 4) v) decFusedHiNib = map (\<lambda>c. take 16 decFusedHiNib ! unat (drop_bit 4 c)) v"
      using hi by (subst fused_halves(3), intro vpshufb_nibbles assms fused_halves(4)) simp
    ultimately show ?thesis
      using assms by (simp add: low_nibbles vpsrlw_nibbles) (simp add: vpand_def map2_same c2d_class_def [abs_def] and.commute)
  qed
  define t where "t = map c2d_class v"
  have lt: "length t = 32" using assms by (simp add: t_def)
  have bad: "vpcmpeqb (replicate 32 0) t = map (\<lambda>c. if b58_valid c then 0 else 255) v"
  proof -
    have "(if 0 = c2d_class c then 255 else 0 :: u8) = (if b58_valid c then 0 else 255)" for c
      using c2d_class_valid [of c] by auto
    then show ?thesis
      using map2_replicate [of "\<lambda>a b. if a = b then 255 else 0 :: u8" v 0 c2d_class] assms
      by (simp only: vpcmpeqb_def t_def)
  qed
  have base: "vpor (vpshufb (vpand decFusedB15 (vpsrlw 4 t)) decFusedBaseHi) (vpshufb t decFusedBase) =
      map (\<lambda>t. take 16 decFusedBaseHi ! unat (drop_bit 4 t) OR (if bit t 7 then 0 else take 16 decFusedBase ! unat (t AND 15))) t"
  proof -
    have "vpshufb t decFusedBase = map (\<lambda>b. if bit b 7 then 0 else take 16 decFusedBase ! unat (b AND 15)) t"
      by (subst fused_halves(5), intro vpshufb_table lt fused_halves(6))
    moreover have "vpshufb (map (drop_bit 4) t) decFusedBaseHi = map (\<lambda>c. take 16 decFusedBaseHi ! unat (drop_bit 4 c)) t"
      using hi by (subst fused_halves(7), intro vpshufb_nibbles lt fused_halves(8)) simp
    ultimately show ?thesis
      using lt by (simp add: low_nibbles vpsrlw_nibbles vpor_def map2_same)
  qed
  have sub: "vpsubb (map f v) v = map (\<lambda>c. c - f c) v" for f
    using map2_same [of "\<lambda>a b. b - a" f v "\<lambda>c. c"] by (simp add: vpsubb_def)
  show ?thesis
    unfolding FUSED_C2D_def Let_def t2 t_def [symmetric] bad base
    by (simp add: t_def sub vpor_def c2d_digit_def [abs_def] Let_def comp_def)
qed

text \<open>On valid characters: their digits, and the mask stays as it was.\<close>

lemma vpmovmskb_0: "vpmovmskb x = 0 \<longleftrightarrow> (\<forall>b \<in> set x. \<not> bit b 7)"
  by (induction x) (auto simp: vpmovmskb_def)

section \<open>Digits to limbs\<close>

text \<open>Two digits, then four, with no saturation and no sign.\<close>

lemma maddubs_digits:
  assumes "unat a < 58" "unat b < 58"
  shows "maddubs a b 58 1 = of_nat (unat a * 58 + unat b)"
proof -
  have "uint a * 58 + uint b * 1 = int (unat a * 58 + unat b)" by simp
  moreover have "unat a * 58 + unat b \<le> 32767" using assms by linarith
  ultimately have "max (- 32768) (min 32767 (uint a * 58 + uint b * 1)) = int (unat a * 58 + unat b)" by linarith
  moreover have "sint (58 :: u8) = 58" "sint (1 :: u8) = 1" by simp_all
  ultimately show ?thesis unfolding maddubs_def by (simp only: of_int_of_nat_eq)
qed

lemma sint_small: "k < 2 ^ 15 \<Longrightarrow> sint (of_nat k :: u16) = int k"
  by (simp add: signed_of_nat signed_take_bit_int_eq_self)

lemma maddwd_pairs:
  assumes "m < 3364" "n < 3364"
  shows "maddwd (of_nat m) (of_nat n) 3364 1 = of_nat (m * 3364 + n)"
proof -
  have "sint (of_nat m :: u16) = int m" "sint (of_nat n :: u16) = int n" "sint (3364 :: u16) = 3364" "sint (1 :: u16) = 1"
    using assms by (simp_all add: sint_small)
  then have "maddwd (of_nat m) (of_nat n) 3364 1 = of_int (int (m * 3364 + n))" by (simp add: maddwd_def)
  then show ?thesis by (simp only: of_int_of_nat_eq)
qed

lemma horner_limb:
  assumes "unat (a :: u8) < 58" "unat b < 58" "unat c < 58" "unat d < 58" "unat e < 58"
  shows "ucast e + maddwd (maddubs a b 58 1) (maddubs c d 58 1) 3364 1 * 58 =
    (of_nat (bval 58 (map unat [a, b, c, d, e])) :: u32)"
proof -
  have "unat a * 58 + unat b < 3364" "unat c * 58 + unat d < 3364" using assms by linarith+
  then have "maddwd (maddubs a b 58 1) (maddubs c d 58 1) 3364 1 = of_nat ((unat a * 58 + unat b) * 3364 + (unat c * 58 + unat d))"
    unfolding maddubs_digits [OF assms(1,2)] maddubs_digits [OF assms(3,4)] by (rule maddwd_pairs)
  moreover have "(ucast e :: u32) = of_nat (unat e)" by (simp add: of_nat_unat)
  ultimately show ?thesis by (simp add: bval_def algebra_simps)
qed

lemma horner_zero: "maddwd (maddubs 0 0 58 1) (maddubs 0 0 58 1) 3364 1 = 0"
  by (simp add: maddubs_def maddwd_def)

lemma lanes_Cons4: "lanes 4 (a # b # c # d # x) = le_word [a, b, c, d] # lanes 4 x"
proof -
  have "length (a # b # c # d # x) div 4 = Suc (length x div 4)" by simp
  moreover have "[0..<Suc (length x div 4)] = 0 # map Suc [0..<length x div 4]" by (simp add: upt_conv_Cons map_Suc_upt del: upt_Suc)
  moreover have "drop (4 + n) (a # b # c # d # x) = drop n x" for n by (simp add: numeral_eq_Suc)
  ultimately show ?thesis unfolding lanes_def by (simp add: comp_def del: upt_Suc)
qed

lemma length16E:
  assumes "length (a :: bytes) = 16"
  obtains a0 a1 a2 a3 a4 a5 a6 a7 a8 a9 a10 a11 a12 a13 a14 a15
  where "a = [a0, a1, a2, a3, a4, a5, a6, a7, a8, a9, a10, a11, a12, a13, a14, a15]"
  using assms by (auto simp: length_Suc_conv eval_nat_numeral)

definition limbs16 :: "bytes \<Rightarrow> u32 list" where
  "limbs16 a = map (\<lambda>g. of_nat (bval 58 (map unat (take 5 (drop (5 * g) a))))) [0..<3] @ [0]"

lemma limbs16_list:
  "limbs16 [a0, a1, a2, a3, a4, a5, a6, a7, a8, a9, a10, a11, a12, a13, a14, a15] =
    [of_nat (bval 58 (map unat [a0, a1, a2, a3, a4])), of_nat (bval 58 (map unat [a5, a6, a7, a8, a9])),
     of_nat (bval 58 (map unat [a10, a11, a12, a13, a14])), 0]"
  by (simp add: limbs16_def upt_rec)

lemma FUSED_HORNER_eq:
  assumes "length a = 16" "length b = 16" "\<forall>d \<in> set (take 15 a) \<union> set (take 15 b). unat d < 58"
  shows "FUSED_HORNER (a @ b) = mem_of 4 (limbs16 a @ limbs16 b)"
proof -
  obtain a0 a1 a2 a3 a4 a5 a6 a7 a8 a9 a10 a11 a12 a13 a14 a15
    where a: "a = [a0, a1, a2, a3, a4, a5, a6, a7, a8, a9, a10, a11, a12, a13, a14, a15]"
    using assms(1) by (rule length16E)
  obtain b0 b1 b2 b3 b4 b5 b6 b7 b8 b9 b10 b11 b12 b13 b14 b15
    where b: "b = [b0, b1, b2, b3, b4, b5, b6, b7, b8, b9, b10, b11, b12, b13, b14, b15]"
    using assms(2) by (rule length16E)
  let ?p = "[a0, a1, a2, a3, a5, a6, a7, a8, a10, a11, a12, a13, 0, 0, 0, 0,
    b0, b1, b2, b3, b5, b6, b7, b8, b10, b11, b12, b13, 0, 0, 0, 0]"
  let ?q = "[a4, 0, 0, 0, a9, 0, 0, 0, a14, 0, 0, 0, 0, 0, 0, 0, b4, 0, 0, 0, b9, 0, 0, 0, b14, 0, 0, 0, 0, 0, 0, 0]"
  have p: "vpshufb decFusedP (a @ b) = ?p" by (simp add: vpshufb_def pshufb_def fused_constants a b)
  have q: "vpshufb decFusedQ (a @ b) = ?q" by (simp add: vpshufb_def pshufb_def fused_constants a b)
  have m2: "lanes 2 (mem_of 2 ws) = ws" for ws :: "u16 list" by (rule lanes_mem_of_width)
  have m4: "lanes 4 (mem_of 4 ws) = ws" for ws :: "u32 list" by (rule lanes_mem_of_width)
  have w2: "lanes 2 decFusedW2 = [3364, 1, 3364, 1, 3364, 1, 3364, 1, 3364, 1, 3364, 1, 3364, 1, 3364, 1 :: u16]"
    by (simp add: fused_constants lanes_Cons2 le_word_def bytes_val_def bval_def) (simp add: lanes_def)
  have d58: "lanes 4 decFusedD58 = replicate 8 (58 :: u32)"
    by (simp add: fused_constants lanes_Cons4 le_word_def bytes_val_def bval_def replicate_numeral) (simp add: lanes_def)
  have lq: "lanes 4 ?q = map ucast [a4, a9, a14, 0, b4, b9, b14, 0 :: u8]"
    by (simp add: lanes_Cons4 le_word_def bytes_val_def bval_def of_nat_unat) (simp add: lanes_def)
  have p1: "vpmaddubsw decFusedW1 ?p = mem_of 2 (map (\<lambda>(x, y). maddubs x y 58 1)
      [(a0, a1), (a2, a3), (a5, a6), (a7, a8), (a10, a11), (a12, a13), (0, 0), (0, 0),
       (b0, b1), (b2, b3), (b5, b6), (b7, b8), (b10, b11), (b12, b13), (0, 0), (0, 0)])"
    by (simp add: vpmaddubsw_def fused_constants)
  let ?m = "\<lambda>w x y z. maddwd (maddubs w x 58 1) (maddubs y z 58 1) 3364 1"
  have p2: "vpmaddwd decFusedW2 (vpmaddubsw decFusedW1 ?p) = mem_of 4
      [?m a0 a1 a2 a3, ?m a5 a6 a7 a8, ?m a10 a11 a12 a13, ?m 0 0 0 0, ?m b0 b1 b2 b3, ?m b5 b6 b7 b8, ?m b10 b11 b12 b13, ?m 0 0 0 0]"
    unfolding p1 vpmaddwd_def m2 w2 by simp
  have "FUSED_HORNER (a @ b) = mem_of 4
      [ucast a4 + ?m a0 a1 a2 a3 * 58, ucast a9 + ?m a5 a6 a7 a8 * 58, ucast a14 + ?m a10 a11 a12 a13 * 58, 0,
       ucast b4 + ?m b0 b1 b2 b3 * 58, ucast b9 + ?m b5 b6 b7 b8 * 58, ucast b14 + ?m b10 b11 b12 b13 * 58, 0]"
    unfolding FUSED_HORNER_def Let_def p q p2 vpmulld_def vpaddd_def m4 d58 lq horner_zero by (simp add: replicate_numeral)
  moreover have "ucast a4 + ?m a0 a1 a2 a3 * 58 = (of_nat (bval 58 (map unat [a0, a1, a2, a3, a4])) :: u32)"
    "ucast a9 + ?m a5 a6 a7 a8 * 58 = (of_nat (bval 58 (map unat [a5, a6, a7, a8, a9])) :: u32)"
    "ucast a14 + ?m a10 a11 a12 a13 * 58 = (of_nat (bval 58 (map unat [a10, a11, a12, a13, a14])) :: u32)"
    "ucast b4 + ?m b0 b1 b2 b3 * 58 = (of_nat (bval 58 (map unat [b0, b1, b2, b3, b4])) :: u32)"
    "ucast b9 + ?m b5 b6 b7 b8 * 58 = (of_nat (bval 58 (map unat [b5, b6, b7, b8, b9])) :: u32)"
    "ucast b14 + ?m b10 b11 b12 b13 * 58 = (of_nat (bval 58 (map unat [b10, b11, b12, b13, b14])) :: u32)"
    using assms(3) by (intro horner_limb; simp add: a b)+
  ultimately show ?thesis unfolding a b limbs16_list by (simp only: append.simps)
qed

end
