(* ===== verification/Asm_Chars.thy ===== *)
theory Asm_Chars
  imports Asm_Fused
begin

unbundle bit_operations_syntax

text \<open>
  The kernels that render limbs as characters (\<open>matmul_avx2_amd64.s\<close>): four limbs per block, each
  split into five digits by magic multiplications, packed by shuffles and mapped to the alphabet by
  thresholds.  \<open>digitsToChars8\<close>, \<open>digitsToChars16\<close> and \<open>digitsToChars36\<close> divide by falling powers,
  \<open>digitsToChars16Fast\<close> by 58 and \<open>58 ^ 2\<close>.
\<close>

section \<open>Instructions and constants\<close>

definition vpbroadcastq :: "u64 \<Rightarrow> bytes" where
  "vpbroadcastq w = mem_of 8 (replicate 4 w)"

definition vpsrlq :: "nat \<Rightarrow> bytes \<Rightarrow> bytes" where
  "vpsrlq k x = mem_of 8 (map (drop_bit k) (lanes 8 x :: u64 list))"

text \<open>Go writes the subtrahend, and the smaller side of the comparison, first.\<close>

definition vpsubq :: "bytes \<Rightarrow> bytes \<Rightarrow> bytes" where
  "vpsubq x y = mem_of 8 (map2 (\<lambda>a b. b - a) (lanes 8 x) (lanes 8 y :: u64 list))"

definition vpaddb :: "bytes \<Rightarrow> bytes \<Rightarrow> bytes" where
  "vpaddb x y = map2 (+) x y"

definition vpcmpgtb :: "bytes \<Rightarrow> bytes \<Rightarrow> bytes" where
  "vpcmpgtb x y = map2 (\<lambda>a b. if sint a < sint b then 255 else 0) x y"

definition b58shuf0 :: bytes where
  "b58shuf0 = mem_of 8 [0x8080088080808000, 0x8080808080808080, 0x8080088080808000, 0x8080808080808080 :: u64]"

definition b58shuf1 :: bytes where
  "b58shuf1 = mem_of 8 [0x8008808080800080, 0x8080808080808080, 0x8008808080800080, 0x8080808080808080 :: u64]"

definition b58shuf2 :: bytes where
  "b58shuf2 = mem_of 8 [0x880808080008080, 0x8080808080808080, 0x880808080008080, 0x8080808080808080 :: u64]"

definition b58shuf3 :: bytes where
  "b58shuf3 = mem_of 8 [0x8080808000808080, 0x8080808080808008, 0x8080808000808080, 0x8080808080808008 :: u64]"

definition b58shuf4 :: bytes where
  "b58shuf4 = mem_of 8 [0x8080800080808080, 0x8080808080800880, 0x8080800080808080, 0x8080808080800880 :: u64]"

text \<open>\<open>b58c49\<close>, the thresholds \<open>b58thr0\<close> to \<open>b58thr4\<close> and the offsets \<open>b58add0\<close> to \<open>b58add4\<close> repeat one byte.\<close>

definition every :: "u8 \<Rightarrow> bytes" where
  "every b = replicate 32 b"

section \<open>One block\<close>

definition packDigits :: "bytes \<Rightarrow> bytes \<Rightarrow> bytes \<Rightarrow> bytes \<Rightarrow> bytes \<Rightarrow> bytes" where
  "packDigits d0 d1 d2 d3 d4 =
     (let y1 = vpshufb b58shuf0 d0;
          y2 = vpshufb b58shuf1 d1;
          y3 = vpshufb b58shuf2 d2;
          y4 = vpshufb b58shuf3 d3;
          y0 = vpshufb b58shuf4 d4;
          y1 = vpor y2 y1;
          y3 = vpor y4 y3;
          y1 = vpor y3 y1
      in vpor y0 y1)"

text \<open>Digits by \<open>58 ^ 4\<close>, \<open>58 ^ 3\<close>, \<open>58 ^ 2\<close> and 58, each on the remainder of the one before.\<close>

definition blockDigits8 :: "bytes \<Rightarrow> bytes" where
  "blockDigits8 y0 =
     (let y1 = vpsrlq 53 (vpmuludq (vpbroadcastq 795935355) y0);
          y0 = vpsubq (vpmuludq (vpbroadcastq 11316496) y1) y0;
          y2 = vpsrlq 41 (vpmuludq (vpbroadcastq 11270569) y0);
          y0 = vpsubq (vpmuludq (vpbroadcastq 195112) y2) y0;
          y3 = vpsrlq 32 (vpmuludq (vpbroadcastq 1276745) y0);
          y0 = vpsubq (vpmuludq (vpbroadcastq 3364) y3) y0;
          y4 = vpsrlq 32 (vpmuludq (vpbroadcastq 74051161) y0);
          y0 = vpsubq (vpmuludq (vpbroadcastq 58) y4) y0
      in packDigits y1 y2 y3 y4 y0)"

definition blockChars8 :: "bytes \<Rightarrow> bytes" where
  "blockChars8 y1 =
     (let y2 = vpaddb (every 49) y1;
          y2 = vpaddb (vpand (every 7) (vpcmpgtb (every 8) y1)) y2;
          y2 = vpaddb (vpand (every 1) (vpcmpgtb (every 16) y1)) y2;
          y2 = vpaddb (vpand (every 1) (vpcmpgtb (every 21) y1)) y2;
          y2 = vpaddb (vpand (every 6) (vpcmpgtb (every 32) y1)) y2
      in vpaddb (vpand (every 1) (vpcmpgtb (every 43) y1)) y2)"

text \<open>Quotients by 58 and by \<open>58 ^ 2\<close>, twice; the digits are their remainders.\<close>

definition blockDigits16 :: "bytes \<Rightarrow> bytes" where
  "blockDigits16 y0 =
     (let y1 = vpsrlq 37 (vpmuludq (vpbroadcastq 2369637129) y0);
          y2 = vpsrlq 40 (vpmuludq (vpbroadcastq 1307386003) (vpsrlq 2 y0));
          y3 = vpsrlq 40 (vpmuludq (vpbroadcastq 1307386003) (vpsrlq 2 y1));
          y4 = vpsrlq 40 (vpmuludq (vpbroadcastq 1307386003) (vpsrlq 2 y2));
          y0 = vpsubq (vpmuludq (vpbroadcastq 58) y1) y0;
          y1 = vpsubq (vpmuludq (vpbroadcastq 58) y2) y1;
          y2 = vpsubq (vpmuludq (vpbroadcastq 58) y3) y2;
          y3 = vpsubq (vpmuludq (vpbroadcastq 58) y4) y3
      in packDigits y4 y3 y2 y1 y0)"

definition blockChars16 :: "bytes \<Rightarrow> bytes" where
  "blockChars16 y1 =
     (let y6 = vpcmpgtb (every 8) y1;
          y7 = vpcmpgtb (every 16) y1;
          y8 = vpcmpgtb (every 21) y1;
          y9 = vpcmpgtb (every 32) y1;
          y10 = vpcmpgtb (every 43) y1;
          y6 = vpand (every 7) y6;
          y9 = vpand (every 6) y9;
          y2 = vpaddb (every 49) y1;
          y2 = vpaddb y6 y2;
          y2 = vpaddb y9 y2;
          y2 = vpsubb y7 y2;
          y2 = vpsubb y8 y2
      in vpsubb y10 y2)"

section \<open>The kernels\<close>

definition store128 :: "bytes \<Rightarrow> nat \<Rightarrow> bytes \<Rightarrow> bytes option" where
  "store128 out a x = on_slice out a (a + 16) (\<lambda>_. Some x)"

text \<open>Block \<open>b\<close>: limbs from \<open>4 * b\<close> on, and the stores of its two halves.\<close>

definition renderBlocks :: "(bytes \<Rightarrow> bytes) \<Rightarrow> nat \<Rightarrow> u64 list \<Rightarrow> bytes \<Rightarrow> bytes option" where
  "renderBlocks f blocks v out =
     foldM (\<lambda>b out.
         do { y0 \<leftarrow> load256 (mem_of 8 v) (32 * b);
              let y2 = f y0;
              out \<leftarrow> store128 out (20 * b) (take 16 y2);
              store128 out (20 * b + 10) (drop 16 y2) })
       [0..<blocks] out"

definition digitsToChars8_asm :: "u64 list \<Rightarrow> bytes \<Rightarrow> bytes option" where
  "digitsToChars8_asm v out = renderBlocks (\<lambda>y. blockChars8 (blockDigits8 y)) 2 v out"

definition digitsToChars16Fast_asm :: "u64 list \<Rightarrow> bytes \<Rightarrow> bytes option" where
  "digitsToChars16Fast_asm v out = renderBlocks (\<lambda>y. blockChars16 (blockDigits16 y)) 4 v out"

definition digitsToChars16_asm :: "u64 list \<Rightarrow> bytes \<Rightarrow> bytes option" where
  "digitsToChars16_asm v out = renderBlocks (\<lambda>y. blockChars8 (blockDigits8 y)) 4 v out"

definition digitsToChars36_asm :: "u64 list \<Rightarrow> bytes \<Rightarrow> bytes option" where
  "digitsToChars36_asm v out = renderBlocks (\<lambda>y. blockChars8 (blockDigits8 y)) 9 v out"

section \<open>Division by multiplication\<close>

text \<open>When the excess of the multiplier stays small, the shifted product is the quotient.\<close>

lemma magic_div:
  fixes M d e k n :: nat
  assumes "M * d = 2 ^ k + e" "n div d * e + (d - 1) * M < 2 ^ k" "0 < d"
  shows "n * M div 2 ^ k = n div d"
proof -
  let ?q = "n div d" and ?r = "n mod d"
  have "?r \<le> d - 1" using mod_less_divisor [OF assms(3), of n] by linarith
  then have "?r * M \<le> (d - 1) * M" by (rule mult_le_mono1)
  then have lt: "?q * e + ?r * M < 2 ^ k" using assms(2) by linarith
  have "n * M = ?q * (M * d) + ?r * M" by (metis (no_types, lifting) distrib_right div_mult_mod_eq mult.assoc mult.commute)
  also have "\<dots> = ?q * 2 ^ k + (?q * e + ?r * M)" unfolding assms(1) by (simp add: algebra_simps)
  finally show ?thesis using lt by simp
qed

section \<open>Registers of numbers\<close>

definition nums :: "nat list \<Rightarrow> bytes" where
  "nums ns = mem_of 8 (map of_nat ns :: u64 list)"

lemma lanes_nums: "lanes 8 (nums ns) = (map of_nat ns :: u64 list)"
  unfolding nums_def by (rule lanes_mem_of_width)

lemma nums_eqI: "(\<And>n. n \<in> set ns \<Longrightarrow> (f n :: u64) = of_nat (g n)) \<Longrightarrow> mem_of 8 (map f ns) = nums (map g ns)"
  unfolding nums_def by (intro arg_cong [where f = "mem_of 8"]) (simp add: comp_def)

lemma nums_mul:
  assumes "length ns = 4" "c < 2 ^ 32" "\<forall>n \<in> set ns. f n < 2 ^ 32"
  shows "vpmuludq (vpbroadcastq (of_nat c)) (nums (map f ns)) = nums (map (\<lambda>n. f n * c) ns)"
proof -
  have u: "(ucast (ucast (of_nat m :: u64) :: u32) :: u64) = of_nat m" if "m < 2 ^ 32" for m
    using that by (simp add: word_unat_eq_iff unat_ucast_small unat_of_nat_small)
  let ?f = "\<lambda>(a :: u64) (b :: u64). ucast (ucast a :: u32) * ucast (ucast b :: u32) :: u64"
  have "lanes 8 (vpbroadcastq (of_nat c)) = replicate (length ns) (of_nat c :: u64)"
    unfolding vpbroadcastq_def assms(1) by (rule lanes_mem_of_width)
  then have "vpmuludq (vpbroadcastq (of_nat c)) (nums (map f ns)) =
      mem_of 8 (map2 ?f (replicate (length ns) (of_nat c)) (map (\<lambda>n. of_nat (f n)) ns))"
    by (simp only: vpmuludq_def lanes_nums map_map comp_def)
  also have "\<dots> = mem_of 8 (map (\<lambda>n. ?f (of_nat c) (of_nat (f n))) ns)"
    by (simp only: map2_replicate)
  also have "\<dots> = nums (map (\<lambda>n. f n * c) ns)"
    using assms(2,3) by (intro nums_eqI) (simp add: u mult.commute)
  finally show ?thesis .
qed

lemma nums_srl:
  assumes "\<forall>n \<in> set ns. f n < 2 ^ 64"
  shows "vpsrlq k (nums (map f ns)) = nums (map (\<lambda>n. f n div 2 ^ k) ns)"
proof -
  have "drop_bit k (of_nat m :: u64) = of_nat (m div 2 ^ k)" if "m < 2 ^ 64" for m
  proof -
    have "m div 2 ^ k < 2 ^ 64" using div_le_dividend [of m "2 ^ k"] that by linarith
    then show ?thesis using that by (simp add: word_unat_eq_iff unat_drop_bit64 unat_of_nat_small)
  qed
  then show ?thesis using assms unfolding vpsrlq_def lanes_nums map_map comp_def by (intro nums_eqI) simp
qed

lemma nums_sub:
  assumes "\<forall>n \<in> set ns. g n \<le> f n"
  shows "vpsubq (nums (map g ns)) (nums (map f ns)) = nums (map (\<lambda>n. f n - g n) ns)"
  using assms unfolding vpsubq_def lanes_nums map_map comp_def map2_same by (intro nums_eqI) (simp add: of_nat_diff)


section \<open>Characters\<close>

lemma vec_byte:
  assumes "length y = 32"
  shows "vpaddb (every a) (map g y) = map (\<lambda>b. g b + a) y"
    and "vpand (every a) (map g y) = map (\<lambda>b. g b AND a) y"
    and "vpcmpgtb (every a) (map g y) = map (\<lambda>b. if sint a < sint (g b) then 255 else 0) y"
  using map2_replicate [of _ y a g]
  by (simp_all add: assms vpaddb_def vpand_def vpcmpgtb_def every_def add.commute and.commute)

lemma vec_bytes:
  "vpaddb (map f y) (map g y) = map (\<lambda>b. f b + g b) y"
  "vpsubb (map f y) (map g y) = map (\<lambda>b. g b - f b) y"
  by (simp_all add: vpaddb_def vpsubb_def map2_same)

definition byte_char8 :: "u8 \<Rightarrow> u8" where
  "byte_char8 b = b + 49 + (if sint (8 :: u8) < sint b then 7 else 0) + (if sint (16 :: u8) < sint b then 1 else 0)
     + (if sint (21 :: u8) < sint b then 1 else 0) + (if sint (32 :: u8) < sint b then 6 else 0)
     + (if sint (43 :: u8) < sint b then 1 else 0)"

lemma blockChars8_eq: "length y = 32 \<Longrightarrow> blockChars8 y = map byte_char8 y"
  using vec_byte [of y _ "\<lambda>b. b"]
  by (simp add: blockChars8_def Let_def vec_byte vec_bytes byte_char8_def [abs_def] add.commute add.left_commute
      if_distrib [where f = "\<lambda>x. x AND c" for c] cong: if_cong)

lemma minus_one_255: "(- 1 :: u8) = 255"
  by simp

lemma blockChars16_eq: "length y = 32 \<Longrightarrow> blockChars16 y = map byte_char8 y"
  using vec_byte [of y _ "\<lambda>b. b"]
  by (simp add: blockChars16_def Let_def vec_byte vec_bytes byte_char8_def [abs_def] flip: minus_one_255)

lemma byte_char8_digits: "map byte_char8 (map of_nat [0..<58]) = alphabet"
  unfolding alphabet_eq byte_char8_def by (simp add: upt_rec)

lemma byte_char8_digit: "d < 58 \<Longrightarrow> byte_char8 (of_nat d) = b58_char d"
  using arg_cong [OF byte_char8_digits, of "\<lambda>l. l ! d"] by (simp add: b58_char_def)


section \<open>Digits\<close>

lemma digit_bytes:
  assumes "d < 256"
  shows "le_bytes 8 (of_nat d :: u64) = [of_nat d, 0, 0, 0, 0, 0, 0, 0]"
proof -
  have "unat (of_nat d :: u64) = d" using assms by (simp add: unat_of_nat_small)
  moreover have "be_bytes 8 d = be_bytes 7 0 @ be_bytes 1 d"
    using be_bytes_append [of d 1 7 0] assms by simp
  moreover have "be_bytes 1 d = [of_nat d]" "be_bytes 7 0 = [0, 0, 0, 0, 0, 0, 0]"
    using assms by (simp_all add: be_bytes_def fixed_zero replicate_numeral)
  ultimately show ?thesis by (simp add: le_bytes_def)
qed

lemma nums_digits:
  assumes "f a < 256" "f b < 256" "f c < 256" "f e < 256"
  shows "nums (map f [a, b, c, e]) =
    [of_nat (f a), 0, 0, 0, 0, 0, 0, 0, of_nat (f b), 0, 0, 0, 0, 0, 0, 0] @
    [of_nat (f c), 0, 0, 0, 0, 0, 0, 0, of_nat (f e), 0, 0, 0, 0, 0, 0, 0]"
  using assms by (simp add: nums_def mem_of_def digit_bytes)

lemmas shuffles = b58shuf0_def b58shuf1_def b58shuf2_def b58shuf3_def b58shuf4_def

lemma shuffle_tables:
  "b58shuf0 = [0, 128, 128, 128, 128, 8, 128, 128, 128, 128, 128, 128, 128, 128, 128, 128] @ [0, 128, 128, 128, 128, 8, 128, 128, 128, 128, 128, 128, 128, 128, 128, 128]"
  "b58shuf1 = [128, 0, 128, 128, 128, 128, 8, 128, 128, 128, 128, 128, 128, 128, 128, 128] @ [128, 0, 128, 128, 128, 128, 8, 128, 128, 128, 128, 128, 128, 128, 128, 128]"
  "b58shuf2 = [128, 128, 0, 128, 128, 128, 128, 8, 128, 128, 128, 128, 128, 128, 128, 128] @ [128, 128, 0, 128, 128, 128, 128, 8, 128, 128, 128, 128, 128, 128, 128, 128]"
  "b58shuf3 = [128, 128, 128, 0, 128, 128, 128, 128, 8, 128, 128, 128, 128, 128, 128, 128] @ [128, 128, 128, 0, 128, 128, 128, 128, 8, 128, 128, 128, 128, 128, 128, 128]"
  "b58shuf4 = [128, 128, 128, 128, 0, 128, 128, 128, 128, 8, 128, 128, 128, 128, 128, 128] @ [128, 128, 128, 128, 0, 128, 128, 128, 128, 8, 128, 128, 128, 128, 128, 128]"
proof -
  have w: "0x880808080008080 = (le_word [128, 128, 0, 128, 128, 128, 128, 8] :: u64)"
    "0x8008808080800080 = (le_word [128, 0, 128, 128, 128, 128, 8, 128] :: u64)"
    "0x8080088080808000 = (le_word [0, 128, 128, 128, 128, 8, 128, 128] :: u64)"
    "0x8080800080808080 = (le_word [128, 128, 128, 128, 0, 128, 128, 128] :: u64)"
    "0x8080808000808080 = (le_word [128, 128, 128, 0, 128, 128, 128, 128] :: u64)"
    "0x8080808080800880 = (le_word [128, 8, 128, 128, 128, 128, 128, 128] :: u64)"
    "0x8080808080808008 = (le_word [8, 128, 128, 128, 128, 128, 128, 128] :: u64)"
    "0x8080808080808080 = (le_word [128, 128, 128, 128, 128, 128, 128, 128] :: u64)"
    by (simp_all add: le_word_def bytes_val_def bval_def)
  show
    "b58shuf0 = [0, 128, 128, 128, 128, 8, 128, 128, 128, 128, 128, 128, 128, 128, 128, 128] @ [0, 128, 128, 128, 128, 8, 128, 128, 128, 128, 128, 128, 128, 128, 128, 128]"
    "b58shuf1 = [128, 0, 128, 128, 128, 128, 8, 128, 128, 128, 128, 128, 128, 128, 128, 128] @ [128, 0, 128, 128, 128, 128, 8, 128, 128, 128, 128, 128, 128, 128, 128, 128]"
    "b58shuf2 = [128, 128, 0, 128, 128, 128, 128, 8, 128, 128, 128, 128, 128, 128, 128, 128] @ [128, 128, 0, 128, 128, 128, 128, 8, 128, 128, 128, 128, 128, 128, 128, 128]"
    "b58shuf3 = [128, 128, 128, 0, 128, 128, 128, 128, 8, 128, 128, 128, 128, 128, 128, 128] @ [128, 128, 128, 0, 128, 128, 128, 128, 8, 128, 128, 128, 128, 128, 128, 128]"
    "b58shuf4 = [128, 128, 128, 128, 0, 128, 128, 128, 128, 8, 128, 128, 128, 128, 128, 128] @ [128, 128, 128, 128, 0, 128, 128, 128, 128, 8, 128, 128, 128, 128, 128, 128]"
    unfolding shuffles w by (simp_all add: mem_of_def le_bytes_word)
qed

lemma packDigits_eq:
  fixes d0 d1 d2 d3 d4 :: "nat \<Rightarrow> nat"
  assumes "\<And>n. n \<in> {a, b, c, e} \<Longrightarrow> d0 n < 256 \<and> d1 n < 256 \<and> d2 n < 256 \<and> d3 n < 256 \<and> d4 n < 256"
  shows "packDigits (nums (map d0 [a, b, c, e])) (nums (map d1 [a, b, c, e])) (nums (map d2 [a, b, c, e]))
      (nums (map d3 [a, b, c, e])) (nums (map d4 [a, b, c, e])) =
    map of_nat [d0 a, d1 a, d2 a, d3 a, d4 a, d0 b, d1 b, d2 b, d3 b, d4 b] @ replicate 6 0 @
    map of_nat [d0 c, d1 c, d2 c, d3 c, d4 c, d0 e, d1 e, d2 e, d3 e, d4 e] @ replicate 6 0"
proof -
  note lt = assms [of a] assms [of b] assms [of c] assms [of e]
  have "nums (map d [a, b, c, e]) =
      [of_nat (d a), 0, 0, 0, 0, 0, 0, 0, of_nat (d b), 0, 0, 0, 0, 0, 0, 0] @
      [of_nat (d c), 0, 0, 0, 0, 0, 0, 0, of_nat (d e), 0, 0, 0, 0, 0, 0, 0]" if "d \<in> {d0, d1, d2, d3, d4}" for d
    using that lt by (intro nums_digits) auto
  then show ?thesis
    by (simp add: packDigits_def Let_def shuffle_tables vpshufb_def pshufb_def vpor_def replicate_numeral)
qed

lemma nums_quotient:
  assumes "length ns = 4" "w = of_nat M" "\<forall>n \<in> set ns. f n < b" "M * d = 2 ^ k + e" "b div d * e + (d - 1) * M < 2 ^ k"
    "0 < d" "b \<le> 2 ^ 32" "M < 2 ^ 32"
  shows "vpsrlq k (vpmuludq (vpbroadcastq w) (nums (map f ns))) = nums (map (\<lambda>n. f n div d) ns)"
proof -
  have q: "f n * M div 2 ^ k = f n div d" if "n \<in> set ns" for n
  proof (rule magic_div [OF assms(4) _ assms(6)])
    have "f n div d * e \<le> b div d * e" using assms(3) that by (intro mult_le_mono1 div_le_mono) (simp add: less_imp_le)
    then show "f n div d * e + (d - 1) * M < 2 ^ k" using assms(5) by linarith
  qed
  have f: "f n < 2 ^ 32" if "n \<in> set ns" for n using assms(3,7) that by fastforce
  have "f n * M < 2 ^ 32 * 2 ^ 32" if "n \<in> set ns" for n
    using f [OF that] assms(8) by (intro mult_strict_mono) simp_all
  then have "vpsrlq k (vpmuludq (vpbroadcastq w) (nums (map f ns))) = nums (map (\<lambda>n. f n * M div 2 ^ k) ns)"
    using f nums_mul [OF assms(1,8), of f] nums_srl [of ns "\<lambda>n. f n * M" k] unfolding assms(2) by simp
  also have "map (\<lambda>n. f n * M div 2 ^ k) ns = map (\<lambda>n. f n div d) ns" using q by (intro map_cong) simp_all
  finally show ?thesis .
qed

lemma nums_remainder:
  assumes "length ns = 4" "w = of_nat d" "\<forall>n \<in> set ns. f n < 2 ^ 32" "d < 2 ^ 32"
  shows "vpsubq (vpmuludq (vpbroadcastq w) (nums (map (\<lambda>n. f n div d) ns))) (nums (map f ns)) = nums (map (\<lambda>n. f n mod d) ns)"
proof -
  have "f n div d < 2 ^ 32" if "n \<in> set ns" for n using assms(3) that by (intro le_less_trans [OF div_le_dividend]) simp
  then have "vpmuludq (vpbroadcastq w) (nums (map (\<lambda>n. f n div d) ns)) = nums (map (\<lambda>n. f n div d * d) ns)"
    unfolding assms(2) by (intro nums_mul assms) simp
  then show ?thesis by (simp add: nums_sub minus_div_mult_eq_mod)
qed

lemma blockDigits8_eq:
  assumes "length ns = 4" "\<forall>n \<in> set ns. n < 58 ^ 5"
  shows "blockDigits8 (nums ns) = packDigits (nums (map (\<lambda>n. n div 58 ^ 4) ns)) (nums (map (\<lambda>n. n mod 58 ^ 4 div 58 ^ 3) ns))
    (nums (map (\<lambda>n. n mod 58 ^ 4 mod 58 ^ 3 div 58 ^ 2) ns)) (nums (map (\<lambda>n. n mod 58 ^ 4 mod 58 ^ 3 mod 58 ^ 2 div 58) ns))
    (nums (map (\<lambda>n. n mod 58 ^ 4 mod 58 ^ 3 mod 58 ^ 2 mod 58) ns))"
proof -
  have lt: "n < 656356768" if "n \<in> set ns" for n using assms(2) that by simp
  have q4: "vpsrlq 53 (vpmuludq (vpbroadcastq 795935355) (nums ns)) = nums (map (\<lambda>n. n div 11316496) ns)"
    using nums_quotient [OF assms(1), where f = "\<lambda>n. n" and M = 795935355 and b = 656356768 and k = 53 and e = 6375088] lt by simp
  have r4: "vpsubq (vpmuludq (vpbroadcastq 11316496) (nums (map (\<lambda>n. n div 11316496) ns))) (nums ns) = nums (map (\<lambda>n. n mod 11316496) ns)"
    using nums_remainder [OF assms(1), where f = "\<lambda>n. n" and d = 11316496] lt by fastforce
  have q3: "vpsrlq 41 (vpmuludq (vpbroadcastq 11270569) (nums (map (\<lambda>n. n mod 11316496) ns))) = nums (map (\<lambda>n. n mod 11316496 div 195112) ns)"
    by (rule nums_quotient [OF assms(1), where M = 11270569 and b = 11316496 and e = 3176]) simp_all
  have r3: "vpsubq (vpmuludq (vpbroadcastq 195112) (nums (map (\<lambda>n. n mod 11316496 div 195112) ns))) (nums (map (\<lambda>n. n mod 11316496) ns))
      = nums (map (\<lambda>n. n mod 11316496 mod 195112) ns)"
    by (rule nums_remainder [OF assms(1)]) (simp_all add: less_trans [OF mod_less_divisor])
  have q2: "vpsrlq 32 (vpmuludq (vpbroadcastq 1276745) (nums (map (\<lambda>n. n mod 11316496 mod 195112) ns)))
      = nums (map (\<lambda>n. n mod 11316496 mod 195112 div 3364) ns)"
    by (rule nums_quotient [OF assms(1), where M = 1276745 and b = 195112 and e = 2884]) simp_all
  have r2: "vpsubq (vpmuludq (vpbroadcastq 3364) (nums (map (\<lambda>n. n mod 11316496 mod 195112 div 3364) ns)))
      (nums (map (\<lambda>n. n mod 11316496 mod 195112) ns)) = nums (map (\<lambda>n. n mod 11316496 mod 195112 mod 3364) ns)"
    by (rule nums_remainder [OF assms(1)]) (simp_all add: less_trans [OF mod_less_divisor])
  have q1: "vpsrlq 32 (vpmuludq (vpbroadcastq 74051161) (nums (map (\<lambda>n. n mod 11316496 mod 195112 mod 3364) ns)))
      = nums (map (\<lambda>n. n mod 11316496 mod 195112 mod 3364 div 58) ns)"
    by (rule nums_quotient [OF assms(1), where M = 74051161 and b = 3364 and e = 42]) simp_all
  have r1: "vpsubq (vpmuludq (vpbroadcastq 58) (nums (map (\<lambda>n. n mod 11316496 mod 195112 mod 3364 div 58) ns)))
      (nums (map (\<lambda>n. n mod 11316496 mod 195112 mod 3364) ns)) = nums (map (\<lambda>n. n mod 11316496 mod 195112 mod 3364 mod 58) ns)"
    by (rule nums_remainder [OF assms(1)]) (simp_all add: less_trans [OF mod_less_divisor])
  have p: "(58 :: nat) ^ 4 = 11316496" "(58 :: nat) ^ 3 = 195112" "(58 :: nat) ^ 2 = 3364" by simp_all
  show ?thesis unfolding blockDigits8_def Let_def q4 r4 q3 r3 q2 r2 q1 r1 p by (rule refl)
qed


text \<open>Quotients by 58 and by \<open>58 ^ 2\<close>, and the digits that remain.\<close>

lemma div58_registers:
  assumes "length ns = 4" "\<forall>n \<in> set ns. n < 58 ^ 5"
  defines "q \<equiv> \<lambda>k. nums (map (\<lambda>n. n div k) ns)"
  shows "vpsrlq 37 (vpmuludq (vpbroadcastq 2369637129) (nums ns)) = q 58"
    and "vpsrlq 40 (vpmuludq (vpbroadcastq 1307386003) (vpsrlq 2 (nums ns))) = q (58 ^ 2)"
    and "vpsrlq 40 (vpmuludq (vpbroadcastq 1307386003) (vpsrlq 2 (q 58))) = q (58 ^ 3)"
    and "vpsrlq 40 (vpmuludq (vpbroadcastq 1307386003) (vpsrlq 2 (q (58 ^ 2)))) = q (58 ^ 4)"
    and "vpsubq (vpmuludq (vpbroadcastq 58) (q 58)) (nums ns) = nums (map (\<lambda>n. n mod 58) ns)"
    and "vpsubq (vpmuludq (vpbroadcastq 58) (q (58 ^ 2))) (q 58) = nums (map (\<lambda>n. n div 58 mod 58) ns)"
    and "vpsubq (vpmuludq (vpbroadcastq 58) (q (58 ^ 3))) (q (58 ^ 2)) = nums (map (\<lambda>n. n div 58 ^ 2 mod 58) ns)"
    and "vpsubq (vpmuludq (vpbroadcastq 58) (q (58 ^ 4))) (q (58 ^ 3)) = nums (map (\<lambda>n. n div 58 ^ 3 mod 58) ns)"
proof -
  have lt: "n < 656356768" if "n \<in> set ns" for n using assms(2) that by simp
  have lt': "n div k < 656356768" if "n \<in> set ns" for n k using lt [OF that] by (rule le_less_trans [OF div_le_dividend])
  have p: "(58 :: nat) ^ 4 = 11316496" "(58 :: nat) ^ 3 = 195112" "(58 :: nat) ^ 2 = 3364" by simp_all
  have q2: "vpsrlq 40 (vpmuludq (vpbroadcastq 1307386003) (vpsrlq 2 (nums (map f ns)))) = nums (map (\<lambda>n. f n div 3364) ns)"
    if "\<forall>n \<in> set ns. f n < 656356768" for f
  proof -
    have "vpsrlq 2 (nums (map f ns)) = nums (map (\<lambda>n. f n div 4) ns)" using nums_srl [of ns f 2] that by fastforce
    moreover have "vpsrlq 40 (vpmuludq (vpbroadcastq 1307386003) (nums (map (\<lambda>n. f n div 4) ns))) = nums (map (\<lambda>n. f n div 4 div 841) ns)"
      by (rule nums_quotient [OF assms(1), where M = 1307386003 and b = 164089193 and e = 747]) (use that in \<open>auto intro!: less_mult_imp_div_less\<close>)
    ultimately show ?thesis by (simp add: div_mult2_eq [symmetric])
  qed
  have r: "vpsubq (vpmuludq (vpbroadcastq 58) (nums (map (\<lambda>n. f n div 58) ns))) (nums (map f ns)) = nums (map (\<lambda>n. f n mod 58) ns)"
    if "\<forall>n \<in> set ns. f n < 656356768" for f
    by (rule nums_remainder [OF assms(1)]) (use that in fastforce)+
  show "vpsrlq 37 (vpmuludq (vpbroadcastq 2369637129) (nums ns)) = q 58"
    unfolding q_def using nums_quotient [OF assms(1), where f = "\<lambda>n. n" and M = 2369637129 and b = 656356768 and k = 37 and e = 10] lt by simp
  show "vpsrlq 40 (vpmuludq (vpbroadcastq 1307386003) (vpsrlq 2 (nums ns))) = q (58 ^ 2)"
    unfolding q_def p using q2 [of "\<lambda>n. n"] lt by simp
  show "vpsrlq 40 (vpmuludq (vpbroadcastq 1307386003) (vpsrlq 2 (q 58))) = q (58 ^ 3)"
    unfolding q_def p using q2 [of "\<lambda>n. n div 58"] lt' by (simp add: div_mult2_eq [symmetric])
  show "vpsrlq 40 (vpmuludq (vpbroadcastq 1307386003) (vpsrlq 2 (q (58 ^ 2)))) = q (58 ^ 4)"
    unfolding q_def p using q2 [of "\<lambda>n. n div 3364"] lt' by (simp add: div_mult2_eq [symmetric])
  show "vpsubq (vpmuludq (vpbroadcastq 58) (q 58)) (nums ns) = nums (map (\<lambda>n. n mod 58) ns)"
    unfolding q_def using r [of "\<lambda>n. n"] lt by simp
  show "vpsubq (vpmuludq (vpbroadcastq 58) (q (58 ^ 2))) (q 58) = nums (map (\<lambda>n. n div 58 mod 58) ns)"
    unfolding q_def p using r [of "\<lambda>n. n div 58"] lt' by (simp add: div_mult2_eq [symmetric])
  show "vpsubq (vpmuludq (vpbroadcastq 58) (q (58 ^ 3))) (q (58 ^ 2)) = nums (map (\<lambda>n. n div 58 ^ 2 mod 58) ns)"
    unfolding q_def p using r [of "\<lambda>n. n div 3364"] lt' by (simp add: div_mult2_eq [symmetric])
  show "vpsubq (vpmuludq (vpbroadcastq 58) (q (58 ^ 4))) (q (58 ^ 3)) = nums (map (\<lambda>n. n div 58 ^ 3 mod 58) ns)"
    unfolding q_def p using r [of "\<lambda>n. n div 195112"] lt' by (simp add: div_mult2_eq [symmetric])
qed

lemma blockDigits16_eq:
  assumes "length ns = 4" "\<forall>n \<in> set ns. n < 58 ^ 5"
  shows "blockDigits16 (nums ns) = packDigits (nums (map (\<lambda>n. n div 58 ^ 4) ns)) (nums (map (\<lambda>n. n div 58 ^ 3 mod 58) ns))
    (nums (map (\<lambda>n. n div 58 ^ 2 mod 58) ns)) (nums (map (\<lambda>n. n div 58 mod 58) ns)) (nums (map (\<lambda>n. n mod 58) ns))"
  unfolding blockDigits16_def Let_def div58_registers [OF assms] by (rule refl)

section \<open>The block as characters\<close>

text \<open>Ten characters in each half, then six times the first of the alphabet.\<close>

lemma mod_div: "0 < b \<Longrightarrow> n mod (a * b) div b = n div b mod a" for n :: nat
  by (simp add: mod_mult2_eq mult.commute [of a b])

lemma block_digits:
  assumes "ns = [a, b, c, e]" "\<forall>n \<in> set ns. n < 58 ^ 5"
  shows "blockDigits8 (nums ns) = map of_nat (fixed 58 5 a @ fixed 58 5 b) @ replicate 6 0 @ map of_nat (fixed 58 5 c @ fixed 58 5 e) @ replicate 6 0"
    and "blockDigits16 (nums ns) = map of_nat (fixed 58 5 a @ fixed 58 5 b) @ replicate 6 0 @ map of_nat (fixed 58 5 c @ fixed 58 5 e) @ replicate 6 0"
proof -
  have len: "length ns = 4" by (simp add: assms(1))
  have lt: "n div 58 ^ 4 < 58" if "n \<in> set ns" for n
    using assms(2) that by (intro less_mult_imp_div_less) simp
  have m: "n mod 58 ^ 4 div 58 ^ 3 = n div 58 ^ 3 mod 58" "n mod 58 ^ 4 mod 58 ^ 3 div 58 ^ 2 = n div 58 ^ 2 mod 58"
    "n mod 58 ^ 4 mod 58 ^ 3 mod 58 ^ 2 div 58 = n div 58 mod 58" "n mod 58 ^ 4 mod 58 ^ 3 mod 58 ^ 2 mod 58 = n mod 58" for n :: nat
    by (simp_all add: mod_mod_cancel mod_div [of 195112 n 58, simplified] mod_div [of 3364 n 58, simplified] mod_div [of 58 n 58, simplified])
  have "n div 58 ^ 4 < 256 \<and> n div 58 ^ 3 mod 58 < 256 \<and> n div 58 ^ 2 mod 58 < 256 \<and> n div 58 mod 58 < 256 \<and> n mod 58 < 256"
    if "n \<in> {a, b, c, e}" for n
    using lt [of n] that by (simp add: assms(1) less_trans [OF mod_less_divisor])
  note P = packDigits_eq [OF this]
  have f: "fixed 58 5 n = [n div 58 ^ 4, n div 58 ^ 3 mod 58, n div 58 ^ 2 mod 58, n div 58 mod 58, n mod 58]" if "n \<in> set ns" for n
    using lt [OF that] by (simp add: fixed5)
  show 16: "blockDigits16 (nums ns) = map of_nat (fixed 58 5 a @ fixed 58 5 b) @ replicate 6 0 @ map of_nat (fixed 58 5 c @ fixed 58 5 e) @ replicate 6 0"
    unfolding blockDigits16_eq [OF len assms(2)] using P f by (simp add: assms(1))
  show "blockDigits8 (nums ns) = map of_nat (fixed 58 5 a @ fixed 58 5 b) @ replicate 6 0 @ map of_nat (fixed 58 5 c @ fixed 58 5 e) @ replicate 6 0"
    using 16 unfolding blockDigits8_eq [OF len assms(2)] blockDigits16_eq [OF len assms(2)] m .
qed

lemma nums_unat: "nums (map unat ws) = mem_of 8 (ws :: u64 list)"
  by (simp add: nums_def comp_def)

definition renders :: "(bytes \<Rightarrow> bytes) \<Rightarrow> bool" where
  "renders f \<longleftrightarrow> (\<forall>ns. length ns = 4 \<and> (\<forall>n \<in> set ns. n < 58 ^ 5) \<longrightarrow>
     f (nums ns) = chars_of (take 2 ns) @ replicate 6 49 @ chars_of (drop 2 ns) @ replicate 6 49)"

lemma fixed_chars: "map byte_char8 (map of_nat (fixed 58 k n)) = map b58_char (fixed 58 k n)"
  using fixed_less [of 58 _ k n] by (simp add: byte_char8_digit)

lemma block_renders:
  "renders (\<lambda>y. blockChars8 (blockDigits8 y))"
  "renders (\<lambda>y. blockChars16 (blockDigits16 y))"
proof -
  have "byte_char8 0 = 49" using byte_char8_digit [of 0] by (simp add: b58_char_def alphabet_eq)
  then have z: "map byte_char8 (replicate 6 0) = replicate 6 49" by simp
  have "blockChars8 (blockDigits8 (nums ns)) = chars_of (take 2 ns) @ replicate 6 49 @ chars_of (drop 2 ns) @ replicate 6 49 \<and>
      blockChars16 (blockDigits16 (nums ns)) = chars_of (take 2 ns) @ replicate 6 49 @ chars_of (drop 2 ns) @ replicate 6 49"
    if ns: "length ns = 4" "\<forall>n \<in> set ns. n < 58 ^ 5" for ns
  proof -
    obtain a b c e where abce: "ns = [a, b, c, e]" using ns(1) by (auto simp: length_Suc_conv eval_nat_numeral)
    let ?y = "map of_nat (fixed 58 5 a @ fixed 58 5 b) @ replicate 6 0 @ map of_nat (fixed 58 5 c @ fixed 58 5 e) @ replicate 6 0"
    have len: "length ?y = 32" by simp
    have y: "map byte_char8 ?y = chars_of (take 2 ns) @ replicate 6 49 @ chars_of (drop 2 ns) @ replicate 6 49"
      by (simp only: map_append z fixed_chars) (simp add: abce chars_of_Cons chars5_def)
    show ?thesis
      unfolding block_digits [OF abce ns(2)] blockChars8_eq [OF len] blockChars16_eq [OF len] using y by blast
  qed
  then show "renders (\<lambda>y. blockChars8 (blockDigits8 y))" "renders (\<lambda>y. blockChars16 (blockDigits16 y))"
    unfolding renders_def by blast+
qed

section \<open>Whole arrays\<close>

lemma store128_eq: "a + 16 \<le> length out \<Longrightarrow> length x = 16 \<Longrightarrow> store128 out a x = Some (take a out @ x @ drop (a + 16) out)"
  unfolding store128_def by (subst on_slice_Some [where w = x]) simp_all

text \<open>The six bytes behind the characters of a block are overwritten by the next block.\<close>

lemma renderBlocks_eq:
  assumes "renders f" "4 * blocks \<le> length v" "\<forall>x \<in> set (take (4 * blocks) v). unat x < 58 ^ 5" "20 * blocks + 6 \<le> length out"
  shows "\<exists>r. renderBlocks f blocks v out = Some r \<and> take (20 * blocks) r = chars_of (map unat (take (4 * blocks) v)) \<and>
    drop (20 * blocks + 6) r = drop (20 * blocks + 6) out \<and> length r = length out"
  using assms(2-4)
proof (induction blocks)
  case 0
  then show ?case by (simp add: renderBlocks_def)
next
  case (Suc b)
  have "set (take (4 * b) v) \<subseteq> set (take (4 * Suc b) v)" by (rule set_take_subset_set_take) simp
  then obtain r where r: "renderBlocks f b v out = Some r" "take (20 * b) r = chars_of (map unat (take (4 * b) v))"
    "drop (20 * b + 6) r = drop (20 * b + 6) out" "length r = length out"
    using Suc.IH Suc.prems by fastforce
  define w where "w = take 4 (drop (4 * b) v)"
  have lw: "length w = 4" unfolding w_def using Suc.prems(1) by simp
  have tk: "take (4 * Suc b) v = take (4 * b) v @ w" unfolding w_def by (simp add: take_add [symmetric] add.commute)
  have "load256 (mem_of 8 v) (32 * b) = Some (nums (map unat w))"
    unfolding load256_def nums_unat w_def using Suc.prems(1) by (intro subslice_mem_of) simp_all
  moreover define x where "x = chars_of (take 2 (map unat w)) @ replicate 6 49"
  moreover define y where "y = chars_of (drop 2 (map unat w)) @ replicate 6 49"
  ultimately have ld: "load256 (mem_of 8 v) (32 * b) = Some (nums (map unat w))" and f: "f (nums (map unat w)) = x @ y"
    and lx: "length x = 16" "length y = 16"
    using assms(1) lw Suc.prems(2) unfolding renders_def tk by auto
  let ?r1 = "take (20 * b) r @ x @ drop (20 * b + 16) r"
  let ?r2 = "take (20 * b + 10) ?r1 @ y @ drop (20 * b + 26) ?r1"
  have s1: "store128 r (20 * b) x = Some ?r1"
    using Suc.prems(3) r(4) lx by (intro store128_eq) simp_all
  have l1: "length ?r1 = length out" using Suc.prems(3) r(4) lx by simp
  have s2: "store128 ?r1 (20 * b + 10) y = Some ?r2"
    using store128_eq [of "20 * b + 10" ?r1 y] Suc.prems(3) l1 lx by (simp add: add.assoc)
  have "renderBlocks f (Suc b) v out = Some ?r2"
    using r(1) s1 s2 lx f ld unfolding renderBlocks_def by (simp add: Let_def)
  moreover have e: "?r2 = take (20 * b) r @ chars_of (map unat w) @ replicate 6 49 @ drop (20 * b + 26) r"
  proof -
    have "take 10 x @ chars_of (drop 2 (map unat w)) = chars_of (take 2 (map unat w)) @ chars_of (drop 2 (map unat w))"
      unfolding x_def using lw by simp
    also have "\<dots> = chars_of (map unat w)" by (simp flip: chars_of_append)
    finally have "take 10 x @ y = chars_of (map unat w) @ replicate 6 49" unfolding y_def by simp
    moreover have "take (20 * b + 10) ?r1 = take (20 * b) r @ take 10 x" "drop (20 * b + 26) ?r1 = drop (20 * b + 26) r"
      using Suc.prems(3) r(4) lx by (simp_all add: min_def add.commute)
    ultimately show ?thesis by simp
  qed
  moreover have "take (20 * Suc b) ?r2 = chars_of (map unat (take (4 * Suc b) v))"
    unfolding e tk using r(2) Suc.prems(1,3) r(4) lw by (simp add: chars_of_append min_def)
  moreover have "drop (20 * Suc b + 6) ?r2 = drop (20 * Suc b + 6) out"
    unfolding e using arg_cong [OF r(3), of "drop 20"] Suc.prems(3) r(4) lw by (simp add: min_def add.commute)
  moreover have "length ?r2 = length out" using Suc.prems(3) l1 lx by simp
  ultimately show ?case by blast
qed

lemma digitsToChars_asm_eq:
  assumes "(chars_kernel, n) \<in> {(digitsToChars8_asm, 8), (digitsToChars16_asm, 16), (digitsToChars16Fast_asm, 16), (digitsToChars36_asm, 36)}"
    "n \<le> length v" "\<forall>x \<in> set (take n v). unat x < 58 ^ 5" "5 * n + 6 \<le> length out"
  shows "\<exists>r. chars_kernel v out = Some r \<and> take (5 * n) r = chars_of (map unat (take n v)) \<and>
    drop (5 * n + 6) r = drop (5 * n + 6) out \<and> length r = length out"
proof -
  obtain f blocks where k: "chars_kernel v out = renderBlocks f blocks v out" "renders f" "n = 4 * blocks"
    using assms(1) block_renders
    by (auto simp: digitsToChars8_asm_def digitsToChars16_asm_def digitsToChars16Fast_asm_def digitsToChars36_asm_def)
  show ?thesis using renderBlocks_eq [OF k(2), of blocks v out] assms(2-4) unfolding k(1,3) by simp
qed

section \<open>The contract\<close>

definition asm_render :: "'a text_kernels_scheme \<Rightarrow> 'a text_kernels_scheme" where
  "asm_render k = k
     \<lparr>digitsToChars16Fast := (\<lambda>v out. the (digitsToChars16Fast_asm v out)),
      digitsToChars36 := (\<lambda>v out. the (digitsToChars36_asm v out))\<rparr>"

lemma asm_render_documented: "render_documented (asm_render k)"
  using digitsToChars_asm_eq [of digitsToChars16Fast_asm 16] digitsToChars_asm_eq [of digitsToChars36_asm 36]
  unfolding render_documented_def asm_render_def by fastforce

end
