(* ===== verification/Asm_Matmul.thy ===== *)
theory Asm_Matmul
  imports Asm_Memory Amd64_Matmul
begin

text \<open>
  The matrix products in assembly: the scalar kernels (\<open>matmul_amd64.s\<close>), the vector kernels
  (\<open>matmul_avx2_amd64.s\<close>) and those of arm64 (\<open>matmul_arm64.s\<close>).  The unrolled rows are folds over the
  columns that each row touches; registers and loads are as in \<open>Asm_Memory\<close>.  The locale \<open>row_unit\<close>
  says what one multiply-accumulate adds to which columns, and a whole kernel is proved from it once,
  for scalar and vector units alike.
\<close>

section \<open>The units\<close>

text \<open>\<open>MOVL a(DX), AX; IMULQ BX, AX; ADDQ AX, acc\<close>, on arm64 \<open>MOVWU a(R1), R20; MADD\<close>; \<open>n\<close> counts the entries.\<close>

definition mac32 :: "bytes \<Rightarrow> u64 \<Rightarrow> nat \<Rightarrow> nat \<Rightarrow> u64 list \<Rightarrow> u64 list option" where
  "mac32 tab bx n k acc =
     do { ax \<leftarrow> load32 tab (4 * n); r \<leftarrow> idx acc k; upd acc k (r + ucast ax * bx) }"

text \<open>\<open>VPMULUDQ a(DX), Y, T; VPADDQ T, A, A\<close>; \<open>n\<close> counts the blocks of four entries.\<close>

definition macBlock :: "bytes \<Rightarrow> bytes \<Rightarrow> nat \<Rightarrow> nat \<Rightarrow> bytes list \<Rightarrow> bytes list option" where
  "macBlock tab y n k acc =
     do { t \<leftarrow> load256 tab (32 * n); r \<leftarrow> idx acc k; upd acc k (vpaddq (vpmuludq y t) r) }"

text \<open>The mask that reverses the bytes of each 32-bit lane.\<close>

definition bswapd :: bytes where
  "bswapd = mem_of 8 [0x0405060700010203, 0x0c0d0e0f08090a0b, 0x0405060700010203, 0x0c0d0e0f08090a0b :: u64]"

section \<open>The scalar kernels\<close>

definition encodeMatMul32Scalar_asm :: "bytes \<Rightarrow> u64 list \<Rightarrow> u64 list option" where
  "encodeMatMul32Scalar_asm src im =
     do { acc \<leftarrow> foldM (\<lambda>i acc.
            do { bx \<leftarrow> load32 src (4 * i);
                 foldM (\<lambda>k. mac32 (mem_of 4 (concat encTable32)) (ucast (bswap32 bx)) (8 * i + k) (k + 0)) [i..<8] acc })
            [0..<8] (replicate 8 0);
          im \<leftarrow> upd im 0 0;
          foldM (\<lambda>k im. upd im (k + 1) (acc ! k)) [0..<8] im }"

text \<open>The last row of the table is \<open>0, \<dots>, 0, 1\<close>; its limb is added as it is.\<close>

definition decodeMatMul32Scalar_asm :: "u64 list \<Rightarrow> u64 list \<Rightarrow> u64 list option" where
  "decodeMatMul32Scalar_asm im bin =
     do { acc \<leftarrow> foldM (\<lambda>i acc.
            do { bx \<leftarrow> load32 (mem_of 8 im) (8 * i);
                 foldM (\<lambda>k. mac32 (mem_of 4 (concat decTable32)) (ucast bx) (8 * i + k) (k + 0)) [i..<if i < 2 then 7 else 8] acc })
            [0..<8] (replicate 8 0);
          bx \<leftarrow> load64 (mem_of 8 im) 64;
          r \<leftarrow> idx acc 7;
          acc \<leftarrow> upd acc 7 (r + bx);
          foldM (\<lambda>k bin. upd bin k (acc ! k)) [0..<8] bin }"

text \<open>The head kernels add to the array in memory; \<open>encTable64\<close> and \<open>decTable64\<close> start with these zeros.\<close>

definition encodeMatMul64Head_asm :: "bytes \<Rightarrow> u64 list \<Rightarrow> u64 list option" where
  "encodeMatMul64Head_asm src im =
     foldM (\<lambda>i im.
         do { bx \<leftarrow> load32 src (4 * i);
              foldM (\<lambda>k. mac32 (mem_of 4 (concat encTable64)) (ucast (bswap32 bx)) (17 * i + k) (k + 1))
                [[0, 1, 2, 3, 4, 6, 7, 8] ! i..<17] im })
       [0..<8] im"

definition decodeMatMul64Head_asm :: "u64 list \<Rightarrow> u64 list \<Rightarrow> u64 list option" where
  "decodeMatMul64Head_asm im bin =
     foldM (\<lambda>i bin.
         do { bx \<leftarrow> load32 (mem_of 8 im) (8 * i);
              foldM (\<lambda>k. mac32 (mem_of 4 (concat decTable64)) (ucast bx) (16 * i + k) (k + 0))
                [[0, 1, 2, 3, 4, 5, 5, 6, 7] ! i..<[14, 14, 14, 14, 14, 15, 15, 15, 15] ! i] bin })
       [0..<9] bin"

section \<open>The kernels of arm64\<close>

text \<open>All words of the input are loaded and swapped first.\<close>

definition encodeMatMul32_arm64 :: "bytes \<Rightarrow> u64 list \<Rightarrow> u64 list option" where
  "encodeMatMul32_arm64 src im =
     do { bin \<leftarrow> foldM (\<lambda>i bin. do { r \<leftarrow> load32 src (4 * i); upd bin i (ucast (bswap32 r)) }) [0..<8] (replicate 8 0);
          acc \<leftarrow> foldM (\<lambda>i. foldM (\<lambda>k. mac32 (mem_of 4 (concat encTable32)) (bin ! i) (8 * i + k) (k + 0)) [i..<8])
            [0..<8] (replicate 8 0);
          im \<leftarrow> upd im 0 0;
          foldM (\<lambda>k im. upd im (k + 1) (acc ! k)) [0..<8] im }"

definition decodeMatMul32_arm64 :: "u64 list \<Rightarrow> u64 list \<Rightarrow> u64 list option" where
  "decodeMatMul32_arm64 im bin =
     do { r \<leftarrow> foldM (\<lambda>i r. do { v \<leftarrow> load64 (mem_of 8 im) (8 * i); upd r i v }) [0..<9] (replicate 9 0);
          acc \<leftarrow> foldM (\<lambda>i. foldM (\<lambda>k. mac32 (mem_of 4 (concat decTable32)) (r ! i) (8 * i + k) (k + 0)) [i..<if i < 2 then 7 else 8])
            [0..<8] (replicate 8 0);
          a \<leftarrow> idx acc 7;
          acc \<leftarrow> upd acc 7 (a + r ! 8);
          foldM (\<lambda>k bin. upd bin k (acc ! k)) [0..<8] bin }"

section \<open>The vector kernels\<close>

definition store256 :: "u64 list \<Rightarrow> nat \<Rightarrow> bytes \<Rightarrow> u64 list option" where
  "store256 im k y = on_slice im k (k + 4) (\<lambda>_. Some (lanes 8 y))"

definition encodeMatMul32AVX2_asm :: "bytes \<Rightarrow> u64 list \<Rightarrow> u64 list option" where
  "encodeMatMul32AVX2_asm src im =
     do { y \<leftarrow> foldM (\<lambda>i acc.
            do { y2 \<leftarrow> vpbroadcastd src (4 * i);
                 foldM (\<lambda>c. macBlock (mem_of 8 (concat (encWide32 True))) (vpshufb bswapd y2) (2 * i + c) (c + 0))
                   [if i < 4 then 0 else 1..<2] acc })
            [0..<8] (replicate 2 (replicate 32 0));
          foldM (\<lambda>c im. store256 im (4 * c + 1) (y ! c)) [0..<2] im }"

definition decodeMatMul32AVX2_asm :: "u64 list \<Rightarrow> u64 list \<Rightarrow> u64 list option" where
  "decodeMatMul32AVX2_asm im bin =
     do { y \<leftarrow> foldM (\<lambda>i acc.
            do { y2 \<leftarrow> vpbroadcastd (mem_of 8 im) (8 * i);
                 foldM (\<lambda>c. macBlock (mem_of 8 (concat (decWide32 True))) y2 (2 * i + c) (c + 0))
                   [if i < 4 then 0 else 1..<2] acc })
            [0..<9] (replicate 2 (replicate 32 0));
          foldM (\<lambda>c bin. store256 bin (4 * c) (y ! c)) [0..<2] bin }"

definition encodeMatMul64HeadAVX2_asm :: "bytes \<Rightarrow> u64 list \<Rightarrow> u64 list option" where
  "encodeMatMul64HeadAVX2_asm src im =
     do { y \<leftarrow> foldM (\<lambda>i acc.
            do { y5 \<leftarrow> vpbroadcastd src (4 * i);
                 foldM (\<lambda>c. macBlock (mem_of 8 (concat (encWide64 True))) (vpshufb bswapd y5) (5 * i + c) (c + 0))
                   [if i < 4 then 0 else if i < 7 then 1 else 2..<5] acc })
            [0..<8] (replicate 5 (replicate 32 0));
          im \<leftarrow> foldM (\<lambda>c im. store256 im (4 * c + 1) (y ! c)) [0..<4] im;
          upd im 17 (lanes 8 (y ! 4) ! 0) }"

text \<open>Rows 9 to 17 are multiplied with the table of the 32-byte product, two blocks further right.\<close>

definition decodeMatMul64AVX2_asm :: "u64 list \<Rightarrow> u64 list \<Rightarrow> u64 list option" where
  "decodeMatMul64AVX2_asm im bin =
     do { y \<leftarrow> foldM (\<lambda>i acc.
            do { y4 \<leftarrow> vpbroadcastd (mem_of 8 im) (8 * i);
                 foldM (\<lambda>c. macBlock (mem_of 8 (concat (decWide64 True))) y4 (4 * i + c) (c + 0))
                   [if i < 4 then 0 else 1..<4] acc })
            [0..<9] (replicate 4 (replicate 32 0));
          y \<leftarrow> foldM (\<lambda>i acc.
            do { y4 \<leftarrow> vpbroadcastd (mem_of 8 im) (72 + 8 * i);
                 foldM (\<lambda>c. macBlock (mem_of 8 (concat (decWide32 True))) y4 (2 * i + c) (c + 2))
                   [if i < 4 then 0 else 1..<2] acc })
            [0..<9] y;
          foldM (\<lambda>c bin. store256 bin (4 * c) (y ! c)) [0..<4] bin }"

section \<open>What a unit adds\<close>

locale row_unit =
  fixes unit :: "'m \<Rightarrow> nat \<Rightarrow> nat \<Rightarrow> 'a list \<Rightarrow> 'a list option"
    and factor :: "'m \<Rightarrow> u64" and valid :: "'m \<Rightarrow> bool"
    and flat :: "'a list \<Rightarrow> u64 list" and regs :: "'a list \<Rightarrow> bool"
    and width blocks :: nat and rows :: "u32 list list"
  assumes unit: "valid m \<Longrightarrow> i < length rows \<Longrightarrow> c < blocks \<Longrightarrow> regs acc \<Longrightarrow> k < length acc \<Longrightarrow> k = c + off \<Longrightarrow>
      \<exists>acc'. unit m (blocks * i + c) k acc = Some acc' \<and> regs acc' \<and> length acc' = length acc \<and>
        flat acc' = macRow (factor m) (rows ! i) (width * c) (width * Suc c) (width * off) (flat acc)"
begin

lemma macRow_join:
  "lo \<le> mid \<Longrightarrow> mid \<le> hi \<Longrightarrow> macRow b row mid hi off (macRow b row lo mid off acc) = macRow b row lo hi off acc"
  using upt_add_eq_append [of lo mid "hi - mid"] by (simp add: macRow_def)

text \<open>A row of units is one row of the portable product.\<close>

lemma row:
  assumes "valid m" "i < length rows" "hi \<le> blocks" "regs acc" "hi + off \<le> length acc" "lo \<le> hi"
  shows "\<exists>acc'. foldM (\<lambda>c. unit m (blocks * i + c) (c + off)) [lo..<hi] acc = Some acc' \<and> regs acc' \<and> length acc' = length acc \<and>
    flat acc' = macRow (factor m) (rows ! i) (width * lo) (width * hi) (width * off) (flat acc)"
  using assms(6,3,5)
proof (induction hi rule: dec_induct)
  case base
  then show ?case using assms(4) by (simp add: macRow_def)
next
  case (step hi)
  then obtain acc' where A: "foldM (\<lambda>c. unit m (blocks * i + c) (c + off)) [lo..<hi] acc = Some acc'" "regs acc'"
    "length acc' = length acc" "flat acc' = macRow (factor m) (rows ! i) (width * lo) (width * hi) (width * off) (flat acc)"
    by auto
  from unit [OF assms(1,2) _ A(2), of hi "hi + off" off] step.prems A(3) obtain acc'' where
    B: "unit m (blocks * i + hi) (hi + off) acc' = Some acc''" "regs acc''" "length acc'' = length acc'"
    "flat acc'' = macRow (factor m) (rows ! i) (width * hi) (width * Suc hi) (width * off) (flat acc')" by auto
  have "flat acc'' = macRow (factor m) (rows ! i) (width * lo) (width * Suc hi) (width * off) (flat acc)"
    unfolding B(4) A(4) using step.hyps by (intro macRow_join) simp_all
  then show ?case using A B step.hyps by (simp add: foldM_single)
qed

lemma rows:
  assumes "\<And>i. i < r \<Longrightarrow> \<exists>m. load i = Some m \<and> valid m \<and> factor m = b i"
    "r \<le> length rows" "\<And>i. i < r \<Longrightarrow> lo i \<le> hi i \<and> hi i \<le> blocks \<and> hi i + off \<le> length acc" "regs acc"
  shows "\<exists>acc'. foldM (\<lambda>i acc. do { m \<leftarrow> load i; foldM (\<lambda>c. unit m (blocks * i + c) (c + off)) [lo i..<hi i] acc }) [0..<r] acc = Some acc' \<and>
    regs acc' \<and> length acc' = length acc \<and>
    flat acc' = fold (\<lambda>i. macRow (b i) (rows ! i) (width * lo i) (width * hi i) (width * off)) [0..<r] (flat acc)"
  using assms(1-3)
proof (induction r)
  case 0
  then show ?case using assms(4) by simp
next
  case (Suc r)
  have "\<exists>acc'. foldM (\<lambda>i acc. do { m \<leftarrow> load i; foldM (\<lambda>c. unit m (blocks * i + c) (c + off)) [lo i..<hi i] acc }) [0..<r] acc = Some acc' \<and>
    regs acc' \<and> length acc' = length acc \<and>
    flat acc' = fold (\<lambda>i. macRow (b i) (rows ! i) (width * lo i) (width * hi i) (width * off)) [0..<r] (flat acc)"
    using Suc.prems by (intro Suc.IH) simp_all
  then obtain acc' where A: "foldM (\<lambda>i acc. do { m \<leftarrow> load i; foldM (\<lambda>c. unit m (blocks * i + c) (c + off)) [lo i..<hi i] acc }) [0..<r] acc = Some acc'"
    "regs acc'" "length acc' = length acc"
    "flat acc' = fold (\<lambda>i. macRow (b i) (rows ! i) (width * lo i) (width * hi i) (width * off)) [0..<r] (flat acc)"
    by blast
  obtain m where m: "load r = Some m" "valid m" "factor m = b r" using Suc.prems(1) [of r] by auto
  have "lo r \<le> hi r" "hi r \<le> blocks" "hi r + off \<le> length acc'" "r < length rows" using Suc.prems(2) Suc.prems(3) [of r] A(3) by auto
  from row [OF m(2) this(4,2) A(2) this(3,1)] show ?case using A m by (auto simp: foldM_single)
qed

end

section \<open>The units of the code\<close>

lemma scalar_unit:
  assumes "\<forall>r \<in> set t. length r = s"
  shows "row_unit (mac32 (mem_of 4 (concat t))) (\<lambda>b. b) (\<lambda>_. True) (\<lambda>acc. acc) (\<lambda>_. True) 1 s t"
proof
  fix m :: u64 and i c k off :: nat and acc :: "u64 list"
  assume A: "i < length t" "c < s" "k < length acc" "k = c + off"
  have "load32 (mem_of 4 (concat t)) (4 * (s * i + c)) = Some (t ! i ! c)"
    using load32_table [OF assms A(1,2)] .
  then show "\<exists>acc'. mac32 (mem_of 4 (concat t)) m (s * i + c) k acc = Some acc' \<and> True \<and> length acc' = length acc \<and>
      acc' = macRow m (t ! i) (1 * c) (1 * Suc c) (1 * off) acc"
    using A(3,4) by (simp add: mac32_def macRow_def mult.commute)
qed

interpretation rows_enc32: row_unit "mac32 (mem_of 4 (concat encTable32))" "\<lambda>b. b" "\<lambda>_. True" "\<lambda>acc. acc" "\<lambda>_. True" 1 8 encTable32
  using table_shapes by (intro scalar_unit) (simp add: list_all_iff)

interpretation rows_dec32: row_unit "mac32 (mem_of 4 (concat decTable32))" "\<lambda>b. b" "\<lambda>_. True" "\<lambda>acc. acc" "\<lambda>_. True" 1 8 decTable32
  using table_shapes by (intro scalar_unit) (simp add: list_all_iff)

interpretation rows_enc64: row_unit "mac32 (mem_of 4 (concat encTable64))" "\<lambda>b. b" "\<lambda>_. True" "\<lambda>acc. acc" "\<lambda>_. True" 1 17 encTable64
  using table_shapes by (intro scalar_unit) (simp add: list_all_iff)

interpretation rows_dec64: row_unit "mac32 (mem_of 4 (concat decTable64))" "\<lambda>b. b" "\<lambda>_. True" "\<lambda>acc. acc" "\<lambda>_. True" 1 16 decTable64
  using table_shapes by (intro scalar_unit) (simp add: list_all_iff)

text \<open>A register filled with one 32-bit value.\<close>

definition low32 :: "bytes \<Rightarrow> u32" where
  "low32 y = le_word (take 4 y)"

abbreviation wide :: "u32 list list \<Rightarrow> u64 list list" where
  "wide rows \<equiv> map (map ucast) rows"

abbreviation flatten :: "bytes list \<Rightarrow> u64 list" where
  "flatten acc \<equiv> concat (map (lanes 8) acc)"

lemma length_flatten: "\<forall>y \<in> set acc. length y = 32 \<Longrightarrow> length (flatten acc) = 4 * length acc"
  by (induction acc) simp_all

lemma flatten_nth:
  assumes "\<forall>y \<in> set acc. length y = 32" "k < length acc" "l < 4"
  shows "flatten acc ! (4 * k + l) = lanes 8 (acc ! k) ! l"
  using concat_rows_nth [of "map (lanes 8) acc" 4 k l] assms by simp

definition filled32 :: "bytes \<Rightarrow> bool" where
  "filled32 y \<longleftrightarrow> length y = 32 \<and> (\<forall>l < 4. (ucast (lanes 8 y ! l :: u64) :: u32) = low32 y)"

lemma length_vpmuludq [simp]: "length (vpmuludq x y) = 8 * min (length x div 8) (length y div 8)"
  by (simp add: vpmuludq_def)

lemma length_vpaddq [simp]: "length (vpaddq x y) = 8 * min (length x div 8) (length y div 8)"
  by (simp add: vpaddq_def)

lemma lanes_vpaddq:
  "lanes 8 (vpaddq x y) = map2 (+) (lanes 8 x) (lanes 8 y :: u64 list)"
  by (simp add: vpaddq_def lanes_mem_of_width)

lemma lanes_vpmuludq:
  "lanes 8 (vpmuludq x y) =
    map2 (\<lambda>a b. ucast (ucast a :: u32) * ucast (ucast b :: u32) :: u64) (lanes 8 x :: u64 list) (lanes 8 y :: u64 list)"
  by (simp add: vpmuludq_def lanes_mem_of_width)

lemma macBlock_eq:
  assumes "\<forall>r \<in> set rows. length r = 4 * n" "filled32 m" "i < length rows" "c < n" "\<forall>y \<in> set acc. length y = 32"
    "k < length acc"
  shows "\<exists>y. macBlock (mem_of 8 (concat (wide rows))) m (n * i + c) k acc = Some (acc[k := y]) \<and> length y = 32 \<and>
    (\<forall>l < 4. lanes 8 y ! l = lanes 8 (acc ! k) ! l + (ucast (low32 m) * ucast (rows ! i ! (4 * c + l)) :: u64))"
proof -
  let ?ws = "concat (wide rows) :: u64 list" and ?j = "4 * (n * i + c)"
  have rows: "\<forall>r \<in> set (wide rows :: u64 list list). length r = 4 * n" using assms(1) by auto
  then have L: "length ?ws = 4 * n * length rows" by (subst length_concat_rows [of _ "4 * n"]) simp_all
  have "n * i + c < n * length rows" using row_index [OF assms(3,4)] .
  then have le: "?j + 4 \<le> length ?ws" by (simp add: L)
  define t where "t = take 4 (drop ?j ?ws)"
  have T: "load256 (mem_of 8 ?ws) (32 * (n * i + c)) = Some (mem_of 8 t)"
    unfolding load256_def t_def using le by (intro subslice_mem_of) simp_all
  have t: "length t = 4" "t ! l = ucast (rows ! i ! (4 * c + l))" if "l < 4" for l
  proof -
    show "length t = 4" using le by (simp add: t_def)
    have ri: "length (rows ! i) = 4 * n" using assms(1,3) nth_mem by blast
    have lt: "4 * c + l < 4 * n" using that assms(4) by simp
    have "t ! l = ?ws ! (4 * n * i + (4 * c + l))" using le that by (simp add: t_def distrib_left add.assoc mult.assoc)
    also have "\<dots> = wide rows ! i ! (4 * c + l)" using rows assms(3) lt by (intro concat_rows_nth) simp_all
    finally show "t ! l = ucast (rows ! i ! (4 * c + l))" using assms(3) lt ri by simp
  qed
  let ?y = "vpaddq (vpmuludq m (mem_of 8 t)) (acc ! k)"
  have y: "length (acc ! k) = 32" using assms(5,6) nth_mem by blast
  have m: "length m = 32" using assms(2) by (simp add: filled32_def)
  have "length ?y = 32" using y m t(1) [of 0] by simp
  moreover have "lanes 8 ?y ! l = lanes 8 (acc ! k) ! l + (ucast (low32 m) * ucast (rows ! i ! (4 * c + l)) :: u64)" if "l < 4" for l
    using that t [OF that] y m assms(2)
    by (simp add: lanes_vpaddq lanes_vpmuludq lanes_mem_of_width filled32_def ucast_down_up add.commute)
  ultimately show ?thesis using T assms(6) by (intro exI [of _ ?y]) (simp add: macBlock_def)
qed

lemma vector_unit:
  assumes "\<forall>r \<in> set rows. length r = 4 * n"
  shows "row_unit (macBlock (mem_of 8 (concat (wide rows)))) (\<lambda>y. ucast (low32 y)) filled32
    flatten (\<lambda>acc. \<forall>y \<in> set acc. length y = 32) 4 n rows"
proof
  fix m :: bytes and i c k off :: nat and acc :: "bytes list"
  assume A: "filled32 m" "i < length rows" "c < n" "\<forall>y \<in> set acc. length y = 32" "k < length acc" "k = c + off"
  obtain y where y: "macBlock (mem_of 8 (concat (wide rows))) m (n * i + c) k acc = Some (acc[k := y])" "length y = 32"
    "\<forall>l < 4. lanes 8 y ! l = lanes 8 (acc ! k) ! l + (ucast (low32 m) * ucast (rows ! i ! (4 * c + l)) :: u64)"
    using macBlock_eq [OF assms A(1-5)] by blast
  have acc': "\<forall>z \<in> set (acc[k := y]). length z = 32" using A(4) y(2) set_update_subset_insert [of acc k y] by blast
  have "flatten (acc[k := y]) = macRow (ucast (low32 m)) (rows ! i) (4 * c) (4 * Suc c) (4 * off) (flatten acc)"
  proof (rule nth_equalityI)
    fix j
    assume "j < length (flatten (acc[k := y]) :: u64 list)"
    then have j: "j < 4 * length acc" using acc' by (simp only: length_flatten) simp
    have jj: "4 * (j div 4) + j mod 4 = j" by simp
    have d: "j div 4 < length acc" "j mod 4 < 4" using j by auto
    have L: "flatten (acc[k := y]) ! j = lanes 8 (acc[k := y] ! (j div 4)) ! (j mod 4)"
      using flatten_nth [OF acc', of "j div 4" "j mod 4"] d by (simp add: jj)
    have R: "flatten acc ! j = lanes 8 (acc ! (j div 4)) ! (j mod 4)"
      using flatten_nth [OF A(4) d] by (simp add: jj)
    have "4 * off + 4 * c \<le> j \<and> j < 4 * off + 4 * Suc c \<longleftrightarrow> j div 4 = k" using A(6) by auto
    moreover have "j - 4 * off = 4 * c + j mod 4" if "j div 4 = k" using that jj A(6) by linarith
    ultimately show "flatten (acc[k := y]) ! j = macRow (ucast (low32 m)) (rows ! i) (4 * c) (4 * Suc c) (4 * off) (flatten acc) ! j"
      unfolding L using j y(3) d(2) A(5) by (simp add: macRow_nth length_flatten [OF A(4)] R nth_list_update)
  qed (simp add: length_flatten [OF A(4)] length_flatten [OF acc'])
  then show "\<exists>acc'. macBlock (mem_of 8 (concat (wide rows))) m (n * i + c) k acc = Some acc' \<and>
      (\<forall>y \<in> set acc'. length y = 32) \<and> length acc' = length acc \<and>
      flatten acc' = macRow (ucast (low32 m)) (rows ! i) (4 * c) (4 * Suc c) (4 * off) (flatten acc)"
    using y(1) acc' by (intro exI [of _ "acc[k := y]"]) simp
qed

section \<open>The widened tables\<close>

lemma widen_wide:
  assumes "\<forall>row \<in> set t. length row = cols" "r \<le> length t" "cols \<le> width"
  shows "widen True r cols width t = wide (map (\<lambda>row. row @ replicate (width - cols) 0) (take r t))"
proof (rule nth_equalityI)
  fix i
  assume "i < length (widen True r cols width t)"
  then have i: "i < r" by (simp add: widen_eq [OF assms(3)])
  then have "length (t ! i) = cols" using assms(1,2) by simp
  then have "map (\<lambda>k. ucast (t ! i ! k)) [0..<cols] = (map ucast (t ! i) :: u64 list)" by (intro nth_equalityI) simp_all
  then show "widen True r cols width t ! i = wide (map (\<lambda>row. row @ replicate (width - cols) 0) (take r t)) ! i"
    using i assms(2) by (simp add: widen_eq [OF assms(3)])
qed (use assms in \<open>simp add: widen_eq\<close>)

lemma wide_tables:
  "encWide32 True = wide encTable32" "decWide32 True = wide decTable32"
  "encWide64 True = wide (map (\<lambda>row. row @ replicate 3 0) (take 8 encTable64))"
  "decWide64 True = wide (take 9 decTable64)"
  unfolding encWide32_def decWide32_def encWide64_def decWide64_def using table_shapes
  by (subst widen_wide; simp add: list_all_iff)+

interpretation blocks_enc32: row_unit "macBlock (mem_of 8 (concat (encWide32 True)))" "\<lambda>y. ucast (low32 y)" filled32
  flatten "\<lambda>acc. \<forall>y \<in> set acc. length y = 32" 4 2 encTable32
  unfolding wide_tables using table_shapes by (intro vector_unit) (simp add: list_all_iff)

interpretation blocks_dec32: row_unit "macBlock (mem_of 8 (concat (decWide32 True)))" "\<lambda>y. ucast (low32 y)" filled32
  flatten "\<lambda>acc. \<forall>y \<in> set acc. length y = 32" 4 2 decTable32
  unfolding wide_tables using table_shapes by (intro vector_unit) (simp add: list_all_iff)

interpretation blocks_enc64: row_unit "macBlock (mem_of 8 (concat (encWide64 True)))" "\<lambda>y. ucast (low32 y)" filled32
  flatten "\<lambda>acc. \<forall>y \<in> set acc. length y = 32" 4 5 "map (\<lambda>row. row @ replicate 3 0) (take 8 encTable64)"
  unfolding wide_tables using table_shapes by (intro vector_unit) (auto simp: list_all_iff dest: in_set_takeD)

interpretation blocks_dec64: row_unit "macBlock (mem_of 8 (concat (decWide64 True)))" "\<lambda>y. ucast (low32 y)" filled32
  flatten "\<lambda>acc. \<forall>y \<in> set acc. length y = 32" 4 4 "take 9 decTable64"
  unfolding wide_tables using table_shapes by (intro vector_unit) (auto simp: list_all_iff dest: in_set_takeD)

section \<open>Loads\<close>

lemma load32_word: "4 * i + 4 \<le> length src \<Longrightarrow> load32 src (4 * i) = Some (le_word (take 4 (drop (4 * i) src)))"
  by (simp add: load32_def)

lemma src_word:
  assumes "4 * i + 4 \<le> length src"
  shows "do { bx \<leftarrow> load32 src (4 * i); f (bswap32 bx) } = f (be_word (take 4 (drop (4 * i) src)))"
  using assms by (simp add: load32_word bswap32_load)

lemma vpbroadcastd_eq: "a + 4 \<le> length mem \<Longrightarrow> vpbroadcastd mem a = Some (concat (replicate 8 (take 4 (drop a mem))))"
  by (simp add: vpbroadcastd_def)

lemma length4E':
  assumes "length (b :: bytes) = 4"
  obtains b0 b1 b2 b3 where "b = [b0, b1, b2, b3]"
  using assms by (auto simp: length_Suc_conv eval_nat_numeral)

lemma lanes4: "length y = 32 \<Longrightarrow> lanes 8 y = map (\<lambda>l. le_word (take 8 (drop (8 * l) y))) [0, 1, 2, 3]"
  by (simp add: lanes_def upt_rec)

lemma filled32_broadcast:
  assumes "length b = 4"
  shows "filled32 (concat (replicate 8 b))" "low32 (concat (replicate 8 b)) = le_word b"
proof -
  obtain b0 b1 b2 b3 where b: "b = [b0, b1, b2, b3]" using assms by (rule length4E')
  have two: "(ucast (le_word (b @ b) :: u64) :: u32) = le_word b"
  proof -
    have e: "bytes_val (rev b @ rev b) = bytes_val (rev b) * 2 ^ 32 + bytes_val (rev b)"
      using assms by (simp add: bytes_val_append)
    have "bytes_val (rev b) < 2 ^ 32" using bytes_val_less [of "rev b"] assms by simp
    then have "bytes_val (rev b @ rev b) mod 2 ^ 32 = bytes_val (rev b)" unfolding e by (simp only: mod_mult_self3 mod_less)
    then have "unat (ucast (le_word (b @ b) :: u64) :: u32) = bytes_val (rev b)"
      using assms by (simp add: unsigned_ucast_eq take_bit_eq_mod unat_le_word)
    then show ?thesis using assms by (simp add: word_unat_eq_iff unat_le_word)
  qed
  show low: "low32 (concat (replicate 8 b)) = le_word b" by (simp add: low32_def b replicate_numeral)
  have "lanes 8 (concat (replicate 8 b)) = replicate 4 (le_word (b @ b) :: u64)"
    by (subst lanes4) (simp_all add: b replicate_numeral)
  then show "filled32 (concat (replicate 8 b))" unfolding filled32_def low using two assms by (simp add: length_concat sum_list_replicate)
qed

lemma bswapd_eq: "bswapd = [3, 2, 1, 0, 7, 6, 5, 4, 11, 10, 9, 8, 15, 14, 13, 12,
    3, 2, 1, 0, 7, 6, 5, 4, 11, 10, 9, 8, 15, 14, 13, 12]"
  by (simp add: bswapd_def mem_of_def le_bytes_def be_bytes_def fixed_256_8)

lemma vpshufb_bswapd:
  assumes "length b = 4"
  shows "vpshufb bswapd (concat (replicate 8 b)) = concat (replicate 8 (rev b))"
proof -
  obtain b0 b1 b2 b3 where b: "b = [b0, b1, b2, b3]" using assms by (rule length4E')
  show ?thesis unfolding b by (simp add: vpshufb_def pshufb_def bswapd_eq replicate_numeral)
qed

section \<open>The scalar kernels compute the columns\<close>

text \<open>Where a row of a table has entries other than zero.\<close>

lemma coversI:
  "take lo row = replicate lo 0 \<Longrightarrow> drop hi row = replicate (length row - hi) 0 \<Longrightarrow> hi \<le> length row \<Longrightarrow> covers lo hi row"
  unfolding covers_def
  by (metis (no_types, opaque_lifting) add_diff_inverse_nat add_less_cancel_left leD le_add_diff_inverse nth_drop
      nth_replicate nth_take order.strict_trans)

lemma triangles:
  "i < 8 \<Longrightarrow> covers i 8 (encTable32 ! i)"
  "i < 8 \<Longrightarrow> covers i (if i < 2 then 7 else 8) (decTable32 ! i)"
  "i < 8 \<Longrightarrow> covers ([0, 1, 2, 3, 4, 6, 7, 8] ! i) 17 (encTable64 ! i)"
  "i < 9 \<Longrightarrow> covers ([0, 1, 2, 3, 4, 5, 5, 6, 7] ! i) ([14, 14, 14, 14, 14, 15, 15, 15, 15] ! i) (decTable64 ! i)"
proof -
  have "\<forall>i \<in> set [0..<8]. covers i 8 (encTable32 ! i) \<and> covers i (if i < 2 then 7 else 8) (decTable32 ! i) \<and>
      covers ([0, 1, 2, 3, 4, 6, 7, 8] ! i) 17 (encTable64 ! i)"
    by (simp add: upt_rec encTable32_def decTable32_def encTable64_def coversI replicate_numeral)
  moreover have "\<forall>i \<in> set [0..<9]. covers ([0, 1, 2, 3, 4, 5, 5, 6, 7] ! i) ([14, 14, 14, 14, 14, 15, 15, 15, 15] ! i) (decTable64 ! i)"
    by (simp add: upt_rec decTable64_def coversI replicate_numeral)
  ultimately show
    "i < 8 \<Longrightarrow> covers i 8 (encTable32 ! i)"
    "i < 8 \<Longrightarrow> covers i (if i < 2 then 7 else 8) (decTable32 ! i)"
    "i < 8 \<Longrightarrow> covers ([0, 1, 2, 3, 4, 6, 7, 8] ! i) 17 (encTable64 ! i)"
    "i < 9 \<Longrightarrow> covers ([0, 1, 2, 3, 4, 5, 5, 6, 7] ! i) ([14, 14, 14, 14, 14, 15, 15, 15, 15] ! i) (decTable64 ! i)"
    by auto
qed

text \<open>Storing all accumulators.\<close>

lemma store_all:
  "length acc + off \<le> length im \<Longrightarrow>
    foldM (\<lambda>k im. upd im (k + off) (acc ! k)) [0..<length acc] im = Some (take off im @ acc @ drop (length acc + off) im)"
proof -
  have "foldM (\<lambda>k im. upd im (k + off) (acc ! k)) [0..<n] im = Some (take off im @ take n acc @ drop (n + off) im)"
    if "n \<le> length acc" "length acc + off \<le> length im" for n
    using that
  proof (induction n)
    case (Suc n)
    then have "drop (n + off) im = im ! (n + off) # drop (Suc n + off) im" by (simp add: Cons_nth_drop_Suc)
    then show ?case using Suc by (simp add: list_update_append take_Suc_conv_app_nth min_def)
  qed simp
  from this [of "length acc"] show "length acc + off \<le> length im \<Longrightarrow>
    foldM (\<lambda>k im. upd im (k + off) (acc ! k)) [0..<length acc] im = Some (take off im @ acc @ drop (length acc + off) im)" by simp
qed

lemma encode_columns:
  assumes "\<forall>i < r. covers (lo i) (hi i) (t ! i) \<and> length (t ! i) = n"
  shows "fold (\<lambda>i. macRow (ucast (be_word (take 4 (drop (4 * i) src)))) (t ! i) (lo i) (hi i) off) [0..<r] (replicate (off + n) 0)
    = replicate off 0 @ map (enc_sum src t r) [0..<n]"
  using product_columns [OF assms, of "\<lambda>i. ucast (be_word (take 4 (drop (4 * i) src)))" off]
  by (simp add: enc_sum_def [abs_def])

lemma decode_columns:
  assumes "\<forall>i < r. covers (lo i) (hi i) (t ! i) \<and> length (t ! i) = n"
  shows "fold (\<lambda>i. macRow (im ! i) (t ! i) (lo i) (hi i) off) [0..<r] (replicate (off + n) 0)
    = replicate off 0 @ map (dec_sum im t r) [0..<n]"
  using product_columns [OF assms, of "\<lambda>i. im ! i" off] by (simp add: dec_sum_def [abs_def])

lemma encodeMatMul32Scalar_asm_eq:
  assumes "length src = 32" "length im = 9"
  shows "encodeMatMul32Scalar_asm src im = Some (0 # map (enc_sum src encTable32 8) [0..<8])"
proof -
  let ?b = "\<lambda>i. ucast (be_word (take 4 (drop (4 * i) src))) :: u64"
  have "\<exists>acc. foldM (\<lambda>i acc. do { bx \<leftarrow> do { bx \<leftarrow> load32 src (4 * i); Some (ucast (bswap32 bx)) };
        foldM (\<lambda>k. mac32 (mem_of 4 (concat encTable32)) bx (8 * i + k) (k + 0)) [i..<8] acc }) [0..<8] (replicate 8 0) = Some acc \<and>
      True \<and> length acc = length (replicate 8 (0 :: u64)) \<and>
      acc = fold (\<lambda>i. macRow (?b i) (encTable32 ! i) (1 * i) (1 * 8) (1 * 0)) [0..<8] (replicate 8 0)"
    using assms by (intro rows_enc32.rows) (simp_all add: load32_word bswap32_load table_shapes)
  then have "foldM (\<lambda>i acc. do { bx \<leftarrow> load32 src (4 * i);
        foldM (\<lambda>k. mac32 (mem_of 4 (concat encTable32)) (ucast (bswap32 bx)) (8 * i + k) (k + 0)) [i..<8] acc }) [0..<8] (replicate 8 0) =
      Some (fold (\<lambda>i. macRow (?b i) (encTable32 ! i) i 8 0) [0..<8] (replicate (0 + 8) 0))"
    by (simp add: Option.bind_assoc)
  also have "fold (\<lambda>i. macRow (?b i) (encTable32 ! i) i 8 0) [0..<8] (replicate (0 + 8) 0) = replicate 0 0 @ map (enc_sum src encTable32 8) [0..<8]"
    by (rule encode_columns) (simp add: triangles encTable32_nth)
  finally show ?thesis
    using assms(2) store_all [of "map (enc_sum src encTable32 8) [0..<8]" 1 "im[0 := 0]"]
    by (cases im) (simp_all add: encodeMatMul32Scalar_asm_def)
qed

text \<open>Limbs below \<open>58 ^ 5\<close> fit the 32-bit loads.\<close>

lemma limb_load:
  assumes "i < length im" "\<forall>v \<in> set im. unat v < 58 ^ 5"
  shows "load32 (mem_of 8 im) (8 * i) = Some (ucast (im ! i :: u64))" "(ucast (ucast (im ! i) :: u32) :: u64) = im ! i"
proof -
  have lt: "unat (im ! i) < 2 ^ 32" using assms nth_mem [OF assms(1)] by fastforce
  then show "load32 (mem_of 8 im) (8 * i) = Some (ucast (im ! i :: u64))" using assms(1) by (intro load32_low)
  show "(ucast (ucast (im ! i) :: u32) :: u64) = im ! i"
    using lt by (simp add: word_unat_eq_iff unat_ucast_small)
qed

text \<open>The last row, added as it is, is the last row of the product.\<close>

lemma last_row: "decTable32 ! 8 = replicate 7 0 @ [1]"
  by (simp add: decTable32_def replicate_numeral)

lemma dec_sum_9: "c < 8 \<Longrightarrow> dec_sum im decTable32 9 c = dec_sum im decTable32 8 c + (if c = 7 then im ! 8 else 0)"
proof -
  have "[0..<9] = [0..<8] @ [8]" by (simp add: upt_rec)
  then show "c < 8 \<Longrightarrow> dec_sum im decTable32 9 c = dec_sum im decTable32 8 c + (if c = 7 then im ! 8 else 0)"
    by (auto simp: dec_sum_def last_row nth_append)
qed

lemma add_last_row:
  "(map (dec_sum im decTable32 8) [0..<8])[7 := dec_sum im decTable32 8 7 + im ! 8] = map (dec_sum im decTable32 9) [0..<8]"
  by (intro nth_equalityI) (auto simp: nth_list_update dec_sum_9)

lemma decodeMatMul32Scalar_asm_eq:
  assumes "length im = 9" "\<forall>v \<in> set im. unat v < 58 ^ 5" "length bin = 8"
  shows "decodeMatMul32Scalar_asm im bin = Some (map (dec_sum im decTable32 9) [0..<8])"
proof -
  let ?hi = "\<lambda>i :: nat. if i < 2 then 7 else 8"
  have "\<exists>acc. foldM (\<lambda>i acc. do { bx \<leftarrow> do { bx \<leftarrow> load32 (mem_of 8 im) (8 * i); Some (ucast bx) };
        foldM (\<lambda>k. mac32 (mem_of 4 (concat decTable32)) bx (8 * i + k) (k + 0)) [i..<?hi i] acc }) [0..<8] (replicate 8 0) = Some acc \<and>
      True \<and> length acc = length (replicate 8 (0 :: u64)) \<and>
      acc = fold (\<lambda>i. macRow (im ! i) (decTable32 ! i) (1 * i) (1 * ?hi i) (1 * 0)) [0..<8] (replicate 8 0)"
    using assms by (intro rows_dec32.rows) (auto simp: limb_load table_shapes)
  then have "foldM (\<lambda>i acc. do { bx \<leftarrow> load32 (mem_of 8 im) (8 * i);
        foldM (\<lambda>k. mac32 (mem_of 4 (concat decTable32)) (ucast bx) (8 * i + k) (k + 0)) [i..<?hi i] acc }) [0..<8] (replicate 8 0) =
      Some (fold (\<lambda>i. macRow (im ! i) (decTable32 ! i) i (?hi i) 0) [0..<8] (replicate (0 + 8) 0))"
    by (simp add: Option.bind_assoc)
  also have "fold (\<lambda>i. macRow (im ! i) (decTable32 ! i) i (?hi i) 0) [0..<8] (replicate (0 + 8) 0) =
      replicate 0 0 @ map (dec_sum im decTable32 8) [0..<8]"
    by (rule decode_columns) (simp add: triangles decTable32_nth)
  finally show ?thesis
    using assms(1,3) store_all [of "map (dec_sum im decTable32 9) [0..<8]" 0 bin] load64_mem_of [of 8 im]
    by (simp add: decodeMatMul32Scalar_asm_def add_last_row)
qed

lemma encodeMatMul64Head_asm_eq:
  assumes "length src = 64"
  shows "encodeMatMul64Head_asm src (replicate 18 0) = Some (0 # map (enc_sum src encTable64 8) [0..<17])"
proof -
  let ?b = "\<lambda>i. ucast (be_word (take 4 (drop (4 * i) src))) :: u64"
  let ?lo = "\<lambda>i. [0, 1, 2, 3, 4, 6, 7, 8 :: nat] ! i"
  have lo: "\<forall>i \<in> set [0..<8]. ?lo i \<le> 17" by (simp add: upt_rec)
  have "\<exists>acc. foldM (\<lambda>i acc. do { bx \<leftarrow> do { bx \<leftarrow> load32 src (4 * i); Some (ucast (bswap32 bx)) };
        foldM (\<lambda>k. mac32 (mem_of 4 (concat encTable64)) bx (17 * i + k) (k + 1)) [?lo i..<17] acc }) [0..<8] (replicate 18 0) = Some acc \<and>
      True \<and> length acc = length (replicate 18 (0 :: u64)) \<and>
      acc = fold (\<lambda>i. macRow (?b i) (encTable64 ! i) (1 * ?lo i) (1 * 17) (1 * 1)) [0..<8] (replicate 18 0)"
    using assms lo by (intro rows_enc64.rows) (auto simp: load32_word bswap32_load table_shapes)
  then have "encodeMatMul64Head_asm src (replicate 18 0) =
      Some (fold (\<lambda>i. macRow (?b i) (encTable64 ! i) (?lo i) 17 1) [0..<8] (replicate (1 + 17) 0))"
    by (simp add: Option.bind_assoc encodeMatMul64Head_asm_def)
  also have "fold (\<lambda>i. macRow (?b i) (encTable64 ! i) (?lo i) 17 1) [0..<8] (replicate (1 + 17) 0) =
      replicate 1 0 @ map (enc_sum src encTable64 8) [0..<17]"
    by (rule encode_columns) (intro allI impI conjI triangles; simp add: encTable64_nth)
  finally show ?thesis by simp
qed

lemma decodeMatMul64Head_asm_eq:
  assumes "length im = 18" "\<forall>v \<in> set im. unat v < 58 ^ 5"
  shows "decodeMatMul64Head_asm im (replicate 16 0) = Some (map (dec_sum im decTable64 9) [0..<16])"
proof -
  let ?lo = "\<lambda>i. [0, 1, 2, 3, 4, 5, 5, 6, 7 :: nat] ! i" and ?hi = "\<lambda>i. [14, 14, 14, 14, 14, 15, 15, 15, 15 :: nat] ! i"
  have lo: "\<forall>i \<in> set [0..<9]. ?lo i \<le> ?hi i \<and> ?hi i \<le> 16" by (simp add: upt_rec)
  have "\<exists>acc. foldM (\<lambda>i acc. do { bx \<leftarrow> do { bx \<leftarrow> load32 (mem_of 8 im) (8 * i); Some (ucast bx) };
        foldM (\<lambda>k. mac32 (mem_of 4 (concat decTable64)) bx (16 * i + k) (k + 0)) [?lo i..<?hi i] acc }) [0..<9] (replicate 16 0) = Some acc \<and>
      True \<and> length acc = length (replicate 16 (0 :: u64)) \<and>
      acc = fold (\<lambda>i. macRow (im ! i) (decTable64 ! i) (1 * ?lo i) (1 * ?hi i) (1 * 0)) [0..<9] (replicate 16 0)"
    using assms lo by (intro rows_dec64.rows) (auto simp: limb_load table_shapes)
  then have "decodeMatMul64Head_asm im (replicate 16 0) =
      Some (fold (\<lambda>i. macRow (im ! i) (decTable64 ! i) (?lo i) (?hi i) 0) [0..<9] (replicate (0 + 16) 0))"
    by (simp add: Option.bind_assoc decodeMatMul64Head_asm_def)
  also have "fold (\<lambda>i. macRow (im ! i) (decTable64 ! i) (?lo i) (?hi i) 0) [0..<9] (replicate (0 + 16) 0) =
      replicate 0 0 @ map (dec_sum im decTable64 9) [0..<16]"
    by (rule decode_columns) (intro allI impI conjI triangles; simp add: decTable64_nth)
  finally show ?thesis by simp
qed

section \<open>The kernels of arm64 compute the columns\<close>

lemma encodeMatMul32_arm64_eq:
  assumes "length src = 32" "length im = 9"
  shows "encodeMatMul32_arm64 src im = Some (0 # map (enc_sum src encTable32 8) [0..<8])"
proof -
  let ?b = "\<lambda>i. ucast (be_word (take 4 (drop (4 * i) src))) :: u64"
  let ?bin = "map ?b [0..<8]"
  have "foldM (\<lambda>i bin. do { r \<leftarrow> do { r \<leftarrow> load32 src (4 * i); Some (ucast (bswap32 r)) }; upd bin i r }) [0..<8] (replicate 8 0) = Some ?bin"
    using assms by (intro fill_all) (simp add: load32_word bswap32_load)
  then have bin: "foldM (\<lambda>i bin. do { r \<leftarrow> load32 src (4 * i); upd bin i (ucast (bswap32 r)) }) [0..<8] (replicate 8 0) = Some ?bin"
    by (simp add: Option.bind_assoc)
  have "\<exists>acc. foldM (\<lambda>i acc. do { bx \<leftarrow> Some (?bin ! i);
        foldM (\<lambda>k. mac32 (mem_of 4 (concat encTable32)) bx (8 * i + k) (k + 0)) [i..<8] acc }) [0..<8] (replicate 8 0) = Some acc \<and>
      True \<and> length acc = length (replicate 8 (0 :: u64)) \<and>
      acc = fold (\<lambda>i. macRow (?b i) (encTable32 ! i) (1 * i) (1 * 8) (1 * 0)) [0..<8] (replicate 8 0)"
    using assms by (intro rows_enc32.rows) (simp_all add: table_shapes)
  then have acc: "foldM (\<lambda>i. foldM (\<lambda>k. mac32 (mem_of 4 (concat encTable32)) (?bin ! i) (8 * i + k) (k + 0)) [i..<8]) [0..<8] (replicate 8 0) =
      Some (fold (\<lambda>i. macRow (?b i) (encTable32 ! i) i 8 0) [0..<8] (replicate (0 + 8) 0))"
    by simp
  have cols: "fold (\<lambda>i. macRow (?b i) (encTable32 ! i) i 8 0) [0..<8] (replicate (0 + 8) 0) = replicate 0 0 @ map (enc_sum src encTable32 8) [0..<8]"
    by (rule encode_columns) (simp add: triangles encTable32_nth)
  show ?thesis
    using assms(2) store_all [of "map (enc_sum src encTable32 8) [0..<8]" 1 "im[0 := 0]"] bin acc cols
    by (cases im) (simp_all add: encodeMatMul32_arm64_def)
qed

lemma decodeMatMul32_arm64_eq:
  assumes "length im = 9" "length bin = 8"
  shows "decodeMatMul32_arm64 im bin = Some (map (dec_sum im decTable32 9) [0..<8])"
proof -
  let ?hi = "\<lambda>i :: nat. if i < 2 then 7 else 8"
  have "foldM (\<lambda>i r. do { v \<leftarrow> load64 (mem_of 8 im) (8 * i); upd r i v }) [0..<9] (replicate 9 0) = Some (map ((!) im) [0..<9])"
    using assms by (intro fill_all load64_mem_of) simp
  then have r: "foldM (\<lambda>i r. do { v \<leftarrow> load64 (mem_of 8 im) (8 * i); upd r i v }) [0..<9] (replicate 9 0) = Some im"
    using map_nth [of im] assms(1) by simp
  have "\<exists>acc. foldM (\<lambda>i acc. do { bx \<leftarrow> Some (im ! i);
        foldM (\<lambda>k. mac32 (mem_of 4 (concat decTable32)) bx (8 * i + k) (k + 0)) [i..<?hi i] acc }) [0..<8] (replicate 8 0) = Some acc \<and>
      True \<and> length acc = length (replicate 8 (0 :: u64)) \<and>
      acc = fold (\<lambda>i. macRow (im ! i) (decTable32 ! i) (1 * i) (1 * ?hi i) (1 * 0)) [0..<8] (replicate 8 0)"
    using assms by (intro rows_dec32.rows) (auto simp: table_shapes)
  then have acc: "foldM (\<lambda>i. foldM (\<lambda>k. mac32 (mem_of 4 (concat decTable32)) (im ! i) (8 * i + k) (k + 0)) [i..<?hi i]) [0..<8] (replicate 8 0) =
      Some (fold (\<lambda>i. macRow (im ! i) (decTable32 ! i) i (?hi i) 0) [0..<8] (replicate (0 + 8) 0))"
    by simp
  have cols: "fold (\<lambda>i. macRow (im ! i) (decTable32 ! i) i (?hi i) 0) [0..<8] (replicate (0 + 8) 0) =
      replicate 0 0 @ map (dec_sum im decTable32 8) [0..<8]"
    by (rule decode_columns) (simp add: triangles decTable32_nth)
  show ?thesis
    using assms store_all [of "map (dec_sum im decTable32 9) [0..<8]" 0 bin] r acc cols
    by (simp add: decodeMatMul32_arm64_def add_last_row)
qed

section \<open>The vector kernels compute the columns\<close>

lemma flatten_zero: "concat (replicate n (lanes 8 (replicate 32 0))) = replicate (4 * n) (0 :: u64)"
proof -
  have "lanes 8 (replicate 32 0) = replicate 4 (0 :: u64)"
    by (simp add: lanes4 le_word_def bytes_val_def bval_def replicate_numeral)
  then show ?thesis by (induction n) (simp_all add: replicate_add)
qed

lemma store_blocks:
  assumes "\<forall>z \<in> set y. length z = 32" "n \<le> length y" "4 * n + off \<le> length im"
  shows "foldM (\<lambda>c im. store256 im (4 * c + off) (y ! c)) [0..<n] im = Some (take off im @ take (4 * n) (flatten y) @ drop (4 * n + off) im)"
  using assms(2,3)
proof (induction n)
  case (Suc n)
  let ?im = "take off im @ take (4 * n) (flatten y) @ drop (4 * n + off) im"
  have F: "length (flatten y) = 4 * length y" by (rule length_flatten [OF assms(1)])
  have "lanes 8 (y ! n) = take 4 (drop (4 * n) (flatten y))"
  proof (rule nth_equalityI)
    fix l
    assume "l < length (lanes 8 (y ! n) :: u64 list)"
    then have l: "l < 4" using assms(1) Suc.prems(1) by simp
    have "4 * n + 4 \<le> length (flatten y)" using Suc.prems(1) by (simp only: F)
    then show "lanes 8 (y ! n) ! l = take 4 (drop (4 * n) (flatten y)) ! l"
      using l flatten_nth [OF assms(1), of n l] Suc.prems(1) by simp
  qed (use assms(1) Suc.prems(1) F in auto)
  then have L: "take (4 * n) (flatten y) @ lanes 8 (y ! n) = take (4 * Suc n) (flatten y)"
    by (simp add: take_add [symmetric] add.commute)
  have len: "length (take (4 * n) (flatten y)) = 4 * n" using Suc.prems(1) F by simp
  have "store256 ?im (4 * n + off) (y ! n) = Some (take off im @ (take (4 * n) (flatten y) @ lanes 8 (y ! n)) @ drop (4 * Suc n + off) im)"
    using Suc.prems(2) len by (simp add: store256_def on_slice_def ac_simps)
  then show ?case unfolding L using Suc by (simp add: foldM_single)
qed simp

lemma covers_wider: "covers lo hi row \<Longrightarrow> lo' \<le> lo \<Longrightarrow> hi \<le> hi' \<Longrightarrow> hi' \<le> length row \<Longrightarrow> covers lo' hi' row"
  unfolding covers_def by (metis le_trans not_le)

lemma encode_register:
  assumes "4 * i + 4 \<le> length src"
  shows "\<exists>m. do { y \<leftarrow> vpbroadcastd src (4 * i); Some (vpshufb bswapd y) } = Some m \<and> filled32 m \<and>
    (ucast (low32 m) :: u64) = ucast (be_word (take 4 (drop (4 * i) src)))"
proof -
  let ?b = "take 4 (drop (4 * i) src)"
  have b: "length ?b = 4" using assms by simp
  have "le_word (rev ?b) = (be_word ?b :: u32)" by (simp add: le_word_def be_word_def)
  then show ?thesis
    using vpbroadcastd_eq [OF assms] vpshufb_bswapd [OF b] filled32_broadcast [of "rev ?b"] b by simp
qed

lemma decode_register:
  assumes "i < length im" "\<forall>v \<in> set im. unat v < 58 ^ 5"
  shows "\<exists>m. vpbroadcastd (mem_of 8 im) (8 * i) = Some m \<and> filled32 m \<and> (ucast (low32 m) :: u64) = im ! i"
proof -
  have a: "8 * i + 4 \<le> length (mem_of 8 im)" using assms(1) by simp
  let ?b = "take 4 (drop (8 * i) (mem_of 8 im))"
  have b: "length ?b = 4" using a by simp
  have "le_word ?b = (ucast (im ! i) :: u32)" using limb_load(1) [OF assms] a by (simp add: load32_def)
  then show ?thesis
    using vpbroadcastd_eq [OF a] filled32_broadcast [OF b] limb_load(2) [OF assms] by simp
qed

lemma encodeMatMul32AVX2_asm_eq:
  assumes "length src = 32"
  shows "encodeMatMul32AVX2_asm src (replicate 9 0) = Some (0 # map (enc_sum src encTable32 8) [0..<8])"
proof -
  let ?b = "\<lambda>i. ucast (be_word (take 4 (drop (4 * i) src))) :: u64"
  let ?lo = "\<lambda>i :: nat. if i < 4 then 0 else 1"
  have "\<exists>y. foldM (\<lambda>i acc. do { m \<leftarrow> do { y \<leftarrow> vpbroadcastd src (4 * i); Some (vpshufb bswapd y) };
        foldM (\<lambda>c. macBlock (mem_of 8 (concat (encWide32 True))) m (2 * i + c) (c + 0)) [?lo i..<2] acc })
        [0..<8] (replicate 2 (replicate 32 0)) = Some y \<and>
      (\<forall>z \<in> set y. length z = 32) \<and> length y = length (replicate 2 (replicate 32 (0 :: u8))) \<and>
      flatten y = fold (\<lambda>i. macRow (?b i) (encTable32 ! i) (4 * ?lo i) (4 * 2) (4 * 0)) [0..<8] (flatten (replicate 2 (replicate 32 0)))"
    using assms by (intro blocks_enc32.rows encode_register) (simp_all add: table_shapes)
  then obtain y where y: "foldM (\<lambda>i acc. do { m \<leftarrow> vpbroadcastd src (4 * i);
        foldM (\<lambda>c. macBlock (mem_of 8 (concat (encWide32 True))) (vpshufb bswapd m) (2 * i + c) (c + 0)) [?lo i..<2] acc })
        [0..<8] (replicate 2 (replicate 32 0)) = Some y" "\<forall>z \<in> set y. length z = 32" "length y = 2"
      "flatten y = fold (\<lambda>i. macRow (?b i) (encTable32 ! i) (4 * ?lo i) 8 0) [0..<8] (replicate (0 + 8) 0)"
    by (auto simp: Option.bind_assoc flatten_zero simp del: replicate_numeral)
  have "fold (\<lambda>i. macRow (?b i) (encTable32 ! i) (4 * ?lo i) 8 0) [0..<8] (replicate (0 + 8) 0) = replicate 0 0 @ map (enc_sum src encTable32 8) [0..<8]"
    by (intro encode_columns allI impI conjI covers_wider [OF triangles(1)]) (auto simp: encTable32_nth)
  then have f: "flatten y = map (enc_sum src encTable32 8) [0..<8]" using y(4) by simp
  have "foldM (\<lambda>c im. store256 im (4 * c + 1) (y ! c)) [0..<2] (replicate 9 0) =
      Some (take 1 (replicate 9 0) @ take (4 * 2) (flatten y) @ drop (4 * 2 + 1) (replicate 9 0))"
    using y(2,3) by (intro store_blocks) simp_all
  then show ?thesis using y(1) f by (simp add: encodeMatMul32AVX2_asm_def)
qed

lemma decode_blocks: "i < 9 \<Longrightarrow> covers (4 * (if i < 4 then 0 else 1)) 8 (decTable32 ! i)"
proof (cases "i = 8")
  case True
  then show ?thesis by (simp add: last_row) (rule coversI; simp add: replicate_numeral)
next
  case False
  then show "i < 9 \<Longrightarrow> ?thesis" by (intro covers_wider [OF triangles(2)]) (auto simp: decTable32_nth)
qed

lemma decodeMatMul32AVX2_asm_eq:
  assumes "length im = 9" "\<forall>v \<in> set im. unat v < 58 ^ 5" "length bin = 8"
  shows "decodeMatMul32AVX2_asm im bin = Some (map (dec_sum im decTable32 9) [0..<8])"
proof -
  let ?lo = "\<lambda>i :: nat. if i < 4 then 0 else 1"
  have "\<exists>y. foldM (\<lambda>i acc. do { m \<leftarrow> vpbroadcastd (mem_of 8 im) (8 * i);
        foldM (\<lambda>c. macBlock (mem_of 8 (concat (decWide32 True))) m (2 * i + c) (c + 0)) [?lo i..<2] acc })
        [0..<9] (replicate 2 (replicate 32 0)) = Some y \<and>
      (\<forall>z \<in> set y. length z = 32) \<and> length y = length (replicate 2 (replicate 32 (0 :: u8))) \<and>
      flatten y = fold (\<lambda>i. macRow (im ! i) (decTable32 ! i) (4 * ?lo i) (4 * 2) (4 * 0)) [0..<9] (flatten (replicate 2 (replicate 32 0)))"
    using assms by (intro blocks_dec32.rows decode_register) (simp_all add: table_shapes)
  then obtain y where y: "foldM (\<lambda>i acc. do { m \<leftarrow> vpbroadcastd (mem_of 8 im) (8 * i);
        foldM (\<lambda>c. macBlock (mem_of 8 (concat (decWide32 True))) m (2 * i + c) (c + 0)) [?lo i..<2] acc })
        [0..<9] (replicate 2 (replicate 32 0)) = Some y" "\<forall>z \<in> set y. length z = 32" "length y = 2"
      "flatten y = fold (\<lambda>i. macRow (im ! i) (decTable32 ! i) (4 * ?lo i) 8 0) [0..<9] (replicate (0 + 8) 0)"
    by (auto simp: flatten_zero simp del: replicate_numeral)
  have "fold (\<lambda>i. macRow (im ! i) (decTable32 ! i) (4 * ?lo i) 8 0) [0..<9] (replicate (0 + 8) 0) = replicate 0 0 @ map (dec_sum im decTable32 9) [0..<8]"
    by (intro decode_columns) (simp add: decode_blocks decTable32_nth)
  then have f: "flatten y = map (dec_sum im decTable32 9) [0..<8]" using y(4) by simp
  have "foldM (\<lambda>c im. store256 im (4 * c + 0) (y ! c)) [0..<2] bin = Some (take 0 bin @ take (4 * 2) (flatten y) @ drop (4 * 2 + 0) bin)"
    using y(2,3) assms(3) by (intro store_blocks) simp_all
  then show ?thesis using y(1) f assms(3) by (simp add: decodeMatMul32AVX2_asm_def)
qed

text \<open>Twenty columns, the last three of them zero and not stored.\<close>

lemma encodeMatMul64HeadAVX2_asm_eq:
  assumes "length src = 64"
  shows "encodeMatMul64HeadAVX2_asm src (replicate 18 0) = Some (0 # map (enc_sum src encTable64 8) [0..<17])"
proof -
  let ?b = "\<lambda>i. ucast (be_word (take 4 (drop (4 * i) src))) :: u64"
  let ?lo = "\<lambda>i :: nat. if i < 4 then 0 else if i < 7 then 1 else 2"
  define rows where "rows = map (\<lambda>row. row @ replicate 3 0) (take 8 encTable64)"
  have len: "length rows = 8" using table_shapes by (simp add: rows_def)
  have row: "rows ! i = encTable64 ! i @ replicate 3 0" if "i < 8" for i using that table_shapes by (simp add: rows_def)
  have "\<exists>y. foldM (\<lambda>i acc. do { m \<leftarrow> do { y \<leftarrow> vpbroadcastd src (4 * i); Some (vpshufb bswapd y) };
        foldM (\<lambda>c. macBlock (mem_of 8 (concat (encWide64 True))) m (5 * i + c) (c + 0)) [?lo i..<5] acc })
        [0..<8] (replicate 5 (replicate 32 0)) = Some y \<and>
      (\<forall>z \<in> set y. length z = 32) \<and> length y = length (replicate 5 (replicate 32 (0 :: u8))) \<and>
      flatten y = fold (\<lambda>i. macRow (?b i) (rows ! i) (4 * ?lo i) (4 * 5) (4 * 0)) [0..<8] (flatten (replicate 5 (replicate 32 0)))"
    unfolding rows_def using assms len by (intro blocks_enc64.rows encode_register) (simp_all add: rows_def)
  then obtain y where y: "foldM (\<lambda>i acc. do { m \<leftarrow> vpbroadcastd src (4 * i);
        foldM (\<lambda>c. macBlock (mem_of 8 (concat (encWide64 True))) (vpshufb bswapd m) (5 * i + c) (c + 0)) [?lo i..<5] acc })
        [0..<8] (replicate 5 (replicate 32 0)) = Some y" "\<forall>z \<in> set y. length z = 32" "length y = 5"
      "flatten y = fold (\<lambda>i. macRow (?b i) (rows ! i) (4 * ?lo i) 20 0) [0..<8] (replicate (0 + 20) 0)"
    by (auto simp: Option.bind_assoc flatten_zero simp del: replicate_numeral)
  have cov: "covers (4 * ?lo i) 20 (rows ! i)" if i: "i < 8" for i
  proof -
    have "4 * ?lo i \<le> [0, 1, 2, 3, 4, 6, 7, 8 :: nat] ! i"
    proof -
      have "\<forall>i \<in> set [0..<8]. 4 * ?lo i \<le> [0, 1, 2, 3, 4, 6, 7, 8 :: nat] ! i" by (simp add: upt_rec)
      from bspec [OF this, of i] show ?thesis using i by (simp only: set_upt atLeastLessThan_iff le0 simp_thms)
    qed
    then have "covers (4 * ?lo i) 17 (encTable64 ! i)"
      using covers_wider [OF triangles(3) [OF i], of _ 17] encTable64_nth [of i] i by simp
    then show ?thesis unfolding row [OF i] covers_def using encTable64_nth [of i] i by (auto simp: nth_append)
  qed
  have "fold (\<lambda>i. macRow (?b i) (rows ! i) (4 * ?lo i) 20 0) [0..<8] (replicate (0 + 20) 0) = replicate 0 0 @ map (enc_sum src rows 8) [0..<20]"
    by (intro encode_columns allI impI conjI cov) (simp_all add: row encTable64_nth)
  then have f: "flatten y = map (enc_sum src rows 8) [0..<20]" using y(4) by simp
  have col: "enc_sum src rows 8 k = enc_sum src encTable64 8 k" if "k < 17" for k
    unfolding enc_sum_def using that
    by (intro arg_cong [where f = sum_list] map_cong) (simp_all add: row nth_append encTable64_nth)
  have "foldM (\<lambda>c im. store256 im (4 * c + 1) (y ! c)) [0..<4] (replicate 18 0) =
      Some (take 1 (replicate 18 0) @ take (4 * 4) (flatten y) @ drop (4 * 4 + 1) (replicate 18 0))"
    using y(2,3) by (intro store_blocks) simp_all
  moreover have "lanes 8 (y ! 4) ! 0 = enc_sum src encTable64 8 16"
    using flatten_nth [OF y(2), of 4 0] y(3) f by (simp add: col)
  moreover have "take (4 * 4) (flatten y) = map (enc_sum src encTable64 8) [0..<16]"
    unfolding f by (simp add: take_map) (simp add: col)
  moreover have "map (enc_sum src encTable64 8) [0..<17] = map (enc_sum src encTable64 8) [0..<16] @ [enc_sum src encTable64 8 16]"
  proof -
    have "[0..<17] = [0..<16] @ [16]" using upt_Suc_append [of 0 16] by simp
    then show ?thesis by simp
  qed
  ultimately show ?thesis using y(1) by (simp add: encodeMatMul64HeadAVX2_asm_def list_update_append)
qed

text \<open>The two halves of the decode product are added in the same registers.\<close>

lemma decodeMatMul64AVX2_asm_eq:
  assumes "length im = 18" "\<forall>v \<in> set im. unat v < 58 ^ 5"
  shows "decodeMatMul64AVX2_asm im (replicate 16 0) = Some (map (dec_sum im decTable64 18) [0..<16])"
proof -
  let ?lo = "\<lambda>i :: nat. if i < 4 then 0 else 1"
  have shift: "72 + 8 * i = 8 * (9 + i)" for i :: nat by simp
  have tail: "\<forall>v \<in> set (drop 9 im). unat v < 58 ^ 5" using assms(2) set_drop_subset [of 9 im] by blast
  have "\<exists>y. foldM (\<lambda>i acc. do { m \<leftarrow> vpbroadcastd (mem_of 8 im) (8 * i);
        foldM (\<lambda>c. macBlock (mem_of 8 (concat (decWide64 True))) m (4 * i + c) (c + 0)) [?lo i..<4] acc })
        [0..<9] (replicate 4 (replicate 32 0)) = Some y \<and>
      (\<forall>z \<in> set y. length z = 32) \<and> length y = length (replicate 4 (replicate 32 (0 :: u8))) \<and>
      flatten y = fold (\<lambda>i. macRow (im ! i) (take 9 decTable64 ! i) (4 * ?lo i) (4 * 4) (4 * 0)) [0..<9] (flatten (replicate 4 (replicate 32 0)))"
    using assms table_shapes by (intro blocks_dec64.rows decode_register) simp_all
  then obtain y where y: "foldM (\<lambda>i acc. do { m \<leftarrow> vpbroadcastd (mem_of 8 im) (8 * i);
        foldM (\<lambda>c. macBlock (mem_of 8 (concat (decWide64 True))) m (4 * i + c) (c + 0)) [?lo i..<4] acc })
        [0..<9] (replicate 4 (replicate 32 0)) = Some y" "\<forall>z \<in> set y. length z = 32" "length y = 4"
      "flatten y = fold (\<lambda>i. macRow (im ! i) (take 9 decTable64 ! i) (4 * ?lo i) 16 0) [0..<9] (replicate (0 + 16) 0)"
    by (auto simp: flatten_zero simp del: replicate_numeral)
  have cov1: "covers (4 * ?lo i) 16 (take 9 decTable64 ! i) \<and> length (take 9 decTable64 ! i) = 16" if i: "i < 9" for i
  proof -
    have "4 * ?lo i \<le> [0, 1, 2, 3, 4, 5, 5, 6, 7 :: nat] ! i \<and> [14, 14, 14, 14, 14, 15, 15, 15, 15 :: nat] ! i \<le> 16"
    proof -
      have "\<forall>i \<in> set [0..<9]. 4 * ?lo i \<le> [0, 1, 2, 3, 4, 5, 5, 6, 7 :: nat] ! i \<and> [14, 14, 14, 14, 14, 15, 15, 15, 15 :: nat] ! i \<le> 16"
        by (simp add: upt_rec)
      from bspec [OF this, of i] show ?thesis using i by (simp only: set_upt atLeastLessThan_iff le0 simp_thms)
    qed
    then show ?thesis
      using covers_wider [OF triangles(4) [OF i], of "4 * ?lo i" 16] decTable64_nth [of i] i by simp
  qed
  have h: "flatten y = map (dec_sum im decTable64 9) [0..<16]"
  proof -
    have "fold (\<lambda>i. macRow (im ! i) (take 9 decTable64 ! i) (4 * ?lo i) 16 0) [0..<9] (replicate (0 + 16) 0) =
        replicate 0 0 @ map (dec_sum im (take 9 decTable64) 9) [0..<16]"
      by (intro decode_columns allI impI cov1)
    moreover have "dec_sum im (take 9 decTable64) 9 = dec_sum im decTable64 9"
      unfolding dec_sum_def by (intro ext arg_cong [where f = sum_list] map_cong) simp_all
    ultimately show ?thesis using y(4) by simp
  qed
  have "\<exists>z. foldM (\<lambda>i acc. do { m \<leftarrow> vpbroadcastd (mem_of 8 im) (72 + 8 * i);
        foldM (\<lambda>c. macBlock (mem_of 8 (concat (decWide32 True))) m (2 * i + c) (c + 2)) [?lo i..<2] acc }) [0..<9] y = Some z \<and>
      (\<forall>w \<in> set z. length w = 32) \<and> length z = length y \<and>
      flatten z = fold (\<lambda>i. macRow (drop 9 im ! i) (decTable32 ! i) (4 * ?lo i) (4 * 2) (4 * 2)) [0..<9] (flatten y)"
    unfolding shift using assms y(2,3) decode_register [of "9 + _" im]
    by (intro blocks_dec32.rows) (simp_all add: table_shapes)
  then obtain z where z: "foldM (\<lambda>i acc. do { m \<leftarrow> vpbroadcastd (mem_of 8 im) (72 + 8 * i);
        foldM (\<lambda>c. macBlock (mem_of 8 (concat (decWide32 True))) m (2 * i + c) (c + 2)) [?lo i..<2] acc }) [0..<9] y = Some z"
      "\<forall>w \<in> set z. length w = 32" "length z = 4"
      "flatten z = fold (\<lambda>i. macRow (drop 9 im ! i) (decTable32 ! i) (4 * ?lo i) 8 8) [0..<9] (map (dec_sum im decTable64 9) [0..<16])"
    using y(3) by (auto simp: h)
  have cov2: "covers (4 * ?lo i) 8 (decTable32 ! i)" if "i < 9" for i
    using that by (rule decode_blocks)
  have f: "flatten z = map (dec_sum im decTable64 18) [0..<16]"
  proof (rule nth_equalityI)
    fix j
    assume "j < length (flatten z)"
    then have j: "j < 16" by (simp add: length_flatten [OF z(2)] z(3))
    show "flatten z ! j = map (dec_sum im decTable64 18) [0..<16] ! j"
    proof (cases "8 \<le> j")
      case True
      have "flatten z ! j = dec_sum im decTable64 9 j + sum_list (map (\<lambda>i. drop 9 im ! i * ucast (decTable32 ! i ! (j - 8))) [0..<9])"
        unfolding z(4) using j True cov2 by (subst fold_macRow_column) (auto simp: decTable32_nth)
      then show ?thesis using dec_sum_low [OF j assms(1)] True j by (simp add: dec_sum_def)
    next
      case False
      have "flatten z ! j = dec_sum im decTable64 9 j"
        unfolding z(4) using j False by (subst fold_macRow_left) simp_all
      then show ?thesis using dec_sum_low [OF j assms(1)] False j by simp
    qed
  qed (simp add: length_flatten [OF z(2)] z(3))
  have "foldM (\<lambda>c bin. store256 bin (4 * c + 0) (z ! c)) [0..<4] (replicate 16 0) =
      Some (take 0 (replicate 16 0) @ take (4 * 4) (flatten z) @ drop (4 * 4 + 0) (replicate 16 0))"
    using z(2,3) by (intro store_blocks) simp_all
  then show ?thesis using y(1) z(1) f by (simp add: decodeMatMul64AVX2_asm_def)
qed

section \<open>The contract\<close>

text \<open>The kernels that the amd64 build links; none of them reads or writes outside its arrays.\<close>

definition asm_matmul :: "bool \<Rightarrow> matmul_kernels" where
  "asm_matmul avx2 =
     \<lparr>useAVX2 = avx2,
      encodeMatMul32Scalar = (\<lambda>src im. the (encodeMatMul32Scalar_asm src im)),
      encodeMatMul32AVX2 = (\<lambda>src im. the (encodeMatMul32AVX2_asm src im)),
      decodeMatMul32Scalar = (\<lambda>im bin. the (decodeMatMul32Scalar_asm im bin)),
      decodeMatMul32AVX2 = (\<lambda>im bin. the (decodeMatMul32AVX2_asm im bin)),
      encodeMatMul64Head = (\<lambda>src im. the (encodeMatMul64Head_asm src im)),
      encodeMatMul64HeadAVX2 = (\<lambda>src im. the (encodeMatMul64HeadAVX2_asm src im)),
      decodeMatMul64Head = (\<lambda>im bin. the (decodeMatMul64Head_asm im bin)),
      decodeMatMul64AVX2 = (\<lambda>im bin. the (decodeMatMul64AVX2_asm im bin))\<rparr>"

lemma asm_matmul_documented: "matmul_documented (asm_matmul avx2)"
  unfolding matmul_documented_def asm_matmul_def
  by (simp add: encodeMatMul32Scalar_asm_eq encodeMatMul32AVX2_asm_eq decodeMatMul32Scalar_asm_eq decodeMatMul32AVX2_asm_eq
      encodeMatMul64Head_asm_eq encodeMatMul64HeadAVX2_asm_eq decodeMatMul64Head_asm_eq decodeMatMul64AVX2_asm_eq)

end
