(* ===== verification/Asm_Encode.thy ===== *)
theory Asm_Encode
  imports Asm_Chars Asm_Matmul
begin

unbundle bit_operations_syntax

text \<open>
  The fused encoders of \<open>matmul_avx2_amd64.s\<close>: \<open>encode32AppendAVX2\<close>, which renders each limb as it leaves
  the chain of carries, and \<open>encode64DirectAVX2\<close>, which renders sixteen limbs with vectors.  Both trim the
  leading zeros and store the text with overlapping vectors.  The frame of a kernel is written before
  it is read, so that what it held does not matter; it starts out as zeros here.
\<close>

section \<open>Limbs and characters\<close>

text \<open>\<open>MULQ\<close>: the high half of the product.\<close>

definition mulhi :: "u64 \<Rightarrow> u64 \<Rightarrow> u64" where
  "mulhi a b = of_nat (unat a * unat b div 2 ^ 64)"

text \<open>The quotient by \<open>58 ^ 5\<close> and the remainder.\<close>

definition limb_reduce :: "u64 \<Rightarrow> u64 \<times> u64" where
  "limb_reduce r8 = (let dx = drop_bit 28 (mulhi r8 0x68b2c7ad1a016ab5) in (dx, r8 - dx * 656356768))"

text \<open>\<open>RENDER5\<close> and \<open>RENDER5PTR\<close>: the five characters of a limb from \<open>k\<close> on, the last pair first.\<close>

definition RENDER5 :: "u64 \<Rightarrow> nat \<Rightarrow> bytes \<Rightarrow> bytes option" where
  "RENDER5 r8 k raw =
     do { let ax = (ucast r8 :: u32);
          let bx = (drop_bit 1 (ucast ax) * 0x9bda4125 :: u64);
          let r9 = bx;
          let bx = drop_bit 42 bx;
          let ax = ax - ucast bx * 3364;
          pair \<leftarrow> idx base58Pairs (unat ax);
          raw \<leftarrow> on_slice raw (k + 3) (k + 5) (putUint16LE pair);
          let r9 = drop_bit 42 (drop_bit 43 r9 * 0x9bda4125);
          let bx = (ucast bx - ucast r9 * 3364 :: u32);
          pair \<leftarrow> idx base58Pairs (unat bx);
          raw \<leftarrow> on_slice raw (k + 1) (k + 3) (putUint16LE pair);
          c \<leftarrow> idx base58Chars (unat r9);
          upd raw k c }"

lemma unat_mulhi: "unat (mulhi a b) = unat a * unat b div 2 ^ 64"
proof -
  have "unat a * unat b < 2 ^ 64 * 2 ^ 64"
    using unat_lt_pow [of a] unat_lt_pow [of b] by (intro mult_strict_mono) simp_all
  then have "unat a * unat b div 2 ^ 64 < 2 ^ 64" by (rule less_mult_imp_div_less)
  then show ?thesis unfolding mulhi_def by (intro unat_of_nat_small) simp
qed

text \<open>Division by \<open>58 ^ 5\<close> with any multiplier whose excess is small enough.\<close>

lemma mulhi_div:
  assumes "unat m * 656356768 = 2 ^ (64 + s) + e" "2 ^ 64 div 656356768 * e + 656356767 * unat m < 2 ^ (64 + s)"
  shows "drop_bit s (mulhi v m) = v div r1div"
proof -
  have "unat v * unat m div 2 ^ (64 + s) = unat v div 656356768"
  proof (rule magic_div [OF assms(1)])
    have "unat v div 656356768 \<le> 2 ^ 64 div 656356768" using unat_lt_pow [of v] by (intro div_le_mono) simp
    then have "unat v div 656356768 * e \<le> 2 ^ 64 div 656356768 * e" by (rule mult_le_mono1)
    then have "unat v div 656356768 * e + 656356767 * unat m < 2 ^ (64 + s)" using assms(2) by linarith
    then show "unat v div 656356768 * e + (656356768 - 1) * unat m < 2 ^ (64 + s)" by simp
  qed simp
  then have "unat (drop_bit s (mulhi v m)) = unat (v div r1div)"
    by (simp add: unat_drop_bit64 unat_mulhi unat_div unat_r1div div_mult2_eq [symmetric] power_add)
  then show ?thesis by (rule word_unat_eq_iff [THEN iffD2])
qed

lemma r1div_eq: "(656356768 :: u64) = r1div"
  using unat_r1div by (simp add: word_unat_eq_iff)

lemma limb_reduce_eq: "limb_reduce v = (v div r1div, v - v div r1div * r1div)"
proof -
  have "drop_bit 28 (mulhi v 0x68b2c7ad1a016ab5) = v div r1div" by (rule mulhi_div [where e = 182790688]) simp_all
  then show ?thesis by (simp only: limb_reduce_def Let_def r1div_eq)
qed

lemma at_least5E:
  assumes "5 \<le> length (w :: bytes)"
  obtains x0 x1 x2 x3 x4 post where "w = x0 # x1 # x2 # x3 # x4 # post"
  using assms by (auto simp: Suc_le_length_iff eval_nat_numeral)

lemma RENDER5_eq:
  assumes "unat r8 < 58 ^ 5" "k + 5 \<le> length raw"
  shows "RENDER5 r8 k raw = Some (take k raw @ chars5 (unat r8) @ drop (k + 5) raw)"
proof -
  define n where "n = unat r8"
  have n: "n < 656356768" using assms(1) by (simp add: n_def)
  have d: "i * 0x9bda4125 div 2 ^ 42 = i div 1682" "i * 0x9bda4125 < 2 ^ 64" if "i < 656356768" for i :: nat
  proof -
    show "i * 0x9bda4125 div 2 ^ 42 = i div 1682"
    proof (rule magic_div [where e = 1306])
      have "i div 1682 \<le> 656356768 div 1682" using that by (intro div_le_mono) simp
      then show "i div 1682 * 1306 + (1682 - 1) * 0x9bda4125 < 2 ^ 42" by simp
    qed simp_all
    show "i * 0x9bda4125 < 2 ^ 64" using that by simp
  qed
  define ax where "ax = (ucast r8 :: u32)"
  have ax: "unat ax = n" using n unfolding ax_def n_def by (intro unat_ucast_small) simp
  define p where "p = (drop_bit 1 (ucast ax) * 0x9bda4125 :: u64)"
  have p: "unat p = n div 2 * 0x9bda4125"
    unfolding p_def using n ax d(2) [of "n div 2"] by (subst unat_mult_nowrap) (simp_all add: unat_drop_bit64)
  define bx where "bx = (ucast (drop_bit 42 p) :: u32)"
  have b: "unat (drop_bit 42 p) = n div 3364"
    using d(1) [of "n div 2"] n by (simp add: unat_drop_bit64 p div_mult2_eq [symmetric])
  then have bx: "unat bx = n div 3364" unfolding bx_def using n by (subst unat_ucast_small) (auto intro!: less_mult_imp_div_less)
  define r9 where "r9 = drop_bit 42 (drop_bit 43 p * 0x9bda4125)"
  have "unat (drop_bit 43 p) = n div 3364 div 2"
    using b by (simp add: unat_drop_bit64 div_mult2_eq [of _ "2 ^ 42" 2, simplified])
  moreover have "n div 3364 div 2 < 656356768" using n by (intro less_mult_imp_div_less) simp
  ultimately have "unat r9 = n div 3364 div 2 div 1682"
    unfolding r9_def using d by (simp add: unat_drop_bit64 unat_mult_nowrap)
  then have r9: "unat r9 = n div 11316496" by (simp add: div_mult2_eq [symmetric])
  then have lt: "unat r9 < 58" using n by (simp add: less_mult_imp_div_less)
  have u: "ucast bx' = (w :: u32)" if "unat bx' = unat w" for bx' :: u64 and w
    using that unat_lt_pow [of w] by (simp add: word_unat_eq_iff unat_ucast_small)
  have "bx = ax div 3364" unfolding bx_def using b ax by (intro u) (simp add: unat_div)
  then have a: "unat (ax - bx * 3364) = n mod 3364" by (simp add: unat_sub_div_mult ax)
  have "ucast r9 = bx div 3364" using r9 bx by (intro u) (simp add: unat_div div_mult2_eq [symmetric])
  then have c: "unat (bx - ucast r9 * 3364) = n div 3364 mod 3364" by (simp add: unat_sub_div_mult bx)
  have "5 \<le> length (drop k raw)" using assms(2) by simp
  then obtain x0 x1 x2 x3 x4 post where "drop k raw = x0 # x1 # x2 # x3 # x4 # post"
    by (rule at_least5E)
  then have "raw = take k raw @ x0 # x1 # x2 # x3 # x4 # post" by (metis append_take_drop_id)
  moreover have "length (take k raw) = k" using assms(2) by simp
  ultimately obtain pre where raw: "raw = pre @ x0 # x1 # x2 # x3 # x4 # post" "length pre = k" by blast
  have m: "n mod 3364 div 58 = n div 58 mod 58" "n mod 3364 mod 58 = n mod 58" for n :: nat
    using mod_mult2_eq [of n 58 58] by simp_all
  show ?thesis
    unfolding RENDER5_def Let_def ax_def [symmetric] p_def [symmetric] bx_def [symmetric] r9_def [symmetric]
    using lt by (simp add: a c r9 raw on_slice_def putUint16LE_pair base58Chars_nth chars5_def fixed5 m n_def [symmetric]
      div_mult2_eq [symmetric] list_update_append)
qed

section \<open>The encoder for 32 bytes\<close>

text \<open>\<open>VMOVDQU\<close> of 32 bytes to the destination.\<close>

definition put256 :: "bytes \<Rightarrow> nat \<Rightarrow> bytes \<Rightarrow> bytes option" where
  "put256 w a y = on_slice w a (a + 32) (\<lambda>_. Some y)"

text \<open>
  \<open>r8\<close> is the limb to reduce; its remainder is rendered, and its quotient and the accumulator before it
  are the next.  The scans of zeros are those of \<open>direct_in_zeros\<close> and \<open>direct_raw_zeros\<close>; a first byte
  other than zero leaves one or two leading characters.
\<close>

definition encode32AppendAVX2_asm :: "bytes \<Rightarrow> bytes \<Rightarrow> (nat \<times> bytes) option" where
  "encode32AppendAVX2_asm src dst =
     do { im \<leftarrow> encodeMatMul32AVX2_asm src (replicate 9 0);
          r8 \<leftarrow> idx im 8;
          (r8, raw) \<leftarrow> foldM (\<lambda>i (r8, raw).
              do { let (dx, r8) = limb_reduce r8;
                   raw \<leftarrow> RENDER5 r8 (5 * Suc i) raw;
                   v \<leftarrow> idx im i;
                   Some (v + dx, raw) })
            (rev [0..<8]) (r8, replicate 45 0);
          raw \<leftarrow> RENDER5 r8 0 raw;
          c \<leftarrow> idx src 0;
          c1 \<leftarrow> idx raw 1;
          skip \<leftarrow> (if c = 0 then isub (leading 49 raw) (leading 0 src) else Some (1 + of_bool (c1 < 50)));
          n \<leftarrow> isub 45 skip;
          y0 \<leftarrow> load256 raw skip;
          dst \<leftarrow> put256 dst 0 y0;
          a \<leftarrow> isub (skip + n) 16;
          x0 \<leftarrow> subslice raw a (a + 16);
          b \<leftarrow> isub n 16;
          dst \<leftarrow> store128 dst b x0;
          Some (n, dst) }"

text \<open>The chain, which keeps the limbs only as characters, is the carry loop with the limbs rendered.\<close>

lemma render_chain:
  assumes "i < length im" "5 * i + 5 \<le> length raw"
  shows "foldM (\<lambda>i (r8, raw).
      do { let (dx, r8) = limb_reduce r8;
           raw \<leftarrow> RENDER5 r8 (5 * Suc i) raw;
           v \<leftarrow> idx im i;
           Some (v + dx, raw) }) (rev [0..<i]) (r8, raw) =
    Some (carryLoop i r8 im ! 0,
      take 5 raw @ chars_of (map unat (take i (tl (carryLoop i r8 im)))) @ drop (5 * i + 5) raw)"
proof -
  have "foldM (\<lambda>i (r8, raw).
      do { let (dx, r8) = limb_reduce r8;
           raw \<leftarrow> RENDER5 r8 (5 * Suc i) raw;
           v \<leftarrow> idx im i;
           Some (v + dx, raw) }) (rev [0..<i]) (r8, raw) =
    Some (carryLoop i r8 im' ! 0,
      take 5 raw @ chars_of (map unat (take i (tl (carryLoop i r8 im')))) @ drop (5 * i + 5) raw)"
    if "take i im' = take i im" "length im' = length im" for im'
    using assms that
  proof (induction i arbitrary: r8 raw im')
    case 0
    then show ?case by (cases im') simp_all
  next
    case (Suc i)
    define r where "r = r8 - r8 div r1div * r1div"
    have r: "unat r < 58 ^ 5" unfolding r_def by (simp only: unat_sub_div_mult unat_r1div) simp
    define raw' where "raw' = take (5 * Suc i) raw @ chars5 (unat r) @ drop (5 * Suc i + 5) raw"
    have R: "RENDER5 r (5 * Suc i) raw = Some raw'"
      unfolding raw'_def using r Suc.prems(2) by (intro RENDER5_eq) simp_all
    have l: "length raw' = length raw" using Suc.prems(2) by (simp add: raw'_def)
    let ?v = "im ! i + r8 div r1div" and ?im = "im'[Suc i := r]"
    have im: "im' ! i = im ! i"
      using arg_cong [OF Suc.prems(3), of "\<lambda>l. l ! i"] by simp
    have t: "take i ?im = take i im" using arg_cong [OF Suc.prems(3), of "take i"] by simp
    have C: "carryLoop (Suc i) r8 im' = carryLoop i ?v ?im" by (simp add: carryLoop.simps(2) Let_def im r_def)
    have "carryLoop i ?v ?im ! Suc i = r"
      using Suc.prems(1,4) by (subst enc.loop_above) simp_all
    then have "take (Suc i) (tl (carryLoop i ?v ?im)) = take i (tl (carryLoop i ?v ?im)) @ [r]"
      using Suc.prems(1,4) by (simp add: take_Suc_conv_app_nth nth_tl enc.length_loop)
    moreover have "take 5 raw' = take 5 raw" unfolding raw'_def using Suc.prems(2) by simp
    moreover have "drop (5 * i + 5) raw' = chars5 (unat r) @ drop (5 * Suc i + 5) raw"
      unfolding raw'_def using Suc.prems(2) by simp
    ultimately show ?case
      using Suc.IH [of raw' ?im ?v] Suc.prems t l R
      by (simp add: limb_reduce_eq r_def [symmetric] C chars_of_append chars_of_Cons)
  qed
  from this [of im] show ?thesis by simp
qed

section \<open>Trimming\<close>

lemma bytes_val_ge: "hd src \<noteq> 0 \<Longrightarrow> src \<noteq> [] \<Longrightarrow> 256 ^ (length src - 1) \<le> bytes_val src"
proof (cases src)
  case (Cons c cs)
  assume "hd src \<noteq> 0"
  then have "1 \<le> unat c" using Cons by (simp add: unat_gt_0 Suc_le_eq)
  then have "1 * 256 ^ length cs \<le> unat c * 256 ^ length cs" by (rule mult_le_mono1)
  then have "256 ^ length cs \<le> bytes_val (c # cs)" unfolding bytes_val_Cons by linarith
  then show ?thesis using Cons by simp
qed simp

lemma length_src_le: "length src \<le> length (b58_encode src)"
proof -
  let ?d = "dropWhile (\<lambda>b. b = 0) src"
  have len: "length src = leading 0 src + length ?d"
    using arg_cong [OF leading_split [of src 0], of length] by simp
  show ?thesis
  proof (cases "?d = []")
    case False
    then have "hd ?d \<noteq> 0" by (rule hd_dropWhile)
    then have "256 ^ (length ?d - 1) \<le> bytes_val src"
      using bytes_val_ge [of ?d] False by (simp add: bytes_val_drop_leading)
    moreover have "(58 :: nat) ^ (length ?d - 1) \<le> 256 ^ (length ?d - 1)" by (intro power_mono) simp_all
    ultimately have "length ?d - 1 < length (to_digits 58 (bytes_val src))" by (intro to_digits_length_ge) simp_all
    then show ?thesis using len by (simp add: length_b58_encode b58_digits_def)
  next
    case True
    then have "length src = leading 0 src" using len by simp
    then show ?thesis by (simp add: length_b58_encode)
  qed
qed

lemma put256_eq: "a + 32 \<le> length w \<Longrightarrow> length y = 32 \<Longrightarrow> put256 w a y = Some (take a w @ y @ drop (a + 32) w)"
  unfolding put256_def by (subst on_slice_Some [where w = y]) simp_all

text \<open>A store at the end over a front that is stored already.\<close>

lemma store_end:
  assumes "take m w = take m e" "a \<le> m" "a + k = length e" "length e \<le> length w"
  shows "take a w @ drop a e @ drop (a + k) w = e @ drop (length e) w"
proof -
  have "take a w = take a e" using arg_cong [OF assms(1), of "take a"] assms(2) by (simp add: min_absorb1)
  then show ?thesis using assms(3) by simp
qed

text \<open>The raw text and what the kernels take for the number of characters to skip.\<close>

lemma raw_text:
  assumes "length src = nb" "256 ^ nb \<le> (58 ^ 5 :: nat) ^ n" "length (b58_encode src) \<le> 5 * n"
  defines "raw \<equiv> chars_of (limbs58 n src)"
  shows "drop (5 * n - length (b58_encode src)) raw = b58_encode src"
    and "isub (leading 49 raw) (leading 0 src) = Some (5 * n - length (b58_encode src))"
    and "hd src \<noteq> 0 \<Longrightarrow> src \<noteq> [] \<Longrightarrow> leading 49 raw = 5 * n - length (b58_encode src)"
proof -
  have v: "bval (58 ^ 5) (limbs58 n src) = bytes_val src" using assms(1,2) by (rule bval_limbs58)
  show "drop (5 * n - length (b58_encode src)) raw = b58_encode src"
    using drop_chars_of [OF limbs58_less v] assms(3) by (simp add: raw_def)
  show i: "isub (leading 49 raw) (leading 0 src) = Some (5 * n - length (b58_encode src))"
    using leading_slot(2) [OF v] assms(3) by (auto simp: raw_def isub_def)
  show "leading 49 raw = 5 * n - length (b58_encode src)" if "hd src \<noteq> 0" "src \<noteq> []"
    using i that by (cases src) (simp_all add: isub_def)
qed

text \<open>A first byte other than zero leaves at most one more leading character than the longest text.\<close>

lemma leading_few:
  assumes "length src = nb" "hd src \<noteq> 0" "src \<noteq> []" "58 ^ k \<le> (256 :: nat) ^ (nb - 1)"
  shows "k < length (b58_encode src)"
proof -
  have "58 ^ k \<le> bytes_val src" using bytes_val_ge [OF assms(2,3)] assms(1,4) by simp
  then have "k < length (to_digits 58 (bytes_val src))" by (intro to_digits_length_ge) simp_all
  then show ?thesis by (simp add: length_b58_encode b58_digits_def)
qed

lemma leading_at:
  assumes "leading (x :: 'a) xs = k \<or> leading x xs = Suc k" "Suc k < length xs"
  shows "xs ! k = x \<longleftrightarrow> leading x xs = Suc k"
proof
  assume "leading x xs = Suc k"
  then show "xs ! k = x" using take_leading [of x xs] by (metis lessI nth_replicate nth_take)
next
  assume "xs ! k = x"
  moreover have "xs ! leading x xs \<noteq> x" if "leading x xs < length xs"
    using that nth_length_takeWhile [of "\<lambda>y. y = x" xs] by (simp add: leading_def)
  ultimately show "leading x xs = Suc k" using assms by auto
qed

lemma chars_below:
  assumes "c \<in> set (chars_of ns)"
  shows "c < 50 \<longleftrightarrow> c = 49"
proof -
  have "\<forall>c \<in> set alphabet. c < 50 \<longleftrightarrow> c = 49" unfolding alphabet_eq by simp
  moreover have "c \<in> set alphabet"
    using assms by (auto simp: chars_of_def b58_char_def intro!: nth_mem dest: fixed_less [rotated])
  ultimately show ?thesis by blast
qed

lemma encode32AppendAVX2_asm_eq:
  assumes "length src = 32" "44 \<le> length w"
  shows "encode32AppendAVX2_asm src w = Some (length (b58_encode src), b58_encode src @ drop (length (b58_encode src)) w)"
proof -
  let ?im = "0 # map (enc_sum src encTable32 8) [0..<8]" and ?e = "b58_encode src"
  have P: "encodeMatMul32 src (replicate 9 0) = Some ?im" using encodeMatMul32_columns [OF assms(1)] .
  then have "map unat (carryLoop 8 (?im ! 8) ?im) = limbs58 9 src"
    using enc32.carried [OF assms(1)] by auto
  define ys where "ys = carryLoop 8 (?im ! 8) ?im"
  have ys: "map unat ys = limbs58 9 src" using \<open>map unat (carryLoop 8 (?im ! 8) ?im) = limbs58 9 src\<close> by (simp only: ys_def)
  then have len: "length ys = 9" by (metis length_fixed length_map)
  have lt: "\<forall>y \<in> set ys. unat y < 58 ^ 5" using limbs58_less [of 9 src] unfolding ys [symmetric] by simp
  define raw where "raw = chars_of (limbs58 9 src)"
  have lr: "length raw = 45" by (simp add: raw_def)
  obtain y ys' where y: "ys = y # ys'" "length ys' = 8" using len by (cases ys) auto
  have "foldM (\<lambda>i (r8, raw).
              do { let (dx, r8) = limb_reduce r8;
                   raw \<leftarrow> RENDER5 r8 (5 * Suc i) raw;
                   v \<leftarrow> idx ?im i;
                   Some (v + dx, raw) })
            (rev [0..<8]) (?im ! 8, replicate 45 0) = Some (y, replicate 5 0 @ chars_of (map unat ys'))"
    using render_chain [of 8 ?im "replicate 45 0" "?im ! 8"] y unfolding ys_def [symmetric] by simp
  moreover have "raw = chars5 (unat y) @ chars_of (map unat ys')" unfolding raw_def ys [symmetric] y(1) by (simp add: chars_of_Cons)
  then have "RENDER5 y 0 (replicate 5 0 @ chars_of (map unat ys')) = Some raw"
    using lt y by (subst RENDER5_eq) simp_all
  moreover have "idx ?im 8 = Some (?im ! 8)" by simp
  ultimately have chain: "do { im \<leftarrow> encodeMatMul32AVX2_asm src (replicate 9 0);
          r8 \<leftarrow> idx im 8;
          (r8, raw) \<leftarrow> foldM (\<lambda>i (r8, raw).
              do { let (dx, r8) = limb_reduce r8;
                   raw \<leftarrow> RENDER5 r8 (5 * Suc i) raw;
                   v \<leftarrow> idx im i;
                   Some (v + dx, raw) })
            (rev [0..<8]) (r8, replicate 45 0);
          raw \<leftarrow> RENDER5 r8 0 raw; g raw } = g raw" for g :: "bytes \<Rightarrow> (nat \<times> bytes) option"
    by (simp only: encodeMatMul32AVX2_asm_eq [OF assms(1)] bind.bind_lunit prod.case)
  have le: "length ?e \<le> 44" "32 \<le> length ?e"
    using b58_encode_length32 [OF assms(1)] length_src_le [of src] assms(1) by simp_all
  have cap: "256 ^ 32 \<le> (58 ^ 5 :: nat) ^ 9" "length ?e \<le> 5 * 9" using le by simp_all
  note R = raw_text [OF assms(1) cap, folded raw_def]
  define skip where "skip = 45 - length ?e"
  have skip: "(if src ! 0 = 0 then isub (leading 49 raw) (leading 0 src) else Some (1 + of_bool (raw ! 1 < 50))) = Some skip"
  proof (cases "hd src = 0")
    case True
    then show ?thesis using R(2) assms(1) by (cases src) (simp_all add: skip_def)
  next
    case False
    have ne: "src \<noteq> []" using assms(1) by auto
    have "42 < length ?e" using assms(1) False ne by (rule leading_few) simp
    then have "leading 49 raw = 1 \<or> leading 49 raw = Suc 1" using R(3) [OF False ne] le(1) by simp arith
    then have "raw ! 1 = 49 \<longleftrightarrow> leading 49 raw = Suc 1" using lr by (intro leading_at) simp_all
    moreover have "raw ! 1 < 50 \<longleftrightarrow> raw ! 1 = 49" using lr chars_below [of "raw ! 1" "limbs58 9 src"] by (simp add: raw_def)
    moreover have "src ! 0 \<noteq> 0" using False ne by (simp add: hd_conv_nth)
    ultimately show ?thesis using R(3) [OF False ne] \<open>leading 49 raw = 1 \<or> leading 49 raw = Suc 1\<close> by (auto simp: skip_def)
  qed
  define n where "n = length ?e"
  have n: "isub 45 skip = Some n" "skip + n = 45" "32 \<le> n" "n \<le> 44" using le by (simp_all add: skip_def n_def)
  have e: "drop skip raw = ?e" using R(1) by (simp add: skip_def)
  have y0: "load256 raw skip = Some (take 32 ?e)" using n lr e by (simp add: load256_def)
  have "skip + n - 16 = n - 16 + skip" using n by simp
  then have "drop (skip + n - 16) raw = drop (n - 16) (drop skip raw)" by (simp only: drop_drop)
  then have x0: "subslice raw (skip + n - 16) (skip + n - 16 + 16) = Some (drop (n - 16) ?e)"
    using n lr unfolding e by (simp add: n_def)
  have s0: "put256 w 0 (take 32 ?e) = Some (take 32 ?e @ drop 32 w)"
    using n assms(2) by (subst put256_eq) (simp_all add: n_def)
  have "store128 (take 32 ?e @ drop 32 w) (n - 16) (drop (n - 16) ?e) =
      Some (take (n - 16) (take 32 ?e @ drop 32 w) @ drop (n - 16) ?e @ drop (n - 16 + 16) (take 32 ?e @ drop 32 w))"
    using n assms(2) by (intro store128_eq) (simp_all add: n_def)
  also have "\<dots> = Some (?e @ drop n w)"
  proof -
    have "take (n - 16) (take 32 ?e @ drop 32 w) @ drop (n - 16) ?e @ drop (n - 16 + 16) (take 32 ?e @ drop 32 w) =
        ?e @ drop (length ?e) (take 32 ?e @ drop 32 w)"
      using n assms(2) by (intro store_end [of 32]) (simp_all add: n_def)
    then show ?thesis using n by (simp add: n_def min_absorb2)
  qed
  finally have s1: "store128 (take 32 ?e @ drop 32 w) (n - 16) (drop (n - 16) ?e) = Some (?e @ drop n w)" .
  have ix: "idx src 0 = Some (src ! 0)" "idx raw 1 = Some (raw ! 1)" "isub (skip + n) 16 = Some (skip + n - 16)" "isub n 16 = Some (n - 16)"
    using assms(1) lr n by (simp_all add: isub_def)
  show ?thesis unfolding encode32AppendAVX2_asm_def chain
    by (simp only: ix skip n(1) y0 s0 x0 s1 bind.bind_lunit n_def [symmetric])
qed

section \<open>The encoder for 64 bytes\<close>

text \<open>The loop \<open>encode64_carry\<close>.\<close>

fun encode64_carry :: "nat \<Rightarrow> u64 \<Rightarrow> u64 list \<Rightarrow> u64 list" where
  "encode64_carry 0 r8 im = im[0 := r8]"
| "encode64_carry (Suc i) r8 im =
     (let (dx, r8) = limb_reduce r8; im = im[Suc i := r8] in encode64_carry i (dx + im ! i) im)"

text \<open>
  The product of the first half, reduced at limb 16; that of the second half on limbs 10 to 17; the
  chain of carries.
\<close>

definition encode64_limbs :: "bytes \<Rightarrow> u64 list option" where
  "encode64_limbs src =
     do { im \<leftarrow> encodeMatMul64HeadAVX2_asm src (replicate 18 0);
          r8 \<leftarrow> idx im 16;
          let (dx, r8) = limb_reduce r8;
          im \<leftarrow> upd im 16 r8;
          v \<leftarrow> idx im 15;
          im \<leftarrow> upd im 15 (v + dx);
          half \<leftarrow> subslice src 32 64;
          tail \<leftarrow> encodeMatMul32AVX2_asm half (replicate 9 0);
          y0 \<leftarrow> load256 (mem_of 8 im) 80;
          t \<leftarrow> load256 (mem_of 8 tail) 8;
          im \<leftarrow> store256 im 10 (vpaddq t y0);
          y1 \<leftarrow> load256 (mem_of 8 im) 112;
          t \<leftarrow> load256 (mem_of 8 tail) 40;
          im \<leftarrow> store256 im 14 (vpaddq t y1);
          r8 \<leftarrow> idx im 17;
          Some (encode64_carry 17 r8 im) }"

text \<open>A first byte other than zero: \<open>encode64_common_raw\<close> looks at the characters 2 to 4 only.\<close>

definition encode64DirectAVX2_asm :: "bytes \<Rightarrow> bytes \<Rightarrow> (nat \<times> bytes) option" where
  "encode64DirectAVX2_asm src dst =
     do { im \<leftarrow> encode64_limbs src;
          raw \<leftarrow> digitsToChars16Fast_asm im (replicate 112 0);
          r8 \<leftarrow> idx im 16;
          raw \<leftarrow> RENDER5 r8 80 raw;
          r8 \<leftarrow> idx im 17;
          raw \<leftarrow> RENDER5 r8 85 raw;
          c \<leftarrow> idx src 0;
          skip \<leftarrow> (if c = 0 then isub (leading 49 (take 90 raw)) (leading 0 src)
                  else Some (2 + leading 49 (take 3 (drop 2 raw))));
          n \<leftarrow> isub 90 skip;
          y0 \<leftarrow> load256 raw skip;
          dst \<leftarrow> put256 dst 0 y0;
          y1 \<leftarrow> load256 raw (skip + 32);
          dst \<leftarrow> put256 dst 32 y1;
          a \<leftarrow> isub (skip + n) 32;
          y2 \<leftarrow> load256 raw a;
          b \<leftarrow> isub n 32;
          dst \<leftarrow> put256 dst b y2;
          Some (n, dst) }"

lemma encode64_carry_eq: "encode64_carry i r8 im = carryLoop i r8 im"
  by (induction i arbitrary: r8 im) (simp_all add: limb_reduce_eq carryLoop.simps(2) Let_def add.commute)

lemma length18E:
  assumes "length (l :: 'a list) = 18"
  obtains a0 a1 a2 a3 a4 a5 a6 a7 a8 a9 a10 a11 a12 a13 a14 a15 a16 a17
  where "l = [a0, a1, a2, a3, a4, a5, a6, a7, a8, a9, a10, a11, a12, a13, a14, a15, a16, a17]"
  using assms by (auto simp: length_Suc_conv eval_nat_numeral)

lemma length9E:
  assumes "length (l :: 'a list) = 9"
  obtains a0 a1 a2 a3 a4 a5 a6 a7 a8 where "l = [a0, a1, a2, a3, a4, a5, a6, a7, a8]"
  using assms by (auto simp: length_Suc_conv eval_nat_numeral)

lemma load256_mem: "k + 4 \<le> length ws \<Longrightarrow> load256 (mem_of 8 (ws :: u64 list)) (8 * k) = Some (mem_of 8 (take 4 (drop k ws)))"
  unfolding load256_def by (rule subslice_mem_of) simp_all

text \<open>What the Go function does with the two products.\<close>

lemma add_tail:
  assumes "length (im :: u64 list) = 18" "length (tail :: u64 list) = 9"
  shows "do { y0 \<leftarrow> load256 (mem_of 8 im) 80;
          t \<leftarrow> load256 (mem_of 8 tail) 8;
          im \<leftarrow> store256 im 10 (vpaddq t y0);
          y1 \<leftarrow> load256 (mem_of 8 im) 112;
          t \<leftarrow> load256 (mem_of 8 tail) 40;
          store256 im 14 (vpaddq t y1) } =
    foldM (\<lambda>j im. do { t \<leftarrow> idx tail j; v \<leftarrow> idx im (j + 9); upd im (j + 9) (v + t) }) [1..<9] im"
proof -
  obtain a0 a1 a2 a3 a4 a5 a6 a7 a8 a9 a10 a11 a12 a13 a14 a15 a16 a17
    where a: "im = [a0, a1, a2, a3, a4, a5, a6, a7, a8, a9, a10, a11, a12, a13, a14, a15, a16, a17]" using assms(1) by (rule length18E)
  obtain t0 t1 t2 t3 t4 t5 t6 t7 t8 where t: "tail = [t0, t1, t2, t3, t4, t5, t6, t7, t8]" using assms(2) by (rule length9E)
  have add: "vpaddq (mem_of 8 xs) (mem_of 8 ys) = mem_of 8 (map2 (+) xs ys)" for xs ys :: "u64 list"
    by (simp add: vpaddq_def lanes_mem_of_width)
  have u: "[1..<9] = [1, 2, 3, 4, 5, 6, 7, 8]" by (simp add: upt_rec)
  have k: "80 = 8 * (10 :: nat)" "112 = 8 * (14 :: nat)" "8 = 8 * (1 :: nat)" "40 = 8 * (5 :: nat)" by simp_all
  have l: "load256 (mem_of 8 im) 80 = Some (mem_of 8 [a10, a11, a12, a13])"
    "load256 (mem_of 8 tail) 8 = Some (mem_of 8 [t1, t2, t3, t4])" "load256 (mem_of 8 tail) 40 = Some (mem_of 8 [t5, t6, t7, t8])"
    using load256_mem [of 10 im] load256_mem [of 1 tail] load256_mem [of 5 tail] by (simp_all add: a t)
  have s: "store256 im 10 (mem_of 8 [t1 + a10, t2 + a11, t3 + a12, t4 + a13]) =
      Some [a0, a1, a2, a3, a4, a5, a6, a7, a8, a9, t1 + a10, t2 + a11, t3 + a12, t4 + a13, a14, a15, a16, a17]"
    by (simp add: store256_def on_slice_def a lanes_mem_of_width)
  have l': "load256 (mem_of 8 [a0, a1, a2, a3, a4, a5, a6, a7, a8, a9, t1 + a10, t2 + a11, t3 + a12, t4 + a13, a14, a15, a16, a17]) 112 =
      Some (mem_of 8 [a14, a15, a16, a17])"
    using load256_mem [of 14 "[a0, a1, a2, a3, a4, a5, a6, a7, a8, a9, t1 + a10, t2 + a11, t3 + a12, t4 + a13, a14, a15, a16, a17]"] by simp
  let ?im = "[a0, a1, a2, a3, a4, a5, a6, a7, a8, a9, t1 + a10, t2 + a11, t3 + a12, t4 + a13, a14, a15, a16, a17]"
  have s': "store256 ?im 14 (mem_of 8 [t5 + a14, t6 + a15, t7 + a16, t8 + a17]) =
      Some [a0, a1, a2, a3, a4, a5, a6, a7, a8, a9, t1 + a10, t2 + a11, t3 + a12, t4 + a13, t5 + a14, t6 + a15, t7 + a16, t8 + a17]"
    by (simp add: store256_def on_slice_def lanes_mem_of_width)
  have "foldM (\<lambda>j im. do { t \<leftarrow> idx tail j; v \<leftarrow> idx im (j + 9); upd im (j + 9) (v + t) }) [1, 2, 3, 4, 5, 6, 7, 8] im =
      Some [a0, a1, a2, a3, a4, a5, a6, a7, a8, a9, t1 + a10, t2 + a11, t3 + a12, t4 + a13, t5 + a14, t6 + a15, t7 + a16, t8 + a17]"
    by (simp add: a t add.commute)
  moreover have m: "map2 (+) [w, x, y, z] [w', x', y', z'] = [w + w', x + x', y + y', z + z']" for w x y z w' x' y' z' :: u64 by simp
  ultimately show ?thesis unfolding u by (simp only: l l' add m s s' bind.bind_lunit)
qed

lemma encode64_limbs_eq:
  assumes "length src = 64"
  shows "\<exists>ys. encode64_limbs src = Some ys \<and> length ys = 18 \<and> map unat ys = limbs58 18 src"
proof -
  define im where "im = 0 # map (enc_sum src encTable64 8) [0..<17]"
  define tail where "tail = 0 # map (enc_sum (drop 32 src) encTable32 8) [0..<8]"
  have len: "length im = 18" "length tail = 9" by (simp_all add: im_def tail_def)
  have half: "subslice src 32 64 = Some (drop 32 src)" "length (drop 32 src) = 32" using assms by simp_all
  have t: "encodeMatMul32AVX2_asm (drop 32 src) (replicate 9 0) = Some tail"
    unfolding tail_def by (rule encodeMatMul32AVX2_asm_eq [OF half(2)])
  define im' where "im' = im[15 := im ! 15 + im ! 16 div r1div, 16 := im ! 16 mod r1div]"
  have l': "length im' = 18" by (simp add: im'_def len)
  let ?add = "foldM (\<lambda>j im. do { t \<leftarrow> idx tail j; v \<leftarrow> idx im (j + 9); upd im (j + 9) (v + t) }) [1..<9] im'"
  have "encodeMatMul64_amd64 (asm_matmul True) src (replicate 18 0) = ?add"
    using half encodeMatMul64HeadAVX2_asm_eq [OF assms] t len
    by (simp add: encodeMatMul64_amd64_def encodeMatMul32_amd64_def asm_matmul_def im_def [symmetric] im'_def Let_def)
  then have "?add = encodeMatMul64 src (replicate 18 0)"
    using encodeMatMul64_amd64_eq [OF asm_matmul_documented assms, of True] by simp
  then obtain im2 where im2: "?add = Some im2" "length im2 = 18"
    "map unat (carryLoop 17 (im2 ! 17) im2) = limbs58 18 src"
    using enc64.carried [OF assms] by auto
  define L where "L = do { y0 \<leftarrow> load256 (mem_of 8 im') 80;
          t \<leftarrow> load256 (mem_of 8 tail) 8;
          im \<leftarrow> store256 im' 10 (vpaddq t y0);
          y1 \<leftarrow> load256 (mem_of 8 im) 112;
          t \<leftarrow> load256 (mem_of 8 tail) 40;
          store256 im 14 (vpaddq t y1) }"
  have "L = Some im2" unfolding L_def add_tail [OF l' len(2)] by (rule im2(1))
  moreover have "im[16 := im ! 16 - im ! 16 div r1div * r1div, 15 := im ! 15 + im ! 16 div r1div] = im'"
    by (simp add: im'_def word_sub_div_mult list_update_swap)
  then have "encode64_limbs src = do { im \<leftarrow> L; r8 \<leftarrow> idx im 17; Some (encode64_carry 17 r8 im) }"
    using half t encodeMatMul64HeadAVX2_asm_eq [OF assms] len
    by (simp add: encode64_limbs_def im_def [symmetric] limb_reduce_eq L_def Option.bind_assoc)
  ultimately have "encode64_limbs src = Some (carryLoop 17 (im2 ! 17) im2)" using im2(2) by (simp add: encode64_carry_eq)
  then show ?thesis using im2 by (simp add: enc.length_loop)
qed

lemma leading_take: "leading x (take m xs) = min m (leading x xs)"
proof (induction xs arbitrary: m)
  case (Cons y xs)
  then show ?case by (cases m) simp_all
qed simp

lemma leading_drop: "m \<le> leading x xs \<Longrightarrow> leading x (drop m xs) = leading x xs - m"
proof (induction m arbitrary: xs)
  case (Suc m)
  then show ?case by (cases xs) (simp_all split: if_splits)
qed simp

text \<open>Three overlapping stores.\<close>

lemma three_stores:
  assumes "length e = n" "64 \<le> n" "n \<le> 96" "n \<le> length w"
  shows "put256 w 0 (take 32 e) = Some (take 32 e @ drop 32 w)"
    and "put256 (take 32 e @ drop 32 w) 32 (take 32 (drop 32 e)) = Some (take 64 e @ drop 64 w)"
    and "put256 (take 64 e @ drop 64 w) (n - 32) (drop (n - 32) e) = Some (e @ drop n w)"
proof -
  show "put256 w 0 (take 32 e) = Some (take 32 e @ drop 32 w)"
    using assms by (subst put256_eq) simp_all
  have "take 32 e @ take 32 (drop 32 e) = take 64 e" by (simp flip: take_add)
  then show "put256 (take 32 e @ drop 32 w) 32 (take 32 (drop 32 e)) = Some (take 64 e @ drop 64 w)"
    using assms by (subst put256_eq) (simp_all flip: append_assoc)
  have "put256 (take 64 e @ drop 64 w) (n - 32) (drop (n - 32) e) =
      Some (take (n - 32) (take 64 e @ drop 64 w) @ drop (n - 32) e @ drop (n - 32 + 32) (take 64 e @ drop 64 w))"
    using assms by (intro put256_eq) simp_all
  also have "\<dots> = Some (e @ drop (length e) (take 64 e @ drop 64 w))"
    using assms by (intro arg_cong [where f = Some] store_end [of 64]) simp_all
  finally show "put256 (take 64 e @ drop 64 w) (n - 32) (drop (n - 32) e) = Some (e @ drop n w)"
    using assms by simp
qed

text \<open>What is loaded of the raw characters when \<open>skip\<close> of them are left out.\<close>

lemma raw_loads:
  assumes "length raw = 90" "skip + n = 90" "64 \<le> n" "drop skip raw = e"
  shows "load256 (raw @ rest) skip = Some (take 32 e)" "load256 (raw @ rest) (skip + 32) = Some (take 32 (drop 32 e))"
    and "load256 (raw @ rest) 58 = Some (drop (n - 32) e)"
proof -
  have n: "n = 90 - skip" "skip \<le> 26" using assms(2,3) by simp_all
  show "load256 (raw @ rest) skip = Some (take 32 e)"
    using assms(1) n by (simp add: load256_def flip: assms(4))
  have "drop (skip + 32) raw = drop 32 e" unfolding assms(4) [symmetric] by (simp add: add.commute)
  moreover have "length e = n" using assms(1) n unfolding assms(4) [symmetric] by simp
  ultimately show "load256 (raw @ rest) (skip + 32) = Some (take 32 (drop 32 e))"
    using assms(1,3) n by (simp add: load256_def)
  have "n - 32 + skip = 58" using assms(2,3) by simp
  then have "drop 58 raw = drop (n - 32) e" unfolding assms(4) [symmetric] by (simp only: drop_drop)
  moreover have "load256 (raw @ rest) 58 = Some (drop 58 raw)" using assms(1) by (simp add: load256_def)
  ultimately show "load256 (raw @ rest) 58 = Some (drop (n - 32) e)" by simp
qed

lemma encode64DirectAVX2_asm_eq:
  assumes "length src = 64" "88 \<le> length w"
  shows "encode64DirectAVX2_asm src w = Some (length (b58_encode src), b58_encode src @ drop (length (b58_encode src)) w)"
proof -
  let ?e = "b58_encode src"
  obtain ys where ys: "encode64_limbs src = Some ys" "length ys = 18" "map unat ys = limbs58 18 src"
    using encode64_limbs_eq [OF assms(1)] by blast
  have lt: "\<forall>y \<in> set ys. unat y < 58 ^ 5" using limbs58_less [of 18 src] unfolding ys(3) [symmetric] by simp
  have lt16: "\<forall>y \<in> set (take 16 ys). unat y < 58 ^ 5" using lt set_take_subset [of 16 ys] by blast
  obtain r where r: "digitsToChars16Fast_asm ys (replicate 112 0) = Some r" "take 80 r = chars_of (map unat (take 16 ys))" "length r = 112"
    using digitsToChars_asm_eq [of digitsToChars16Fast_asm 16 ys "replicate 112 0"] lt16 ys(2) by (auto simp del: replicate_numeral)
  define raw where "raw = chars_of (limbs58 18 src)"
  have lr: "length raw = 90" by (simp add: raw_def)
  have last2: "unat (ys ! 16) < 58 ^ 5" "unat (ys ! 17) < 58 ^ 5" using lt nth_mem [of 16 ys] nth_mem [of 17 ys] ys(2) by auto
  have d: "drop 16 ys = [ys ! 16, ys ! 17]" using ys(2) by (simp add: Cons_nth_drop_Suc [symmetric])
  have "raw = chars_of (map unat (take 16 ys)) @ chars_of (map unat (drop 16 ys))"
    unfolding raw_def ys(3) [symmetric] by (simp flip: chars_of_append map_append)
  then have raw: "raw = take 80 r @ chars5 (unat (ys ! 16)) @ chars5 (unat (ys ! 17))"
    unfolding d r(2) by (simp add: chars_of_Cons)
  let ?r1 = "take 80 r @ chars5 (unat (ys ! 16)) @ drop 85 r"
  have R1: "RENDER5 (ys ! 16) 80 r = Some ?r1" using last2 r(3) by (subst RENDER5_eq) simp_all
  have R2: "RENDER5 (ys ! 17) 85 ?r1 = Some (raw @ drop 90 r)" using last2 r(3) raw by (subst RENDER5_eq) simp_all
  have le: "length ?e \<le> 88" "64 \<le> length ?e" using b58_encode_length64 [OF assms(1)] length_src_le [of src] assms(1) by simp_all
  have cap: "256 ^ 64 \<le> (58 ^ 5 :: nat) ^ 18" "length ?e \<le> 5 * 18" using le by simp_all
  note R = raw_text [OF assms(1) cap, folded raw_def]
  define skip where "skip = 90 - length ?e"
  define n where "n = length ?e"
  have n: "isub 90 skip = Some n" "skip + n = 90" "64 \<le> n" "n \<le> 88" using le by (simp_all add: skip_def n_def)
  have skip: "(if src ! 0 = 0 then isub (leading 49 (take 90 (raw @ drop 90 r))) (leading 0 src)
                  else Some (2 + leading 49 (take 3 (drop 2 (raw @ drop 90 r))))) = Some skip"
  proof (cases "hd src = 0")
    case True
    then show ?thesis using R(2) assms(1) lr by (cases src) (simp_all add: skip_def)
  next
    case False
    have ne: "src \<noteq> []" using assms(1) by auto
    have "86 < length ?e" using assms(1) False ne by (rule leading_few) simp
    then have l: "leading 49 raw = skip" "2 \<le> skip" "skip \<le> 3" using R(3) [OF False ne] le(1) by (simp_all add: skip_def)
    have "take 3 (drop 2 (raw @ drop 90 r)) = take 3 (drop 2 raw)" using lr by simp
    then have "leading 49 (take 3 (drop 2 (raw @ drop 90 r))) = min 3 (skip - 2)"
      using l by (simp only: leading_take leading_drop)
    moreover have "src ! 0 \<noteq> 0" using False ne by (simp add: hd_conv_nth)
    ultimately show ?thesis using l by auto
  qed
  have e: "drop skip raw = ?e" using R(1) by (simp add: skip_def)
  note loads = raw_loads [OF lr n(2,3) e]
  have nw: "n \<le> length w" "n \<le> 96" using n(4) assms(2) by simp_all
  note st = three_stores [OF n_def [symmetric] n(3) nw(2,1)]
  have ix: "idx ys 16 = Some (ys ! 16)" "idx ys 17 = Some (ys ! 17)" "idx src 0 = Some (src ! 0)" "isub (skip + n) 32 = Some 58" "isub n 32 = Some (n - 32)"
    using ys(2) assms(1) n by (simp_all add: isub_def)
  show ?thesis unfolding encode64DirectAVX2_asm_def
    by (simp only: ys(1) r(1) ix R1 R2 skip n(1) loads st bind.bind_lunit n_def [symmetric])
qed

end
