(* ===== verification/Asm_Full.thy ===== *)
theory Asm_Full
  imports Asm_Encode
begin

unbundle bit_operations_syntax

text \<open>
  What the three full encoders for 64 bytes (\<open>encode_full_amd64.s\<close>, \<open>encode_full_append_amd64.s\<close>,
  \<open>encode_full_owned_amd64.s\<close>) share of the arithmetic: one product with the whole table, in which one
  limb needs two registers, and two chains of carries that are joined afterwards.
\<close>

definition encFullBswap :: bytes where
  "encFullBswap = the (fusedRep [3, 2, 1, 0, 7, 6, 5, 4, 11, 10, 9, 8, 15, 14, 13, 12])"

section \<open>The product\<close>

text \<open>
  Limb 16 can overflow: from row 8 on, \<open>Y7\<close> takes the products of the fourth block in place of \<open>Y5\<close>.
  The result is \<open>Y5\<close> and \<open>Y2, Y3, Y4, Y7, Y6\<close>.
\<close>

definition fullProduct :: "bytes \<Rightarrow> (bytes \<times> bytes list) option" where
  "fullProduct bin =
     do { y \<leftarrow> foldM (\<lambda>i acc.
            do { y8 \<leftarrow> vpbroadcastd bin (4 * i);
                 foldM (\<lambda>c. macBlock (mem_of 8 (concat (encFullTable64 True))) y8 (5 * i + c) (c + 0))
                   [if i < 4 then 0 else if i < 7 then 1 else 2..<5] acc })
            [0..<8] (replicate 5 (replicate 32 0));
          y5 \<leftarrow> idx y 3;
          z \<leftarrow> foldM (\<lambda>i acc.
            do { y8 \<leftarrow> vpbroadcastd bin (4 * i);
                 foldM (\<lambda>c. macBlock (mem_of 8 (concat (encFullTable64 True))) y8 (5 * i + c) (c + 0))
                   [if i < 11 then 2 else if i < 15 then 3 else 4..<5] acc })
            [8..<16] (y[3 := replicate 32 0]);
          Some (y5, z) }"

section \<open>The carries\<close>

text \<open>\<open>REDUCE\<close> and \<open>STEP\<close>, which reduces after adding the carry; a chain of steps, from the last word on.\<close>

definition fullReduce :: "u64 \<Rightarrow> u64 \<times> u64" where
  "fullReduce bx = (let dx = drop_bit 29 (mulhi bx 0xD1658F5A3402D56A) in (dx, bx - dx * 656356768))"

definition fullChain :: "u64 list \<Rightarrow> u64 \<Rightarrow> u64 \<times> u64 list" where
  "fullChain xs dx = foldr (\<lambda>v (dx, ls). let (dx, bx) = fullReduce (v + dx) in (dx, bx # ls)) xs (dx, [])"

text \<open>The loop \<open>ripple64\<close>.\<close>

definition fullRipple :: "u64 list \<Rightarrow> u64 \<Rightarrow> u64 \<times> u64 list" where
  "fullRipple xs dx =
     foldr (\<lambda>v (dx, ls). let bx = v + dx in if bx < 656356768 then (0, bx # ls) else (1, (bx - 656356768) # ls)) xs (dx, [])"

text \<open>
  The limbs 17 to 9 and 8 to 0 in chains of their own; the carry out of limb 9 then goes into the
  limbs 8 and 7, and what is left of it, almost always nothing, ripples to the front.
\<close>

definition fullLimbs :: "bytes \<Rightarrow> bytes list \<Rightarrow> u64 list" where
  "fullLimbs y5 z =
     (let im = 0 # concat (map (lanes 8) [z ! 0, z ! 1, z ! 2, vpaddq (z ! 3) y5, z ! 4]);
          (dx, im17) = fullReduce (im ! 17);
          (cx, bx) = fullReduce (lanes 8 y5 ! 3 + dx);
          (dx, im16) = fullReduce (bx + lanes 8 (z ! 3) ! 3);
          (r11, hi) = fullChain (take 7 (drop 9 im)) (cx + dx);
          (im0, lo) = fullChain (take 8 (drop 1 im)) 0;
          (dx, im8) = fullReduce (lo ! 7 + r11);
          (dx, im7) = fullReduce (lo ! 6 + dx);
          front = im0 # take 6 lo;
          front = (if dx = 0 then front else snd (fullRipple front dx))
      in front @ [im7, im8] @ hi @ [im16, im17])"

section \<open>The chains of carries\<close>

lemma fullReduce_eq: "fullReduce v = (v div r1div, v - v div r1div * r1div)"
proof -
  have "drop_bit 29 (mulhi v 0xD1658F5A3402D56A) = v div r1div" by (rule mulhi_div [where e = 365581376]) simp_all
  then show ?thesis by (simp only: fullReduce_def Let_def r1div_eq)
qed

lemma fullReduce_nat:
  assumes "fullReduce v = (q, r)"
  shows "unat q = unat v div 58 ^ 5" "unat r = unat v mod 58 ^ 5" "unat v = unat q * 58 ^ 5 + unat r" "unat r < 58 ^ 5" "unat q < 2 ^ 35"
proof -
  show q: "unat q = unat v div 58 ^ 5" and r: "unat r = unat v mod 58 ^ 5"
    using assms by (auto simp: fullReduce_eq unat_div unat_r1div unat_sub_div_mult)
  show "unat v = unat q * 58 ^ 5 + unat r" unfolding q r by (rule div_mult_mod_eq [symmetric])
  show "unat r < 58 ^ 5" unfolding r by simp
  have "unat v div 58 ^ 5 \<le> (2 ^ 64 - 1) div 58 ^ 5" using unat_lt_pow [of v] by (intro div_le_mono) simp
  then show "unat q < 2 ^ 35" unfolding q by simp
qed

lemma fullChain_value:
  assumes "\<forall>v \<in> set xs. unat v \<le> 2 ^ 64 - 2 ^ 36" "unat dx < 2 ^ 36" "fullChain xs dx = (q, ls)"
  shows "length ls = length xs \<and> (\<forall>l \<in> set ls. unat l < 58 ^ 5) \<and> unat q < 2 ^ 36 \<and>
    unat q * (58 ^ 5) ^ length xs + bval (58 ^ 5) (map unat ls) = bval (58 ^ 5) (map unat xs) + unat dx"
  using assms
proof (induction xs arbitrary: q ls)
  case Nil
  then show ?case by (simp add: fullChain_def)
next
  case (Cons v xs)
  obtain q' ls' where A: "fullChain xs dx = (q', ls')" by fastforce
  obtain r where r: "fullReduce (v + q') = (q, r)" "ls = r # ls'"
    using Cons.prems(3) A by (auto simp: fullChain_def split: prod.splits)
  have IH: "length ls' = length xs" "\<forall>l \<in> set ls'. unat l < 58 ^ 5" "unat q' < 2 ^ 36"
    "unat q' * (58 ^ 5) ^ length xs + bval (58 ^ 5) (map unat ls') = bval (58 ^ 5) (map unat xs) + unat dx"
    using Cons.IH [OF _ Cons.prems(2) A] Cons.prems(1) by simp_all
  have "unat v \<le> 2 ^ 64 - 2 ^ 36" using Cons.prems(1) by simp
  then have "unat (v + q') = unat v + unat q'" using IH(3) by (intro unat_add_nowrap) simp
  then have e: "unat v + unat q' = unat q * 58 ^ 5 + unat r" using fullReduce_nat(3) [OF r(1)] by simp
  have "unat q * (58 ^ 5) ^ length (v # xs) + bval (58 ^ 5) (map unat ls) =
      (unat q * 58 ^ 5 + unat r) * (58 ^ 5) ^ length xs + bval (58 ^ 5) (map unat ls')"
    by (simp add: r(2) bval_Cons IH(1) algebra_simps del: power_numeral)
  also have "\<dots> = bval (58 ^ 5) (map unat (v # xs)) + unat dx"
    unfolding e [symmetric] using IH(4) by (simp add: bval_Cons algebra_simps del: power_numeral)
  finally show ?case using IH fullReduce_nat(4,5) [OF r(1)] r(2) by simp
qed

lemma fullRipple_value:
  assumes "\<forall>v \<in> set xs. unat v < 58 ^ 5" "unat dx \<le> 1" "fullRipple xs dx = (q, ls)"
  shows "length ls = length xs \<and> (\<forall>l \<in> set ls. unat l < 58 ^ 5) \<and> unat q \<le> 1 \<and>
    unat q * (58 ^ 5) ^ length xs + bval (58 ^ 5) (map unat ls) = bval (58 ^ 5) (map unat xs) + unat dx"
  using assms
proof (induction xs arbitrary: q ls)
  case Nil
  then show ?case by (simp add: fullRipple_def)
next
  case (Cons v xs)
  obtain q' ls' where A: "fullRipple xs dx = (q', ls')" by fastforce
  have IH: "length ls' = length xs" "\<forall>l \<in> set ls'. unat l < 58 ^ 5" "unat q' \<le> 1"
    "unat q' * (58 ^ 5) ^ length xs + bval (58 ^ 5) (map unat ls') = bval (58 ^ 5) (map unat xs) + unat dx"
    using Cons.IH [OF _ Cons.prems(2) A] Cons.prems(1) by simp_all
  have "unat v < 58 ^ 5" using Cons.prems(1) by simp
  then have s: "unat (v + q') = unat v + unat q'" using IH(3) by (intro unat_add_nowrap) simp
  obtain r where r: "ls = r # ls'" "unat v + unat q' = unat q * 58 ^ 5 + unat r" "unat r < 58 ^ 5" "unat q \<le> 1"
  proof (cases "v + q' < 656356768")
    case True
    then have "q = 0" "ls = (v + q') # ls'" using Cons.prems(3) A by (auto simp: fullRipple_def Let_def)
    then show thesis using that True s by (simp add: word_less_nat_alt)
  next
    case False
    then have q: "q = 1" "ls = (v + q' - 656356768) # ls'" using Cons.prems(3) A by (auto simp: fullRipple_def Let_def)
    have "unat (v + q' - 656356768) = unat (v + q') - 656356768"
      using False by (subst unat_sub) (simp_all add: not_less)
    then show thesis using that q False s \<open>unat v < 58 ^ 5\<close> IH(3) by (simp add: word_less_nat_alt)
  qed
  have "unat q * (58 ^ 5) ^ length (v # xs) + bval (58 ^ 5) (map unat ls) =
      (unat q * 58 ^ 5 + unat r) * (58 ^ 5) ^ length xs + bval (58 ^ 5) (map unat ls')"
    by (simp add: r(1) bval_Cons IH(1) algebra_simps del: power_numeral)
  also have "\<dots> = bval (58 ^ 5) (map unat (v # xs)) + unat dx"
    unfolding r(2) [symmetric] using IH(4) by (simp add: bval_Cons algebra_simps del: power_numeral)
  finally show ?case using IH r by simp
qed

text \<open>Joining the chains keeps the value; \<open>F\<close> and \<open>F'\<close> are the front before and after the ripple.\<close>

lemma joined_chains:
  fixes b :: nat
  assumes "w17 = d17 * b + l17" "w16 + d17 = cx * b + l16" "H + cx = r11 * b ^ 7 + H'"
    "l8' + r11 = d8 * b + l8" "l7' + d8 = d7 * b + l7" "F + d7 = c * b ^ 7 + F'"
  shows "((F * b ^ 2 + l7' * b + l8') * b ^ 7 + H) * b ^ 2 + w16 * b + w17 =
    c * b ^ 18 + (((F' * b ^ 2 + l7 * b + l8) * b ^ 7 + H') * b ^ 2 + l16 * b + l17)"
proof -
  have "F * b ^ 2 + l7' * b + l8' + r11 = (F + d7) * b ^ 2 + l7 * b + l8"
  proof -
    have "F * b ^ 2 + l7' * b + l8' + r11 = F * b ^ 2 + (l7' + d8) * b + l8" using assms(4) by (simp add: algebra_simps)
    also have "\<dots> = (F + d7) * b ^ 2 + l7 * b + l8" unfolding assms(5) by (simp add: algebra_simps power2_eq_square)
    finally show ?thesis .
  qed
  then have front: "F * b ^ 2 + l7' * b + l8' + r11 = c * b ^ 9 + (F' * b ^ 2 + l7 * b + l8)"
    unfolding assms(6) by (simp add: algebra_simps flip: power_add)
  let ?G = "F * b ^ 2 + l7' * b + l8'"
  have "(?G * b ^ 7 + H) * b ^ 2 + w16 * b + w17 = (?G * b ^ 7 + H) * b ^ 2 + (w16 + d17) * b + l17"
    unfolding assms(1) by (simp add: algebra_simps)
  also have "\<dots> = (?G * b ^ 7 + (H + cx)) * b ^ 2 + l16 * b + l17"
    unfolding assms(2) by (simp add: algebra_simps power2_eq_square)
  also have "\<dots> = ((?G + r11) * b ^ 7 + H') * b ^ 2 + l16 * b + l17"
    unfolding assms(3) by (simp add: algebra_simps)
  also have "\<dots> = c * b ^ 18 + (((F' * b ^ 2 + l7 * b + l8) * b ^ 7 + H') * b ^ 2 + l16 * b + l17)"
    unfolding front by (simp add: algebra_simps flip: power_add)
  finally show ?thesis .
qed

lemma fullLimbs_fixed:
  assumes "length im = 21" "im = 0 # concat (map (lanes 8) [z ! 0, z ! 1, z ! 2, vpaddq (z ! 3) y5, z ! 4])"
    "\<forall>k \<in> {1..15} \<union> {17}. unat (im ! k :: u64) \<le> 2 ^ 64 - 2 ^ 36"
    "unat (lanes 8 y5 ! 3 :: u64) \<le> 2 ^ 64 - 2 ^ 36" "unat (lanes 8 (z ! 3) ! 3 :: u64) \<le> 2 ^ 64 - 2 ^ 36"
    "V = (bval (58 ^ 5) (map unat (take 8 (drop 1 im))) * (58 ^ 5) ^ 7 + bval (58 ^ 5) (map unat (take 7 (drop 9 im)))) * (58 ^ 5) ^ 2
      + (unat (lanes 8 y5 ! 3 :: u64) + unat (lanes 8 (z ! 3) ! 3 :: u64)) * 58 ^ 5 + unat (im ! 17)"
    "V < (58 ^ 5) ^ 18"
  shows "map unat (fullLimbs y5 z) = fixed (58 ^ 5) 18 V"
proof -
  define P :: nat where "P = 58 ^ 5"
  define a :: u64 where "a = lanes 8 y5 ! 3"
  define b :: u64 where "b = lanes 8 (z ! 3) ! 3"
  obtain dx17 im17 where r17: "fullReduce (im ! 17) = (dx17, im17)" by fastforce
  obtain q bx where ra: "fullReduce (a + dx17) = (q, bx)" by fastforce
  obtain d16 im16 where rb: "fullReduce (bx + b) = (d16, im16)" by fastforce
  obtain r11 hi where ch: "fullChain (take 7 (drop 9 im)) (q + d16) = (r11, hi)" by fastforce
  obtain im0 lo where cl: "fullChain (take 8 (drop 1 im)) 0 = (im0, lo)" by fastforce
  obtain d8 im8 where r8: "fullReduce (lo ! 7 + r11) = (d8, im8)" by fastforce
  obtain d7 im7 where r7: "fullReduce (lo ! 6 + d8) = (d7, im7)" by fastforce
  define front where "front = im0 # take 6 lo"
  define front' where "front' = (if d7 = 0 then front else snd (fullRipple front d7))"
  have L: "fullLimbs y5 z = front' @ [im7, im8] @ hi @ [im16, im17]"
    unfolding fullLimbs_def Let_def assms(2) [symmetric] a_def [symmetric] b_def [symmetric] r17 prod.case ra rb ch cl r8 r7
      front_def [symmetric] front'_def [symmetric] ..
  have B: "58 ^ 5 = P" by (simp add: P_def)
  have small: "P < 2 ^ 36" "0 < P" by (simp_all add: P_def)
  note n17 = fullReduce_nat [OF r17, unfolded B]
  note na = fullReduce_nat [OF ra, unfolded B]
  note nb = fullReduce_nat [OF rb, unfolded B]
  note n8 = fullReduce_nat [OF r8, unfolded B]
  note n7 = fullReduce_nat [OF r7, unfolded B]
  have 16: "unat a + unat b + unat dx17 = unat (q + d16) * P + unat im16"
  proof -
    have "unat (a + dx17) = unat a + unat dx17" using assms(4) n17(5) unfolding a_def by (intro unat_add_nowrap) simp
    moreover have "unat (bx + b) = unat bx + unat b" using assms(5) na(4) small unfolding b_def by (intro unat_add_nowrap) simp
    moreover have "unat (q + d16) = unat q + unat d16" using na(5) nb(5) by (intro unat_add_nowrap) simp
    ultimately show ?thesis using na(3) nb(3) by (simp add: algebra_simps)
  qed
  have q: "unat (q + d16) < 2 ^ 36" using na(5) nb(5) by (subst unat_add_nowrap) simp_all
  have room: "\<forall>v \<in> set (take n (drop m im)). unat v \<le> 2 ^ 64 - 2 ^ 36" if "1 \<le> m" "m + n \<le> 16" for m n
    using assms(1,3) that by (auto simp: in_set_conv_nth)
  have hi: "length hi = 7" "\<forall>l \<in> set hi. unat l < P" "unat r11 < 2 ^ 36"
    "bval P (map unat (take 7 (drop 9 im))) + unat (q + d16) = unat r11 * P ^ 7 + bval P (map unat hi)"
    using fullChain_value [OF room [of 9 7] q ch, unfolded B] assms(1) by simp_all
  have lo: "length lo = 8" "\<forall>l \<in> set lo. unat l < P"
    "unat im0 * P ^ 8 + bval P (map unat lo) = bval P (map unat (take 8 (drop 1 im)))"
    using fullChain_value [OF room [of 1 8] _ cl, unfolded B] assms(1) by simp_all
  have "lo = take 6 lo @ [lo ! 6, lo ! 7]"
    using lo(1) append_take_drop_id [of 6 lo] by (simp add: Cons_nth_drop_Suc [symmetric])
  then have "map unat lo = map unat (take 6 lo) @ [unat (lo ! 6), unat (lo ! 7)]" by (metis list.simps(8,9) map_append)
  then have "bval P (map unat lo) = bval P (map unat (take 6 lo)) * P ^ 2 + unat (lo ! 6) * P + unat (lo ! 7)"
    by (simp add: bval_append bval_Cons power2_eq_square)
  moreover have "bval P (map unat front) = unat im0 * P ^ 6 + bval P (map unat (take 6 lo))"
    using lo(1) by (simp add: front_def bval_Cons)
  moreover have "unat im0 * P ^ 8 = unat im0 * P ^ 6 * P ^ 2" by (simp flip: power_add)
  ultimately have F: "bval P (map unat (take 8 (drop 1 im))) = bval P (map unat front) * P ^ 2 + unat (lo ! 6) * P + unat (lo ! 7)"
    using lo(3) by (simp add: algebra_simps)
  have lt: "unat (lo ! 6) < P" "unat (lo ! 7) < P" "\<forall>l \<in> set (take 6 lo). unat l < P"
    using lo(1,2) by (auto dest: in_set_takeD)
  have s8: "unat (lo ! 7) + unat r11 = unat d8 * P + unat im8"
    using n8(3) lt(2) small hi(3) by (subst (asm) unat_add_nowrap) simp_all
  have s7: "unat (lo ! 6) + unat d8 = unat d7 * P + unat im7"
    using n7(3) lt(1) small n8(5) by (subst (asm) unat_add_nowrap) simp_all
  have d7: "unat d7 \<le> 1"
  proof -
    have "unat d8 * P < 2 ^ 37" using s8 lt(2) small(1) hi(3) by simp
    then have "unat d8 < 2 ^ 37 div P + 1" using small
      by (metis Suc_eq_plus1 le_imp_less_Suc less_eq_div_iff_mult_less_eq less_imp_le)
    then have "unat d8 \<le> P" by (simp add: P_def)
    then have "unat d7 * P < 2 * P" using s7 lt(1) by linarith
    then show ?thesis using small by simp
  qed
  have V: "V = ((bval P (map unat front) * P ^ 2 + unat (lo ! 6) * P + unat (lo ! 7)) * P ^ 7 + bval P (map unat (take 7 (drop 9 im)))) * P ^ 2
      + (unat a + unat b) * P + unat (im ! 17)"
    using assms(6) unfolding B F a_def b_def .
  have "unat im0 < P"
  proof -
    have "unat im0 * P ^ 17 = unat im0 * P ^ 6 * P ^ 2 * P ^ 7 * P ^ 2" by (simp flip: power_add)
    also have "\<dots> \<le> bval P (map unat front) * P ^ 2 * P ^ 7 * P ^ 2"
      using lo(1) by (intro mult_le_mono1) (simp add: front_def bval_Cons)
    also have "\<dots> \<le> V" unfolding V by (simp add: algebra_simps)
    also have "V < P * P ^ 17" using assms(7) unfolding B by (simp flip: power_Suc)
    finally show ?thesis by (simp add: mult.commute)
  qed
  then have front: "\<forall>l \<in> set front. unat l < P" "length front = 7" using lt(3) lo(1) by (auto simp: front_def)
  obtain c where front': "length front' = 7" "\<forall>l \<in> set front'. unat l < P"
    "bval P (map unat front) + unat d7 = c * P ^ 7 + bval P (map unat front')"
  proof (cases "d7 = 0")
    case True
    then show thesis using that [of 0] front by (simp add: front'_def)
  next
    case False
    obtain q' ls where r: "fullRipple front d7 = (q', ls)" by fastforce
    show thesis
      using that [of "unat q'"] False r fullRipple_value [OF _ d7 r, unfolded B] front by (simp add: front'_def)
  qed
  let ?ls = "fullLimbs y5 z"
  have len: "length ?ls = 18" unfolding L using front'(1) hi(1) by simp
  have lim: "\<forall>l \<in> set ?ls. unat l < P" unfolding L using front'(2) hi(2) n8(4) n7(4) nb(4) n17(4) by auto
  have "bval P (map unat ?ls) =
      ((bval P (map unat front') * P ^ 2 + unat im7 * P + unat im8) * P ^ 7 + bval P (map unat hi)) * P ^ 2 + unat im16 * P + unat im17"
  proof -
    have two: "bval P [x, y] = x * P + y" for x y by (simp add: bval_Cons)
    have "map unat ?ls = ((map unat front' @ [unat im7, unat im8]) @ map unat hi) @ [unat im16, unat im17]" unfolding L by simp
    then show ?thesis by (simp only: bval_append two length_map hi(1) list.size add.assoc) (simp add: power2_eq_square)
  qed
  then have "V = c * P ^ 18 + bval P (map unat ?ls)"
    using joined_chains [OF n17(3) 16 hi(4) s8 s7 front'(3)] unfolding V by simp
  moreover from this have "c * P ^ 18 < 1 * P ^ 18" using assms(7) unfolding B by linarith
  then have "c = 0" by simp
  ultimately have "bval P (map unat ?ls) = V" by simp
  then show ?thesis
    using fixed_bval [of "map unat ?ls" P] lim len small unfolding B by simp
qed

section \<open>The product\<close>

context row_unit
begin

lemma rows_on:
  assumes "\<And>i. i \<in> set js \<Longrightarrow> \<exists>m. load i = Some m \<and> valid m \<and> factor m = b i"
    "\<And>i. i \<in> set js \<Longrightarrow> i < length rows \<and> lo i \<le> hi i \<and> hi i \<le> blocks \<and> hi i + off \<le> length acc" "regs acc"
  shows "\<exists>acc'. foldM (\<lambda>i acc. do { m \<leftarrow> load i; foldM (\<lambda>c. unit m (blocks * i + c) (c + off)) [lo i..<hi i] acc }) js acc = Some acc' \<and>
    regs acc' \<and> length acc' = length acc \<and>
    flat acc' = fold (\<lambda>i. macRow (b i) (rows ! i) (width * lo i) (width * hi i) (width * off)) js (flat acc)"
  using assms
proof (induction js arbitrary: acc)
  case (Cons i js)
  obtain m where m: "load i = Some m" "valid m" "factor m = b i" using Cons.prems(1) [of i] by auto
  have i: "i < length rows" "lo i \<le> hi i" "hi i \<le> blocks" "hi i + off \<le> length acc" using Cons.prems(2) [of i] by simp_all
  obtain acc' where A: "foldM (\<lambda>c. unit m (blocks * i + c) (c + off)) [lo i..<hi i] acc = Some acc'" "regs acc'" "length acc' = length acc"
    "flat acc' = macRow (factor m) (rows ! i) (width * lo i) (width * hi i) (width * off) (flat acc)"
    using row [OF m(2) i(1,3) Cons.prems(3) i(4,2)] by blast
  show ?case using Cons.IH [of acc'] Cons.prems A m by simp
qed simp

end

abbreviation full_rows :: "u32 list list" where
  "full_rows \<equiv> map (\<lambda>row. row @ replicate 3 0) (take 16 encTable64)"

lemma encFullTable64_wide: "encFullTable64 True = wide full_rows"
  unfolding encFullTable64_def using table_shapes by (subst widen_wide) (simp_all add: list_all_iff)

interpretation blocks_full: row_unit "macBlock (mem_of 8 (concat (encFullTable64 True)))" "\<lambda>y. ucast (low32 y)" filled32
  flatten "\<lambda>acc. \<forall>y \<in> set acc. length y = 32" 4 5 full_rows
  unfolding encFullTable64_wide using table_shapes by (intro vector_unit) (auto simp: list_all_iff dest: in_set_takeD)

text \<open>The words of the input, swapped in the registers.\<close>

lemma full_swap:
  assumes "length y = 32" "i < 8"
  shows "take 4 (drop (4 * i) (vpshufb encFullBswap y)) = rev (take 4 (drop (4 * i) y))"
proof -
  have "length (take 16 y) = 16" "length (drop 16 y) = 16" using assms(1) by simp_all
  then obtain a0 a1 a2 a3 a4 a5 a6 a7 a8 a9 a10 a11 a12 a13 a14 a15 b0 b1 b2 b3 b4 b5 b6 b7 b8 b9 b10 b11 b12 b13 b14 b15
    where "take 16 y = [a0, a1, a2, a3, a4, a5, a6, a7, a8, a9, a10, a11, a12, a13, a14, a15]"
      "drop 16 y = [b0, b1, b2, b3, b4, b5, b6, b7, b8, b9, b10, b11, b12, b13, b14, b15]" by (elim length16E) (rule that)
  then have y: "y = [a0, a1, a2, a3, a4, a5, a6, a7, a8, a9, a10, a11, a12, a13, a14, a15, b0, b1, b2, b3, b4, b5, b6, b7, b8, b9, b10, b11, b12, b13, b14, b15]"
    by (metis append_take_drop_id append.simps)
  have s: "encFullBswap = [3, 2, 1, 0, 7, 6, 5, 4, 11, 10, 9, 8, 15, 14, 13, 12] @ [3, 2, 1, 0, 7, 6, 5, 4, 11, 10, 9, 8, 15, 14, 13, 12]"
    by (simp add: encFullBswap_def upt32 fusedRep_eq [where n = 16])
  have v: "vpshufb encFullBswap y = [a3, a2, a1, a0, a7, a6, a5, a4, a11, a10, a9, a8, a15, a14, a13, a12, b3, b2, b1, b0, b7, b6, b5, b4, b11, b10, b9, b8, b15, b14, b13, b12]"
    by (simp add: s y vpshufb_def pshufb_def)
  have "i = 0 \<or> i = 1 \<or> i = 2 \<or> i = 3 \<or> i = 4 \<or> i = 5 \<or> i = 6 \<or> i = 7" using assms(2) by presburger
  then show ?thesis unfolding v unfolding y by (elim disjE) simp_all
qed

lemma full_register:
  assumes "length y0 = 32" "length y1 = 32" "i < 16" "src = y0 @ y1"
  shows "\<exists>m. vpbroadcastd (vpshufb encFullBswap y0 @ vpshufb encFullBswap y1) (4 * i) = Some m \<and> filled32 m \<and>
    ucast (low32 m) = (ucast (be_words 16 src ! i) :: u64)"
proof -
  let ?bin = "vpshufb encFullBswap y0 @ vpshufb encFullBswap y1"
  have l: "length encFullBswap = 32" by (simp add: encFullBswap_def fusedRep_eq [where n = 16])
  then have lb: "length (vpshufb encFullBswap y) = 32" if "length y = 32" for y using that by (simp add: vpshufb_def pshufb_def)
  have w: "take 4 (drop (4 * i) ?bin) = rev (take 4 (drop (4 * i) src))"
  proof (cases "i < 8")
    case True
    then show ?thesis using full_swap [OF assms(1) True] lb assms(1) unfolding assms(4) by simp
  next
    case False
    then obtain j where j: "i = 8 + j" by (metis le_Suc_ex not_less)
    then have "j < 8" using assms(3) by simp
    then show ?thesis using full_swap [OF assms(2), of j] lb assms(1,2) unfolding assms(4) j by simp
  qed
  have len: "length (rev (take 4 (drop (4 * i) src))) = 4" using assms by simp
  have "vpbroadcastd ?bin (4 * i) = Some (concat (replicate 8 (rev (take 4 (drop (4 * i) src)))))"
    using lb assms(1-3) by (subst vpbroadcastd_eq) (simp_all add: w del: take_append drop_append)
  moreover note filled32_broadcast [OF len]
  moreover have "le_word (rev (take 4 (drop (4 * i) src))) = (be_words 16 src ! i)"
    using assms(3) by (simp add: be_words_nth le_word_def be_word_def)
  ultimately show ?thesis by simp
qed

text \<open>What rows \<open>js\<close> add to column \<open>c\<close>.\<close>

definition full_col :: "bytes \<Rightarrow> nat list \<Rightarrow> nat \<Rightarrow> u64" where
  "full_col src js c = sum_list (map (\<lambda>i. ucast (be_words 16 src ! i) * ucast (full_rows ! i ! c)) js)"

lemma full_rows_nth: "i < 16 \<Longrightarrow> full_rows ! i = encTable64 ! i @ replicate 3 0"
  using table_shapes by simp

lemma full_blocks:
  "i < 8 \<Longrightarrow> covers (4 * (if i < 4 then 0 else if i < 7 then 1 else 2)) (4 * 5) (full_rows ! i)"
  "8 \<le> i \<Longrightarrow> i < 16 \<Longrightarrow> covers (4 * (if i < 11 then 2 else if i < 15 then 3 else 4)) (4 * 5) (full_rows ! i)"
proof -
  have pad: "covers lo (4 * 5) (full_rows ! i)" if "covers lo 17 (encTable64 ! i)" "i < 16" for lo i
    using that encTable64_nth [of i] unfolding full_rows_nth [OF that(2)] covers_def by (auto simp: nth_append)
  show "i < 8 \<Longrightarrow> covers (4 * (if i < 4 then 0 else if i < 7 then 1 else 2)) (4 * 5) (full_rows ! i)"
  proof (rule pad)
    assume i: "i < 8"
    have "\<forall>i \<in> set [0..<8]. 4 * (if i < 4 then 0 else if i < 7 then 1 else 2) \<le> [0, 1, 2, 3, 4, 6, 7, 8 :: nat] ! i" by (simp add: upt_rec)
    from bspec [OF this, of i] i have "4 * (if i < 4 then 0 else if i < 7 then 1 else 2) \<le> [0, 1, 2, 3, 4, 6, 7, 8 :: nat] ! i"
      by (simp only: set_upt atLeastLessThan_iff le0 simp_thms)
    then show "covers (4 * (if i < 4 then 0 else if i < 7 then 1 else 2)) 17 (encTable64 ! i)"
      using covers_wider [OF triangles(3) [OF i], of _ 17] encTable64_nth [of i] i by simp
  qed simp
  show "8 \<le> i \<Longrightarrow> i < 16 \<Longrightarrow> covers (4 * (if i < 11 then 2 else if i < 15 then 3 else 4)) (4 * 5) (full_rows ! i)"
  proof (rule pad)
    assume i: "8 \<le> i" "i < 16"
    then obtain k where k: "i = k + 8" "k < 8" using le_Suc_ex [OF i(1)] by auto
    have a: "4 * (if i < 11 then 2 else if i < 15 then 3 else 4) \<le> 9 + k" using k by auto
    have "covers k 8 (encTable32 ! k)" "length (encTable32 ! k) = 8" using triangles(1) k(2) encTable32_nth by auto
    then have c: "covers (9 + k) 17 (encTable64 ! i)"
      unfolding k(1) encTable64_low [OF k(2)] covers_def by (auto simp: nth_append)
    have "17 \<le> length (encTable64 ! i)" using encTable64_nth [OF i(2)] by simp
    then show "covers (4 * (if i < 11 then 2 else if i < 15 then 3 else 4)) 17 (encTable64 ! i)"
      by (rule covers_wider [OF c a order_refl])
  qed
qed

lemma full_fold:
  assumes "set js \<subseteq> {..<16}" "\<forall>i \<in> set js. covers (4 * lo i) (4 * 5) (full_rows ! i)" "length acc = 20" "j < 20"
  shows "fold (\<lambda>i. macRow (ucast (be_words 16 src ! i)) (full_rows ! i) (4 * lo i) (4 * 5) (4 * 0)) js acc ! j = acc ! j + full_col src js j"
proof -
  have "length (full_rows ! i) = 20" if "i \<in> set js" for i
    using that assms(1) encTable64_nth [of i] by (auto simp: full_rows_nth)
  then have "fold (\<lambda>i. macRow (ucast (be_words 16 src ! i)) (full_rows ! i) (4 * lo i) (4 * 5) 0) js acc ! j =
      acc ! j + sum_list (map (\<lambda>i. ucast (be_words 16 src ! i) * ucast (full_rows ! i ! (j - 0))) js)"
    using assms by (intro fold_macRow_column) auto
  then show ?thesis by (simp add: full_col_def)
qed

lemma fullProduct_eq:
  assumes "length y0 = 32" "length y1 = 32" "src = y0 @ y1"
  shows "\<exists>y5 z. fullProduct (vpshufb encFullBswap y0 @ vpshufb encFullBswap y1) = Some (y5, z) \<and>
    length y5 = 32 \<and> (\<forall>y \<in> set z. length y = 32) \<and> length z = 5 \<and>
    (\<forall>l < 4. lanes 8 y5 ! l = full_col src [0..<8] (12 + l)) \<and>
    (\<forall>j < 20. flatten z ! j = (if 12 \<le> j \<and> j < 16 then 0 else full_col src [0..<8] j) + full_col src [8..<16] j)"
proof -
  let ?bin = "vpshufb encFullBswap y0 @ vpshufb encFullBswap y1"
  let ?lo = "\<lambda>i :: nat. if i < 4 then 0 else if i < 7 then 1 else 2" and ?lo' = "\<lambda>i :: nat. if i < 11 then 2 else if i < 15 then 3 else 4"
  have rows: "length full_rows = 16" using table_shapes by simp
  have in_rows: "i < 16" if "i \<in> set [0..<8] \<or> i \<in> set [8..<16]" for i
    using that unfolding set_upt atLeastLessThan_iff by linarith
  have sub: "set [0..<8] \<subseteq> {..<16 :: nat}" "set [8..<16] \<subseteq> {..<16 :: nat}" by (auto simp only: set_upt atLeastLessThan_iff lessThan_iff)
  have cov: "\<forall>i \<in> set [0..<8]. covers (4 * ?lo i) (4 * 5) (full_rows ! i)" "\<forall>i \<in> set [8..<16]. covers (4 * ?lo' i) (4 * 5) (full_rows ! i)"
    by (intro ballI full_blocks; simp only: set_upt atLeastLessThan_iff)+
  have reg: "\<exists>m. vpbroadcastd ?bin (4 * i) = Some m \<and> filled32 m \<and> ucast (low32 m) = (ucast (be_words 16 src ! i) :: u64)" if "i < 16" for i
    using full_register [OF assms(1,2) that assms(3)] .
  have "\<exists>y. foldM (\<lambda>i acc. do { m \<leftarrow> vpbroadcastd ?bin (4 * i);
        foldM (\<lambda>c. macBlock (mem_of 8 (concat (encFullTable64 True))) m (5 * i + c) (c + 0)) [?lo i..<5] acc })
        [0..<8] (replicate 5 (replicate 32 0)) = Some y \<and>
      (\<forall>z \<in> set y. length z = 32) \<and> length y = length (replicate 5 (replicate 32 (0 :: u8))) \<and>
      flatten y = fold (\<lambda>i. macRow (ucast (be_words 16 src ! i)) (full_rows ! i) (4 * ?lo i) (4 * 5) (4 * 0)) [0..<8] (flatten (replicate 5 (replicate 32 0)))"
    by (intro blocks_full.rows_on reg in_rows disjI1) (simp_all add: in_rows rows del: set_upt replicate_numeral length_map)
  then obtain y where y: "foldM (\<lambda>i acc. do { m \<leftarrow> vpbroadcastd ?bin (4 * i);
        foldM (\<lambda>c. macBlock (mem_of 8 (concat (encFullTable64 True))) m (5 * i + c) (c + 0)) [?lo i..<5] acc })
        [0..<8] (replicate 5 (replicate 32 0)) = Some y" "\<forall>z \<in> set y. length z = 32" "length y = 5"
      "flatten y = fold (\<lambda>i. macRow (ucast (be_words 16 src ! i)) (full_rows ! i) (4 * ?lo i) (4 * 5) (4 * 0)) [0..<8] (replicate 20 0)"
    by (auto simp: flatten_zero simp del: replicate_numeral)
  have fy: "flatten y ! j = full_col src [0..<8] j" if "j < 20" for j
    unfolding y(4) by (subst full_fold [OF sub(1) cov(1) _ that]) (simp_all add: that)
  let ?y = "y[3 := replicate 32 0]"
  have y': "\<forall>z \<in> set ?y. length z = 32" "length ?y = 5"
    using y(2,3) set_update_subset_insert [of y 3 "replicate 32 0"] by (auto simp del: replicate_numeral)
  have "\<exists>z. foldM (\<lambda>i acc. do { m \<leftarrow> vpbroadcastd ?bin (4 * i);
        foldM (\<lambda>c. macBlock (mem_of 8 (concat (encFullTable64 True))) m (5 * i + c) (c + 0)) [?lo' i..<5] acc })
        [8..<16] ?y = Some z \<and>
      (\<forall>z \<in> set z. length z = 32) \<and> length z = length ?y \<and>
      flatten z = fold (\<lambda>i. macRow (ucast (be_words 16 src ! i)) (full_rows ! i) (4 * ?lo' i) (4 * 5) (4 * 0)) [8..<16] (flatten ?y)"
    by (intro blocks_full.rows_on reg in_rows y'(1)) (simp_all add: in_rows rows y(3) del: set_upt replicate_numeral length_map)
  then obtain z where z: "foldM (\<lambda>i acc. do { m \<leftarrow> vpbroadcastd ?bin (4 * i);
        foldM (\<lambda>c. macBlock (mem_of 8 (concat (encFullTable64 True))) m (5 * i + c) (c + 0)) [?lo' i..<5] acc })
        [8..<16] ?y = Some z" "\<forall>y \<in> set z. length y = 32" "length z = 5"
      "flatten z = fold (\<lambda>i. macRow (ucast (be_words 16 src ! i)) (full_rows ! i) (4 * ?lo' i) (4 * 5) (4 * 0)) [8..<16] (flatten ?y)"
    using y'(2) by auto
  have fy': "flatten ?y ! j = (if 12 \<le> j \<and> j < 16 then 0 else full_col src [0..<8] j)" if j: "j < 20" for j
  proof -
    have jj: "4 * (j div 4) + j mod 4 = j" and d: "j div 4 < 5" "j mod 4 < 4" using j by auto
    have "flatten ?y ! j = lanes 8 (?y ! (j div 4)) ! (j mod 4)"
      using flatten_nth [OF y'(1), of "j div 4" "j mod 4"] d y'(2) jj by simp
    moreover have "flatten y ! j = lanes 8 (y ! (j div 4)) ! (j mod 4)"
      using flatten_nth [OF y(2), of "j div 4" "j mod 4"] d y(3) jj by simp
    moreover have "12 \<le> j \<and> j < 16 \<longleftrightarrow> j div 4 = 3" by auto
    moreover have "lanes 8 (replicate 32 0) ! (j mod 4) = (0 :: u64)"
      using flatten_zero [of 1] d by simp
    ultimately show ?thesis using fy [OF j] y(3) by (simp add: nth_list_update del: replicate_numeral)
  qed
  have "length (flatten ?y :: u64 list) = 20" using length_flatten [OF y'(1)] y'(2) by simp
  then have fz: "flatten z ! j = (if 12 \<le> j \<and> j < 16 then 0 else full_col src [0..<8] j) + full_col src [8..<16] j" if "j < 20" for j
    unfolding z(4) using that by (subst full_fold [OF sub(2) cov(2)]) (simp_all only: fy')
  have "lanes 8 (y ! 3) ! l = full_col src [0..<8] (12 + l)" if "l < 4" for l
    using flatten_nth [OF y(2), of 3 l] that y(3) fy [of "12 + l"] by simp
  moreover have "idx y 3 = Some (y ! 3)" using y(3) by simp
  then have "fullProduct ?bin = Some (y ! 3, z)"
    by (simp only: fullProduct_def y(1) z(1) bind.bind_lunit)
  moreover have "length (y ! 3) = 32" using y(2,3) by simp
  ultimately show ?thesis using z(2,3) fz by blast
qed

text \<open>The columns when every word of the input is as large as possible: only limb 16 needs two registers.\<close>

definition full_bound :: "nat list \<Rightarrow> nat list" where
  "full_bound js = matN 0 (\<lambda>_. 2 ^ 32 - 1) (\<lambda>i. map unat (encTable64 ! i)) js (replicate 17 0)"

lemma full_bound_ok:
  "\<forall>x \<in> set (full_bound [0..<8]). x \<le> 2 ^ 64 - 2 ^ 36" "\<forall>x \<in> set (full_bound [8..<16]). x \<le> 2 ^ 64 - 2 ^ 36"
  "\<forall>x \<in> set (take 15 (map2 (+) (full_bound [0..<8]) (full_bound [8..<16]))). x \<le> 2 ^ 64 - 2 ^ 36"
  "full_bound [0..<8] ! 16 + full_bound [8..<16] ! 16 \<le> 2 ^ 64 - 2 ^ 36"
  by (simp_all add: full_bound_def encTable64_def upt_rec mac_nat_def replicate_numeral)

lemma full_columns:
  assumes "set js \<subseteq> {..<16}" "\<forall>x \<in> set (full_bound js). x \<le> 2 ^ 64 - 2 ^ 36"
  shows "length (full_bound js) = 17" "c < 17 \<Longrightarrow> unat (full_col src js c) \<le> full_bound js ! c"
    and "bval (58 ^ 5) (map (\<lambda>c. unat (full_col src js c)) [0..<17]) = (\<Sum>i\<leftarrow>js. unat ((ucast :: u32 \<Rightarrow> u64) (be_words 16 src ! i)) * (2 ^ 32) ^ (15 - i))"
proof -
  let ?b = "\<lambda>i. ucast (be_words 16 src ! i) :: u64"
  define im where "im = fold (\<lambda>i. macRow (?b i) (encTable64 ! i) 0 17 0) js (replicate 17 0)"
  have js: "i < 16" if "i \<in> set js" for i using that assms(1) by auto
  have rows: "length (encTable64 ! i) = 17" "bval (58 ^ 5) (map unat (encTable64 ! i)) = (2 ^ 32) ^ (15 - i)" if "i \<in> set js" for i
    using encTable64_nth [OF js [OF that]] by simp_all
  have fits: "fits 0 (\<lambda>i. map unat (encTable64 ! i)) js (map unat (replicate 17 (0 :: u64)))"
    using rows(1) by (simp add: fits_def)
  have cov: "\<forall>i \<in> set js. covers 0 17 (encTable64 ! i)" using rows(1) by (simp add: covers_full)
  have b: "\<forall>i \<in> set js. unat (?b i) \<le> 2 ^ 32 - 1" using unat_word32_le by blast
  have z: "list_all2 (\<le>) (map unat (replicate 17 (0 :: u64))) (replicate 17 0)" by (simp add: list_all2_refl)
  have B: "\<forall>x \<in> set (matN 0 (\<lambda>_. 2 ^ 32 - 1) (\<lambda>i. map unat (encTable64 ! i)) js (replicate 17 0)). x \<le> 2 ^ 64 - 2 ^ 36"
    using assms(2) unfolding full_bound_def .
  have lim: "(2 ^ 64 - 2 ^ 36 :: nat) < 2 ^ 64" by simp
  have val: "\<forall>i \<in> set js. bval (58 ^ 5) (map unat (encTable64 ! i)) = (2 ^ 32) ^ (15 - i)" using rows(2) by blast
  note P = product_ok [where rows = encTable64, OF fits cov b z B lim val, folded im_def full_bound_def]
  have len: "length im = 17" by (simp add: im_def)
  have im: "im ! c = full_col src js c" if "c < 17" for c
  proof -
    have "im ! c = replicate 17 0 ! c + sum_list (map (\<lambda>i. ?b i * ucast (encTable64 ! i ! (c - 0))) js)"
      unfolding im_def using that cov rows(1) by (intro fold_macRow_column) auto
    also have "\<dots> = full_col src js c"
      unfolding full_col_def using that js rows(1)
      by (simp del: replicate_numeral, intro arg_cong [where f = sum_list] map_cong) (auto simp: full_rows_nth nth_append)
    finally show ?thesis .
  qed
  have eq: "map unat im = map (\<lambda>c. unat (full_col src js c)) [0..<17]"
    using len im by (intro nth_equalityI) simp_all
  have le: "list_all2 (\<le>) (map unat im) (full_bound js)" by (rule P(5))
  then show "length (full_bound js) = 17" using len list_all2_lengthD by fastforce
  show "unat (full_col src js c) \<le> full_bound js ! c" if "c < 17"
    using list_all2_nthD [OF le, of c] that len im by simp
  show "bval (58 ^ 5) (map (\<lambda>c. unat (full_col src js c)) [0..<17]) = (\<Sum>i\<leftarrow>js. unat (?b i) * (2 ^ 32) ^ (15 - i))"
    using P(4) unfolding eq by (simp add: bval_replicate_0)
qed

lemma bval_map_add: "bval b (map (\<lambda>c. f c + g c) cs) = bval b (map f cs) + bval b (map g cs)"
  by (induction cs) (simp_all add: bval_Cons algebra_simps)

lemma fullLimbs_eq:
  assumes "length y0 = 32" "length y1 = 32" "src = y0 @ y1"
  shows "\<exists>y5 z. fullProduct (vpshufb encFullBswap y0 @ vpshufb encFullBswap y1) = Some (y5, z) \<and> map unat (fullLimbs y5 z) = limbs58 18 src"
proof -
  let ?f = "full_col src [0..<8]" and ?g = "full_col src [8..<16]"
  obtain y5 z where P: "fullProduct (vpshufb encFullBswap y0 @ vpshufb encFullBswap y1) = Some (y5, z)" "length y5 = 32"
    "\<forall>y \<in> set z. length y = 32" "length z = 5" "\<forall>l < 4. lanes 8 y5 ! l = ?f (12 + l)"
    "\<forall>j < 20. flatten z ! j = (if 12 \<le> j \<and> j < 16 then 0 else ?f j) + ?g j"
    using fullProduct_eq [OF assms] by blast
  define z' where "z' = z[3 := vpaddq (z ! 3) y5]"
  have z': "\<forall>y \<in> set z'. length y = 32" "length z' = 5"
    using P(2-4) set_update_subset_insert [of z 3 "vpaddq (z ! 3) y5"] by (auto simp: z'_def)
  obtain a b c d e where abcde: "z = [a, b, c, d, e]" using P(4) by (auto simp: length_Suc_conv eval_nat_numeral)
  define im :: "u64 list" where "im = 0 # concat (map (lanes 8) [z ! 0, z ! 1, z ! 2, vpaddq (z ! 3) y5, z ! 4])"
  have im: "im = (0 :: u64) # flatten z'" by (simp add: im_def z'_def abcde)
  have g3: "lanes 8 (z ! 3) ! l = ?g (12 + l)" if "l < 4" for l
    using flatten_nth [OF P(3), of 3 l] that P(4,6) by simp
  have word: "im ! Suc j = ?f j + ?g j" if j: "j < 20" for j
  proof -
    have jj: "4 * (j div 4) + j mod 4 = j" and d: "j div 4 < 5" "j mod 4 < 4" using j by auto
    have n: "im ! Suc j = lanes 8 (z' ! (j div 4)) ! (j mod 4)"
      using flatten_nth [OF z'(1), of "j div 4" "j mod 4"] d z'(2) jj by (simp add: im)
    show ?thesis
    proof (cases "12 \<le> j \<and> j < 16")
      case True
      then have q: "j div 4 = 3" by auto
      have l: "12 + j mod 4 = j" using jj unfolding q by simp
      have "lanes 8 (z' ! 3) ! (j mod 4) = lanes 8 (z ! 3) ! (j mod 4) + (lanes 8 y5 ! (j mod 4) :: u64)"
        using P(2-4) d(2) by (simp add: z'_def lanes_vpaddq)
      also have "\<dots> = ?f j + ?g j" using g3 [OF d(2)] P(5) d(2) unfolding l by (simp add: l add.commute)
      finally show ?thesis unfolding n q .
    next
      case False
      then have "j div 4 \<noteq> 3" using jj d(2) by linarith
      then have "lanes 8 (z' ! (j div 4)) ! (j mod 4) = flatten z ! j"
        using flatten_nth [OF P(3), of "j div 4" "j mod 4"] d P(4) jj by (simp add: z'_def)
      then show ?thesis unfolding n using P(6) j False by simp
    qed
  qed
  have s1: "set [0..<8] \<subseteq> {..<16 :: nat}" and s2: "set [8..<16] \<subseteq> {..<16 :: nat}" by (auto simp only: set_upt atLeastLessThan_iff lessThan_iff)
  note A = full_columns(1) [OF s1 full_bound_ok(1)] full_columns(2,3) [OF s1 full_bound_ok(1), where src = src]
  note B = full_columns(1) [OF s2 full_bound_ok(2)] full_columns(2,3) [OF s2 full_bound_ok(2), where src = src]
  have fit: "full_bound [0..<8] ! c + full_bound [8..<16] ! c \<le> 2 ^ 64 - 2 ^ 36" if "c < 15 \<or> c = 16" for c
  proof (cases "c = 16")
    case False
    then have "c < 15" using that by simp
    then have "take 15 (map2 (+) (full_bound [0..<8]) (full_bound [8..<16])) ! c \<in> set (take 15 (map2 (+) (full_bound [0..<8]) (full_bound [8..<16])))"
      using A(1) B(1) by (intro nth_mem) simp
    then show ?thesis using full_bound_ok(3) \<open>c < 15\<close> A(1) B(1) by auto
  qed (use full_bound_ok(4) in simp)
  have sum: "unat (im ! Suc c) = unat (?f c) + unat (?g c)" "unat (im ! Suc c) \<le> 2 ^ 64 - 2 ^ 36" if c: "c < 15 \<or> c = 16" for c
  proof -
    have "unat (?f c) + unat (?g c) \<le> 2 ^ 64 - 2 ^ 36" using fit [OF c] A(2) [of c] B(2) [of c] c by linarith
    then show "unat (im ! Suc c) = unat (?f c) + unat (?g c)" "unat (im ! Suc c) \<le> 2 ^ 64 - 2 ^ 36"
      using word [of c] c by (auto simp: unat_add_nowrap)
  qed
  have single: "unat (?f 15) \<le> 2 ^ 64 - 2 ^ 36" "unat (?g 15) \<le> 2 ^ 64 - 2 ^ 36"
    using A(2) [of 15] B(2) [of 15] full_bound_ok(1,2) nth_mem [of 15 "full_bound [0..<8]"] nth_mem [of 15 "full_bound [8..<16]"] A(1) B(1)
    by (auto intro: order_trans)
  have l21: "length im = 21" using length_flatten [OF z'(1)] z'(2) by (simp add: im)
  let ?s = "\<lambda>c. unat (?f c) + unat (?g c)"
  have chunk: "map unat (take m (drop (Suc k) im)) = map ?s [k..<k + m]" if "k + m \<le> 15" for k m
  proof (rule nth_equalityI)
    fix i
    assume "i < length (map unat (take m (drop (Suc k) im)))"
    then show "map unat (take m (drop (Suc k) im)) ! i = map ?s [k..<k + m] ! i"
      using that l21 sum(1) [of "k + i"] by simp
  qed (use that l21 in simp)
  have low: "map unat (take 8 (drop 1 im)) = map ?s [0..<0 + 8]" using chunk [of 0 8] by (simp only: One_nat_def)
  have mid: "map unat (take 7 (drop 9 im)) = map ?s [8..<8 + 7]" using chunk [of 8 7] by simp
  have ab: "unat (lanes 8 y5 ! 3 :: u64) = unat (?f 15)" "unat (lanes 8 (z ! 3) ! 3 :: u64) = unat (?g 15)"
    using P(5) g3 by simp_all
  have "[0..<17] = ([0..<0 + 8] @ [8..<8 + 7]) @ [15, 16]" by (simp add: upt_rec)
  then have "bval (58 ^ 5) (map ?s [0..<17]) =
      (bval (58 ^ 5) (map ?s [0..<0 + 8]) * (58 ^ 5) ^ 7 + bval (58 ^ 5) (map ?s [8..<8 + 7])) * (58 ^ 5) ^ 2 + bval (58 ^ 5) [?s 15, ?s 16]"
    by (simp only: map_append bval_append list.map list.size length_map length_upt) simp
  also have "bval (58 ^ 5) [?s 15, ?s 16] = ?s 15 * 58 ^ 5 + ?s 16" by (simp only: bval_Cons list.size) simp
  finally have V: "bval (58 ^ 5) (map ?s [0..<17]) =
      (bval (58 ^ 5) (map unat (take 8 (drop 1 im))) * (58 ^ 5) ^ 7 + bval (58 ^ 5) (map unat (take 7 (drop 9 im)))) * (58 ^ 5) ^ 2
      + (unat (lanes 8 y5 ! 3 :: u64) + unat (lanes 8 (z ! 3) ! 3 :: u64)) * 58 ^ 5 + unat (im ! 17)"
    unfolding low mid ab using sum(1) [of 16] by (simp only: add.assoc) simp
  have "bval (58 ^ 5) (map ?s [0..<17]) = bytes_val src"
  proof -
    have e: "[0..<16] = [0..<8] @ [8..<16]" by (simp add: upt_add_eq_append [of 0 8 8, simplified])
    have "length src = 4 * 16" using assms by simp
    from bval_sum_words [OF this] have "(\<Sum>i\<leftarrow>[0..<16]. unat ((ucast :: u32 \<Rightarrow> u64) (be_words 16 src ! i)) * (2 ^ 32) ^ (15 - i)) = bytes_val src" by simp
    then show ?thesis unfolding bval_map_add A(3) B(3) e by (simp only: map_append sum_list_append)
  qed
  note V = V [unfolded this]
  have lt: "bytes_val src < (58 ^ 5) ^ 18"
  proof -
    have "bytes_val src < 256 ^ 64" using bytes_val_less [of src] assms by simp
    then show ?thesis by simp
  qed
  have bnd: "\<forall>k \<in> {1..15} \<union> {17}. unat (im ! k) \<le> 2 ^ 64 - 2 ^ 36"
  proof
    fix k :: nat
    assume "k \<in> {1..15} \<union> {17}"
    then obtain c where "k = Suc c" "c < 15 \<or> c = 16" by (cases k) auto
    then show "unat (im ! k) \<le> 2 ^ 64 - 2 ^ 36" using sum(2) by blast
  qed
  have "map unat (fullLimbs y5 z) = limbs58 18 src"
    using fullLimbs_fixed [OF l21 im_def bnd _ _ V lt] single unfolding ab by blast
  then show ?thesis using P(1) by blast
qed

end
