(* ===== verification/Asm_Full_Text.thy ===== *)
theory Asm_Full_Text
  imports Asm_Full
begin

unbundle bit_operations_syntax

text \<open>
  The full encoders for 64 bytes (\<open>encode_full_amd64.s\<close>, \<open>encode_full_append_amd64.s\<close>,
  \<open>encode_full_owned_amd64.s\<close>) from the limbs on: digits and characters in vectors, the number of
  characters to skip, the stores; and the contract of the assembly of all the encoders.
\<close>

section \<open>The constants\<close>

definition encFullSpread :: bytes where
  "encFullSpread = the (fusedRep [0, 1, 1, 1, 1, 8, 1, 1, 1, 1, 1, 1, 1, 1, 1, 1])"

definition encFullB8 :: bytes where
  "encFullB8 = the (fusedRep [8])"

definition encFullB16 :: bytes where
  "encFullB16 = the (fusedRep [16])"

definition encFullB21 :: bytes where
  "encFullB21 = the (fusedRep [21])"

definition encFullB32 :: bytes where
  "encFullB32 = the (fusedRep [32])"

definition encFullB43 :: bytes where
  "encFullB43 = the (fusedRep [43])"

definition encFullBm6 :: bytes where
  "encFullBm6 = the (fusedRep [0xFA])"

definition encFullBm7 :: bytes where
  "encFullBm7 = the (fusedRep [0xF9])"

definition encFullBm49 :: bytes where
  "encFullBm49 = the (fusedRep [0xCF])"

definition encFullD58 :: bytes where
  "encFullD58 = the (fusedRep [58, 0, 0, 0])"

definition encFullDivA :: bytes where
  "encFullDivA = the (fusedRep [0x09, 0xCB, 0x3D, 0x8D, 0, 0, 0, 0])"

definition encFullDivB :: bytes where
  "encFullDivB = the (fusedRep [0x93, 0x20, 0xED, 0x4D, 0, 0, 0, 0])"

section \<open>Digits and characters\<close>

text \<open>\<open>VPSLLDQ\<close> and \<open>VPSRLDQ\<close> on one half.\<close>

definition shl16 :: "nat \<Rightarrow> bytes \<Rightarrow> bytes" where
  "shl16 k x = replicate k 0 @ take (16 - k) x"

definition shr16 :: "nat \<Rightarrow> bytes \<Rightarrow> bytes" where
  "shr16 k x = drop k x @ replicate k 0"

definition vpslldq :: "nat \<Rightarrow> bytes \<Rightarrow> bytes" where
  "vpslldq k y = shl16 k (take 16 y) @ shl16 k (drop 16 y)"

definition I2R :: "bytes \<Rightarrow> bytes" where
  "I2R y =
     (let y8 = vpsrlq 37 (vpmuludq encFullDivA y);
          y9 = vpsubq (vpmuludq encFullD58 y8) y;
          y10 = vpsrlq 40 (vpmuludq encFullDivB (vpsrlq 2 y));
          y11 = vpsubq (vpmuludq encFullD58 y10) y8;
          y12 = vpsrlq 40 (vpmuludq encFullDivB (vpsrlq 2 y8));
          y13 = vpsubq (vpmuludq encFullD58 y12) y10;
          y14 = vpsrlq 40 (vpmuludq encFullDivB (vpsrlq 2 y10));
          y8 = vpsubq (vpmuludq encFullD58 y14) y12;
          out = vpshufb encFullSpread y14;
          out = vpor (vpslldq 1 (vpshufb encFullSpread y8)) out;
          out = vpor (vpslldq 2 (vpshufb encFullSpread y13)) out;
          out = vpor (vpslldq 3 (vpshufb encFullSpread y11)) out
      in vpor (vpslldq 4 (vpshufb encFullSpread y9)) out)"

text \<open>The digits without the gaps of six bytes behind every ten: \<open>Y4\<close>, \<open>Y5\<close> and \<open>Y6\<close>.\<close>

definition ten_per_slot_down_64 :: "bytes \<Rightarrow> bytes \<Rightarrow> bytes \<Rightarrow> bytes \<Rightarrow> bytes \<Rightarrow> bytes \<times> bytes \<times> bytes" where
  "ten_per_slot_down_64 y0 y1 y2 y3 y15 =
     (let x0 = take 16 y0; x8 = drop 16 y0; x1 = take 16 y1; x9 = drop 16 y1;
          x2 = take 16 y2; x10 = drop 16 y2; x3 = take 16 y3; x11 = drop 16 y3;
          o0 = vpor (shl16 10 x8) x0;
          o1 = vpor (shl16 14 x9) (vpor (shl16 4 x1) (shr16 6 x8));
          o2 = vpor (shl16 8 x2) (shr16 2 x9);
          o3 = vpor (shl16 12 x3) (vpor (shl16 2 x10) (shr16 8 x2));
          o4 = vpor (shl16 6 x11) (shr16 4 x3)
      in (o0 @ o1, o2 @ o3, o4 @ take 16 y15))"

definition fullDigits :: "u64 list \<Rightarrow> bytes \<times> bytes \<times> bytes" where
  "fullDigits im =
     ten_per_slot_down_64 (I2R (mem_of 8 (take 4 im))) (I2R (mem_of 8 (take 4 (drop 4 im))))
       (I2R (mem_of 8 (take 4 (drop 8 im)))) (I2R (mem_of 8 (take 4 (drop 12 im)))) (I2R (mem_of 8 (drop 16 im @ [0, 0])))"

definition R2B :: "bytes \<Rightarrow> bytes" where
  "R2B v =
     (let t1 = vpand encFullBm7 (vpcmpgtb encFullB8 v);
          t1 = vpaddb (vpand encFullBm6 (vpcmpgtb encFullB32 v)) t1;
          t1 = vpaddb (vpcmpgtb encFullB16 v) t1;
          t1 = vpaddb (vpcmpgtb encFullB21 v) t1;
          t1 = vpaddb (vpcmpgtb encFullB43 v) t1;
          t1 = vpaddb encFullBm49 t1
      in vpsubb t1 v)"

section \<open>The kernels\<close>

text \<open>The digits of the input in three registers.\<close>

definition fullEncode :: "bytes \<Rightarrow> bytes \<Rightarrow> (bytes \<times> bytes \<times> bytes) option" where
  "fullEncode y0 y1 =
     do { (y5, z) \<leftarrow> fullProduct (vpshufb encFullBswap y0 @ vpshufb encFullBswap y1);
          Some (fullDigits (fullLimbs y5 z)) }"

text \<open>\<open>BSF\<close>: the lowest bit that is set, \<open>None\<close> without one; and the mask of the bytes that are zero.\<close>

definition bsf :: "'a::len word \<Rightarrow> nat option" where
  "bsf w = find (bit w) [0..<LENGTH('a)]"

definition zero_mask :: "bytes \<Rightarrow> 'a::len word" where
  "zero_mask y = of_nat (vpmovmskb (vpcmpeqb (replicate 32 0) y))"

definition fullInputZeros :: "bytes \<Rightarrow> bytes \<Rightarrow> nat" where
  "fullInputZeros y0 y1 =
     (case bsf (NOT (zero_mask y0 OR push_bit 32 (zero_mask y1)) :: u64) of None \<Rightarrow> 64 | Some k \<Rightarrow> k)"

definition fullZeros :: "nat \<Rightarrow> bytes \<Rightarrow> bytes \<Rightarrow> bytes \<Rightarrow> nat option" where
  "fullZeros r8 y4 y5 y6 =
     (if r8 = 0 then bsf (NOT (zero_mask y4) :: u32)
      else let ax = NOT (zero_mask y4 OR push_bit 32 (zero_mask y5)) :: u64
           in if ax \<noteq> 0 then bsf ax
              else do { k \<leftarrow> bsf (set_bit 26 (NOT (zero_mask y6) :: u32)); Some (k + 64) })"

text \<open>
  Behind the 96 bytes of characters, the frame still holds products (\<open>rest\<close>); with \<open>clobberTail\<close> some
  of them are stored behind the text.
\<close>

definition encode64FullAVX2_asm :: "bytes \<Rightarrow> bytes \<Rightarrow> bytes \<Rightarrow> bool \<Rightarrow> (nat \<times> bytes) option" where
  "encode64FullAVX2_asm rest src dst clobberTail =
     do { y0 \<leftarrow> load256 src 0;
          y1 \<leftarrow> load256 src 32;
          c \<leftarrow> idx src 0;
          let r8 = (if c \<noteq> 0 then 0 else fullInputZeros y0 y1);
          (y4, y5, y6) \<leftarrow> fullEncode y0 y1;
          cx \<leftarrow> fullZeros r8 y4 y5 y6;
          cx \<leftarrow> isub cx r8;
          let frame = R2B y4 @ R2B y5 @ R2B y6 @ rest;
          y8 \<leftarrow> load256 frame cx;
          dst \<leftarrow> put256 dst 0 y8;
          y8 \<leftarrow> load256 frame (cx + 32);
          dst \<leftarrow> put256 dst 32 y8;
          ax \<leftarrow> isub 90 cx;
          dst \<leftarrow> (if clobberTail
                 then do { y8 \<leftarrow> load256 frame (cx + 64); put256 dst 64 y8 }
                 else do { y8 \<leftarrow> load256 frame 58; a \<leftarrow> isub ax 32; put256 dst a y8 });
          Some (ax, dst) }"

text \<open>The other two rely on a first byte other than zero: the third digit decides.\<close>

definition encode64FullAppendAVX2_asm :: "bytes \<Rightarrow> bytes \<Rightarrow> bytes \<Rightarrow> (nat \<times> bytes) option" where
  "encode64FullAppendAVX2_asm rest src dst =
     do { y0 \<leftarrow> load256 src 0;
          y1 \<leftarrow> load256 src 32;
          (y4, y5, y6) \<leftarrow> fullEncode y0 y1;
          c \<leftarrow> idx y4 2;
          let cx = 2 + of_bool (c < 1);
          let frame = R2B y4 @ R2B y5 @ R2B y6 @ rest;
          y8 \<leftarrow> load256 frame cx;
          dst \<leftarrow> put256 dst 0 y8;
          y8 \<leftarrow> load256 frame (cx + 32);
          dst \<leftarrow> put256 dst 32 y8;
          ax \<leftarrow> isub 90 cx;
          y8 \<leftarrow> load256 frame 58;
          a \<leftarrow> isub ax 32;
          dst \<leftarrow> put256 dst a y8;
          Some (ax, dst) }"

definition encode64FullOwnedAVX2_asm :: "bytes \<Rightarrow> bytes \<Rightarrow> (nat \<times> bytes) option" where
  "encode64FullOwnedAVX2_asm src dst =
     do { y0 \<leftarrow> load256 src 0;
          y1 \<leftarrow> load256 src 32;
          (y4, y5, y6) \<leftarrow> fullEncode y0 y1;
          c \<leftarrow> idx y4 2;
          let cx = 2 + of_bool (c < 1);
          dst \<leftarrow> put256 dst 0 (R2B y4);
          dst \<leftarrow> put256 dst 32 (R2B y5);
          dst \<leftarrow> put256 dst 64 (R2B y6);
          Some (cx, dst) }"

section \<open>Digits\<close>

lemma full_divisors:
  "encFullDivA = vpbroadcastq 2369637129"
  "encFullDivB = vpbroadcastq 1307386003"
  "encFullD58 = vpbroadcastq 0x3A0000003A"
proof -
  have w: "2369637129 = (le_word [9, 203, 61, 141, 0, 0, 0, 0] :: u64)"
    "1307386003 = (le_word [147, 32, 237, 77, 0, 0, 0, 0] :: u64)"
    "0x3A0000003A = (le_word [58, 0, 0, 0, 58, 0, 0, 0] :: u64)"
    by (simp_all add: le_word_def bytes_val_def bval_def)
  show "encFullDivA = vpbroadcastq 2369637129" "encFullDivB = vpbroadcastq 1307386003"
    unfolding encFullDivA_def encFullDivB_def vpbroadcastq_def w
    by (simp_all add: fusedRep_eq [where n = 8] upt32 mem_of_def le_bytes_word replicate_numeral)
  show "encFullD58 = vpbroadcastq 0x3A0000003A"
    unfolding encFullD58_def vpbroadcastq_def w
    by (simp add: fusedRep_eq [where n = 4] upt32 mem_of_def le_bytes_word replicate_numeral)
qed

lemma map2_replicate_cong: "(\<And>y. f a y = f b y) \<Longrightarrow> map2 f (replicate k a) ys = map2 f (replicate k b) ys"
proof (induction k arbitrary: ys)
  case (Suc k)
  then show ?case by (cases ys) simp_all
qed simp

text \<open>Only the low half of each word counts.\<close>

lemma mul_full_D58: "vpmuludq encFullD58 y = vpmuludq (vpbroadcastq 58) y"
  unfolding full_divisors vpmuludq_def vpbroadcastq_def lanes_mem_of_width
  by (intro arg_cong [where f = "mem_of 8"] map2_replicate_cong) simp

lemma full_spread: "encFullSpread = [0, 1, 1, 1, 1, 8, 1, 1, 1, 1, 1, 1, 1, 1, 1, 1] @ [0, 1, 1, 1, 1, 8, 1, 1, 1, 1, 1, 1, 1, 1, 1, 1]"
  by (simp add: encFullSpread_def upt32 fusedRep_eq [where n = 16])

lemma spread_digits:
  fixes d0 d1 d2 d3 d4 :: "nat \<Rightarrow> nat"
  assumes "\<And>n. n \<in> {a, b, c, e} \<Longrightarrow> d0 n < 256 \<and> d1 n < 256 \<and> d2 n < 256 \<and> d3 n < 256 \<and> d4 n < 256"
  defines "s \<equiv> \<lambda>d. vpshufb encFullSpread (nums (map d [a, b, c, e]))"
  shows "vpor (vpslldq 4 (s d4)) (vpor (vpslldq 3 (s d3)) (vpor (vpslldq 2 (s d2)) (vpor (vpslldq 1 (s d1)) (s d0)))) =
    map of_nat [d0 a, d1 a, d2 a, d3 a, d4 a, d0 b, d1 b, d2 b, d3 b, d4 b] @ replicate 6 0 @
    map of_nat [d0 c, d1 c, d2 c, d3 c, d4 c, d0 e, d1 e, d2 e, d3 e, d4 e] @ replicate 6 0"
proof -
  note lt = assms(1) [of a] assms(1) [of b] assms(1) [of c] assms(1) [of e]
  have s: "s d = [of_nat (d a), 0, 0, 0, 0, of_nat (d b), 0, 0, 0, 0, 0, 0, 0, 0, 0, 0] @
      [of_nat (d c), 0, 0, 0, 0, of_nat (d e), 0, 0, 0, 0, 0, 0, 0, 0, 0, 0]" if "d \<in> {d0, d1, d2, d3, d4}" for d
  proof -
    have "nums (map d [a, b, c, e]) =
        [of_nat (d a), 0, 0, 0, 0, 0, 0, 0, of_nat (d b), 0, 0, 0, 0, 0, 0, 0] @
        [of_nat (d c), 0, 0, 0, 0, 0, 0, 0, of_nat (d e), 0, 0, 0, 0, 0, 0, 0]" using that lt by (intro nums_digits) auto
    then show ?thesis by (simp add: s_def full_spread vpshufb_def pshufb_def)
  qed
  show ?thesis by (simp add: s vpslldq_def shl16_def vpor_def replicate_numeral)
qed

lemma I2R_eq:
  assumes "ns = [a, b, c, e]" "\<forall>n \<in> set ns. n < 58 ^ 5"
  shows "I2R (nums ns) = map of_nat (fixed 58 5 a @ fixed 58 5 b) @ replicate 6 0 @ map of_nat (fixed 58 5 c @ fixed 58 5 e) @ replicate 6 0"
proof -
  have len: "length ns = 4" by (simp add: assms(1))
  have lt: "n div 58 ^ 4 < 58" if "n \<in> set ns" for n
    using assms(2) that by (intro less_mult_imp_div_less) simp
  have f: "fixed 58 5 n = [n div 58 ^ 4, n div 58 ^ 3 mod 58, n div 58 ^ 2 mod 58, n div 58 mod 58, n mod 58]" if "n \<in> set ns" for n
    using lt [OF that] by (simp add: fixed5)
  have "n div 58 ^ 4 < 256 \<and> n div 58 ^ 3 mod 58 < 256 \<and> n div 58 ^ 2 mod 58 < 256 \<and> n div 58 mod 58 < 256 \<and> n mod 58 < 256"
    if "n \<in> {a, b, c, e}" for n
    using lt [of n] that by (simp add: assms(1) less_trans [OF mod_less_divisor])
  note P = spread_digits [OF this]
  show ?thesis
    unfolding I2R_def Let_def mul_full_D58 full_divisors(1,2) div58_registers [OF len assms(2)]
    using P f by (simp add: assms(1))
qed

lemma ten_bytesE:
  assumes "length (a :: bytes) = 10"
  obtains a0 a1 a2 a3 a4 a5 a6 a7 a8 a9 where "a = [a0, a1, a2, a3, a4, a5, a6, a7, a8, a9]"
  using assms by (auto simp: length_Suc_conv eval_nat_numeral)

text \<open>Blocks of ten, with six zeros behind each, shifted together.\<close>

lemma slots_joined:
  assumes "length (a :: bytes) = 10" "length b = 10" "length c = 10"
  defines "z \<equiv> replicate 6 (0 :: u8)"
  shows "vpor (shl16 10 (b @ z)) (a @ z) = a @ take 6 b"
    and "vpor (shl16 14 (c @ z)) (vpor (shl16 4 (b @ z)) (shr16 6 (a @ z))) = drop 6 a @ b @ take 2 c"
    and "vpor (shl16 8 (b @ z)) (shr16 2 (a @ z)) = drop 2 a @ take 8 b"
    and "vpor (shl16 12 (c @ z)) (vpor (shl16 2 (b @ z)) (shr16 8 (a @ z))) = drop 8 a @ b @ take 4 c"
    and "vpor (shl16 6 (b @ z)) (shr16 4 (a @ z)) = drop 4 a @ b"
proof -
  obtain a0 a1 a2 a3 a4 a5 a6 a7 a8 a9 where a: "a = [a0, a1, a2, a3, a4, a5, a6, a7, a8, a9]" using assms(1) by (rule ten_bytesE)
  obtain b0 b1 b2 b3 b4 b5 b6 b7 b8 b9 where b: "b = [b0, b1, b2, b3, b4, b5, b6, b7, b8, b9]" using assms(2) by (rule ten_bytesE)
  obtain c0 c1 c2 c3 c4 c5 c6 c7 c8 c9 where c: "c = [c0, c1, c2, c3, c4, c5, c6, c7, c8, c9]" using assms(3) by (rule ten_bytesE)
  note d = shl16_def shr16_def vpor_def replicate_numeral
  show "vpor (shl16 10 (b @ z)) (a @ z) = a @ take 6 b" by (simp add: a b z_def d)
  show "vpor (shl16 14 (c @ z)) (vpor (shl16 4 (b @ z)) (shr16 6 (a @ z))) = drop 6 a @ b @ take 2 c" by (simp add: a b c z_def d)
  show "vpor (shl16 8 (b @ z)) (shr16 2 (a @ z)) = drop 2 a @ take 8 b" by (simp add: a b z_def d)
  show "vpor (shl16 12 (c @ z)) (vpor (shl16 2 (b @ z)) (shr16 8 (a @ z))) = drop 8 a @ b @ take 4 c" by (simp add: a b c z_def d)
  show "vpor (shl16 6 (b @ z)) (shr16 4 (a @ z)) = drop 4 a @ b" by (simp add: a b z_def d)
qed

lemma take_drop_join: "take k d @ drop k d @ r = d @ r"
  by (simp flip: append_assoc)

lemma ten_per_slot:
  assumes "\<forall>d \<in> {d0, d1, d2, d3, d4, d5, d6, d7, d8, d9}. length d = 10" "ten_per_slot_down_64 (d0 @ z @ d1 @ z) (d2 @ z @ d3 @ z)
      (d4 @ z @ d5 @ z) (d6 @ z @ d7 @ z) (d8 @ z @ d9 @ z) = (y4, y5, y6)" "z = replicate 6 0"
  shows "length y4 = 32" "length y5 = 32" "length y6 = 32"
    and "y4 @ y5 @ y6 = d0 @ d1 @ d2 @ d3 @ d4 @ d5 @ d6 @ d7 @ d8 @ z"
proof -
  have h: "take 16 (a @ z @ b @ z) = a @ z" "drop 16 (a @ z @ b @ z) = b @ z" if "length a = 10" for a b :: bytes
    using that by (simp_all add: assms(3))
  have l: "length d0 = 10" "length d1 = 10" "length d2 = 10" "length d3 = 10" "length d4 = 10" "length d5 = 10"
    "length d6 = 10" "length d7 = 10" "length d8 = 10" using assms(1) by simp_all
  note j = slots_joined [folded assms(3)]
  have y: "y4 = d0 @ take 6 d1 @ drop 6 d1 @ d2 @ take 2 d3" "y5 = drop 2 d3 @ take 8 d4 @ drop 8 d4 @ d5 @ take 4 d6"
    "y6 = drop 4 d6 @ d7 @ d8 @ z"
    using assms(2) unfolding ten_per_slot_down_64_def Let_def h [OF l(1)] h [OF l(3)] h [OF l(5)] h [OF l(7)] h [OF l(9)]
      j(1) [OF l(1,2,2)] j(2) [OF l(2,3,4)] j(3) [OF l(4,5,5)] j(4) [OF l(5,6,7)] j(5) [OF l(7,8,8)] by simp_all
  show "length y4 = 32" "length y5 = 32" "length y6 = 32" using l by (simp_all add: y assms(3))
  show "y4 @ y5 @ y6 = d0 @ d1 @ d2 @ d3 @ d4 @ d5 @ d6 @ d7 @ d8 @ z"
    by (simp only: y append_assoc take_drop_join)
qed

lemma fullDigits_eq:
  assumes "length im = 18" "\<forall>x \<in> set im. unat x < 58 ^ 5" "fullDigits im = (y4, y5, y6)"
  shows "length y4 = 32" "length y5 = 32" "length y6 = 32"
    and "y4 @ y5 @ y6 = map of_nat (concat (map (fixed 58 5) (map unat im))) @ replicate 6 0"
proof -
  obtain a0 a1 a2 a3 a4 a5 a6 a7 a8 a9 a10 a11 a12 a13 a14 a15 a16 a17
    where im: "im = [a0, a1, a2, a3, a4, a5, a6, a7, a8, a9, a10, a11, a12, a13, a14, a15, a16, a17]" using assms(1) by (rule length18E)
  let ?z = "replicate 6 (0 :: u8)"
  let ?d = "\<lambda>a b. map of_nat (fixed 58 5 (unat (a :: u64)) @ fixed 58 5 (unat (b :: u64))) :: bytes"
  have i: "I2R (mem_of 8 [a, b, c, e]) = ?d a b @ ?z @ ?d c e @ ?z" if "unat a < 58 ^ 5" "unat b < 58 ^ 5" "unat c < 58 ^ 5" "unat e < 58 ^ 5" for a b c e
  proof -
    have "mem_of 8 [a, b, c, e] = nums [unat a, unat b, unat c, unat e]" using nums_unat [of "[a, b, c, e]"] by simp
    then show ?thesis using I2R_eq [OF refl, of "unat a" "unat b" "unat c" "unat e"] that by simp
  qed
  have lt: "unat a < 58 ^ 5" if "a \<in> set im" for a using assms(2) that by blast
  have t: "take 4 im = [a0, a1, a2, a3]" "take 4 (drop 4 im) = [a4, a5, a6, a7]" "take 4 (drop 8 im) = [a8, a9, a10, a11]"
    "take 4 (drop 12 im) = [a12, a13, a14, a15]" "drop 16 im @ [0, 0] = [a16, a17, 0, 0]" by (simp_all add: im)
  have m: "a0 \<in> set im" "a1 \<in> set im" "a2 \<in> set im" "a3 \<in> set im" "a4 \<in> set im" "a5 \<in> set im" "a6 \<in> set im" "a7 \<in> set im" "a8 \<in> set im"
    "a9 \<in> set im" "a10 \<in> set im" "a11 \<in> set im" "a12 \<in> set im" "a13 \<in> set im" "a14 \<in> set im" "a15 \<in> set im" "a16 \<in> set im" "a17 \<in> set im"
    by (simp_all add: im)
  have z0: "unat (0 :: u64) < 58 ^ 5" by simp
  note D = assms(3) [unfolded fullDigits_def t i [OF m(1-4) [THEN lt]] i [OF m(5-8) [THEN lt]] i [OF m(9-12) [THEN lt]]
    i [OF m(13-16) [THEN lt]] i [OF m(17,18) [THEN lt] z0 z0]]
  have l: "\<forall>d \<in> {?d a0 a1, ?d a2 a3, ?d a4 a5, ?d a6 a7, ?d a8 a9, ?d a10 a11, ?d a12 a13, ?d a14 a15, ?d a16 a17, ?d 0 0}. length d = 10" by simp
  note T = ten_per_slot [OF l D refl]
  show "length y4 = 32" "length y5 = 32" "length y6 = 32" by (rule T)+
  show "y4 @ y5 @ y6 = map of_nat (concat (map (fixed 58 5) (map unat im))) @ ?z"
    unfolding T(4) im by (simp only: list.map concat.simps map_append append_assoc append_Nil2 append.simps)
qed

section \<open>Characters and zeros\<close>

lemma R2B_eq: "length y = 32 \<Longrightarrow> R2B y = map byte_char8 y"
proof -
  have c: "encFullB8 = every 8" "encFullB16 = every 16" "encFullB21 = every 21" "encFullB32 = every 32" "encFullB43 = every 43"
    "encFullBm6 = every 250" "encFullBm7 = every 249" "encFullBm49 = every 207"
    unfolding encFullB8_def encFullB16_def encFullB21_def encFullB32_def encFullB43_def encFullBm6_def encFullBm7_def encFullBm49_def every_def
    by (simp_all add: fusedRep_eq [where n = 1] upt32 replicate_numeral)
  assume l: "length y = 32"
  have m: "vpsubb (map f y) y = map (\<lambda>b. b - f b) y" for f using vec_bytes(2) [of f y "\<lambda>b. b"] by simp
  have e: "vpcmpgtb (every a) y = map (\<lambda>b. if sint a < sint b then 255 else 0) y" for a using vec_byte(3) [OF l, of a "\<lambda>b. b"] by simp
  have p: "250 = (- 6 :: u8)" "249 = (- 7 :: u8)" "207 = (- 49 :: u8)" "255 = (- 1 :: u8)" by simp_all
  show ?thesis
    unfolding R2B_def Let_def c e vec_byte(2) [OF l] vec_bytes vec_byte(1) [OF l] m byte_char8_def
    by (intro map_cong refl) (simp add: p if_distrib [where f = "\<lambda>x. x AND c" for c] cong: if_cong)
qed

lemma bit_zero_mask:
  assumes "length y = 32"
  shows "bit (zero_mask y :: 'a::len word) n \<longleftrightarrow> n < LENGTH('a) \<and> n < 32 \<and> y ! n = 0"
proof -
  have "vpcmpeqb (replicate 32 0) y = map (\<lambda>b. if b = 0 then 255 else 0) y"
    using map2_replicate [of "\<lambda>a b. if a = b then 255 else 0" y 0 "\<lambda>b. b"] assms by (simp add: vpcmpeqb_def eq_commute [of 0])
  moreover have "map (\<lambda>b. bit b 7) (map (\<lambda>b. if b = 0 then 255 else 0 :: u8) y) = map (\<lambda>b. b = 0) y" by (simp add: comp_def)
  ultimately have "zero_mask y = (of_nat (horner_sum of_bool 2 (map (\<lambda>b. b = 0) y)) :: 'a word)"
    by (simp only: zero_mask_def vpmovmskb_def)
  then show ?thesis
    using assms by (auto simp: bit_of_nat_iff bit_horner_sum_bit_iff)
qed

lemma find_leading:
  assumes "\<And>n. n < m \<Longrightarrow> P n \<longleftrightarrow> ys ! n \<noteq> x" "m \<le> length ys"
  shows "find P [0..<m] = (if leading x ys < m then Some (leading x ys) else None)"
proof (cases "leading x ys < m")
  case True
  then have "ys ! leading x ys \<noteq> x" using assms(2) by (intro leading_stop) simp
  then have "find P [0..<m] = Some (leading x ys)"
    unfolding find_Some_iff using True assms(1) leading_nth [of _ x ys] by (intro exI [of _ "leading x ys"]) simp
  then show ?thesis using True by simp
next
  case False
  then have "\<not> P n" if "n < m" for n using assms(1) [OF that] leading_nth [of n x ys] that by simp
  then show ?thesis using False by (simp add: find_None_iff)
qed

lemma bit_zero_masks:
  assumes "length y = 32" "length z = 32" "n < 64"
  shows "bit (NOT (zero_mask y OR push_bit 32 (zero_mask z)) :: u64) n \<longleftrightarrow> (y @ z) ! n \<noteq> 0"
  using assms by (auto simp: bit_and_iff bit_not_iff bit_push_bit_iff bit_zero_mask nth_append)

lemma leading_stopped: "y \<noteq> x \<Longrightarrow> leading x (a @ y # b) = leading x a"
  by (induction a) simp_all

lemma fullInputZeros_eq:
  assumes "length y0 = 32" "length y1 = 32"
  shows "fullInputZeros y0 y1 = leading 0 (y0 @ y1)"
proof -
  have "bsf (NOT (zero_mask y0 OR push_bit 32 (zero_mask y1)) :: u64) =
      (if leading 0 (y0 @ y1) < 64 then Some (leading 0 (y0 @ y1)) else None)"
    unfolding bsf_def using bit_zero_masks [OF assms] assms by (simp add: find_leading [of 64])
  then show ?thesis using leading_le [of 0 "y0 @ y1"] assms by (simp add: fullInputZeros_def)
qed

lemma fullZeros_eq:
  assumes "length y4 = 32" "length y5 = 32" "length y6 = 32" "y4 @ y5 @ y6 = ds @ replicate 6 0" "r8 = 0 \<Longrightarrow> leading 0 ds < 32"
  shows "fullZeros r8 y4 y5 y6 = Some (leading 0 ds)"
proof -
  have ds: "length ds = 90" using arg_cong [OF assms(4), of length] assms(1-3) by simp
  have y4: "y4 = take 32 ds" using arg_cong [OF assms(4), of "take 32"] assms(1) ds by simp
  have y45: "y4 @ y5 = take 64 ds" using arg_cong [OF assms(4), of "take 64"] assms(1,2) ds by simp
  have y6: "y6 = drop 64 ds @ replicate 6 0" using arg_cong [OF assms(4), of "drop 64"] assms(1,2) ds by simp
  show ?thesis
  proof (cases "r8 = 0")
    case True
    have "bit (NOT (zero_mask y4) :: u32) n \<longleftrightarrow> y4 ! n \<noteq> 0" if "n < 32" for n
      using that assms(1) by (simp add: bit_not_iff bit_zero_mask)
    then have "bsf (NOT (zero_mask y4) :: u32) = (if leading 0 y4 < 32 then Some (leading 0 y4) else None)"
      unfolding bsf_def using assms(1) by (simp add: find_leading [of 32])
    then show ?thesis using True assms(5) unfolding y4 leading_take by (simp add: fullZeros_def y4)
  next
    case False
    define ax :: u64 where "ax = NOT (zero_mask y4 OR push_bit 32 (zero_mask y5))"
    have bits: "bit ax n \<longleftrightarrow> (y4 @ y5) ! n \<noteq> 0" if "n < 64" for n
      using bit_zero_masks [OF assms(1,2) that] by (simp add: ax_def)
    then have ax: "bsf ax = (if leading 0 (y4 @ y5) < 64 then Some (leading 0 (y4 @ y5)) else None)"
      unfolding bsf_def using assms(1,2) by (simp add: find_leading [of 64])
    show ?thesis
    proof (cases "leading 0 ds < 64")
      case True
      then have l: "leading 0 (y4 @ y5) = leading 0 ds" unfolding y45 leading_take by simp
      then have "bsf ax = Some (leading 0 ds)" using ax True by simp
      moreover from this have "ax \<noteq> 0" by (auto simp: bsf_def find_Some_iff)
      ultimately show ?thesis using False by (simp only: fullZeros_def Let_def ax_def [symmetric] if_True if_False simp_thms bind.bind_lunit)
    next
      case far: False
      then have "leading 0 (y4 @ y5) = 64" unfolding y45 leading_take by simp
      then have "bsf ax = None" using ax by simp
      then have z: "ax = 0" by (auto simp: bsf_def find_None_iff intro!: bit_word_eqI)
      have upd: "y6[26 := 1] = drop 64 ds @ 1 # replicate 5 0"
        using ds unfolding y6 by (simp add: list_update_append numeral_eq_Suc)
      have "bit (set_bit 26 (NOT (zero_mask y6) :: u32)) n \<longleftrightarrow> y6[26 := 1] ! n \<noteq> 0" if "n < 32" for n
        using that assms(3) by (auto simp: bit_set_bit_iff bit_not_iff bit_zero_mask nth_list_update possible_bit_word)
      then have b: "bsf (set_bit 26 (NOT (zero_mask y6) :: u32)) = (if leading 0 (y6[26 := 1]) < 32 then Some (leading 0 (y6[26 := 1])) else None)"
        unfolding bsf_def using assms(3) by (simp add: find_leading [of 32])
      have "leading 0 (y6[26 := 1]) = leading 0 ds - 64"
        unfolding upd using far by (simp add: leading_stopped leading_drop)
      moreover have "leading 0 ds \<le> 90" using leading_le [of 0 ds] ds by simp
      ultimately have "bsf (set_bit 26 (NOT (zero_mask y6) :: u32)) = Some (leading 0 ds - 64)" using b by simp
      then show ?thesis using False z far by (simp only: fullZeros_def Let_def ax_def [symmetric] if_True if_False simp_thms bind.bind_lunit) simp
    qed
  qed
qed

section \<open>The text\<close>

lemma fullEncode_eq:
  assumes "length y0 = 32" "length y1 = 32" "src = y0 @ y1"
  defines "raw \<equiv> chars_of (limbs58 18 src)"
  shows "\<exists>y4 y5 y6 ds. fullEncode y0 y1 = Some (y4, y5, y6) \<and> length y4 = 32 \<and> length y5 = 32 \<and> length y6 = 32 \<and>
    y4 @ y5 @ y6 = ds @ replicate 6 0 \<and> leading 0 ds = leading 49 raw \<and> (\<forall>i < 90. ds ! i < 1 \<longleftrightarrow> raw ! i = 49) \<and>
    R2B y4 @ R2B y5 @ R2B y6 = raw @ replicate 6 49"
proof -
  let ?D = "concat (map (fixed 58 5) (limbs58 18 src))"
  obtain y5 z where F: "fullProduct (vpshufb encFullBswap y0 @ vpshufb encFullBswap y1) = Some (y5, z)" "map unat (fullLimbs y5 z) = limbs58 18 src"
    using fullLimbs_eq [OF assms(1-3)] by blast
  define im where "im = fullLimbs y5 z"
  obtain v4 v5 v6 where D: "fullDigits im = (v4, v5, v6)" by (cases "fullDigits im")
  have im: "length im = 18" "\<forall>x \<in> set im. unat x < 58 ^ 5" "map unat im = limbs58 18 src"
    using F(2) limbs58_less [of 18 src] length_fixed [of "58 ^ 5" 18] unfolding im_def [symmetric]
    by (metis length_map, metis (no_types, lifting) image_eqI set_map, simp)
  note v = fullDigits_eq [OF im(1,2) D, unfolded im(3)]
  define ds :: bytes where "ds = map of_nat ?D"
  have small: "\<forall>d \<in> set ?D. d < 58" using fixed_less [of 58 _ 5] by auto
  have chars: "map byte_char8 ds = raw" unfolding ds_def raw_def chars_of_def map_map
    by (intro map_cong refl) (use small byte_char8_digit in auto)
  have inj: "byte_char8 d = byte_char8 0 \<longleftrightarrow> d = 0" if d: "d \<in> set ds" for d
  proof -
    obtain k where k: "k \<in> set ?D" "d = of_nat k" using d unfolding ds_def set_map by blast
    then have lt: "k < 58" using small by blast
    then have "unat d = k" unfolding k(2) by (simp add: unat_of_nat_small)
    then have "d = 0 \<longleftrightarrow> k = 0" by (simp add: word_unat_eq_iff)
    then show ?thesis using lt byte_char8_digit [OF lt] byte_char8_digit [of 0] b58_char_eq_1 [OF lt] unfolding k(2) by simp
  qed
  have z: "byte_char8 0 = 49" using byte_char8_digit [of 0] by simp
  have lds: "length ds = 90" using arg_cong [OF chars, of length] by (simp add: raw_def)
  have lead: "leading 0 ds = leading 49 raw" using map_leading [OF inj, of ds] unfolding z chars by simp
  have nth: "ds ! i < 1 \<longleftrightarrow> raw ! i = 49" if "i < 90" for i
    using inj [of "ds ! i"] that lds unfolding chars [symmetric] z by (simp add: word_less_nat_alt word_unat_eq_iff)
  have "R2B v4 @ R2B v5 @ R2B v6 = map byte_char8 (v4 @ v5 @ v6)" using v(1-3) by (simp only: R2B_eq map_append)
  also have "\<dots> = raw @ replicate 6 49" unfolding v(4) using chars z by (simp add: ds_def del: replicate_numeral)
  finally have R: "R2B v4 @ R2B v5 @ R2B v6 = raw @ replicate 6 49" .
  have "fullEncode y0 y1 = Some (v4, v5, v6)"
    by (simp only: fullEncode_def F(1) bind.bind_lunit prod.case D [unfolded im_def])
  then show ?thesis using v(1-3) v(4) [folded ds_def] lead nth R by blast
qed

text \<open>How many characters are skipped when the first byte is not zero.\<close>

lemma skip64:
  assumes "length src = 64" "hd src \<noteq> 0"
  defines "raw \<equiv> chars_of (limbs58 18 src)"
  shows "leading 49 raw = 90 - length (b58_encode src)" "2 + of_bool (raw ! 2 = 49) = leading 49 raw"
proof -
  have ne: "src \<noteq> []" using assms(1) by auto
  have le: "length (b58_encode src) \<le> 88" using b58_encode_length64 [OF assms(1)] by simp
  have cap: "256 ^ 64 \<le> (58 ^ 5 :: nat) ^ 18" "length (b58_encode src) \<le> 5 * 18" using le by simp_all
  show l: "leading 49 raw = 90 - length (b58_encode src)"
    using raw_text(3) [OF assms(1) cap assms(2) ne] by (simp add: raw_def)
  have "86 < length (b58_encode src)" using assms(1,2) ne by (rule leading_few) simp
  then have "leading 49 raw = 2 \<or> leading 49 raw = Suc 2" using l le by linarith
  moreover from this have "raw ! 2 = 49 \<longleftrightarrow> leading 49 raw = Suc 2" by (rule leading_at) (simp add: raw_def)
  ultimately show "2 + of_bool (raw ! 2 = 49) = leading 49 raw" by auto
qed

section \<open>What the kernels return\<close>

text \<open>The stores with a text that ends 32 bytes before the end of the last one.\<close>

lemma put_full:
  assumes "load256 frame skip = Some (take 32 e)" "load256 frame (skip + 32) = Some (take 32 (drop 32 e))" "load256 frame 58 = Some (drop (n - 32) e)"
    "length e = n" "64 \<le> n" "n \<le> 96" "n \<le> length w" "skip + n = 90"
  shows "do { y8 \<leftarrow> load256 frame skip;
          dst \<leftarrow> put256 w 0 y8;
          y8 \<leftarrow> load256 frame (skip + 32);
          dst \<leftarrow> put256 dst 32 y8;
          ax \<leftarrow> isub 90 skip;
          g ax dst } = g n (take 64 e @ drop 64 w)"
    "do { y8 \<leftarrow> load256 frame 58; a \<leftarrow> isub n 32; dst \<leftarrow> put256 (take 64 e @ drop 64 w) a y8; h dst } = h (e @ drop n w)"
proof -
  note st = three_stores [OF assms(4-7)]
  have s: "isub 90 skip = Some n" "isub n 32 = Some (n - 32)" using assms(5,8) by (auto simp: isub_def)
  show "do { y8 \<leftarrow> load256 frame skip;
          dst \<leftarrow> put256 w 0 y8;
          y8 \<leftarrow> load256 frame (skip + 32);
          dst \<leftarrow> put256 dst 32 y8;
          ax \<leftarrow> isub 90 skip;
          g ax dst } = g n (take 64 e @ drop 64 w)"
    by (simp only: assms(1,2) st s bind.bind_lunit)
  show "do { y8 \<leftarrow> load256 frame 58; a \<leftarrow> isub n 32; dst \<leftarrow> put256 (take 64 e @ drop 64 w) a y8; h dst } = h (e @ drop n w)"
    by (simp only: assms(3) st s bind.bind_lunit)
qed

lemma full_parts:
  assumes "length src = 64" "raw = chars_of (limbs58 18 src)"
  obtains y0 y1 y4 y5 y6 ds where "load256 src 0 = Some y0" "load256 src 32 = Some y1" "length y0 = 32" "length y1 = 32" "src = y0 @ y1"
    "fullEncode y0 y1 = Some (y4, y5, y6)" "length y4 = 32" "length y5 = 32" "length y6 = 32" "y4 @ y5 @ y6 = ds @ replicate 6 0"
    "leading 0 ds = leading 49 raw" "R2B y4 @ R2B y5 @ R2B y6 = raw @ replicate 6 49" "idx y4 2 = Some (y4 ! 2)" "y4 ! 2 < 1 \<longleftrightarrow> raw ! 2 = 49"
proof -
  define y0 where "y0 = take 32 src"
  define y1 where "y1 = drop 32 src"
  have y: "length y0 = 32" "length y1 = 32" "src = y0 @ y1" using assms(1) by (simp_all add: y0_def y1_def)
  have ld: "load256 src 0 = Some y0" "load256 src 32 = Some y1" using assms(1) by (simp_all add: load256_def y0_def y1_def)
  obtain y4 y5 y6 ds where E: "fullEncode y0 y1 = Some (y4, y5, y6)" "length y4 = 32" "length y5 = 32" "length y6 = 32"
    "y4 @ y5 @ y6 = ds @ replicate 6 0" "leading 0 ds = leading 49 raw" "\<forall>i < 90. ds ! i < 1 \<longleftrightarrow> raw ! i = 49"
    "R2B y4 @ R2B y5 @ R2B y6 = raw @ replicate 6 49"
    using fullEncode_eq [OF y, folded assms(2)] by blast
  have lds: "length ds = 90" using arg_cong [OF E(5), of length] E(2-4) by simp
  have "y4 ! 2 = (y4 @ y5 @ y6) ! 2" using E(2) by (simp add: nth_append)
  also have "\<dots> = ds ! 2" unfolding E(5) using lds by (simp add: nth_append)
  finally have "y4 ! 2 < 1 \<longleftrightarrow> raw ! 2 = 49" using E(7) by simp
  moreover have "idx y4 2 = Some (y4 ! 2)" using E(2) by simp
  ultimately show thesis using that ld y E by blast
qed

text \<open>The frame, and what is loaded of it.\<close>

lemma full_frame:
  assumes "length src = 64" "R2B y4 @ R2B y5 @ R2B y6 = chars_of (limbs58 18 src) @ replicate 6 49"
    "frame = R2B y4 @ R2B y5 @ R2B y6 @ rest"
  defines "e \<equiv> b58_encode src"
  defines "n \<equiv> length e"
  defines "skip \<equiv> 90 - n"
  shows "64 \<le> n" "n \<le> 88" "n \<le> 96" "skip + n = 90"
    and "load256 frame skip = Some (take 32 e)" "load256 frame (skip + 32) = Some (take 32 (drop 32 e))" "load256 frame 58 = Some (drop (n - 32) e)"
    and "drop skip frame = e @ replicate 6 49 @ rest"
proof -
  define raw where "raw = chars_of (limbs58 18 src)"
  have lr: "length raw = 90" by (simp add: raw_def)
  show n: "64 \<le> n" "n \<le> 88" "n \<le> 96" using b58_encode_length64 [OF assms(1)] length_src_le [of src] assms(1) by (simp_all add: n_def e_def)
  then have cap: "256 ^ 64 \<le> (58 ^ 5 :: nat) ^ 18" "length (b58_encode src) \<le> 5 * 18" by (simp_all add: n_def e_def)
  show sn: "skip + n = 90" using n by (simp add: skip_def)
  have dr: "drop skip raw = e" using raw_text(1) [OF assms(1) cap] by (simp add: raw_def skip_def n_def e_def)
  have frame: "frame = raw @ replicate 6 49 @ rest" using assms(2) unfolding assms(3) by (metis append_assoc raw_def)
  then show "drop skip frame = e @ replicate 6 49 @ rest" using dr sn lr by simp
  show "load256 frame skip = Some (take 32 e)" "load256 frame (skip + 32) = Some (take 32 (drop 32 e))" "load256 frame 58 = Some (drop (n - 32) e)"
    unfolding frame by (rule raw_loads [OF lr sn n(1) dr])+
qed

lemma encode64FullAppendAVX2_asm_eq:
  assumes "length src = 64" "hd src \<noteq> 0" "88 \<le> length w"
  shows "encode64FullAppendAVX2_asm rest src w = Some (length (b58_encode src), b58_encode src @ drop (length (b58_encode src)) w)"
proof -
  obtain y0 y1 y4 y5 y6 ds where E: "load256 src 0 = Some y0" "load256 src 32 = Some y1" "fullEncode y0 y1 = Some (y4, y5, y6)" "idx y4 2 = Some (y4 ! 2)"
    and R: "R2B y4 @ R2B y5 @ R2B y6 = chars_of (limbs58 18 src) @ replicate 6 49" "y4 ! 2 < 1 \<longleftrightarrow> chars_of (limbs58 18 src) ! 2 = 49"
    using full_parts [OF assms(1) refl] by metis
  note F = full_frame [OF assms(1) R(1) refl]
  have skip: "2 + of_bool (y4 ! 2 < 1) = 90 - length (b58_encode src)" using skip64 [OF assms(1,2)] R(2) by simp
  have nw: "length (b58_encode src) \<le> length w" using F(2) assms(3) by linarith
  note P = put_full [OF F(5-7) refl F(1,3) nw F(4)]
  show ?thesis unfolding encode64FullAppendAVX2_asm_def by (simp only: E prod.case bind.bind_lunit Let_def skip P)
qed

text \<open>The raw characters with the number of those to skip.\<close>

lemma encode64FullOwnedAVX2_asm_eq:
  assumes "length src = 64" "hd src \<noteq> 0" "96 \<le> length w"
  shows "encode64FullOwnedAVX2_asm src w =
    Some (leading 49 (chars_of (limbs58 18 src)), chars_of (limbs58 18 src) @ replicate 6 49 @ drop 96 w)"
proof -
  obtain y0 y1 y4 y5 y6 ds where E: "load256 src 0 = Some y0" "load256 src 32 = Some y1" "fullEncode y0 y1 = Some (y4, y5, y6)" "idx y4 2 = Some (y4 ! 2)"
    and l: "length y4 = 32" "length y5 = 32" "length y6 = 32"
    and R: "R2B y4 @ R2B y5 @ R2B y6 = chars_of (limbs58 18 src) @ replicate 6 49" "y4 ! 2 < 1 \<longleftrightarrow> chars_of (limbs58 18 src) ! 2 = 49"
    using full_parts [OF assms(1) refl] by metis
  have lR: "length (R2B y4) = 32" "length (R2B y5) = 32" "length (R2B y6) = 32" using l by (simp_all add: R2B_eq)
  have skip: "2 + of_bool (y4 ! 2 < 1) = leading 49 (chars_of (limbs58 18 src))" using skip64 [OF assms(1,2)] R(2) by simp
  have s: "put256 w 0 (R2B y4) = Some (R2B y4 @ drop 32 w)"
    "put256 (R2B y4 @ drop 32 w) 32 (R2B y5) = Some (R2B y4 @ R2B y5 @ drop 64 w)"
    "put256 (R2B y4 @ R2B y5 @ drop 64 w) 64 (R2B y6) = Some (R2B y4 @ R2B y5 @ R2B y6 @ drop 96 w)"
    using lR assms(3) by (subst put256_eq; simp)+
  have "R2B y4 @ R2B y5 @ R2B y6 @ drop 96 w = chars_of (limbs58 18 src) @ replicate 6 49 @ drop 96 w"
    using R(1) by (metis append_assoc)
  then show ?thesis
    unfolding encode64FullOwnedAVX2_asm_def by (simp only: E prod.case bind.bind_lunit Let_def skip s)
qed

text \<open>With \<open>clobberTail\<close>, up to 32 bytes behind the text change.\<close>

lemma encode64FullAVX2_asm_eq:
  assumes "length src = 64" "26 \<le> length rest" "if clobberTail then 96 \<le> length w else 88 \<le> length w"
  defines "e \<equiv> b58_encode src"
  shows "encode64FullAVX2_asm rest src w clobberTail =
    Some (length e, if clobberTail then take 96 (e @ replicate 6 49 @ rest) @ drop 96 w else e @ drop (length e) w)"
proof -
  define raw where "raw = chars_of (limbs58 18 src)"
  obtain y0 y1 y4 y5 y6 ds where ld: "load256 src 0 = Some y0" "load256 src 32 = Some y1" "fullEncode y0 y1 = Some (y4, y5, y6)"
    and l0: "length y0 = 32" "length y1 = 32" "src = y0 @ y1"
    and l: "length y4 = 32" "length y5 = 32" "length y6 = 32" "y4 @ y5 @ y6 = ds @ replicate 6 0" "leading 0 ds = leading 49 raw"
    and R: "R2B y4 @ R2B y5 @ R2B y6 = chars_of (limbs58 18 src) @ replicate 6 49"
    using full_parts [OF assms(1) raw_def] unfolding raw_def by metis
  define n where "n = length e"
  define skip where "skip = 90 - n"
  define frame where "frame = R2B y4 @ R2B y5 @ R2B y6 @ rest"
  note F = full_frame [OF assms(1) R frame_def, folded e_def, folded n_def, folded skip_def]
  have ne: "src \<noteq> []" using assms(1) by auto
  have ix: "idx src 0 = Some (src ! 0)" using assms(1) by simp
  have r8: "(if src ! 0 \<noteq> 0 then 0 else fullInputZeros y0 y1) = leading 0 src"
    using ne unfolding fullInputZeros_eq [OF l0(1,2)] l0(3) [symmetric] by (cases src) simp_all
  have "leading 0 ds < 32" if "leading 0 src = 0"
  proof -
    have "hd src \<noteq> 0" using that ne by (cases src) (simp_all split: if_splits)
    from skip64(2) [OF assms(1) this] show ?thesis unfolding l(5) raw_def by (cases "chars_of (limbs58 18 src) ! 2 = 49") simp_all
  qed
  then have z: "fullZeros (leading 0 src) y4 y5 y6 = Some (leading 49 raw)" using fullZeros_eq [OF l(1-4)] l(5) by simp
  have cap: "256 ^ 64 \<le> (58 ^ 5 :: nat) ^ 18" "length (b58_encode src) \<le> 5 * 18" using F(2) by (simp_all add: n_def e_def)
  have s: "isub (leading 49 raw) (leading 0 src) = Some skip"
    using raw_text(2) [OF assms(1) cap] by (simp add: raw_def skip_def n_def e_def)
  have nw: "n \<le> length w" using F(2) assms(3) by (simp split: if_splits)
  note P = put_full [OF F(5-7) n_def [symmetric] F(1,3) nw F(4)]
  show ?thesis
  proof (cases clobberTail)
    case True
    have lf: "length frame = 96 + length rest" using l by (simp add: frame_def R2B_eq)
    have d: "take 32 (drop (skip + 64) frame) = take 32 (drop 64 (e @ replicate 6 49 @ rest))"
      unfolding F(8) [symmetric] by (simp add: add.commute)
    have ld3: "load256 frame (skip + 64) = Some (take 32 (drop (skip + 64) frame))"
      using lf F(1,4) assms(2) by (simp add: load256_def)
    have "put256 (take 64 e @ drop 64 w) 64 (take 32 (drop (skip + 64) frame)) =
        Some (take 64 e @ take 32 (drop (skip + 64) frame) @ drop 96 w)"
      using F(1,2,4) n_def True assms(2,3) lf by (subst put256_eq) simp_all
    moreover have "take 64 e @ take 32 (drop (skip + 64) frame) = take 96 (e @ replicate 6 49 @ rest)"
    proof -
      have "take 96 (e @ replicate 6 49 @ rest) = take 64 (e @ replicate 6 49 @ rest) @ take 32 (drop 64 (e @ replicate 6 49 @ rest))"
        by (simp only: take_add [symmetric]) simp
      then show ?thesis unfolding d using F(1) n_def by simp
    qed
    ultimately have p: "put256 (take 64 e @ drop 64 w) 64 (take 32 (drop (skip + 64) frame)) =
        Some (take 96 (e @ replicate 6 49 @ rest) @ drop 96 w)" by (metis append_assoc)
    show ?thesis
      unfolding encode64FullAVX2_asm_def
      by (simp only: ld ix prod.case bind.bind_lunit Let_def r8 z s P frame_def [symmetric] True if_True n_def [symmetric] ld3 p)
  next
    case False
    show ?thesis
      unfolding encode64FullAVX2_asm_def
      by (simp only: ld ix prod.case bind.bind_lunit Let_def r8 z s P frame_def [symmetric] False if_False Option.bind_assoc n_def [symmetric])
  qed
qed

section \<open>The contract\<close>

definition asm_encode :: "bytes \<Rightarrow> 'a text_kernels_scheme \<Rightarrow> 'a text_kernels_scheme" where
  "asm_encode rest k = k
     \<lparr>encode32AppendAVX2 := (\<lambda>src dst. the (encode32AppendAVX2_asm src dst)),
      encode64DirectAVX2 := (\<lambda>src dst. the (encode64DirectAVX2_asm src dst)),
      encode64FullAppendAVX2 := (\<lambda>src dst. the (encode64FullAppendAVX2_asm rest src dst)),
      encode64FullOwnedAVX2 := (\<lambda>src dst. the (encode64FullOwnedAVX2_asm src dst)),
      encode64FullAVX2 := (\<lambda>src dst clobberTail. the (encode64FullAVX2_asm rest src dst clobberTail))\<rparr>"

lemma stores_text:
  assumes "length (b58_encode src) \<le> room" "room \<le> length w"
  shows "stores room src w (length (b58_encode src), b58_encode src @ drop (length (b58_encode src)) w)"
  using assms by (simp add: stores_def)

lemma asm_encode_documented:
  assumes "26 \<le> length rest"
  shows "encode_documented (asm_encode rest k)"
proof -
  have le: "length (b58_encode src) \<le> 88" if "length src = 64" for src using b58_encode_length64 [OF that] by simp
  have "stores (length (b58_encode src)) src w (the (encode32AppendAVX2_asm src w))" if "length src = 32" "44 \<le> length w" for src w
    using that b58_encode_length32 [OF that(1)] by (simp add: encode32AppendAVX2_asm_eq stores_text)
  moreover have "stores 88 src w (the (encode64DirectAVX2_asm src w))" if "length src = 64" "88 \<le> length w" for src w
    using that le [OF that(1)] by (simp add: encode64DirectAVX2_asm_eq stores_text)
  moreover have "stores 88 src w (the (encode64FullAppendAVX2_asm rest src w))" if "length src = 64" "hd src \<noteq> 0" "88 \<le> length w" for src w
    using that le [OF that(1)] by (simp add: encode64FullAppendAVX2_asm_eq stores_text)
  moreover have "stores 96 src w (the (encode64FullAVX2_asm rest src w True))" if "length src = 64" "length w = 96" for src w
    using that le [OF that(1)] length_src_le [of src] assms by (simp add: encode64FullAVX2_asm_eq stores_def min_absorb2)
  ultimately show ?thesis
    unfolding encode_documented_def asm_encode_def by (simp add: encode64FullOwnedAVX2_asm_eq)
qed

end
