(* ===== verification/Asm_Decode.thy ===== *)
theory Asm_Decode
  imports Asm_Fused Asm_Matmul
begin

text \<open>
  The four fused decoders (\<open>decode_fused_amd64.s\<close>): characters to digits, digits to limbs, the product
  with the widened table and one chain of carries that stores the words.  A kernel is \<open>None\<close> where it
  would read or write outside its arrays; otherwise it is the status for the Go code and the array
  behind \<open>dst\<close>.  They meet the contract \<open>decode_documented\<close>.
\<close>

section \<open>The kernels\<close>

text \<open>\<open>ADCL\<close>: the sum and the carry.\<close>

definition adc32 :: "u32 \<Rightarrow> u32 \<Rightarrow> bool \<Rightarrow> u32 \<times> bool" where
  "adc32 a b cf = (a + b + of_bool cf, 2 ^ 32 \<le> unat a + unat b + of_bool cf)"

definition store32 :: "bytes \<Rightarrow> nat \<Rightarrow> u32 \<Rightarrow> bytes option" where
  "store32 dst a w = on_slice dst a (a + 4) (\<lambda>_. Some (le_bytes 4 w))"

text \<open>
  The words, from the last to the first: the low half of a quadword, the high half of the next one
  and the carry.  The flag tells whether something is left above the first word.
\<close>

definition fusedWords :: "nat \<Rightarrow> bytes \<Rightarrow> bytes \<Rightarrow> (bool \<times> bytes) option" where
  "fusedWords nw bin dst =
     do { ax \<leftarrow> load32 bin (8 * (nw - 1));
          dst \<leftarrow> store32 dst (4 * (nw - 1)) (bswap32 ax);
          (cf, dst) \<leftarrow> foldM (\<lambda>k (cf, dst).
              do { lo \<leftarrow> load32 bin (8 * k);
                   hi \<leftarrow> load32 bin (8 * k + 12);
                   let (ax, cf) = adc32 lo hi cf;
                   dst \<leftarrow> store32 dst (4 * k) (bswap32 ax);
                   Some (cf, dst) })
            (rev [0..<nw - 1]) (False, dst);
          hi \<leftarrow> load32 bin 4;
          let (ax, cf) = adc32 hi 0 cf;
          Some (ax \<noteq> 0, dst) }"

definition fusedStatus :: "bytes \<Rightarrow> nat \<Rightarrow> bytes \<Rightarrow> bytes \<Rightarrow> (nat \<times> bytes) option" where
  "fusedStatus s nw bin dst =
     do { (large, dst) \<leftarrow> fusedWords nw bin dst;
          if large then Some (2, dst)
          else do {
            c \<leftarrow> idx s 0;
            d \<leftarrow> idx dst 0;
            Some (if c = 49 \<or> d = 0 then 4 else 0, dst) } }"

text \<open>The limbs lie in groups of three, each group in sixteen bytes of the frame.\<close>

definition fusedProduct32 :: "bytes \<Rightarrow> bytes list option" where
  "fusedProduct32 im =
     foldM (\<lambda>i acc.
         do { y8 \<leftarrow> vpbroadcastd im (4 * (4 * (i div 3) + i mod 3));
              foldM (\<lambda>c. macBlock (mem_of 8 (concat (decFusedTable32 True))) y8 (2 * i + c) (c + 0))
                [if i < 4 then 0 else 1..<2] acc })
       [0..<9] (replicate 2 (replicate 32 0))"

definition fusedProduct64 :: "bytes \<Rightarrow> bytes list option" where
  "fusedProduct64 im =
     foldM (\<lambda>i acc.
         do { y8 \<leftarrow> vpbroadcastd im (4 * (4 * (i div 3) + i mod 3));
              foldM (\<lambda>c. macBlock (mem_of 8 (concat (decFusedTable64 True))) y8 (4 * i + c) (c + 0))
                [if i < 4 then 0 else if i < 9 then 1 else if i < 13 then 2 else 3..<4] acc })
       [0..<18] (replicate 4 (replicate 32 0))"

definition load128 :: "bytes \<Rightarrow> nat \<Rightarrow> bytes option" where
  "load128 mem a = subslice mem a (a + 16)"

definition decode32FusedAVX2_asm :: "bytes \<Rightarrow> nat \<Rightarrow> bytes \<Rightarrow> (nat \<times> bytes) option" where
  "decode32FusedAVX2_asm s n dst =
     do { r8 \<leftarrow> isub 45 n;
          x0 \<leftarrow> load128 s 0;
          a \<leftarrow> isub 15 r8;
          x \<leftarrow> load128 s a;
          let y0 = x0 @ x;
          a \<leftarrow> isub n 16;
          x \<leftarrow> load128 s a;
          let y1 = x @ x;
          let (y0, bad) = FUSED_C2D y0 (replicate 32 0);
          let (y1, bad) = FUSED_C2D y1 bad;
          if vpmovmskb bad \<noteq> 0 then Some (1, dst)
          else do {
            let y9 = vpsubb (replicate 16 (of_nat r8) @ replicate 16 0) decFusedIota;
            let y0 = vpshufb y9 y0;
            let y1 = vpsrldq 1 y1;
            bin \<leftarrow> fusedProduct32 (FUSED_HORNER y0 @ FUSED_HORNER y1);
            fusedStatus s 8 (concat bin) dst } }"

definition decode32Fused43AVX2_asm :: "bytes \<Rightarrow> bytes \<Rightarrow> (nat \<times> bytes) option" where
  "decode32Fused43AVX2_asm s dst =
     do { x0 \<leftarrow> load128 s 0;
          x \<leftarrow> load128 s 13;
          let y0 = x0 @ x;
          x \<leftarrow> load128 s 27;
          let y1 = x @ x;
          let (y0, bad) = FUSED_C2D y0 (replicate 32 0);
          let (y1, bad) = FUSED_C2D y1 bad;
          if vpmovmskb bad \<noteq> 0 then Some (1, dst)
          else do {
            let y0 = vpshufb decFusedPad43 y0;
            let y1 = vpsrldq 1 y1;
            bin \<leftarrow> fusedProduct32 (FUSED_HORNER y0 @ FUSED_HORNER y1);
            fusedStatus s 8 (concat bin) dst } }"

text \<open>\<open>R11\<close> is what the padding takes of the second chunk, zero when it ends in the first.\<close>

definition decode64FusedAVX2_asm :: "bytes \<Rightarrow> nat \<Rightarrow> bytes \<Rightarrow> (nat \<times> bytes) option" where
  "decode64FusedAVX2_asm s n dst =
     do { r8 \<leftarrow> isub 90 n;
          let r11 = (if r8 < 15 then 0 else r8 - 15);
          x0 \<leftarrow> load128 s 0;
          a \<leftarrow> isub (15 + r11) r8;
          x \<leftarrow> load128 s a;
          let y0 = x0 @ x;
          a \<leftarrow> isub 30 r8;
          x1 \<leftarrow> load128 s a;
          x \<leftarrow> load128 s (a + 15);
          let y1 = x1 @ x;
          a \<leftarrow> isub 60 r8;
          x2 \<leftarrow> load128 s a;
          a \<leftarrow> isub n 16;
          x \<leftarrow> load128 s a;
          let y2 = x2 @ x;
          let (y0, bad) = FUSED_C2D y0 (replicate 32 0);
          let (y1, bad) = FUSED_C2D y1 bad;
          let (y2, bad) = FUSED_C2D y2 bad;
          if vpmovmskb bad \<noteq> 0 then Some (1, dst)
          else do {
            let y9 = vpsubb (replicate 16 (of_nat r8) @ replicate 16 (of_nat r11)) decFusedIota;
            let y0 = vpshufb y9 y0;
            let y2 = vpshufb decFusedTail y2;
            bin \<leftarrow> fusedProduct64 (FUSED_HORNER y0 @ FUSED_HORNER y1 @ FUSED_HORNER y2);
            fusedStatus s 16 (concat bin) dst } }"

definition decode64Fused87AVX2_asm :: "bytes \<Rightarrow> bytes \<Rightarrow> (nat \<times> bytes) option" where
  "decode64Fused87AVX2_asm s dst =
     do { x0 \<leftarrow> load128 s 0;
          x \<leftarrow> load128 s 12;
          let y0 = x0 @ x;
          x1 \<leftarrow> load128 s 27;
          x \<leftarrow> load128 s 42;
          let y1 = x1 @ x;
          x2 \<leftarrow> load128 s 57;
          x \<leftarrow> load128 s 71;
          let y2 = x2 @ x;
          let (y0, bad) = FUSED_C2D y0 (replicate 32 0);
          let (y1, bad) = FUSED_C2D y1 bad;
          let (y2, bad) = FUSED_C2D y2 bad;
          if vpmovmskb bad \<noteq> 0 then Some (1, dst)
          else do {
            let y0 = vpshufb decFusedPad87 y0;
            let y2 = vpshufb decFusedTail y2;
            bin \<leftarrow> fusedProduct64 (FUSED_HORNER y0 @ FUSED_HORNER y1 @ FUSED_HORNER y2);
            fusedStatus s 16 (concat bin) dst } }"

section \<open>The chain of carries\<close>

lemma fixed_Suc_front: "fixed b (Suc k) n = n div b ^ k mod b # fixed b k n"
  by (induction k arbitrary: n) (simp_all add: div_mult2_eq)

lemma be_bytes_block: "be_bytes (m + k) n = be_bytes m (n div 256 ^ k) @ be_bytes k n"
proof -
  have "fixed 256 (m + k) n = fixed 256 m (n div 256 ^ k) @ fixed 256 k n"
    by (induction k arbitrary: n) (simp_all add: div_mult2_eq)
  then show ?thesis by (simp add: be_bytes_def)
qed

lemma be_bytes_mod: "be_bytes k (n mod 256 ^ k) = be_bytes k n"
proof -
  have "fixed 256 k (n mod 256 ^ k) = fixed 256 k n"
    by (rule bval_inj [where b = 256]) (auto simp: bval_fixed dest: fixed_less [rotated])
  then show ?thesis by (simp add: be_bytes_def)
qed

lemma le_bytes_bswap32: "le_bytes 4 (bswap32 w) = be_bytes 4 (unat w)"
  by (simp add: bswap32_def le_bytes_word) (simp add: le_bytes_def)

text \<open>Both halves of a quadword.\<close>

lemma load_halves:
  assumes "k < length ws"
  shows "load32 (mem_of 8 ws) (8 * k) = Some (of_nat (unat (ws ! k :: u64) mod 2 ^ 32))"
    and "load32 (mem_of 8 ws) (8 * k + 4) = Some (of_nat (unat (ws ! k) div 2 ^ 32))"
proof -
  let ?v = "unat (ws ! k)"
  have lt: "?v div 2 ^ 32 < 2 ^ 32" using unat_lt_pow [of "ws ! k"] by (intro less_mult_imp_div_less) simp
  have "be_bytes (4 + 4) ?v = be_bytes 4 (?v div 2 ^ 32) @ be_bytes 4 ?v"
    by (subst be_bytes_block) simp
  then have b: "le_bytes 8 (ws ! k) = rev (be_bytes 4 (?v mod 2 ^ 32)) @ rev (be_bytes 4 (?v div 2 ^ 32))"
    using be_bytes_mod [of 4 ?v] by (simp add: le_bytes_def)
  have d: "drop (8 * k) (mem_of 8 ws) = le_bytes 8 (ws ! k) @ mem_of 8 (drop (Suc k) ws)"
    using assms by (simp add: drop_mem_of Cons_nth_drop_Suc [symmetric]) (simp add: mem_of_def)
  have le: "8 * k + 8 \<le> 8 * length ws" using assms by simp
  have v: "le_word (rev (be_bytes 4 n)) = (of_nat n :: u32)" if "n < 2 ^ 32" for n
    using that by (simp add: le_word_def bytes_val_be_bytes)
  show "load32 (mem_of 8 ws) (8 * k) = Some (of_nat (?v mod 2 ^ 32))"
    using le v [of "?v mod 2 ^ 32"] by (simp add: load32_def d b)
  have "drop (8 * k + 4) (mem_of 8 ws) = drop 4 (drop (8 * k) (mem_of 8 ws))" by (simp add: add.commute)
  then show "load32 (mem_of 8 ws) (8 * k + 4) = Some (of_nat (?v div 2 ^ 32))"
    using le v [OF lt] by (simp add: load32_def d b)
qed

lemma adc32_eq:
  assumes "a < 2 ^ 32" "b < 2 ^ 32"
  shows "adc32 (of_nat a) (of_nat b) cf = (of_nat ((a + b + of_bool cf) mod 2 ^ 32), (a + b + of_bool cf) div 2 ^ 32 = 1)"
proof -
  have u: "unat (of_nat a :: u32) = a" "unat (of_nat b :: u32) = b" using assms by (simp_all add: unat_of_nat_small)
  have "(of_nat a + of_nat b + of_bool cf :: u32) = of_nat (a + b + of_bool cf)" by simp
  also have "\<dots> = of_nat ((a + b + of_bool cf) mod 2 ^ 32)"
    by (simp only: word_unat_eq_iff unat_of_nat) simp
  moreover have "2 ^ 32 \<le> a + b + of_bool cf \<longleftrightarrow> (a + b + of_bool cf) div 2 ^ 32 = 1"
  proof
    assume "2 ^ 32 \<le> a + b + of_bool cf"
    moreover have "a + b + of_bool cf < 2 * 2 ^ 32" using assms by (cases cf) simp_all
    ultimately show "(a + b + of_bool cf) div 2 ^ 32 = 1" by (intro div_nat_eqI) simp_all
  qed (metis div_greater_zero_iff zero_less_one)
  ultimately show ?thesis by (simp add: adc32_def u)
qed

lemma store32_word: "a + 4 \<le> length dst \<Longrightarrow>
    store32 dst a (bswap32 w) = Some (take a dst @ be_bytes 4 (unat w) @ drop (a + 4) dst)"
  unfolding store32_def by (subst on_slice_Some [where w = "be_bytes 4 (unat w)"]) (simp_all add: le_bytes_bswap32)


text \<open>
  After the words from \<open>k\<close> on, the array holds the value of the accumulators from \<open>k\<close> on, and what is
  left of it is the high half of accumulator \<open>k\<close> and the carry.
\<close>

abbreviation words_val :: "u64 list \<Rightarrow> nat" where
  "words_val ws \<equiv> bval (2 ^ 32) (map unat ws)"

lemma be_bytes_low: "be_bytes k (a * 256 ^ k + b) = be_bytes k b"
proof -
  have "(a * 256 ^ k + b) mod 256 ^ k = b mod 256 ^ k" by simp
  then show ?thesis by (metis be_bytes_mod)
qed

lemma carry_step:
  fixes w S B hi cf :: nat
  assumes "S div B = hi + cf" "hi < 2 ^ 32" "cf \<le> 1" "0 < B"
  defines "t \<equiv> w mod 2 ^ 32 + hi + cf"
  shows "(w * B + S) div B mod 2 ^ 32 = t mod 2 ^ 32"
    and "(w * B + S) div (B * 2 ^ 32) = w div 2 ^ 32 + of_bool (t div 2 ^ 32 = 1)"
proof -
  have q: "(w * B + S) div B = w + hi + cf" using assms(1,4) by simp
  have w: "w + hi + cf = t + w div 2 ^ 32 * 2 ^ 32"
    unfolding t_def using div_mult_mod_eq [of w "2 ^ 32"] by linarith
  show "(w * B + S) div B mod 2 ^ 32 = t mod 2 ^ 32" unfolding q w by (rule mod_mult_self1)
  have "w mod 2 ^ 32 < 2 ^ 32" by simp
  then have "t < 2 * 2 ^ 32" unfolding t_def using assms(2,3) by linarith
  then have "t div 2 ^ 32 < 2" by (rule less_mult_imp_div_less)
  then have "t div 2 ^ 32 = of_bool (t div 2 ^ 32 = 1)" by auto
  moreover have "(w * B + S) div (B * 2 ^ 32) = (w + hi + cf) div 2 ^ 32" by (simp only: div_mult2_eq q)
  moreover have "(w + hi + cf) div 2 ^ 32 = w div 2 ^ 32 + t div 2 ^ 32"
    unfolding w by (subst div_mult_self1) simp_all
  ultimately show "(w * B + S) div (B * 2 ^ 32) = w div 2 ^ 32 + of_bool (t div 2 ^ 32 = 1)" by simp
qed

lemma fusedWords_chain:
  assumes "length ws = nw" "length dst = 4 * nw" "k \<le> nw - 1" "0 < nw"
  shows "\<exists>cf. foldM (\<lambda>k (cf, dst).
              do { lo \<leftarrow> load32 (mem_of 8 ws) (8 * k);
                   hi \<leftarrow> load32 (mem_of 8 ws) (8 * k + 12);
                   let (ax, cf) = adc32 lo hi cf;
                   dst \<leftarrow> store32 dst (4 * k) (bswap32 ax);
                   Some (cf, dst) })
            (rev [k..<nw - 1]) (False, take (4 * (nw - 1)) dst @ be_bytes 4 (unat (last ws))) =
      Some (cf, take (4 * k) dst @ be_bytes (4 * (nw - k)) (words_val (drop k ws))) \<and>
      words_val (drop k ws) div (2 ^ 32) ^ (nw - k) = unat (ws ! k) div 2 ^ 32 + of_bool cf"
  using assms(3)
proof (induction k rule: inc_induct)
  case base
  obtain ws' x where ws: "ws = ws' @ [x]" using assms(1,4) by (cases ws rule: rev_cases) simp_all
  then have "drop (nw - 1) ws = [last ws]" "ws ! (nw - 1) = last ws" using assms(1) by auto
  then show ?case using assms(4) by (intro exI [of _ False]) simp
next
  case (step k)
  let ?m = "nw - Suc k" and ?S = "words_val (drop (Suc k) ws)" and ?V = "words_val (drop k ws)"
  let ?w = "unat (ws ! k)" and ?h = "unat (ws ! Suc k) div 2 ^ 32"
  let ?B = "256 ^ (4 * ?m) :: nat"
  have k: "Suc k < nw" "nw - k = Suc ?m" using step.hyps by simp_all
  have B: "(2 ^ 32) ^ ?m = ?B" "(2 ^ 32) ^ Suc ?m = ?B * 2 ^ 32" by (simp_all add: power_mult)
  obtain cf where IH: "foldM (\<lambda>k (cf, dst).
              do { lo \<leftarrow> load32 (mem_of 8 ws) (8 * k);
                   hi \<leftarrow> load32 (mem_of 8 ws) (8 * k + 12);
                   let (ax, cf) = adc32 lo hi cf;
                   dst \<leftarrow> store32 dst (4 * k) (bswap32 ax);
                   Some (cf, dst) })
            (rev [Suc k..<nw - 1]) (False, take (4 * (nw - 1)) dst @ be_bytes 4 (unat (last ws))) =
      Some (cf, take (4 * Suc k) dst @ be_bytes (4 * ?m) ?S)" "?S div ?B = ?h + of_bool cf"
    using step.IH unfolding B by blast
  let ?t = "?w mod 2 ^ 32 + ?h + of_bool cf"
  have d: "drop k ws = ws ! k # drop (Suc k) ws" using k assms(1) by (simp add: Cons_nth_drop_Suc)
  have V: "?V = ?w * ?B + ?S"
    unfolding d using assms(1) by (simp add: bval_Cons power_mult)
  have h: "?h < 2 ^ 32" using unat_lt_pow [of "ws ! Suc k"] by (intro less_mult_imp_div_less) simp
  have "(of_bool cf :: nat) \<le> 1" "0 < ?B" by simp_all
  note C = carry_step [OF IH(2) h this, of ?w]
  have hi: "load32 (mem_of 8 ws) (8 * k + 12) = Some (of_nat ?h)"
  proof -
    have "8 * k + 12 = 8 * Suc k + 4" by simp
    then show ?thesis using load_halves(2) [of "Suc k" ws] k(1) assms(1) by (simp only:)
  qed
  have "take (4 * k) (take (4 * Suc k) dst @ be_bytes (4 * ?m) ?S) = take (4 * k) dst"
    "drop (4 * k + 4) (take (4 * Suc k) dst @ be_bytes (4 * ?m) ?S) = be_bytes (4 * ?m) ?S"
    using k assms(2) by simp_all
  then have store: "store32 (take (4 * Suc k) dst @ be_bytes (4 * ?m) ?S) (4 * k) (bswap32 (of_nat (?t mod 2 ^ 32))) =
      Some (take (4 * k) dst @ be_bytes 4 (?t mod 2 ^ 32) @ be_bytes (4 * ?m) ?S)"
    using k assms(2) by (subst store32_word) (simp_all add: unat_of_nat_small)
  have "?t mod 2 ^ 32 = ?V div ?B mod 256 ^ 4" 
  proof -
    have "(256 :: nat) ^ 4 = 2 ^ 32" by simp
    then show ?thesis unfolding V by (simp only: C(1))
  qed
  then have "be_bytes 4 (?t mod 2 ^ 32) = be_bytes 4 (?V div ?B mod 256 ^ 4)" by (rule arg_cong)
  also have "\<dots> = be_bytes 4 (?V div ?B)" by (rule be_bytes_mod)
  finally have "be_bytes 4 (?t mod 2 ^ 32) @ be_bytes (4 * ?m) ?S = be_bytes 4 (?V div ?B) @ be_bytes (4 * ?m) ?V"
    unfolding V be_bytes_low by simp
  also have "\<dots> = be_bytes (4 * (nw - k)) ?V" unfolding k(2) by (simp flip: be_bytes_block)
  finally have out: "be_bytes 4 (?t mod 2 ^ 32) @ be_bytes (4 * ?m) ?S = be_bytes (4 * (nw - k)) ?V" .
  have "?V div (2 ^ 32) ^ (nw - k) = ?w div 2 ^ 32 + of_bool (?t div 2 ^ 32 = 1)"
    using C(2) unfolding k(2) B V by simp
  moreover have "[k..<nw - 1] = k # [Suc k..<nw - 1]" using k by (simp add: upt_conv_Cons)
  moreover have "adc32 (of_nat (?w mod 2 ^ 32)) (of_nat ?h) cf = (of_nat (?t mod 2 ^ 32), ?t div 2 ^ 32 = 1)"
    using h by (intro adc32_eq) simp_all
  ultimately show ?case
    using IH(1) hi load_halves(1) [of k ws] k assms(1) store out
    by (intro exI [of _ "?t div 2 ^ 32 = 1"]) (simp add: foldM_single)
qed

lemma fusedWords_eq:
  assumes "length ws = nw" "length dst = 4 * nw" "0 < nw" "unat (hd ws) \<le> 2 ^ 64 - 2 ^ 33"
  shows "fusedWords nw (mem_of 8 ws) dst = Some ((2 ^ 32) ^ nw \<le> words_val ws, be_bytes (4 * nw) (words_val ws))"
proof -
  have last: "ws ! (nw - 1) = last ws" using assms(1,3) by (metis last_conv_nth length_greater_0_conv)
  have hd: "ws ! 0 = hd ws" using assms(1,3) by (metis hd_conv_nth length_greater_0_conv)
  obtain cf where C: "foldM (\<lambda>k (cf, dst).
              do { lo \<leftarrow> load32 (mem_of 8 ws) (8 * k);
                   hi \<leftarrow> load32 (mem_of 8 ws) (8 * k + 12);
                   let (ax, cf) = adc32 lo hi cf;
                   dst \<leftarrow> store32 dst (4 * k) (bswap32 ax);
                   Some (cf, dst) })
            (rev [0..<nw - 1]) (False, take (4 * (nw - 1)) dst @ be_bytes 4 (unat (last ws))) =
      Some (cf, be_bytes (4 * nw) (words_val ws))"
      "words_val ws div (2 ^ 32) ^ nw = unat (hd ws) div 2 ^ 32 + of_bool cf"
    using fusedWords_chain [OF assms(1,2) _ assms(3), of 0] by (auto simp: hd)
  let ?h = "unat (hd ws) div 2 ^ 32"
  have h: "?h < 2 ^ 32 - 1" using assms(4) by (simp add: div_less_iff_less_mult)
  have large: "\<exists>ax b. adc32 (of_nat ?h) 0 cf = (ax, b) \<and> (ax \<noteq> 0 \<longleftrightarrow> (2 ^ 32) ^ nw \<le> words_val ws)"
  proof -
    have lt: "?h + of_bool cf < 2 ^ 32" using h by (cases cf) simp_all
    then have u: "unat (of_nat (?h + of_bool cf) :: u32) = ?h + of_bool cf"
      by (intro unat_of_nat_small) (simp del: of_bool_eq)
    have "adc32 (of_nat ?h) (of_nat 0) cf = (of_nat ((?h + 0 + of_bool cf) mod 2 ^ 32), (?h + 0 + of_bool cf) div 2 ^ 32 = 1)"
      using h by (intro adc32_eq) simp_all
    moreover have "(?h + 0 + of_bool cf) mod 2 ^ 32 = ?h + of_bool cf" using lt by (simp only: add_0_right mod_less)
    ultimately have "adc32 (of_nat ?h) 0 cf = (of_nat (?h + of_bool cf), (?h + 0 + of_bool cf) div 2 ^ 32 = 1)"
      by (simp only: semiring_1_class.of_nat_0)
    moreover have "(of_nat (?h + of_bool cf) :: u32) \<noteq> 0 \<longleftrightarrow> words_val ws div (2 ^ 32) ^ nw \<noteq> 0"
      unfolding C(2) using u by (metis unat_eq_0)
    moreover have "words_val ws div (2 ^ 32) ^ nw \<noteq> 0 \<longleftrightarrow> (2 ^ 32) ^ nw \<le> words_val ws"
      by (simp add: div_eq_0_iff not_less)
    ultimately show ?thesis by blast
  qed
  then obtain ax b where A: "adc32 (of_nat ?h) 0 cf = (ax, b)" "ax \<noteq> 0 \<longleftrightarrow> (2 ^ 32) ^ nw \<le> words_val ws" by blast
  have load1: "load32 (mem_of 8 ws) (8 * (nw - 1)) = Some (of_nat (unat (last ws) mod 2 ^ 32))"
    unfolding last [symmetric] using assms(1,3) by (intro load_halves) simp
  have load0: "load32 (mem_of 8 ws) 4 = Some (of_nat ?h)"
    using load_halves(2) [of 0 ws] assms(1,3) by (simp add: hd)
  have store: "store32 dst (4 * (nw - 1)) (bswap32 (of_nat (unat (last ws) mod 2 ^ 32))) =
      Some (take (4 * (nw - 1)) dst @ be_bytes 4 (unat (last ws)))"
    using assms(2,3) be_bytes_mod [of 4 "unat (last ws)"]
    by (subst store32_word) (simp_all add: unat_of_nat_small diff_mult_distrib2)
  show ?thesis
    unfolding fusedWords_def load1 Option.bind.bind_lunit store C(1) load0 prod.case A(1)
    using A(2) by (simp add: Let_def)
qed


section \<open>The product\<close>

text \<open>The limbs of the chunks, as they lie in the frame and as one number.\<close>

abbreviation frame_of :: "bytes list \<Rightarrow> bytes" where
  "frame_of chunks \<equiv> mem_of 4 (concat (map limbs16 chunks))"

definition chunk_limbs :: "bytes list \<Rightarrow> u64 list" where
  "chunk_limbs chunks = concat (map (\<lambda>a. map ucast (take 3 (limbs16 a))) chunks)"

lemma length_limbs16 [simp]: "length (limbs16 a) = 4"
  by (simp add: limbs16_def)

lemma length_chunk_limbs [simp]: "length (chunk_limbs chunks) = 3 * length chunks"
  by (induction chunks) (simp_all add: chunk_limbs_def)

lemma frame_broadcast:
  assumes "i < 3 * length chunks"
  shows "\<exists>m. vpbroadcastd (frame_of chunks) (4 * (4 * (i div 3) + i mod 3)) = Some m \<and> filled32 m \<and>
    (ucast (low32 m) :: u64) = chunk_limbs chunks ! i"
proof -
  let ?ws = "concat (map limbs16 chunks)" and ?k = "4 * (i div 3) + i mod 3"
  have d: "i div 3 < length chunks" "i mod 3 < 3" using assms by (simp_all add: less_mult_imp_div_less mult.commute)
  have rows: "\<forall>r \<in> set (map limbs16 chunks). length r = 4" by simp
  have len: "length ?ws = 4 * length chunks" using length_concat_rows [OF rows] by simp
  have lt: "?k < 4 * length chunks" using d by (intro row_index) simp_all
  have nth: "?ws ! ?k = limbs16 (chunks ! (i div 3)) ! (i mod 3)"
    using concat_rows_nth [OF rows, of "i div 3" "i mod 3"] d by simp
  have "?k + 1 \<le> length ?ws" using lt len by simp
  then have "subslice (mem_of 4 ?ws) (4 * ?k) (4 * ?k + 4) = Some (mem_of 4 (take 1 (drop ?k ?ws)))"
    by (intro subslice_mem_of) simp_all
  moreover have "take 1 (drop ?k ?ws) = [?ws ! ?k]" using lt len by (simp add: take_Suc hd_drop_conv_nth)
  ultimately have "vpbroadcastd (mem_of 4 ?ws) (4 * ?k) = Some (concat (replicate 8 (le_bytes 4 (?ws ! ?k))))"
    by (simp only: vpbroadcastd_def mem_of_single Option.bind.bind_lunit)
  moreover have "chunk_limbs chunks ! i = ucast (?ws ! ?k)"
    using concat_rows_nth [of "map (\<lambda>a. map ucast (take 3 (limbs16 a))) chunks" 3 "i div 3" "i mod 3"] d
    by (simp add: chunk_limbs_def nth)
  ultimately show ?thesis
    using filled32_broadcast [of "le_bytes 4 (?ws ! ?k)"] by (simp add: le_word_bytes_width)
qed

lemma fused_tables:
  "decFusedTable32 True = decWide32 True" "decFusedTable64 True = wide decTable64"
  unfolding decFusedTable32_def decFusedTable64_def wide_tables using table_shapes
  by (subst widen_wide; simp add: list_all_iff)+

interpretation blocks_fused64: row_unit "macBlock (mem_of 8 (concat (decFusedTable64 True)))" "\<lambda>y. ucast (low32 y)" filled32
  flatten "\<lambda>acc. \<forall>y \<in> set acc. length y = 32" 4 4 decTable64
  unfolding fused_tables using table_shapes by (intro vector_unit) (simp add: list_all_iff)

lemma fusedProduct32_eq:
  assumes "3 \<le> length chunks"
  shows "\<exists>y. fusedProduct32 (frame_of chunks) = Some y \<and> (\<forall>z \<in> set y. length z = 32) \<and>
    flatten y = map (dec_sum (chunk_limbs chunks) decTable32 9) [0..<8]"
proof -
  let ?lo = "\<lambda>i :: nat. if i < 4 then 0 else 1" and ?im = "chunk_limbs chunks"
  have "\<exists>y. foldM (\<lambda>i acc. do { m \<leftarrow> vpbroadcastd (frame_of chunks) (4 * (4 * (i div 3) + i mod 3));
        foldM (\<lambda>c. macBlock (mem_of 8 (concat (decWide32 True))) m (2 * i + c) (c + 0)) [?lo i..<2] acc })
        [0..<9] (replicate 2 (replicate 32 0)) = Some y \<and>
      (\<forall>z \<in> set y. length z = 32) \<and> length y = length (replicate 2 (replicate 32 (0 :: u8))) \<and>
      flatten y = fold (\<lambda>i. macRow (?im ! i) (decTable32 ! i) (4 * ?lo i) (4 * 2) (4 * 0)) [0..<9] (flatten (replicate 2 (replicate 32 0)))"
    using assms by (intro blocks_dec32.rows frame_broadcast) (simp_all add: table_shapes)
  moreover have "fold (\<lambda>i. macRow (?im ! i) (decTable32 ! i) (4 * ?lo i) 8 0) [0..<9] (replicate (0 + 8) 0) = replicate 0 0 @ map (dec_sum ?im decTable32 9) [0..<8]"
    by (intro decode_columns) (simp add: decode_blocks decTable32_nth)
  ultimately show ?thesis unfolding fusedProduct32_def fused_tables(1) by (auto simp: flatten_zero simp del: replicate_numeral)
qed

lemma fused_blocks:
  "i < 18 \<Longrightarrow> covers (4 * (if i < 4 then 0 else if i < 9 then 1 else if i < 13 then 2 else 3)) 16 (decTable64 ! i)"
proof -
  have "\<forall>i \<in> set [0..<18]. covers (4 * (if i < 4 then 0 else if i < 9 then 1 else if i < 13 then 2 else 3)) 16 (decTable64 ! i)"
    by (simp add: upt_rec decTable64_def coversI replicate_numeral)
  from bspec [OF this, of i] show "i < 18 \<Longrightarrow> ?thesis" by (simp only: set_upt atLeastLessThan_iff le0 simp_thms)
qed

lemma fusedProduct64_eq:
  assumes "length chunks = 6"
  shows "\<exists>y. fusedProduct64 (frame_of chunks) = Some y \<and> (\<forall>z \<in> set y. length z = 32) \<and>
    flatten y = map (dec_sum (chunk_limbs chunks) decTable64 18) [0..<16]"
proof -
  let ?lo = "\<lambda>i :: nat. if i < 4 then 0 else if i < 9 then 1 else if i < 13 then 2 else 3" and ?im = "chunk_limbs chunks"
  have "\<exists>y. foldM (\<lambda>i acc. do { m \<leftarrow> vpbroadcastd (frame_of chunks) (4 * (4 * (i div 3) + i mod 3));
        foldM (\<lambda>c. macBlock (mem_of 8 (concat (decFusedTable64 True))) m (4 * i + c) (c + 0)) [?lo i..<4] acc })
        [0..<18] (replicate 4 (replicate 32 0)) = Some y \<and>
      (\<forall>z \<in> set y. length z = 32) \<and> length y = length (replicate 4 (replicate 32 (0 :: u8))) \<and>
      flatten y = fold (\<lambda>i. macRow (?im ! i) (decTable64 ! i) (4 * ?lo i) (4 * 4) (4 * 0)) [0..<18] (flatten (replicate 4 (replicate 32 0)))"
    using assms by (intro blocks_fused64.rows frame_broadcast) (simp_all add: table_shapes)
  moreover have "fold (\<lambda>i. macRow (?im ! i) (decTable64 ! i) (4 * ?lo i) 16 0) [0..<18] (replicate (0 + 16) 0) = replicate 0 0 @ map (dec_sum ?im decTable64 18) [0..<16]"
    by (intro decode_columns) (simp add: fused_blocks decTable64_nth)
  ultimately show ?thesis unfolding fusedProduct64_def by (auto simp: flatten_zero simp del: replicate_numeral)
qed

text \<open>The registers stored one behind the other are the accumulators in memory.\<close>

lemma concat_registers: "\<forall>z \<in> set y. length z = 32 \<Longrightarrow> concat y = mem_of 8 (flatten y)"
proof (induction y)
  case (Cons z y)
  have "mem_of 8 (lanes 8 z :: u64 list) = concat (map (\<lambda>l. take 8 (drop (8 * l) z)) [0, 1, 2, 3])"
    using Cons.prems by (simp add: lanes4 mem_of_def le_bytes_word)
  also have "\<dots> = z"
  proof -
    have "z = take 8 z @ take 8 (drop 8 z) @ take 8 (drop 16 z) @ drop 24 z" for z :: bytes
      using append_take_drop_id [of 8 z] append_take_drop_id [of 8 "drop 8 z"] append_take_drop_id [of 8 "drop 16 z"] by simp
    from this [of z] show ?thesis using Cons.prems by simp
  qed
  finally show ?case using Cons by (simp add: mem_of_append)
qed simp


section \<open>The value of the chunks\<close>

lemma limbs16_values:
  assumes "length a = 16" "\<forall>d \<in> set (take 15 a). unat d < 58"
  shows "map unat (map ucast (take 3 (limbs16 a)) :: u64 list) = map (bval 58) [map unat (take 5 a), map unat (take 5 (drop 5 a)), map unat (take 5 (drop 10 a))]"
    and "\<forall>v \<in> set (map ucast (take 3 (limbs16 a)) :: u64 list). unat v < 58 ^ 5"
proof -
  have lt: "bval 58 (map unat (take 5 (drop k a))) < 58 ^ 5" if "k \<le> 10" for k
  proof -
    have "take 5 (drop k a) = drop k (take (k + 5) a)" by (simp add: take_drop add.commute)
    moreover have "set (drop k (take (k + 5) a)) \<subseteq> set (take 15 a)"
      using set_drop_subset [of k "take (k + 5) a"] set_take_subset_set_take [of "k + 5" 15 a] that by auto
    ultimately have "\<forall>d \<in> set (map unat (take 5 (drop k a))). d < 58" using assms(2) by auto
    from bval_less [OF this] show ?thesis using assms(1) that by simp
  qed
  have u: "unat (ucast (of_nat n :: u32) :: u64) = n" if "n < 58 ^ 5" for n
    using that by (simp add: unat_of_nat_small)
  have l: "take 3 (limbs16 a) = map (\<lambda>k. of_nat (bval 58 (map unat (take 5 (drop k a))))) [0, 5, 10]"
    by (simp add: limbs16_def upt_rec)
  show "map unat (map ucast (take 3 (limbs16 a)) :: u64 list) = map (bval 58) [map unat (take 5 a), map unat (take 5 (drop 5 a)), map unat (take 5 (drop 10 a))]"
    unfolding l using u [OF lt [of 0]] u [OF lt [of 5]] u [OF lt [of 10]] by simp
  show "\<forall>v \<in> set (map ucast (take 3 (limbs16 a)) :: u64 list). unat v < 58 ^ 5"
    unfolding l using u [OF lt [of 0]] u [OF lt [of 5]] u [OF lt [of 10]] lt [of 0] lt [of 5] lt [of 10] by simp
qed

lemma chunk_limbs_bounded:
  "\<forall>a \<in> set chunks. length a = 16 \<and> (\<forall>d \<in> set (take 15 a). unat d < 58) \<Longrightarrow> \<forall>v \<in> set (chunk_limbs chunks). unat v < 58 ^ 5"
  using limbs16_values(2) by (simp add: chunk_limbs_def) blast

lemma chunk_limbs_value:
  assumes "\<forall>a \<in> set chunks. length a = 16 \<and> (\<forall>d \<in> set (take 15 a). unat d < 58)"
  shows "bval (58 ^ 5) (map unat (chunk_limbs chunks)) = bval 58 (map unat (concat (map (take 15) chunks)))"
proof -
  define groups where "groups a = [map unat (take 5 a), map unat (take 5 (drop 5 a)), map unat (take 5 (drop 10 a))]" for a :: bytes
  have "map unat (chunk_limbs chunks) = map (bval 58) (concat (map groups chunks))"
    using assms limbs16_values(1) by (induction chunks) (simp_all add: chunk_limbs_def groups_def)
  moreover have "\<forall>g \<in> set (concat (map groups chunks)). length g = 5"
    using assms by (auto simp: groups_def)
  moreover have "concat (concat (map groups chunks)) = map unat (concat (map (take 15) chunks))"
  proof -
    have "concat (groups a) = map unat (take 15 a)" for a
    proof -
      have "take 15 a = take 5 a @ take 5 (drop 5 a) @ take 5 (drop 10 a)"
        using take_add [of 5 10 a] take_add [of 5 5 "drop 5 a"] by simp
      then show ?thesis by (simp add: groups_def)
    qed
    then show ?thesis by (induction chunks) simp_all
  qed
  ultimately show ?thesis using bval_concat [of "concat (map groups chunks)" 5 58] by simp
qed

text \<open>From the padded digits to the status.\<close>

definition fused_outcome :: "nat \<Rightarrow> bytes \<Rightarrow> nat \<times> bytes" where
  "fused_outcome nb s =
     (if 256 ^ nb \<le> str_val s then 2
      else if hd s = 49 \<or> hd (be_bytes nb (str_val s)) = 0 then 4 else 0, be_bytes nb (str_val s))"

lemma fusedStatus_eq:
  assumes "\<forall>z \<in> set y. length z = 32" "flatten y = ws" "length ws = nw" "length dst = 4 * nw" "0 < nw" "bounded (2 ^ 64 - 2 ^ 33) ws"
    "words_val ws = str_val s" "s \<noteq> []"
  shows "fusedStatus s nw (concat y) dst = Some (fused_outcome (4 * nw) s)"
proof -
  have "hd ws \<in> set ws" using assms(3,5) by (cases ws) simp_all
  then have "unat (hd ws) \<le> 2 ^ 64 - 2 ^ 33" using assms(6) unfolding bounded_def by blast
  from fusedWords_eq [OF assms(3,4,5) this]
  have "fusedWords nw (concat y) dst = Some ((2 ^ 32) ^ nw \<le> str_val s, be_bytes (4 * nw) (str_val s))"
    using concat_registers [OF assms(1)] assms(2,7) by simp
  moreover have "(2 ^ 32) ^ nw = (256 :: nat) ^ (4 * nw)" by (simp add: power_mult)
  moreover have "be_bytes (4 * nw) (str_val s) ! 0 = hd (be_bytes (4 * nw) (str_val s))"
    using assms(5) length_be_bytes [of "4 * nw" "str_val s"] by (metis hd_conv_nth length_greater_0_conv mult_pos_pos zero_less_numeral)
  moreover have "s ! 0 = hd s" using assms(8) by (simp add: hd_conv_nth)
  ultimately show ?thesis
    using assms(5,8) by (simp add: fusedStatus_def fused_outcome_def)
qed


section \<open>Validation\<close>

lemma vpmovmskb_or:
  "length v = length bad \<Longrightarrow>
    vpmovmskb (map2 (OR) (map (\<lambda>c. if b58_valid c then 0 else 255) v) bad) = 0 \<longleftrightarrow> list_all b58_valid v \<and> vpmovmskb bad = 0"
  unfolding vpmovmskb_0 by (induction v bad rule: list_induct2) (auto simp: bit_or_iff)

lemma vpmovmskb_zeros: "vpmovmskb (replicate n 0) = 0"
  by (simp add: vpmovmskb_0)

text \<open>The chunks read every character, and only characters of the string.\<close>

lemma chunks_cover:
  assumes "\<forall>i < length s. \<exists>a \<in> set as. a \<le> i \<and> i < a + 16"
  shows "list_all P s \<longleftrightarrow> list_all (\<lambda>a. list_all P (take 16 (drop a s))) as"
proof
  assume "list_all P s"
  then show "list_all (\<lambda>a. list_all P (take 16 (drop a s))) as"
    by (auto simp: list_all_iff dest!: in_set_takeD in_set_dropD)
next
  assume R: "list_all (\<lambda>a. list_all P (take 16 (drop a s))) as"
  have "P (s ! i)" if i: "i < length s" for i
  proof -
    obtain a where a: "a \<in> set as" "a \<le> i" "i < a + 16" using assms i by blast
    then have "take 16 (drop a s) ! (i - a) = s ! i" "i - a < length (take 16 (drop a s))" using i by auto
    then show ?thesis using R a(1) by (metis list_all_iff nth_mem)
  qed
  then show "list_all P s" by (simp add: list_all_length)
qed

lemma C2D_step:
  assumes "length v = 32" "length bad = 32"
  shows "\<exists>bad'. FUSED_C2D v bad = (map c2d_digit v, bad') \<and> length bad' = 32 \<and>
    (vpmovmskb bad' = 0 \<longleftrightarrow> list_all b58_valid v \<and> vpmovmskb bad = 0)"
  using assms vpmovmskb_or [of v bad] by (simp add: FUSED_C2D_eq)

lemma C2D_first:
  assumes "length v = 32"
  shows "\<exists>bad. FUSED_C2D v (replicate 32 0) = (map c2d_digit v, bad) \<and> length bad = 32 \<and>
    (vpmovmskb bad = 0 \<longleftrightarrow> list_all b58_valid v)"
  using C2D_step [OF assms, of "replicate 32 0"] by (simp add: vpmovmskb_zeros)

section \<open>Padding\<close>

definition digit8 :: "u8 \<Rightarrow> u8" where
  "digit8 c = of_nat (b58_digit c)"

lemma c2d_digits: "list_all b58_valid v \<Longrightarrow> map c2d_digit v = map digit8 v"
  by (auto simp: list_all_iff digit8_def c2d_digit_valid)

lemma unat_digit8: "b58_valid c \<Longrightarrow> unat (digit8 c) = b58_digit c"
proof -
  assume "b58_valid c"
  then have "b58_digit c < 58" by (rule b58_digit_less)
  then show ?thesis unfolding digit8_def by (intro unat_of_nat_small) simp
qed

lemma bval_digit8: "list_all b58_valid s \<Longrightarrow> bval 58 (map unat (replicate r 0 @ map digit8 s)) = str_val s"
proof -
  assume "list_all b58_valid s"
  then have "map unat (map digit8 s) = map b58_digit s" by (auto simp: list_all_iff unat_digit8)
  then show ?thesis unfolding map_append bval_append by (simp only: map_replicate unsigned_0 bval_replicate_0 str_val_def mult_0 add_0)
qed

lemma padded_digits: "list_all b58_valid s \<Longrightarrow> \<forall>d \<in> set (replicate r 0 @ map digit8 s). unat d < 58"
  using b58_digit_less by (auto simp: list_all_iff unat_digit8)

text \<open>Iota less the padding selects the digits moved down by the padding.\<close>

lemma pshufb_shift:
  assumes "r \<le> 100" "length h = 16"
  shows "pshufb (map2 (\<lambda>a b. b - a) (replicate 16 (of_nat r)) [0, 1, 2, 3, 4, 5, 6, 7, 8, 9, 10, 11, 12, 13, 14, 15]) h = take 16 (replicate r 0 @ h)"
proof (rule nth_equalityI)
  fix i
  assume "i < length (pshufb (map2 (\<lambda>a b. b - a) (replicate 16 (of_nat r)) [0, 1, 2, 3, 4, 5, 6, 7, 8, 9, 10, 11, 12, 13, 14, 15]) h)"
  then have i: "i < 16" by (simp add: pshufb_def)
  have iota: "[0, 1, 2, 3, 4, 5, 6, 7, 8, 9, 10, 11, 12, 13, 14, 15 :: u8] = map of_nat [0..<16]" by (simp add: upt_rec)
  let ?b = "of_nat i - of_nat r :: u8"
  have L: "pshufb (map2 (\<lambda>a b. b - a) (replicate 16 (of_nat r)) [0, 1, 2, 3, 4, 5, 6, 7, 8, 9, 10, 11, 12, 13, 14, 15]) h ! i =
      (if bit ?b 7 then 0 else h ! unat (?b AND 15))"
    unfolding iota using i by (simp add: pshufb_def)
  show "pshufb (map2 (\<lambda>a b. b - a) (replicate 16 (of_nat r)) [0, 1, 2, 3, 4, 5, 6, 7, 8, 9, 10, 11, 12, 13, 14, 15]) h ! i =
      take 16 (replicate r 0 @ h) ! i"
  proof (cases "i < r")
    case True
    have "?b = of_nat (256 + i - r)"
    proof -
      have "(of_nat (256 + i - r) :: u8) + of_nat r = of_nat (256 + i)" using True assms(1) by (simp flip: of_nat_add)
      also have "(of_nat (256 + i) :: u8) = of_nat i" by simp
      finally show ?thesis by (simp add: algebra_simps)
    qed
    then have "unat ?b = 256 + i - r" using True assms(1) by (simp only:) (intro unat_of_nat_small; simp)
    moreover have "(256 + i - r) div 128 = 1" using True assms(1) by (intro div_nat_eqI) simp_all
    ultimately have "unat ?b div 2 ^ 7 = 1" by simp
    then have "bit (unat ?b) 7" by (simp only: bit_iff_odd odd_one not_False_eq_True)
    then have "bit ?b 7" by (simp only: bit_unsigned_iff)
    then show ?thesis using L True i by (simp add: nth_append)
  next
    case False
    then have "?b = of_nat (i - r)" by (simp add: of_nat_diff)
    then have "unat ?b = i - r" using i by (simp only:) (intro unat_of_nat_small; simp)
    then have "unat ?b < 16" using i by simp
    then show ?thesis using L False i small_selector [of ?b] \<open>unat ?b = i - r\<close> by (simp add: nth_append)
  qed
qed (use assms(2) in \<open>simp add: pshufb_def\<close>)


section \<open>The decoders for 32 bytes\<close>

lemma FUSED_HORNER_frame:
  assumes "length a = 16" "length b = 16" "\<forall>d \<in> set (take 15 a) \<union> set (take 15 b). unat d < 58"
  shows "FUSED_HORNER (a @ b) = frame_of [a, b]"
  using FUSED_HORNER_eq [OF assms] by simp

lemma halves_selected:
  assumes "r \<le> 100" "r' \<le> 100" "length h = 16" "length h' = 16"
  shows "vpshufb (vpsubb (replicate 16 (of_nat r) @ replicate 16 (of_nat r')) decFusedIota) (h @ h') =
    take 16 (replicate r 0 @ h) @ take 16 (replicate r' 0 @ h')"
proof -
  let ?i = "[0, 1, 2, 3, 4, 5, 6, 7, 8, 9, 10, 11, 12, 13, 14, 15 :: u8]"
  have "vpsubb (replicate 16 (of_nat r) @ replicate 16 (of_nat r')) decFusedIota =
      map2 (\<lambda>a b. b - a) (replicate 16 (of_nat r)) ?i @ map2 (\<lambda>a b. b - a) (replicate 16 (of_nat r')) ?i"
    unfolding vpsubb_def fused_constants by (subst zip_append) (simp_all only: map_append length_replicate, simp)
  then have "vpshufb (vpsubb (replicate 16 (of_nat r) @ replicate 16 (of_nat r')) decFusedIota) (h @ h') =
      pshufb (map2 (\<lambda>a b. b - a) (replicate 16 (of_nat r)) ?i) h @ pshufb (map2 (\<lambda>a b. b - a) (replicate 16 (of_nat r')) ?i) h'"
    using assms(3,4) unfolding vpshufb_def by (simp only: take_append drop_append length_map length_zip length_replicate list.size) simp
  then show ?thesis using assms by (simp only: pshufb_shift)
qed

text \<open>Five limbs of three chunks: the padded digits from 0, 15 and 30 on.\<close>

lemma chunks32:
  assumes "length s = n" "32 \<le> n" "n \<le> 45" "r = 45 - n"
  defines "d \<equiv> replicate r 0 @ map digit8 s"
  shows "take 15 (take 16 (replicate r 0 @ map digit8 (take 16 s))) = take 15 d"
    and "take 15 (map digit8 (take 16 (drop (15 - r) s))) = take 15 (drop 15 d)"
    and "take 15 (drop 1 (map digit8 (take 16 (drop (n - 16) s))) @ [0]) = take 15 (drop 30 d)"
    and "d = take 15 d @ take 15 (drop 15 d) @ take 15 (drop 30 d)"
proof -
  have r: "r \<le> 13" "n = 45 - r" using assms(2-4) by simp_all
  show "take 15 (take 16 (replicate r 0 @ map digit8 (take 16 s))) = take 15 d"
    using r by (simp add: d_def take_map min_def)
  show "take 15 (map digit8 (take 16 (drop (15 - r) s))) = take 15 (drop 15 d)"
    using r by (simp add: d_def take_map drop_map)
  show "take 15 (drop 1 (map digit8 (take 16 (drop (n - 16) s))) @ [0]) = take 15 (drop 30 d)"
  proof -
    have "drop 1 (map digit8 (take 16 (drop (n - 16) s))) = map digit8 (take 15 (drop (n - 15) s))"
    proof -
      have "n - 15 = 1 + (n - 16)" using r by simp
      then show ?thesis by (simp only: drop_map drop_take drop_drop) simp
    qed
    moreover have "length (map digit8 (take 15 (drop (n - 15) s))) = 15" using r assms(1) by simp
    moreover have "take 15 (drop 30 d) = map digit8 (take 15 (drop (30 - r) s))"
      using r by (simp add: d_def take_map drop_map)
    moreover have "n - 15 = 30 - r" using r by simp
    ultimately show ?thesis by simp
  qed
  have "length d = 45" using assms(1-4) by (simp add: d_def)
  then show "d = take 15 d @ take 15 (drop 15 d) @ take 15 (drop 30 d)"
    using append_take_drop_id [of 15 d] append_take_drop_id [of 15 "drop 15 d"] by simp
qed

lemma dec_sum_prefix: "length im = n \<Longrightarrow> dec_sum (im @ im') t n = dec_sum im t n"
  unfolding dec_sum_def by (intro ext arg_cong [where f = sum_list] map_cong) (simp_all add: nth_append)

text \<open>Chunks that hold the padded digits are the limbs of the value.\<close>

lemma fused_chunks:
  assumes "list_all b58_valid s" "\<forall>a \<in> set chunks. length a = 16" "concat (map (take 15) chunks) = replicate r 0 @ map digit8 s"
  shows "\<forall>a \<in> set chunks. length a = 16 \<and> (\<forall>d \<in> set (take 15 a). unat d < 58)"
    and "\<forall>v \<in> set (chunk_limbs chunks). unat v < 58 ^ 5"
    and "bval (58 ^ 5) (map unat (chunk_limbs chunks)) = str_val s"
proof -
  have "set (take 15 a) \<subseteq> set (replicate r 0 @ map digit8 s)" if "a \<in> set chunks" for a
    unfolding assms(3) [symmetric] using that by auto
  then show chunks: "\<forall>a \<in> set chunks. length a = 16 \<and> (\<forall>d \<in> set (take 15 a). unat d < 58)"
    using padded_digits [OF assms(1), of r] assms(2) by blast
  show "\<forall>v \<in> set (chunk_limbs chunks). unat v < 58 ^ 5" by (rule chunk_limbs_bounded [OF chunks])
  show "bval (58 ^ 5) (map unat (chunk_limbs chunks)) = str_val s"
    unfolding chunk_limbs_value [OF chunks] assms(3) by (rule bval_digit8 [OF assms(1)])
qed

lemma fused_tail32:
  assumes "list_all b58_valid s" "length a = 16" "length b = 16" "length c = 16" "s \<noteq> []" "length dst = 32"
    "take 15 a @ take 15 b @ take 15 c = replicate r 0 @ map digit8 s"
  shows "do { bin \<leftarrow> fusedProduct32 (FUSED_HORNER (a @ b) @ FUSED_HORNER (c @ c)); fusedStatus s 8 (concat bin) dst } =
    Some (fused_outcome 32 s)"
proof -
  let ?im = "chunk_limbs [a, b, c]"
  have "\<forall>x \<in> set [a, b, c]. length x = 16" "concat (map (take 15) [a, b, c]) = replicate r 0 @ map digit8 s"
    using assms(2-4,7) by simp_all
  note C = fused_chunks [OF assms(1) this]
  have "FUSED_HORNER (a @ b) = frame_of [a, b]" "FUSED_HORNER (c @ c) = frame_of [c, c]"
    using C(1) by (intro FUSED_HORNER_frame; simp add: ball_Un)+
  then have f: "FUSED_HORNER (a @ b) @ FUSED_HORNER (c @ c) = frame_of [a, b, c, c]" by (simp add: mem_of_append)
  obtain y where Y: "fusedProduct32 (frame_of [a, b, c, c]) = Some y" "\<forall>z \<in> set y. length z = 32"
    "flatten y = map (dec_sum (chunk_limbs [a, b, c, c]) decTable32 9) [0..<8]"
    using fusedProduct32_eq [of "[a, b, c, c]"] by auto
  have im: "length ?im = 9" "chunk_limbs [a, b, c, c] = ?im @ chunk_limbs [c]" by (simp, simp add: chunk_limbs_def)
  then have F: "flatten y = decodeMatMul32 ?im (replicate 8 0)"
    unfolding Y(3) decodeMatMul32_columns by (simp only: dec_sum_prefix)
  have "fusedStatus s 8 (concat y) dst = Some (fused_outcome (4 * 8) s)"
    using Y(2) F dec32.product [OF im(1) C(2)] C(3) assms(5,6) by (intro fusedStatus_eq) auto
  then show ?thesis using Y(1) f by simp
qed

lemma fused_tail64:
  assumes "list_all b58_valid s" "length a = 16" "length b = 16" "length c = 16" "length e = 16" "length f = 16" "length g = 16"
    "s \<noteq> []" "length dst = 64"
    "take 15 a @ take 15 b @ take 15 c @ take 15 e @ take 15 f @ take 15 g = replicate r 0 @ map digit8 s"
  shows "do { bin \<leftarrow> fusedProduct64 (FUSED_HORNER (a @ b) @ FUSED_HORNER (c @ e) @ FUSED_HORNER (f @ g));
      fusedStatus s 16 (concat bin) dst } = Some (fused_outcome 64 s)"
proof -
  let ?im = "chunk_limbs [a, b, c, e, f, g]"
  have "\<forall>x \<in> set [a, b, c, e, f, g]. length x = 16"
    "concat (map (take 15) [a, b, c, e, f, g]) = replicate r 0 @ map digit8 s"
    using assms(2-7,10) by simp_all
  note C = fused_chunks [OF assms(1) this]
  have "FUSED_HORNER (a @ b) = frame_of [a, b]" "FUSED_HORNER (c @ e) = frame_of [c, e]" "FUSED_HORNER (f @ g) = frame_of [f, g]"
    using C(1) by (intro FUSED_HORNER_frame; simp add: ball_Un)+
  then have f: "FUSED_HORNER (a @ b) @ FUSED_HORNER (c @ e) @ FUSED_HORNER (f @ g) = frame_of [a, b, c, e, f, g]"
    by (simp add: mem_of_append)
  obtain y where Y: "fusedProduct64 (frame_of [a, b, c, e, f, g]) = Some y" "\<forall>z \<in> set y. length z = 32"
    "flatten y = map (dec_sum ?im decTable64 18) [0..<16]"
    using fusedProduct64_eq [of "[a, b, c, e, f, g]"] by auto
  have im: "length ?im = 18" by simp
  have F: "flatten y = decodeMatMul64 ?im (replicate 16 0)" unfolding Y(3) decodeMatMul64_columns ..
  have "fusedStatus s 16 (concat y) dst = Some (fused_outcome (4 * 16) s)"
    using Y(2) F dec64.product [OF im C(2)] C(3) assms(8,9) by (intro fusedStatus_eq) auto
  then show ?thesis using Y(1) f by simp
qed

lemma decode32FusedAVX2_asm_eq:
  assumes "length dst = 32" "length s = n" "32 \<le> n" "n \<le> 45"
  shows "decode32FusedAVX2_asm s n dst = Some (if list_all b58_valid s then fused_outcome 32 s else (1, dst))"
proof -
  define r where "r = 45 - n"
  have r: "r \<le> 13" "n = 45 - r" using assms(3,4) by (simp_all add: r_def)
  let ?x0 = "take 16 s" and ?x1 = "take 16 (drop (15 - r) s)" and ?x2 = "take 16 (drop (n - 16) s)"
  have len: "length ?x0 = 16" "length ?x1 = 16" "length ?x2 = 16" using assms(2) r by simp_all
  have loads: "load128 s 0 = Some ?x0" "load128 s (15 - r) = Some ?x1" "load128 s (n - 16) = Some ?x2"
    using assms(2) r by (simp_all add: load128_def)
  have l: "length (?x0 @ ?x1) = 32" "length (?x2 @ ?x2) = 32" using len by simp_all
  obtain bad0 where c0: "FUSED_C2D (?x0 @ ?x1) (replicate 32 0) = (map c2d_digit (?x0 @ ?x1), bad0)" "length bad0 = 32"
    "vpmovmskb bad0 = 0 \<longleftrightarrow> list_all b58_valid (?x0 @ ?x1)"
    using C2D_first [OF l(1)] by (elim exE conjE) (rule that)
  obtain bad where c1: "FUSED_C2D (?x2 @ ?x2) bad0 = (map c2d_digit (?x2 @ ?x2), bad)"
    "vpmovmskb bad = 0 \<longleftrightarrow> list_all b58_valid (?x2 @ ?x2) \<and> vpmovmskb bad0 = 0"
    using C2D_step [OF l(2) c0(2)] by (elim exE conjE) (rule that)
  have mask: "vpmovmskb bad = 0 \<longleftrightarrow> list_all b58_valid s"
  proof -
    have "vpmovmskb bad = 0 \<longleftrightarrow> list_all (\<lambda>a. list_all b58_valid (take 16 (drop a s))) [0, 15 - r, n - 16]"
      unfolding c1(2) c0(3) by auto
    also have "\<dots> \<longleftrightarrow> list_all b58_valid s"
      by (rule chunks_cover [symmetric]) (use assms(2) r in auto)
    finally show ?thesis .
  qed
  show ?thesis
  proof (cases "list_all b58_valid s")
    case False
    then show ?thesis
      using loads c0(1) c1(1) mask assms(3,4) r by (simp add: decode32FusedAVX2_asm_def flip: r_def)
  next
    case True
    define a where "a = take 16 (replicate r 0 @ map digit8 ?x0)"
    define b where "b = map digit8 ?x1"
    define c where "c = drop 1 (map digit8 ?x2) @ [0]"
    have v: "list_all b58_valid (?x0 @ ?x1)" "list_all b58_valid (?x2 @ ?x2)"
      using True by (auto simp: list_all_iff dest!: in_set_takeD in_set_dropD)
    have y: "vpshufb (vpsubb (replicate 16 (of_nat r) @ replicate 16 0) decFusedIota) (map c2d_digit (?x0 @ ?x1)) = a @ b"
      unfolding a_def b_def using halves_selected [of r 0 "map digit8 ?x0" "map digit8 ?x1"] r len
      by (simp add: c2d_digits [OF v(1)] flip: map_append)
    have y1: "vpsrldq 1 (map c2d_digit (?x2 @ ?x2)) = c @ c"
      using len unfolding c_def c2d_digits [OF v(2)] by (simp add: vpsrldq_def)
    have lens: "length a = 16" "length b = 16" "length c = 16"
      unfolding a_def b_def c_def using len r(1) by (simp_all add: min.absorb2)
    have "take 15 a @ take 15 b @ take 15 c = replicate r 0 @ map digit8 s"
      unfolding a_def b_def c_def chunks32(1-3) [OF assms(2-4) r_def] by (rule chunks32(4) [OF assms(2-4) r_def, symmetric])
    moreover have "s \<noteq> []" using assms(2,3) by auto
    ultimately have "do { bin \<leftarrow> fusedProduct32 (FUSED_HORNER (a @ b) @ FUSED_HORNER (c @ c)); fusedStatus s 8 (concat bin) dst } =
        Some (fused_outcome 32 s)" using fused_tail32 [OF True lens _ assms(1)] by blast
    then show ?thesis
      using loads c0(1) c1(1) mask True assms(3,4) r y y1
      by (simp add: decode32FusedAVX2_asm_def Let_def flip: r_def)
  qed
qed


text \<open>For 43 characters the offsets and the selector are constants.\<close>

lemma decode32Fused43AVX2_asm_eq:
  assumes "length s = 43"
  shows "decode32Fused43AVX2_asm s dst = decode32FusedAVX2_asm s 43 dst"
proof -
  let ?y = "vpsubb (replicate 16 (of_nat 2) @ replicate 16 0) decFusedIota"
  have sel: "vpshufb decFusedPad43 v = vpshufb ?y v" for v
    by (simp add: decFusedPad43_def fused_constants vpsubb_def vpshufb_def pshufb_def replicate_numeral)
  have "isub 45 43 = Some 2" "isub 15 2 = Some 13" "isub 43 16 = Some 27" by simp_all
  then show ?thesis
    unfolding decode32Fused43AVX2_asm_def decode32FusedAVX2_asm_def sel by (simp add: Let_def cong: if_cong)
qed

section \<open>The decoders for 64 bytes\<close>

lemma decFusedTail_select:
  "length x = 16 \<Longrightarrow> length z = 16 \<Longrightarrow> vpshufb decFusedTail (x @ z) = x @ drop 1 z @ [0]"
proof -
  assume len: "length x = 16" "length z = 16"
  obtain x0 x1 x2 x3 x4 x5 x6 x7 x8 x9 x10 x11 x12 x13 x14 x15
    where x: "x = [x0, x1, x2, x3, x4, x5, x6, x7, x8, x9, x10, x11, x12, x13, x14, x15]" using len(1) by (rule length16E)
  obtain z0 z1 z2 z3 z4 z5 z6 z7 z8 z9 z10 z11 z12 z13 z14 z15
    where z: "z = [z0, z1, z2, z3, z4, z5, z6, z7, z8, z9, z10, z11, z12, z13, z14, z15]" using len(2) by (rule length16E)
  show ?thesis unfolding x z by (simp add: decFusedTail_def vpshufb_def pshufb_def)
qed

lemma chunks64:
  assumes "length s = n" "64 \<le> n" "n \<le> 90" "r = 90 - n" "r' = (if r < 15 then 0 else r - 15)"
  defines "d \<equiv> replicate r 0 @ map digit8 s"
  shows "take 15 (take 16 (replicate r 0 @ map digit8 (take 16 s))) = take 15 d"
    and "take 15 (take 16 (replicate r' 0 @ map digit8 (take 16 (drop (15 + r' - r) s)))) = take 15 (drop 15 d)"
    and "take 15 (map digit8 (take 16 (drop (30 - r) s))) = take 15 (drop 30 d)"
    and "take 15 (map digit8 (take 16 (drop (45 - r) s))) = take 15 (drop 45 d)"
    and "take 15 (map digit8 (take 16 (drop (60 - r) s))) = take 15 (drop 60 d)"
    and "take 15 (drop 1 (map digit8 (take 16 (drop (n - 16) s))) @ [0]) = take 15 (drop 75 d)"
    and "d = take 15 d @ take 15 (drop 15 d) @ take 15 (drop 30 d) @ take 15 (drop 45 d) @ take 15 (drop 60 d) @ take 15 (drop 75 d)"
proof -
  have r: "r \<le> 26" "n = 90 - r" using assms(2-4) by simp_all
  show "take 15 (take 16 (replicate r 0 @ map digit8 (take 16 s))) = take 15 d"
    using r by (simp add: d_def take_map min_def)
  show "take 15 (take 16 (replicate r' 0 @ map digit8 (take 16 (drop (15 + r' - r) s)))) = take 15 (drop 15 d)"
  proof (cases "r < 15")
    case True
    then show ?thesis using assms(5) by (simp add: d_def take_map drop_map)
  next
    case False
    then obtain q where q: "r = 15 + q" by (metis le_Suc_ex not_less)
    then have "q \<le> 11" "r' = q" "15 + r' - r = 0" using r(1) assms(5) by simp_all
    then show ?thesis by (simp add: d_def q take_map drop_map)
  qed
  show "take 15 (map digit8 (take 16 (drop (30 - r) s))) = take 15 (drop 30 d)"
    "take 15 (map digit8 (take 16 (drop (45 - r) s))) = take 15 (drop 45 d)"
    "take 15 (map digit8 (take 16 (drop (60 - r) s))) = take 15 (drop 60 d)"
    using r by (simp_all add: d_def take_map drop_map)
  show "take 15 (drop 1 (map digit8 (take 16 (drop (n - 16) s))) @ [0]) = take 15 (drop 75 d)"
  proof -
    have n: "1 + (n - 16) = 75 - r" using r by simp
    have "drop 1 (map digit8 (take 16 (drop (n - 16) s))) = map digit8 (take 15 (drop (75 - r) s))"
      by (simp only: drop_map drop_take drop_drop n) simp
    moreover have "length (map digit8 (take 15 (drop (75 - r) s))) = 15" using r assms(1) by simp
    moreover have "take 15 (drop 75 d) = map digit8 (take 15 (drop (75 - r) s))"
      using r by (simp add: d_def take_map drop_map)
    ultimately show ?thesis by simp
  qed
  have "length d = 90" using assms(1-4) by (simp add: d_def)
  then show "d = take 15 d @ take 15 (drop 15 d) @ take 15 (drop 30 d) @ take 15 (drop 45 d) @ take 15 (drop 60 d) @ take 15 (drop 75 d)"
    using append_take_drop_id [of 15 d] append_take_drop_id [of 15 "drop 15 d"] append_take_drop_id [of 15 "drop 30 d"]
      append_take_drop_id [of 15 "drop 45 d"] append_take_drop_id [of 15 "drop 60 d"] by simp
qed


lemma decode64FusedAVX2_asm_eq:
  assumes "length dst = 64" "length s = n" "64 \<le> n" "n \<le> 90"
  shows "decode64FusedAVX2_asm s n dst = Some (if list_all b58_valid s then fused_outcome 64 s else (1, dst))"
proof -
  define r where "r = 90 - n"
  define r' where "r' = (if r < 15 then 0 else r - 15)"
  have r: "r \<le> 26" "n = 90 - r" using assms(3,4) by (simp_all add: r_def)
  have r': "r' \<le> 11" "r \<le> 15 + r'" "15 + r' - r \<le> 15" "15 - r \<le> 15 + r' - r" using r(1) by (auto simp: r'_def)
  define x0 where "x0 = take 16 s"
  define x1 where "x1 = take 16 (drop (15 + r' - r) s)"
  define x2 where "x2 = take 16 (drop (30 - r) s)"
  define x3 where "x3 = take 16 (drop (45 - r) s)"
  define x4 where "x4 = take 16 (drop (60 - r) s)"
  define x5 where "x5 = take 16 (drop (n - 16) s)"
  note x = x0_def x1_def x2_def x3_def x4_def x5_def
  have len: "length x0 = 16" "length x1 = 16" "length x2 = 16" "length x3 = 16" "length x4 = 16" "length x5 = 16"
    unfolding x using assms(2) r r' by simp_all
  have loads: "load128 s 0 = Some x0" "load128 s (15 + r' - r) = Some x1" "load128 s (30 - r) = Some x2"
    "load128 s (45 - r) = Some x3" "load128 s (60 - r) = Some x4" "load128 s (n - 16) = Some x5" "30 - r + 15 = 45 - r"
    unfolding x using assms(2) r r' by (simp_all add: load128_def)
  have l: "length (x0 @ x1) = 32" "length (x2 @ x3) = 32" "length (x4 @ x5) = 32" using len by simp_all
  obtain bad0 where c0: "FUSED_C2D (x0 @ x1) (replicate 32 0) = (map c2d_digit (x0 @ x1), bad0)" "length bad0 = 32"
    "vpmovmskb bad0 = 0 \<longleftrightarrow> list_all b58_valid (x0 @ x1)"
    using C2D_first [OF l(1)] by (elim exE conjE) (rule that)
  obtain bad1 where c1: "FUSED_C2D (x2 @ x3) bad0 = (map c2d_digit (x2 @ x3), bad1)" "length bad1 = 32"
    "vpmovmskb bad1 = 0 \<longleftrightarrow> list_all b58_valid (x2 @ x3) \<and> vpmovmskb bad0 = 0"
    using C2D_step [OF l(2) c0(2)] by (elim exE conjE) (rule that)
  obtain bad where c2: "FUSED_C2D (x4 @ x5) bad1 = (map c2d_digit (x4 @ x5), bad)" "length bad = 32"
    "vpmovmskb bad = 0 \<longleftrightarrow> list_all b58_valid (x4 @ x5) \<and> vpmovmskb bad1 = 0"
    using C2D_step [OF l(3) c1(2)] by (elim exE conjE) (rule that)
  have mask: "vpmovmskb bad = 0 \<longleftrightarrow> list_all b58_valid s"
  proof -
    have "vpmovmskb bad = 0 \<longleftrightarrow> list_all (\<lambda>a. list_all b58_valid (take 16 (drop a s))) [0, 15 + r' - r, 30 - r, 45 - r, 60 - r, n - 16]"
      unfolding c2(3) c1(3) c0(3) x by auto
    also have "\<dots> \<longleftrightarrow> list_all b58_valid s"
    proof (rule chunks_cover [symmetric], intro allI impI)
      fix i
      assume "i < length s"
      then have i: "i < 90 - r" using assms(2) r(2) by simp
      consider "i < 16" | "16 \<le> i" "i < 15 + r' - r + 16" | "15 + r' - r + 16 \<le> i" "i < 46 - r" | "46 - r \<le> i" "i < 61 - r"
        | "61 - r \<le> i" "i < 76 - r" | "76 - r \<le> i" by linarith
      then show "\<exists>a \<in> set [0, 15 + r' - r, 30 - r, 45 - r, 60 - r, n - 16]. a \<le> i \<and> i < a + 16"
      proof cases
        case 2
        then show ?thesis using r'(2,3) by simp
      next
        case 3
        then have "30 - r \<le> i \<and> i < 30 - r + 16" using r(1) r'(4) by linarith
        then show ?thesis by (simp del: One_nat_def)
      next
        case 4
        then have "45 - r \<le> i \<and> i < 45 - r + 16" using r(1) by linarith
        then show ?thesis by simp
      next
        case 5
        then have "60 - r \<le> i \<and> i < 60 - r + 16" using r(1) by linarith
        then show ?thesis by simp
      next
        case 6
        then have "n - 16 \<le> i \<and> i < n - 16 + 16" using r i by linarith
        then show ?thesis by simp
      qed simp
    qed
    finally show ?thesis .
  qed
  show ?thesis
  proof (cases "list_all b58_valid s")
    case False
    then show ?thesis
      using loads c0(1) c1(1) c2(1) mask assms(3,4) r r'
      by (simp add: decode64FusedAVX2_asm_def Let_def flip: r_def r'_def)
  next
    case True
    define a where "a = take 16 (replicate r 0 @ map digit8 x0)"
    define b where "b = take 16 (replicate r' 0 @ map digit8 x1)"
    define c where "c = map digit8 x2"
    define e where "e = map digit8 x3"
    define f where "f = map digit8 x4"
    define g where "g = drop 1 (map digit8 x5) @ [0]"
    have v: "list_all b58_valid (x0 @ x1)" "list_all b58_valid (x2 @ x3)" "list_all b58_valid (x4 @ x5)"
      unfolding x using True by (auto simp: list_all_iff dest!: in_set_takeD in_set_dropD)
    have y0: "vpshufb (vpsubb (replicate 16 (of_nat r) @ replicate 16 (of_nat r')) decFusedIota) (map c2d_digit (x0 @ x1)) = a @ b"
      unfolding a_def b_def c2d_digits [OF v(1)] unfolding map_append
      using r(1) r'(1) len by (intro halves_selected) simp_all
    have y1: "map c2d_digit (x2 @ x3) = c @ e" unfolding c_def e_def c2d_digits [OF v(2)] by simp
    have y2: "vpshufb decFusedTail (map c2d_digit (x4 @ x5)) = f @ g"
      unfolding f_def g_def c2d_digits [OF v(3)] unfolding map_append using len by (intro decFusedTail_select) simp_all
    have lens: "length a = 16" "length b = 16" "length c = 16" "length e = 16" "length f = 16" "length g = 16"
      unfolding a_def b_def c_def e_def f_def g_def using len r(1) r' by simp_all
    have "take 15 a @ take 15 b @ take 15 c @ take 15 e @ take 15 f @ take 15 g = replicate r 0 @ map digit8 s"
      unfolding a_def b_def c_def e_def f_def g_def x chunks64(1-6) [OF assms(2-4) r_def r'_def]
      by (rule chunks64(7) [OF assms(2-4) r_def r'_def, symmetric])
    moreover have "s \<noteq> []" using assms(2,3) by auto
    ultimately have "do { bin \<leftarrow> fusedProduct64 (FUSED_HORNER (a @ b) @ FUSED_HORNER (c @ e) @ FUSED_HORNER (f @ g));
        fusedStatus s 16 (concat bin) dst } = Some (fused_outcome 64 s)"
      using fused_tail64 [OF True lens _ assms(1)] by blast
    then show ?thesis
      using loads c0(1) c1(1) c2(1) mask True assms(3,4) r r' y0 y1 y2
      by (simp add: decode64FusedAVX2_asm_def Let_def flip: r_def r'_def)
  qed
qed

lemma decode64Fused87AVX2_asm_eq:
  assumes "length s = 87"
  shows "decode64Fused87AVX2_asm s dst = decode64FusedAVX2_asm s 87 dst"
proof -
  let ?y = "vpsubb (replicate 16 (of_nat 3) @ replicate 16 (of_nat 0)) decFusedIota"
  have sel: "vpshufb decFusedPad87 v = vpshufb ?y v" for v
    by (simp add: decFusedPad87_def fused_constants vpsubb_def vpshufb_def pshufb_def replicate_numeral)
  have "isub 90 87 = Some 3" "isub (15 + 0) 3 = Some 12" "isub 30 3 = Some 27" "isub 60 3 = Some 57" "isub 87 16 = Some 71" by simp_all
  then show ?thesis
    unfolding decode64Fused87AVX2_asm_def decode64FusedAVX2_asm_def sel by (simp add: Let_def cong: if_cong)
qed

end
