(* ===== verification/Asm_Write.thy ===== *)
theory Asm_Write
  imports Asm_Decode
begin

text \<open>
  The write functions of \<open>matmul_avx2_amd64.s\<close>, which the generic decoders call on amd64: product,
  carries and stores in one call, and the Go function on a machine without AVX2.  Unlike the Go
  function they store the low words before they know whether the value fits.
\<close>

section \<open>The functions\<close>

text \<open>\<open>STORE32\<close> stores word \<open>j\<close> and carries into word \<open>j - 1\<close>.\<close>

definition STORE32 :: "u64 list \<Rightarrow> nat \<Rightarrow> u64 \<times> bytes \<Rightarrow> (u64 \<times> bytes) option" where
  "STORE32 bin j = (\<lambda>(r8, dst).
     do { dst \<leftarrow> store32 dst (4 * j) (bswap32 (ucast r8));
          v \<leftarrow> idx bin (j - 1);
          Some (drop_bit 32 r8 + v, dst) })"

definition storeWords :: "nat \<Rightarrow> u64 list \<Rightarrow> bytes \<Rightarrow> (bool \<times> bytes) option" where
  "storeWords nw bin dst =
     do { r8 \<leftarrow> idx bin (nw - 1);
          (r8, dst) \<leftarrow> foldM (STORE32 bin) (rev [1..<nw]) (r8, dst);
          dst \<leftarrow> store32 dst 0 (bswap32 (ucast r8));
          Some (drop_bit 32 r8 = 0, dst) }"

text \<open>The Go functions \<open>decode32WriteSlow\<close> and \<open>decode64WriteSlow\<close> with the products of this build.\<close>

definition decode32WriteSlow_amd64 :: "'a matmul_kernels_scheme \<Rightarrow> u64 list \<Rightarrow> bytes \<Rightarrow> (bool \<times> bytes) option" where
  "decode32WriteSlow_amd64 k intermediate dst =
     (let bin = decodeMatMul32_amd64 k intermediate (replicate binarySz32 0);
          bin = decCarryLoop (binarySz32 - 1) (bin ! (binarySz32 - 1)) bin
      in if bin ! 0 > 0xFFFFFFFF then Some (False, dst)
         else do { dst \<leftarrow> writeWords bin binarySz32 dst; Some (True, dst) })"

definition decode64WriteSlow_amd64 :: "'a matmul_kernels_scheme \<Rightarrow> u64 list \<Rightarrow> bytes \<Rightarrow> (bool \<times> bytes) option" where
  "decode64WriteSlow_amd64 k intermediate dst =
     do { bin \<leftarrow> decodeMatMul64_amd64 k intermediate (replicate binarySz64 0);
          let bin = decCarryLoop (binarySz64 - 1) (bin ! (binarySz64 - 1)) bin;
          if bin ! 0 > 0xFFFFFFFF then Some (False, dst)
          else do { dst \<leftarrow> writeWords bin binarySz64 dst; Some (True, dst) } }"

definition decode32Write_asm :: "'a matmul_kernels_scheme \<Rightarrow> u64 list \<Rightarrow> bytes \<Rightarrow> (bool \<times> bytes) option" where
  "decode32Write_asm k intermediate dst =
     (if \<not> useAVX2 k then decode32WriteSlow_amd64 k intermediate dst
      else do { bin \<leftarrow> decodeMatMul32AVX2_asm intermediate (replicate 8 0); storeWords 8 bin dst })"

definition decode64Write_asm :: "'a matmul_kernels_scheme \<Rightarrow> u64 list \<Rightarrow> bytes \<Rightarrow> (bool \<times> bytes) option" where
  "decode64Write_asm k intermediate dst =
     (if \<not> useAVX2 k then decode64WriteSlow_amd64 k intermediate dst
      else do { bin \<leftarrow> decodeMatMul64AVX2_asm intermediate (replicate 16 0); storeWords 16 bin dst })"

section \<open>The stores\<close>

lemma be_bytes_ucast: "be_bytes 4 (unat (ucast (w :: u64) :: u32)) = be_bytes 4 (unat w)"
proof -
  have "unat (ucast w :: u32) = unat w mod 256 ^ 4" by (simp add: unsigned_ucast_eq take_bit_eq_mod)
  then show ?thesis by (simp only: be_bytes_mod)
qed

text \<open>
  After the words from \<open>k\<close> on, the array ends with the value of the accumulators from \<open>k\<close> on; what is
  left of it has been added to accumulator \<open>k - 1\<close>.
\<close>

lemma STORE32_chain:
  assumes "length ws = nw" "length dst = 4 * nw" "1 \<le> k" "k \<le> nw" "\<forall>w \<in> set ws. unat w \<le> 2 ^ 64 - 2 ^ 33"
  shows "\<exists>r8. foldM (STORE32 ws) (rev [k..<nw]) (ws ! (nw - 1), dst) =
      Some (r8, take (4 * k) dst @ be_bytes (4 * (nw - k)) (words_val (drop k ws))) \<and>
    unat r8 = unat (ws ! (k - 1)) + words_val (drop k ws) div (2 ^ 32) ^ (nw - k)"
  using assms(4,3)
proof (induction k rule: inc_induct)
  case base
  then show ?case using assms(1,2) by (simp add: be_bytes_def)
next
  case (step k)
  let ?m = "nw - Suc k" and ?S = "words_val (drop (Suc k) ws)" and ?V = "words_val (drop k ws)"
  let ?B = "256 ^ (4 * ?m) :: nat"
  have k: "nw - k = Suc ?m" "k < nw" using step.hyps by simp_all
  have B: "(2 ^ 32) ^ ?m = ?B" "(2 ^ 32) ^ Suc ?m = ?B * 2 ^ 32" by (simp_all add: power_mult)
  obtain r8 where IH: "foldM (STORE32 ws) (rev [Suc k..<nw]) (ws ! (nw - 1), dst) =
      Some (r8, take (4 * Suc k) dst @ be_bytes (4 * ?m) ?S)" "unat r8 = unat (ws ! k) + ?S div ?B"
    using step.IH unfolding B by auto
  have d: "drop k ws = ws ! k # drop (Suc k) ws" using k assms(1) by (simp add: Cons_nth_drop_Suc)
  have V: "?V = unat (ws ! k) * ?B + ?S"
    unfolding d using assms(1) by (simp add: bval_Cons power_mult)
  have r8: "unat r8 = ?V div ?B" unfolding V IH(2) by simp
  have q: "unat r8 div 2 ^ 32 = ?V div (2 ^ 32) ^ (nw - k)" unfolding r8 k(1) B(2) by (simp only: div_mult2_eq)
  have "unat (ws ! (k - 1)) \<le> 2 ^ 64 - 2 ^ 33" using assms(1,5) k(2) by simp
  moreover have "unat r8 div 2 ^ 32 < 2 ^ 32" using unat_lt_pow [of r8] by (intro less_mult_imp_div_less) simp
  ultimately have sum: "unat (drop_bit 32 r8 + ws ! (k - 1)) = unat (ws ! (k - 1)) + unat r8 div 2 ^ 32"
    by (subst unat_add_nowrap) (simp_all add: unat_shift32)
  have tk: "take (4 * k) (take (4 * Suc k) dst @ be_bytes (4 * ?m) ?S) = take (4 * k) dst"
    "drop (4 * k + 4) (take (4 * Suc k) dst @ be_bytes (4 * ?m) ?S) = be_bytes (4 * ?m) ?S"
    using k assms(2) by simp_all
  have "be_bytes 4 (unat (ucast r8 :: u32)) = be_bytes 4 (?V div ?B)" by (simp only: be_bytes_ucast r8)
  then have "be_bytes 4 (unat (ucast r8 :: u32)) @ be_bytes (4 * ?m) ?S = be_bytes 4 (?V div ?B) @ be_bytes (4 * ?m) ?V"
    unfolding V be_bytes_low by simp
  also have "\<dots> = be_bytes (4 * (nw - k)) ?V" unfolding k(1) by (simp flip: be_bytes_block)
  finally have out: "be_bytes 4 (unat (ucast r8 :: u32)) @ be_bytes (4 * ?m) ?S = be_bytes (4 * (nw - k)) ?V" .
  have "store32 (take (4 * Suc k) dst @ be_bytes (4 * ?m) ?S) (4 * k) (bswap32 (ucast r8)) =
      Some (take (4 * k) dst @ be_bytes (4 * (nw - k)) ?V)"
    unfolding out [symmetric] using k assms(2) tk by (subst store32_word) simp_all
  moreover have "rev [k..<nw] = rev [Suc k..<nw] @ [k]" using k(2) by (simp add: upt_conv_Cons)
  moreover have "idx ws (k - 1) = Some (ws ! (k - 1))" using assms(1) k(2) by simp
  ultimately have "foldM (STORE32 ws) (rev [k..<nw]) (ws ! (nw - 1), dst) =
      Some (drop_bit 32 r8 + ws ! (k - 1), take (4 * k) dst @ be_bytes (4 * (nw - k)) ?V)"
    by (simp only: foldM_append IH(1) bind.bind_lunit) (simp add: STORE32_def)
  then show ?case using sum unfolding q by blast
qed

lemma storeWords_eq:
  assumes "length ws = nw" "length dst = 4 * nw" "0 < nw" "\<forall>w \<in> set ws. unat w \<le> 2 ^ 64 - 2 ^ 33" "words_val ws = N"
  shows "storeWords nw ws dst = Some (N < 256 ^ (4 * nw), be_bytes (4 * nw) N)"
proof -
  let ?S = "words_val (drop 1 ws)" and ?B = "256 ^ (4 * (nw - 1)) :: nat"
  have B: "(2 ^ 32) ^ (nw - 1) = ?B" "256 ^ (4 * nw) = ?B * 2 ^ 32"
  proof -
    show "(2 ^ 32) ^ (nw - 1) = ?B" by (simp add: power_mult)
    have "4 * nw = 4 * (nw - 1) + 4" "(256 :: nat) ^ 4 = 2 ^ 32" using assms(3) by simp_all
    then show "256 ^ (4 * nw) = ?B * 2 ^ 32" by (metis power_add)
  qed
  obtain r8 where C: "foldM (STORE32 ws) (rev [1..<nw]) (ws ! (nw - 1), dst) = Some (r8, take 4 dst @ be_bytes (4 * (nw - 1)) ?S)"
    "unat r8 = unat (ws ! 0) + ?S div ?B"
    using STORE32_chain [OF assms(1,2) order_refl _ assms(4)] assms(3) unfolding B by auto
  have d: "ws = ws ! 0 # drop 1 ws" using assms(1,3) by (cases ws) simp_all
  have "words_val (ws ! 0 # drop 1 ws) = unat (ws ! 0) * (2 ^ 32) ^ (nw - 1) + ?S" using assms(1) by (simp add: bval_Cons)
  then have V: "N = unat (ws ! 0) * ?B + ?S" unfolding d [symmetric] B(1) assms(5) .
  have r8: "unat r8 = N div ?B" unfolding C(2) V by simp
  have "be_bytes 4 (unat (ucast r8 :: u32)) = be_bytes 4 (N div ?B)" by (simp only: be_bytes_ucast r8)
  then have "be_bytes 4 (unat (ucast r8 :: u32)) @ be_bytes (4 * (nw - 1)) ?S = be_bytes 4 (N div ?B) @ be_bytes (4 * (nw - 1)) N"
    unfolding V be_bytes_low by simp
  also have "\<dots> = be_bytes (4 + 4 * (nw - 1)) N" by (rule be_bytes_block [symmetric])
  also have "4 + 4 * (nw - 1) = 4 * nw" using assms(3) by simp
  finally have out: "be_bytes 4 (unat (ucast r8 :: u32)) @ be_bytes (4 * (nw - 1)) ?S = be_bytes (4 * nw) N" .
  have st: "store32 (take 4 dst @ be_bytes (4 * (nw - 1)) ?S) 0 (bswap32 (ucast r8)) = Some (be_bytes (4 * nw) N)"
    unfolding out [symmetric] using assms(2,3) by (subst store32_word) simp_all
  have "drop_bit 32 r8 = 0 \<longleftrightarrow> unat r8 div 2 ^ 32 = 0" by (simp only: word_unat_eq_iff unat_shift32) simp
  also have "\<dots> \<longleftrightarrow> N div (?B * 2 ^ 32) = 0" unfolding r8 by (simp only: div_mult2_eq)
  also have "\<dots> \<longleftrightarrow> N < 256 ^ (4 * nw)" unfolding B(2) by (simp only: div_eq_0_iff) simp
  finally have f: "(drop_bit 32 r8 = 0) = (N < 256 ^ (4 * nw))" .
  have "idx ws (nw - 1) = Some (ws ! (nw - 1))" using assms(1,3) by simp
  then show ?thesis by (simp only: storeWords_def C(1) st f bind.bind_lunit prod.case)
qed

lemma decode32Write_asm_eq:
  assumes "length im = 9" "\<forall>v \<in> set im. unat v < 58 ^ 5" "length dst = 32"
  shows "\<exists>r. decode32Write_asm (asm_matmul avx2) im dst = Some r \<and> written 32 (bval (58 ^ 5) (map unat im)) r"
proof (cases avx2)
  case True
  define ws where "ws = map (dec_sum im decTable32 9) [0..<8]"
  have ws: "length ws = 8" "bounded (2 ^ 64 - 2 ^ 33) ws" "words_val ws = bval (58 ^ 5) (map unat im)"
    using dec32.product [OF assms(1,2)] unfolding decodeMatMul32_columns ws_def by simp_all
  have "\<forall>w \<in> set ws. unat w \<le> 2 ^ 64 - 2 ^ 33" using ws(2) unfolding bounded_def .
  from storeWords_eq [OF ws(1) _ _ this ws(3), of dst]
  have "storeWords 8 ws dst = Some (bval (58 ^ 5) (map unat im) < 256 ^ 32, be_bytes 32 (bval (58 ^ 5) (map unat im)))"
    using assms(3) by simp
  moreover have "useAVX2 (asm_matmul avx2)" using True by (simp add: asm_matmul_def)
  ultimately have "decode32Write_asm (asm_matmul avx2) im dst =
      Some (bval (58 ^ 5) (map unat im) < 256 ^ 32, be_bytes 32 (bval (58 ^ 5) (map unat im)))"
    unfolding decode32Write_asm_def using decodeMatMul32AVX2_asm_eq [OF assms(1,2), of "replicate 8 0"] by (simp flip: ws_def)
  then show ?thesis by (simp add: written_def)
next
  case False
  have slow: "decode32WriteSlow_amd64 (asm_matmul avx2) im dst = decode32Write im dst"
    unfolding decode32WriteSlow_amd64_def decode32Write_def decode32WriteSlow_def
    using decodeMatMul32_amd64_eq [OF asm_matmul_documented assms(1,2)] by (simp add: Let_def)
  have "\<not> useAVX2 (asm_matmul avx2)" using False by (simp add: asm_matmul_def)
  then have "decode32Write_asm (asm_matmul avx2) im dst = decode32Write im dst" by (simp add: decode32Write_asm_def slow)
  then show ?thesis using decode32Write_eq [OF assms refl] assms(3) by (simp add: written_def)
qed

lemma decode64Write_asm_eq:
  assumes "length im = 18" "\<forall>v \<in> set im. unat v < 58 ^ 5" "length dst = 64"
  shows "\<exists>r. decode64Write_asm (asm_matmul avx2) im dst = Some r \<and> written 64 (bval (58 ^ 5) (map unat im)) r"
proof (cases avx2)
  case True
  define ws where "ws = map (dec_sum im decTable64 18) [0..<16]"
  have ws: "length ws = 16" "bounded (2 ^ 64 - 2 ^ 33) ws" "words_val ws = bval (58 ^ 5) (map unat im)"
    using dec64.product [OF assms(1,2)] unfolding decodeMatMul64_columns ws_def by simp_all
  have "\<forall>w \<in> set ws. unat w \<le> 2 ^ 64 - 2 ^ 33" using ws(2) unfolding bounded_def .
  from storeWords_eq [OF ws(1) _ _ this ws(3), of dst]
  have "storeWords 16 ws dst = Some (bval (58 ^ 5) (map unat im) < 256 ^ 64, be_bytes 64 (bval (58 ^ 5) (map unat im)))"
    using assms(3) by simp
  moreover have "useAVX2 (asm_matmul avx2)" using True by (simp add: asm_matmul_def)
  ultimately have "decode64Write_asm (asm_matmul avx2) im dst =
      Some (bval (58 ^ 5) (map unat im) < 256 ^ 64, be_bytes 64 (bval (58 ^ 5) (map unat im)))"
    unfolding decode64Write_asm_def using decodeMatMul64AVX2_asm_eq [OF assms(1,2)] by (simp flip: ws_def)
  then show ?thesis by (simp add: written_def)
next
  case False
  have slow: "decode64WriteSlow_amd64 (asm_matmul avx2) im dst = decode64Write im dst"
    unfolding decode64WriteSlow_amd64_def decode64Write_def decode64WriteSlow_def
    using decodeMatMul64_amd64_eq [OF asm_matmul_documented assms(1,2)] by (simp add: Let_def)
  have "\<not> useAVX2 (asm_matmul avx2)" using False by (simp add: asm_matmul_def)
  then have "decode64Write_asm (asm_matmul avx2) im dst = decode64Write im dst" by (simp add: decode64Write_asm_def slow)
  then show ?thesis using decode64Write_eq [OF assms refl] assms(3) by (simp add: written_def)
qed

section \<open>The contract\<close>

text \<open>The decoding kernels of the amd64 build, in place of those of any record.\<close>

definition asm_decode :: "'a text_kernels_scheme \<Rightarrow> 'a text_kernels_scheme" where
  "asm_decode k = k
     \<lparr>decode32FusedAVX2 := (\<lambda>s n dst. the (decode32FusedAVX2_asm s n dst)),
      decode32Fused43AVX2 := (\<lambda>s dst. the (decode32Fused43AVX2_asm s dst)),
      decode64FusedAVX2 := (\<lambda>s n dst. the (decode64FusedAVX2_asm s n dst)),
      decode64Fused87AVX2 := (\<lambda>s dst. the (decode64Fused87AVX2_asm s dst)),
      decode32WriteAsm := (\<lambda>im dst. the (decode32Write_asm (asm_matmul (useAVX2 k)) im dst)),
      decode64WriteAsm := (\<lambda>im dst. the (decode64Write_asm (asm_matmul (useAVX2 k)) im dst))\<rparr>"

lemma fused_outcome_fused:
  "list_all b58_valid s \<Longrightarrow> fused nb s dst (fused_outcome nb s)"
  "\<not> list_all b58_valid s \<Longrightarrow> fused nb s dst (Suc 0, dst)"
  by (auto simp: fused_def fused_outcome_def)

lemma asm_decode_documented: "decode_documented (asm_decode k)"
proof -
  have "written 32 (bval (58 ^ 5) (map unat im)) (the (decode32Write_asm (asm_matmul (useAVX2 k)) im dst))"
    if "length im = 9" "\<forall>v \<in> set im. unat v < 58 ^ 5" "length dst = 32" for im dst
    using decode32Write_asm_eq [OF that, of "useAVX2 k"] by auto
  moreover have "written 64 (bval (58 ^ 5) (map unat im)) (the (decode64Write_asm (asm_matmul (useAVX2 k)) im dst))"
    if "length im = 18" "\<forall>v \<in> set im. unat v < 58 ^ 5" "length dst = 64" for im dst
    using decode64Write_asm_eq [OF that, of "useAVX2 k"] by auto
  ultimately show ?thesis
    unfolding decode_documented_def asm_decode_def
    by (auto simp: decode32FusedAVX2_asm_eq decode64FusedAVX2_asm_eq decode32Fused43AVX2_asm_eq decode64Fused87AVX2_asm_eq
        intro: fused_outcome_fused)
qed

end
