(* ===== verification/Asm_Cpu.thy ===== *)
theory Asm_Cpu
  imports Prelude
begin

unbundle bit_operations_syntax

text \<open>
  The test that sets \<open>useAVX2\<close> (\<open>cpu_amd64.s\<close>).  What the processor answers is a parameter: \<open>cpuid\<close>
  gives \<open>EAX, EBX, ECX, EDX\<close> for a leaf and a subleaf, \<open>xgetbv\<close> the low half of an extended control
  register, or \<open>None\<close>, an undefined-opcode fault, when the system has not enabled the instruction.
\<close>

definition x86HasAVX2 :: "(u32 \<Rightarrow> u32 \<Rightarrow> u32 \<times> u32 \<times> u32 \<times> u32) \<Rightarrow> (u32 \<Rightarrow> u32 option) \<Rightarrow> bool option" where
  "x86HasAVX2 cpuid xgetbv =
     (let (ax, bx, cx, dx) = cpuid 1 0;
          dx = cx AND (push_bit 27 1 OR push_bit 28 1)
      in if dx \<noteq> push_bit 27 1 OR push_bit 28 1 then Some False
         else do {
           ax \<leftarrow> xgetbv 0;
           let ax = ax AND 6;
           if ax \<noteq> 6 then Some False
           else do {
             let (ax, bx, cx, dx) = cpuid 7 0;
             Some (bx AND push_bit 5 1 \<noteq> 0) } })"

lemma and_all: "a AND m = m \<longleftrightarrow> (\<forall>n. bit m n \<longrightarrow> bit a n)" for a m :: "'a::len word"
  by (auto simp: bit_eq_iff bit_and_iff dest: bit_imp_le_length)

lemma one_bit: "bit (push_bit i 1 :: u32) n \<longleftrightarrow> n < 32 \<and> n = i"
  by (auto simp: bit_exp_iff possible_bit_word)

lemma two_bits: "bit (push_bit i 1 OR push_bit j 1 :: u32) n \<longleftrightarrow> n < 32 \<and> (n = i \<or> n = j)"
  unfolding bit_or_iff one_bit by blast

text \<open>
  Where \<open>OSXSAVE\<close> (bit 27) makes \<open>XGETBV\<close> available, the test returns: the processor has AVX and AVX2
  and the system saves both halves of the vector registers.
\<close>

lemma x86HasAVX2_eq:
  assumes "cpuid 1 0 = (a1, b1, c1, d1)" "cpuid 7 0 = (a7, b7, c7, d7)" "bit c1 27 \<Longrightarrow> xgetbv 0 = Some xcr0"
  shows "x86HasAVX2 cpuid xgetbv =
    Some (bit c1 27 \<and> bit c1 28 \<and> bit xcr0 1 \<and> bit xcr0 2 \<and> bit b7 5)"
proof -
  have c: "c1 AND (push_bit 27 1 OR push_bit 28 1) = push_bit 27 1 OR push_bit 28 1 \<longleftrightarrow> bit c1 27 \<and> bit c1 28"
    unfolding and_all two_bits by auto
  have "(6 :: u32) = push_bit 1 1 OR push_bit 2 1" by simp
  then have x: "xcr0 AND 6 = 6 \<longleftrightarrow> bit xcr0 1 \<and> bit xcr0 2" by (simp only: and_all two_bits) auto
  have b: "b7 AND push_bit 5 1 \<noteq> 0 \<longleftrightarrow> bit b7 5"
  proof -
    have "b7 AND push_bit 5 1 = 0 \<longleftrightarrow> (\<forall>n. \<not> (bit b7 n \<and> n < 32 \<and> n = 5))"
      unfolding bit_eq_iff bit_and_iff one_bit by (auto dest: bit_imp_le_length)
    then show ?thesis by simp
  qed
  show ?thesis
    unfolding x86HasAVX2_def assms(1,2) Let_def prod.case c b using assms(3) x by (cases "bit c1 27") auto
qed

end
