(* ===== verification/Asm_Text.thy ===== *)
theory Asm_Text
  imports Asm_Full_Text Asm_Write Asm_Cpu
begin

text \<open>
  The amd64 build as a whole: every kernel in assembly, with and without AVX2.  With it the four
  contracts hold, so that the results about the Go functions of the build need no assumption.
\<close>

definition asm_text :: "bool \<Rightarrow> bytes \<Rightarrow> text_kernels" where
  "asm_text avx2 rest =
     (let m = asm_matmul avx2
      in \<lparr>useAVX2 = avx2,
          encodeMatMul32Scalar = encodeMatMul32Scalar m, encodeMatMul32AVX2 = encodeMatMul32AVX2 m,
          decodeMatMul32Scalar = decodeMatMul32Scalar m, decodeMatMul32AVX2 = decodeMatMul32AVX2 m,
          encodeMatMul64Head = encodeMatMul64Head m, encodeMatMul64HeadAVX2 = encodeMatMul64HeadAVX2 m,
          decodeMatMul64Head = decodeMatMul64Head m, decodeMatMul64AVX2 = decodeMatMul64AVX2 m,
          digitsToChars16Fast = (\<lambda>v out. the (digitsToChars16Fast_asm v out)),
          digitsToChars36 = (\<lambda>v out. the (digitsToChars36_asm v out)),
          encode32AppendAVX2 = (\<lambda>src dst. the (encode32AppendAVX2_asm src dst)),
          encode64DirectAVX2 = (\<lambda>src dst. the (encode64DirectAVX2_asm src dst)),
          encode64FullAppendAVX2 = (\<lambda>src dst. the (encode64FullAppendAVX2_asm rest src dst)),
          encode64FullOwnedAVX2 = (\<lambda>src dst. the (encode64FullOwnedAVX2_asm src dst)),
          encode64FullAVX2 = (\<lambda>src dst clobberTail. the (encode64FullAVX2_asm rest src dst clobberTail)),
          decode32FusedAVX2 = (\<lambda>s n dst. the (decode32FusedAVX2_asm s n dst)),
          decode32Fused43AVX2 = (\<lambda>s dst. the (decode32Fused43AVX2_asm s dst)),
          decode64FusedAVX2 = (\<lambda>s n dst. the (decode64FusedAVX2_asm s n dst)),
          decode64Fused87AVX2 = (\<lambda>s dst. the (decode64Fused87AVX2_asm s dst)),
          decode32WriteAsm = (\<lambda>im dst. the (decode32Write_asm m im dst)),
          decode64WriteAsm = (\<lambda>im dst. the (decode64Write_asm m im dst))\<rparr>)"

lemma asm_text_parts:
  "asm_text avx2 rest = asm_render (asm_text avx2 rest)"
  "asm_text avx2 rest = asm_encode rest (asm_text avx2 rest)"
  "asm_text avx2 rest = asm_decode (asm_text avx2 rest)"
  by (simp_all add: asm_text_def asm_render_def asm_encode_def asm_decode_def Let_def)

lemma asm_text_documented:
  "matmul_documented (asm_text avx2 rest)"
  "render_documented (asm_text avx2 rest)"
  "26 \<le> length rest \<Longrightarrow> encode_documented (asm_text avx2 rest)"
  "decode_documented (asm_text avx2 rest)"
  "useAVX2 (asm_text avx2 rest) = avx2"
proof -
  show "matmul_documented (asm_text avx2 rest)"
    using asm_matmul_documented [of avx2] by (simp add: matmul_documented_def asm_text_def Let_def)
  show "render_documented (asm_text avx2 rest)"
    by (subst asm_text_parts(1)) (rule asm_render_documented)
  show "encode_documented (asm_text avx2 rest)" if "26 \<le> length rest"
    by (subst asm_text_parts(2)) (rule asm_encode_documented [OF that])
  show "decode_documented (asm_text avx2 rest)"
    by (subst asm_text_parts(3)) (rule asm_decode_documented)
  show "useAVX2 (asm_text avx2 rest) = avx2" by (simp add: asm_text_def Let_def)
qed

end
