(* ===== verification/Builds.thy ===== *)
theory Builds
  imports Batch Asm_Text
begin

text \<open>
  Go functions that all builds share, on the kernels of amd64 and arm64: the batch encoders of the
  amd64 build, whose vector kernel writes six bytes past the slots it fills, and the 32-byte functions
  of the arm64 build, whose two products are in assembly (\<open>matmul_arm64.go\<close>).
\<close>

section \<open>Batches on amd64\<close>

definition Encode32Batch_amd64 :: "'a text_kernels_scheme \<Rightarrow> bytes list \<Rightarrow> bytes list option" where
  "Encode32Batch_amd64 k srcs =
     Encode32Batch_on (product32 k) extractChars32_amd64 (extractCharsFlat36_amd64 k) srcs"

definition Encode64Batch_amd64 :: "'a text_kernels_scheme \<Rightarrow> bytes list \<Rightarrow> bytes list option" where
  "Encode64Batch_amd64 k srcs =
     Encode64Batch_on (encodeMatMul64_amd64 k) (extractChars64_amd64 k) (extractCharsFlat72_amd64 k) srcs"

section \<open>The arm64 build\<close>

definition Encode32_arm64 :: "bytes \<Rightarrow> bytes option" where
  "Encode32_arm64 src = Encode32_on (encode32Fast src) encodeMatMul32_arm64 src"

definition AppendEncode32_arm64 :: "gslice \<Rightarrow> bytes \<Rightarrow> gslice option" where
  "AppendEncode32_arm64 dst src = appendEncode32GenericCapacity_on encodeMatMul32_arm64 dst src 0"

definition Encode32Batch_arm64 :: "bytes list \<Rightarrow> bytes list option" where
  "Encode32Batch_arm64 srcs = Encode32Batch_on encodeMatMul32_arm64 extractChars32 extractCharsFlat36 srcs"

definition decode32WriteSlow_arm64 :: "u64 list \<Rightarrow> bytes \<Rightarrow> (bool \<times> bytes) option" where
  "decode32WriteSlow_arm64 intermediate dst =
     do { bin \<leftarrow> decodeMatMul32_arm64 intermediate (replicate binarySz32 0);
          let bin = decCarryLoop (binarySz32 - 1) (bin ! (binarySz32 - 1)) bin;
          if bin ! 0 > 0xFFFFFFFF then Some (False, dst)
          else do { dst \<leftarrow> writeWords bin binarySz32 dst; Some (True, dst) } }"

definition Decode32_arm64 :: "bytes \<Rightarrow> bytes \<Rightarrow> (decode_error option \<times> bytes) option" where
  "Decode32_arm64 encoded dst =
     (if length encoded = 0 \<or> length encoded > raw58Sz32 then Some (Some ErrInvalidLength, dst)
      else decode32Generic_on decode32WriteSlow_arm64 encoded dst)"

section \<open>The kernels keep the contracts of the shared code\<close>

lemma encode_kernel_cong:
  "encode_kernel mm nb nl \<Longrightarrow> (\<And>src. length src = nb \<Longrightarrow> mm' src (replicate nl 0) = mm src (replicate nl 0)) \<Longrightarrow>
    encode_kernel mm' nb nl"
  by (simp add: encode_kernel_def)

lemma amd64_encode_kernels:
  assumes "matmul_documented k"
  shows "encode_kernel (product32 k) 32 9" "encode_kernel (encodeMatMul64_amd64 k) 64 18"
  by (rule encode_kernel_cong [OF enc32.encode_kernel_axioms] encode_kernel_cong [OF enc64.encode_kernel_axioms],
      rule encodeMatMul32_amd64_eq [OF assms] encodeMatMul64_amd64_eq [OF assms], assumption)+

lemma amd64_extracts32: "extracts 9 48 extractChars32_amd64"
  using extracts32 by (simp add: extracts_def extractChars32_def extractChars32_amd64_def)

lemma amd64_extracts64: "render_documented k \<Longrightarrow> extracts 18 90 (extractChars64_amd64 k)"
  using extracts64 extractChars64_amd64_eq unfolding extracts_def by metis

lemma amd64_fills:
  assumes "render_documented k"
  shows "fills 36 (extractCharsFlat36_amd64 k)" "fills 72 (extractCharsFlat72_amd64 k)"
  using extractCharsFlat36_amd64_eq [OF assms] extractCharsFlat72_amd64_eq [OF assms]
  unfolding fills_def by fastforce+

section \<open>The results of the builds\<close>

lemma Batch_amd64_eq:
  assumes "matmul_documented k" "render_documented k"
  shows "\<forall>src \<in> set srcs. length src = 32 \<Longrightarrow> Encode32Batch_amd64 k srcs = Some (map b58_encode srcs)"
    and "\<forall>src \<in> set srcs. length src = 64 \<Longrightarrow> Encode64Batch_amd64 k srcs = Some (map b58_encode srcs)"
  unfolding Encode32Batch_amd64_def Encode64Batch_amd64_def
  using amd64_encode_kernels [OF assms(1)] amd64_extracts32 amd64_extracts64 [OF assms(2)] amd64_fills [OF assms(2)]
  by (simp_all add: Encode32Batch_on_eq Encode64Batch_on_eq)

lemma arm64_product: "length src = 32 \<Longrightarrow> encodeMatMul32_arm64 src (replicate 9 0) = encodeMatMul32 src (replicate 9 0)"
  by (simp add: encodeMatMul32_arm64_eq encodeMatMul32_columns)

lemma Encode32_arm64_eq:
  assumes "length src = 32"
  shows "Encode32_arm64 src = Encode32 src" "AppendEncode32_arm64 dst src = AppendEncode32 dst src"
  using encode32_on_eq [where mm = encodeMatMul32_arm64, OF arm64_product [OF assms]]
  by (simp_all add: Encode32_arm64_def encode32Fast_def AppendEncode32_arm64_def AppendEncode32_def appendEncode32Generic_def)

lemma Encode32Batch_arm64_eq:
  "\<forall>src \<in> set srcs. length src = 32 \<Longrightarrow> Encode32Batch_arm64 srcs = Some (map b58_encode srcs)"
  unfolding Encode32Batch_arm64_def
  using encode_kernel_cong [OF enc32.encode_kernel_axioms, of encodeMatMul32_arm64] arm64_product
  by (intro Encode32Batch_on_eq extracts32 flat_fills) simp_all

lemma Decode32_arm64_eq:
  assumes "length dst = 32"
  shows "Decode32_arm64 s dst = Decode32 s dst"
proof -
  have "decode32WriteSlow_arm64 im dst = decode32Write im dst" if "length im = 9" for im
    using that by (simp add: decode32WriteSlow_arm64_def decode32Write_def decode32WriteSlow_def
        decodeMatMul32_arm64_eq decodeMatMul32_columns Let_def)
  from decode32Generic_on_eq [of decode32WriteSlow_arm64 dst, OF this assms, of s] show ?thesis
    using decode32Generic_eq [OF assms, of s]
    by (cases "s = [] \<or> 45 < length s") (auto simp: Decode32_arm64_def Decode32_def)
qed

end
