(* ===== verification/Cache.thy ===== *)
theory Cache
  imports Encode_Fixed
begin

text \<open>
  The interning table of \<open>cache.go\<close>: \<open>EncodeCached32\<close> as a sequential operation on the table,
  and the same call under concurrency, where the atomic \<open>Load\<close> and \<open>Store\<close> of any number of
  goroutines interleave. The invariant is that an entry is published only with the encoding
  of its key, from which every call that completes returns what \<open>Encode32\<close> returns, whatever
  the interleaving.
\<close>

section \<open>The table\<close>

record enc32Entry =
  key :: bytes
  val :: bytes

text \<open>A slot holds an atomic pointer, nil or to an immutable entry.\<close>

type_synonym cache = "nat \<Rightarrow> enc32Entry option"

definition enc32CacheBits :: nat where
  "enc32CacheBits = 14"

text \<open>\<open>binary.LittleEndian.Uint64\<close>.\<close>

definition leUint64 :: "bytes \<Rightarrow> u64 option" where
  "leUint64 b =
     do { b7 \<leftarrow> idx b 7; b0 \<leftarrow> idx b 0; b1 \<leftarrow> idx b 1; b2 \<leftarrow> idx b 2; b3 \<leftarrow> idx b 3;
          b4 \<leftarrow> idx b 4; b5 \<leftarrow> idx b 5; b6 \<leftarrow> idx b 6;
          Some (ucast b0 OR push_bit 8 (ucast b1) OR push_bit 16 (ucast b2) OR push_bit 24 (ucast b3)
            OR push_bit 32 (ucast b4) OR push_bit 40 (ucast b5) OR push_bit 48 (ucast b6)
            OR push_bit 56 (ucast b7)) }"

definition slotIndex :: "bytes \<Rightarrow> nat option" where
  "slotIndex src =
     do { w \<leftarrow> subslice src 0 8;
          h \<leftarrow> leUint64 w;
          let i = unat (drop_bit (64 - enc32CacheBits) (h * 0x9E3779B97F4A7C15));
          if i < 2 ^ enc32CacheBits then Some i else None }"

text \<open>The test on the loaded pointer.\<close>

definition hits :: "enc32Entry option \<Rightarrow> bytes \<Rightarrow> bool" where
  "hits p src = (case p of Some e \<Rightarrow> key e = src | None \<Rightarrow> False)"

text \<open>
  The call with nothing else running.  The encoder is an argument, so that a hit can be told from
  a miss: only a miss uses it.
\<close>

definition EncodeCached32_on :: "(bytes \<Rightarrow> bytes option) \<Rightarrow> cache \<Rightarrow> bytes \<Rightarrow> (bytes \<times> cache) option" where
  "EncodeCached32_on encode enc32Cache src =
     do { i \<leftarrow> slotIndex src;
          let p = enc32Cache i;
          if hits p src then do { e \<leftarrow> p; Some (val e, enc32Cache) }
          else do {
            v \<leftarrow> encode src;
            Some (v, enc32Cache(i \<mapsto> \<lparr>key = src, val = v\<rparr>)) } }"

definition EncodeCached32 :: "cache \<Rightarrow> bytes \<Rightarrow> (bytes \<times> cache) option" where
  "EncodeCached32 enc32Cache src = EncodeCached32_on Encode32 enc32Cache src"

lemmas EncodeCached32_defs = EncodeCached32_def EncodeCached32_on_def

section \<open>Goroutines\<close>

text \<open>
  Where a call is: before its \<open>Load\<close>, between a missed \<open>Load\<close> and its \<open>Store\<close>, or returned.
\<close>

datatype call = Called bytes | Missed bytes | Returned bytes bytes

type_synonym calls = "nat \<Rightarrow> call option"

inductive step :: "cache \<times> calls \<Rightarrow> cache \<times> calls \<Rightarrow> bool" where
  start: "length src = 32 \<Longrightarrow> cs t = None \<Longrightarrow> step (c, cs) (c, cs(t \<mapsto> Called src))"
| load_hit: "cs t = Some (Called src) \<Longrightarrow> slotIndex src = Some i \<Longrightarrow> c i = Some e \<Longrightarrow> hits (c i) src \<Longrightarrow>
    step (c, cs) (c, cs(t \<mapsto> Returned src (val e)))"
| load_miss: "cs t = Some (Called src) \<Longrightarrow> slotIndex src = Some i \<Longrightarrow> \<not> hits (c i) src \<Longrightarrow>
    step (c, cs) (c, cs(t \<mapsto> Missed src))"
| store: "cs t = Some (Missed src) \<Longrightarrow> slotIndex src = Some i \<Longrightarrow> Encode32 src = Some v \<Longrightarrow>
    step (c, cs) (c(i \<mapsto> \<lparr>key = src, val = v\<rparr>), cs(t \<mapsto> Returned src v))"

inductive_cases stepE: "step (c, cs) s"

text \<open>Reachable from the zero table with no call in flight.\<close>

definition init :: "cache \<times> calls" where
  "init = (\<lambda>_. None, \<lambda>_. None)"

inductive reachable :: "cache \<times> calls \<Rightarrow> bool" where
  reach_init: "reachable init"
| reach_step: "reachable s \<Longrightarrow> step s s' \<Longrightarrow> reachable s'"

section \<open>The invariant\<close>

lemma slotIndex_Some: "length src = 32 \<Longrightarrow> \<exists>i. slotIndex src = Some i \<and> i < 2 ^ 14"
proof -
  assume src: "length src = 32"
  then have "subslice src 0 8 = Some (take 8 src)" by simp
  moreover obtain h where "leUint64 (take 8 src) = Some h"
    using src by (simp add: leUint64_def)
  moreover have "unat (drop_bit 50 (h * 0x9E3779B97F4A7C15)) < 2 ^ 14"
  proof -
    have "unat (h * 0x9E3779B97F4A7C15) < 2 ^ 50 * 2 ^ 14"
      using unat_lt_pow [of "h * 0x9E3779B97F4A7C15"] by simp
    then have "unat (h * 0x9E3779B97F4A7C15) div 2 ^ 50 < 2 ^ 14"
      by (intro less_mult_imp_div_less) (simp only: mult.commute)
    then show ?thesis by (simp only: unat_drop_bit_eq) (simp only: drop_bit_eq_div)
  qed
  ultimately show ?thesis
    by (simp add: slotIndex_def enc32CacheBits_def Let_def)
qed

definition entries_ok :: "cache \<Rightarrow> bool" where
  "entries_ok c \<longleftrightarrow> (\<forall>i e. c i = Some e \<longrightarrow>
     length (key e) = 32 \<and> val e = b58_encode (key e) \<and> slotIndex (key e) = Some i)"

fun call_ok :: "call \<Rightarrow> bool" where
  "call_ok (Called src) \<longleftrightarrow> length src = 32"
| "call_ok (Missed src) \<longleftrightarrow> length src = 32"
| "call_ok (Returned src out) \<longleftrightarrow> length src = 32 \<and> out = b58_encode src"

definition calls_ok :: "calls \<Rightarrow> bool" where
  "calls_ok cs \<longleftrightarrow> (\<forall>t k. cs t = Some k \<longrightarrow> call_ok k)"

lemma hits_val: "hits p src \<Longrightarrow> p = Some e \<Longrightarrow> key e = src"
  by (simp add: hits_def)

lemma entries_ok_upd:
  "entries_ok c \<Longrightarrow> length src = 32 \<Longrightarrow> slotIndex src = Some i \<Longrightarrow> v = b58_encode src \<Longrightarrow>
     entries_ok (c(i \<mapsto> \<lparr>key = src, val = v\<rparr>))"
  by (auto simp: entries_ok_def)

lemma calls_ok_upd: "calls_ok cs \<Longrightarrow> call_ok k \<Longrightarrow> calls_ok (cs(t \<mapsto> k))"
  by (simp add: calls_ok_def)

lemma step_ok:
  assumes "step s s'" "entries_ok (fst s)" "calls_ok (snd s)"
  shows "entries_ok (fst s') \<and> calls_ok (snd s')"
  using assms
proof (induction rule: step.induct)
  case (start src cs t c)
  then have "entries_ok c" "calls_ok (cs(t \<mapsto> Called src))"
    by (auto intro: calls_ok_upd)
  then show ?case unfolding fst_conv snd_conv by (rule conjI)
next
  case (load_hit cs t src i c e)
  then have "key e = src" by (auto dest: hits_val)
  with load_hit have "call_ok (Returned src (val e))" by (auto simp: entries_ok_def)
  with load_hit have "calls_ok (cs(t \<mapsto> Returned src (val e)))" by (intro calls_ok_upd) simp_all
  with load_hit(5) show ?case unfolding fst_conv snd_conv by (intro conjI)
next
  case (load_miss cs t src i c)
  then have "call_ok (Missed src)" by (force simp: calls_ok_def)
  with load_miss have "calls_ok (cs(t \<mapsto> Missed src))" by (intro calls_ok_upd) simp_all
  with load_miss(4) show ?case unfolding fst_conv snd_conv by (intro conjI)
next
  case (store cs t src i v c)
  then have "length src = 32" by (force simp: calls_ok_def)
  with store have "v = b58_encode src" by (simp add: Encode32_eq)
  with store \<open>length src = 32\<close>
  have "entries_ok (c(i \<mapsto> \<lparr>key = src, val = v\<rparr>))" "calls_ok (cs(t \<mapsto> Returned src v))"
    by (auto intro!: calls_ok_upd entries_ok_upd)
  then show ?case unfolding fst_conv snd_conv by (rule conjI)
qed

lemma reachable_ok: "reachable s \<Longrightarrow> entries_ok (fst s) \<and> calls_ok (snd s)"
  by (induction rule: reachable.induct) (auto simp: init_def entries_ok_def calls_ok_def dest: step_ok)

lemma returned_encoding: "reachable (c, cs) \<Longrightarrow> cs t = Some (Returned src out) \<Longrightarrow> Encode32 src = Some out"
  using reachable_ok [of "(c, cs)"] by (force simp: calls_ok_def Encode32_eq)

section \<open>Every call completes\<close>

text \<open>The steps a call has left; only its own goroutine takes them.\<close>

fun steps_left :: "call option \<Rightarrow> nat" where
  "steps_left (Some (Called _)) = 2"
| "steps_left (Some (Missed _)) = 1"
| "steps_left _ = 0"

lemma call_progress:
  assumes "reachable (c, cs)" "0 < steps_left (cs t)"
  shows "\<exists>c' k. step (c, cs) (c', cs(t \<mapsto> k)) \<and> steps_left (Some k) < steps_left (cs t)"
proof -
  have ok: "calls_ok cs" using reachable_ok [OF assms(1)] by simp
  consider src where "cs t = Some (Called src)" | src where "cs t = Some (Missed src)"
    using assms(2) by (cases "cs t" rule: steps_left.cases) auto
  then show ?thesis
  proof cases
    case 1
    with ok have "length src = 32" by (force simp: calls_ok_def)
    then obtain i where i: "slotIndex src = Some i" using slotIndex_Some by blast
    show ?thesis
    proof (cases "hits (c i) src")
      case True
      then obtain e where "c i = Some e" by (auto simp: hits_def split: option.splits)
      then have "step (c, cs) (c, cs(t \<mapsto> Returned src (val e)))"
        using 1 i True by (intro load_hit)
      then show ?thesis using 1 by fastforce
    next
      case False
      then have "step (c, cs) (c, cs(t \<mapsto> Missed src))"
        using 1 i by (intro load_miss)
      then show ?thesis using 1 by fastforce
    qed
  next
    case 2
    with ok have src: "length src = 32" by (force simp: calls_ok_def)
    then obtain i where i: "slotIndex src = Some i" using slotIndex_Some by blast
    have "step (c, cs) (c(i \<mapsto> \<lparr>key = src, val = b58_encode src\<rparr>), cs(t \<mapsto> Returned src (b58_encode src)))"
      using 2 i Encode32_eq [OF src] by (intro store)
    then show ?thesis using 2 by fastforce
  qed
qed

lemma step_other: "step (c, cs) (c', cs') \<Longrightarrow> cs' t = cs t \<or> steps_left (cs' t) < steps_left (cs t) \<or> cs t = None"
  by (erule stepE) auto

section \<open>The sequential call\<close>

lemma EncodeCached32_eq:
  assumes "length src = 32" "entries_ok c"
  shows "\<exists>c'. EncodeCached32 c src = Some (b58_encode src, c') \<and> entries_ok c'"
proof -
  obtain i where i: "slotIndex src = Some i" using slotIndex_Some [OF assms(1)] by blast
  show ?thesis
  proof (cases "hits (c i) src")
    case True
    then obtain e where e: "c i = Some e" "key e = src" by (auto simp: hits_def split: option.splits)
    then have "val e = b58_encode src" using assms(2) by (auto simp: entries_ok_def)
    then show ?thesis using True e(1) i assms(2) by (simp add: EncodeCached32_defs Let_def)
  next
    case False
    then show ?thesis
      using i assms by (simp add: EncodeCached32_defs Let_def Encode32_eq entries_ok_upd)
  qed
qed

text \<open>
  The call leaves the other slots alone, and the key in its own, so that the next call for the key
  is a hit: it needs no encoder.
\<close>

lemma EncodeCached32_other:
  "EncodeCached32 c src = Some (v, c') \<Longrightarrow> slotIndex src \<noteq> Some j \<Longrightarrow> c' j = c j"
  by (auto simp: EncodeCached32_defs Let_def split: Option.bind_splits if_splits)

lemma EncodeCached32_hit:
  assumes "EncodeCached32 c src = Some (v, c')"
  shows "EncodeCached32_on encode c' src = Some (v, c')"
proof -
  obtain i where i: "slotIndex src = Some i"
    using assms by (auto simp: EncodeCached32_defs split: Option.bind_splits)
  show ?thesis
  proof (cases "hits (c i) src")
    case True
    then have "c' = c" "map_option val (c i) = Some v"
      using assms i by (auto simp: EncodeCached32_defs Let_def split: Option.bind_splits)
    then show ?thesis using True i by (auto simp: EncodeCached32_on_def)
  next
    case False
    then have "c' = c(i \<mapsto> \<lparr>key = src, val = v\<rparr>)"
      using assms i by (auto simp: EncodeCached32_defs Let_def split: Option.bind_splits)
    then show ?thesis using i by (simp add: EncodeCached32_on_def hits_def)
  qed
qed

text \<open>The sequential call is a run of the step relation.\<close>

lemma EncodeCached32_steps:
  assumes "EncodeCached32 c src = Some (v, c')" "length src = 32" "cs t = None"
  shows "step\<^sup>*\<^sup>* (c, cs) (c', cs(t \<mapsto> Returned src v))"
proof -
  let ?cs = "cs(t \<mapsto> Called src)"
  have 0: "step (c, cs) (c, ?cs)" using assms(2,3) by (rule start)
  obtain i where i: "slotIndex src = Some i"
    using assms(1) by (auto simp: EncodeCached32_defs split: Option.bind_splits)
  show ?thesis
  proof (cases "hits (c i) src")
    case True
    then obtain e where e: "c i = Some e" by (auto simp: hits_def split: option.splits)
    then have "v = val e" "c' = c" using assms(1) True i by (simp_all add: EncodeCached32_defs Let_def)
    then show ?thesis using 0 load_hit [of ?cs t src i c e] e i True by simp
  next
    case False
    then have v: "Encode32 src = Some v" "c' = c(i \<mapsto> \<lparr>key = src, val = v\<rparr>)"
      using assms(1) i by (auto simp: EncodeCached32_defs Let_def split: Option.bind_splits)
    have "step (c, ?cs) (c, ?cs(t \<mapsto> Missed src))" using i False by (intro load_miss) simp_all
    moreover have "step (c, ?cs(t \<mapsto> Missed src)) (c', ?cs(t \<mapsto> Missed src, t \<mapsto> Returned src v))"
      unfolding v(2) using i v(1) by (intro store) simp_all
    ultimately show ?thesis using 0 by simp
  qed
qed

end
