(* ===== verification/Vectors.thy ===== *)
theory Vectors
  imports Base58_Spec
begin

text \<open>
  The known vectors of the package's tests (\<open>knownVectors32\<close> and \<open>knownVectors64\<close> in
  \<open>base58_test.go\<close>), as concrete inputs at which the properties of the development are applied.
\<close>

definition pubkey :: bytes where
  "pubkey =
   [0x35, 0x9d, 0x62, 0x09, 0xa1, 0x29, 0x6a, 0x42, 0x24, 0x63, 0x40, 0x5b, 0x82, 0x82, 0x9c,
   0xf2, 0xf0, 0xa8, 0x6b, 0x2e, 0x87, 0x07, 0x7c, 0x80, 0xa7, 0x43, 0x72, 0x84, 0x1e, 0x18,
   0x5e, 0xfc]"

definition pubkey58 :: bytes where
  "pubkey58 = map of_char ''4cHoJNmLed5PBgFBezHmJkMJLEZrcTvr3aopjnYBRxUb''"

definition signature :: bytes where
  "signature =
   [0x03, 0xe9, 0xbb, 0x70, 0xb0, 0xae, 0x09, 0x1b, 0x4a, 0x32, 0x33, 0xdc, 0x95, 0x2a, 0x2d,
   0xa5, 0x69, 0xaf, 0xaa, 0x0a, 0xe1, 0xc0, 0x6a, 0xa7, 0xd3, 0xc2, 0xa4, 0xda, 0x2f, 0x28,
   0x54, 0xec, 0x76, 0xdf, 0xae, 0x30, 0xd9, 0x47, 0x4b, 0x45, 0x93, 0x72, 0x67, 0x61, 0x34,
   0x5b, 0xec, 0x7c, 0xe1, 0xa9, 0x58, 0x12, 0xc1, 0xfa, 0x8d, 0xdc, 0x74, 0x03, 0x14, 0xcb,
   0x29, 0xfe, 0xf4, 0x58]"

definition signature58 :: bytes where
  "signature58 = map of_char
     ''5YBLhMBLjhAHnEPnHKLLnVwHSfXGPJMCvKAfNsiaEw2T63edrYxVFHKUxRXfP6KA1HVo7c9JZ3LAJQR72giX7Cb''"

lemma vector_lengths [simp]: "length pubkey = 32" "length signature = 64"
  by (simp_all add: pubkey_def signature_def)

lemma vector_texts [simp]: "length pubkey58 = 44" "length signature58 = 87"
  by (simp_all add: pubkey58_def signature58_def)

lemma pubkey_encodes: "b58_encode pubkey = pubkey58"
proof (rule b58_encode_by_value)
  show "list_all b58_valid pubkey58"
    by (simp add: pubkey58_def b58_valid_def alphabet_eq)
  show "str_val pubkey58 = bytes_val pubkey"
    by (simp add: pubkey58_def pubkey_def str_val_def bytes_val_def bval_def b58_digit_def alphabet_eq)
  show "leading 49 pubkey58 = leading 0 pubkey"
    by (simp add: pubkey58_def pubkey_def)
qed

lemma signature_encodes: "b58_encode signature = signature58"
proof (rule b58_encode_by_value)
  show "list_all b58_valid signature58"
    by (simp add: signature58_def b58_valid_def alphabet_eq)
  show "str_val signature58 = bytes_val signature"
    by (simp add: signature58_def signature_def str_val_def bytes_val_def bval_def b58_digit_def alphabet_eq)
  show "leading 49 signature58 = leading 0 signature"
    by (simp add: signature58_def signature_def)
qed

end
