(* ===== verification/Encode_Tail.thy ===== *)
theory Encode_Tail
  imports Matmul Chars
begin

unbundle bit_operations_syntax

text \<open>
  Digit generators for inputs of any length (\<open>encode.go\<close>): \<open>encodeSmallTail\<close> for up to eight
  bytes and \<open>encodeVariableTail\<close>, which divides the whole value by \<open>58 ^ 5\<close> four times per
  sweep, with the contract \<open>tail_encoder\<close> that every digit generator of the package fulfils:
  the digits of the value end up at the end of \<open>out\<close>, and the position of the first is returned.

  A generator is given a non-empty byte string whose first byte is not zero.
\<close>

section \<open>The generators\<close>

text \<open>
  The five characters of \<open>r\<close> below position \<open>p\<close>, as \<open>encodeVariableTail\<close> and \<open>encodeSmallTail\<close>
  write them.
\<close>

definition put5 :: "u32 \<Rightarrow> nat \<Rightarrow> bytes \<Rightarrow> bytes option" where
  "put5 r p out =
     do { let q1 = r div 3364;
          p2 \<leftarrow> isub p 2;
          pr \<leftarrow> idx base58Pairs (unat (r - q1 * 3364));
          out \<leftarrow> on_slice out p2 p (putUint16LE pr);
          let q2 = q1 div 3364;
          p4 \<leftarrow> isub p 4;
          pr \<leftarrow> idx base58Pairs (unat (q1 - q2 * 3364));
          out \<leftarrow> on_slice out p4 p2 (putUint16LE pr);
          p5 \<leftarrow> isub p 5;
          c \<leftarrow> idx base58Chars (unat q2);
          upd out p5 c }"

text \<open>\<open>for out[p] == '1' { p++ }\<close>, which panics when it runs off the end.\<close>

function skipOnes :: "bytes \<Rightarrow> nat \<Rightarrow> nat option" where
  "skipOnes out p =
     do { c \<leftarrow> idx out p; if c = byte CHR ''1'' then skipOnes out (Suc p) else Some p }"
  by pat_completeness auto

termination
  by (relation "measure (\<lambda>(out, p). length out - p)") (auto simp: idx_def split: if_splits)

declare skipOnes.simps [simp del]

text \<open>The head of the input, big-endian: \<open>v = v<<8 | uint32(b[i])\<close>.\<close>

definition packHead :: "bytes \<Rightarrow> u32" where
  "packHead bs = fold (\<lambda>b v. push_bit 8 v OR ucast b) bs 0"

text \<open>The limbs of \<open>encodeVariableTail\<close>: a head of up to three bytes, then four at a time.\<close>

definition packLimbs :: "bytes \<Rightarrow> u32 list option" where
  "packLimbs b =
     (let nz = length b; numLimbs = (nz + 3) div 4; head = nz mod 4
      in do {
        limbs \<leftarrow> (if head \<noteq> 0 then upd (replicate numLimbs 0) 0 (packHead (take head b))
                 else Some (replicate numLimbs 0));
        let k = (if head \<noteq> 0 then 1 else 0);
        foldM (\<lambda>t limbs. do { w \<leftarrow> subslice b (head + 4 * t) (head + 4 * t + 4); v \<leftarrow> beUint32 w; upd limbs (k + t) v })
          [0..<nz div 4] limbs })"

text \<open>One limb of a sweep: four chained divisions.\<close>

definition sweepStep :: "nat \<Rightarrow> (u64 \<times> u64 \<times> u64 \<times> u64) \<times> u32 list \<Rightarrow> (u64 \<times> u64 \<times> u64 \<times> u64) \<times> u32 list" where
  "sweepStep j = (\<lambda>((rem1, rem2, rem3, rem4), limbs).
     let v1 = push_bit 32 rem1 OR ucast (limbs ! j);
         q1 = v1 div r1div;
         rem1 = v1 - q1 * r1div;
         v2 = push_bit 32 rem2 OR q1;
         q2 = v2 div r1div;
         rem2 = v2 - q2 * r1div;
         v3 = push_bit 32 rem3 OR q2;
         q3 = v3 div r1div;
         rem3 = v3 - q3 * r1div;
         v4 = push_bit 32 rem4 OR q3;
         q4 = v4 div r1div;
         rem4 = v4 - q4 * r1div
     in ((rem1, rem2, rem3, rem4), limbs[j := ucast q4]))"

definition skipZeros :: "u32 list \<Rightarrow> nat \<Rightarrow> nat" where
  "skipZeros limbs start = start + leading 0 (drop start limbs)"

text \<open>The sweeps: \<open>p\<close> is the write cursor, which moves down 20 characters at a time.\<close>

function sweeps :: "u32 list \<Rightarrow> nat \<Rightarrow> nat \<Rightarrow> bytes \<Rightarrow> (nat \<times> bytes) option" where
  "sweeps limbs start p out =
     (let numLimbs = length limbs; start = skipZeros limbs start
      in if start = numLimbs then Some (p, out)
         else do {
           let ((rem1, rem2, rem3, rem4), limbs) = fold sweepStep [start..<numLimbs] ((0, 0, 0, 0), limbs);
           out \<leftarrow> put5 (ucast rem1) p out;
           p5 \<leftarrow> isub p 5;
           out \<leftarrow> put5 (ucast rem2) p5 out;
           p10 \<leftarrow> isub p 10;
           out \<leftarrow> put5 (ucast rem3) p10 out;
           p15 \<leftarrow> isub p 15;
           out \<leftarrow> put5 (ucast rem4) p15 out;
           p \<leftarrow> isub p 20;
           sweeps limbs start p out })"
  by pat_completeness auto

termination
  by (relation "measure (\<lambda>(limbs, start, p, out). p)") (auto simp: isub_def split: if_splits)

declare sweeps.simps [simp del]

definition encodeVariableTail :: "bytes \<Rightarrow> bytes \<Rightarrow> (nat \<times> bytes) option" where
  "encodeVariableTail b out =
     do { limbs \<leftarrow> packLimbs b;
          (p, out) \<leftarrow> sweeps limbs 0 (length out) out;
          p \<leftarrow> skipOnes out p;
          Some (p, out) }"

text \<open>
  The size, in the arithmetic of \<open>int\<close>, and the number of bytes it is meant to be, which is what the
  generators ask of their window.  The two differ when the product wraps (\<open>encodeVariableSize_fits\<close>,
  \<open>encodeVariableSize_negative\<close>).
\<close>

definition encodeVariableSize :: "nat \<Rightarrow> nat \<Rightarrow> int" where
  "encodeVariableSize w nz =
     (let maxDigits = wrap_int w (wrap_int w (int nz * 138) sdiv 100 + 1)
      in wrap_int w (wrap_int w (maxDigits + 19) sdiv 20 * 20))"

definition variableSize :: "nat \<Rightarrow> nat" where
  "variableSize nz = (let maxDigits = nz * 138 div 100 + 1 in (maxDigits + 19) div 20 * 20)"

text \<open>The two loops of \<open>encodeSmallTail\<close>: whole groups of five, then single digits.\<close>

function smallGroups :: "u64 \<Rightarrow> nat \<Rightarrow> bytes \<Rightarrow> (u64 \<times> nat \<times> bytes) option" where
  "smallGroups v p out =
     (if v \<ge> r1div
      then do { let q = v div r1div;
                let r = (ucast (v - q * r1div) :: u32);
                out \<leftarrow> put5 r p out;
                p \<leftarrow> isub p 5;
                smallGroups q p out }
      else Some (v, p, out))"
  by pat_completeness auto

termination
  by (relation "measure (\<lambda>(v, p, out). p)") (auto simp: isub_def split: if_splits)

function smallDigits :: "u32 \<Rightarrow> nat \<Rightarrow> bytes \<Rightarrow> (nat \<times> bytes) option" where
  "smallDigits r p out =
     (if r > 0
      then do { p \<leftarrow> isub p 1;
                c \<leftarrow> idx base58Chars (unat (r mod 58));
                out \<leftarrow> upd out p c;
                smallDigits (r div 58) p out }
      else Some (p, out))"
  by pat_completeness auto

termination
  by (relation "measure (\<lambda>(r, p, out). p)") (auto simp: isub_def split: if_splits)

declare smallGroups.simps [simp del]
declare smallDigits.simps [simp del]

definition encodeSmallTail :: "bytes \<Rightarrow> bytes \<Rightarrow> (nat \<times> bytes) option" where
  "encodeSmallTail b out =
     do { let v = fold (\<lambda>c v. push_bit 8 v OR ucast c) b (0 :: u64);
          (v, p, out) \<leftarrow> smallGroups v (length out) out;
          smallDigits (ucast v) p out }"

section \<open>Rendering a value in a fixed number of characters\<close>

lemma fixed_add: "fixed b (m + n) v = fixed b m (v div b ^ n) @ fixed b n v"
proof (induction n arbitrary: v)
  case (Suc n)
  then show ?case by (simp add: div_mult2_eq)
qed simp

lemma fixed_mod: "0 < b \<Longrightarrow> fixed b n (v mod b ^ n) = fixed b n v"
  by (intro bval_inj [of _ b]) (auto simp: bval_fixed fixed_less)

definition chars_n :: "nat \<Rightarrow> nat \<Rightarrow> bytes" where
  "chars_n k v = map b58_char (fixed 58 k v)"

lemma length_chars_n [simp]: "length (chars_n k v) = k"
  by (simp add: chars_n_def)

lemma chars_n_0 [simp]: "chars_n 0 v = []"
  by (simp add: chars_n_def)

lemma chars5_n: "chars5 v = chars_n 5 v"
  by (simp add: chars5_def chars_n_def)

lemma chars_n_add: "chars_n (m + n) v = chars_n m (v div 58 ^ n) @ chars_n n v"
  by (simp add: chars_n_def fixed_add)

lemma chars_n_mod: "chars_n n (v mod 58 ^ n) = chars_n n v"
  by (simp only: chars_n_def fixed_mod zero_less_numeral)

lemma chars_n_split:
  assumes "v < 58 ^ k"
  shows "chars_n k v = replicate (k - length (b58_digits v)) 49 @ b58_digits v"
    and "length (b58_digits v) \<le> k"
  using fixed_to_digits [of 58 v k] to_digits_length_le [of 58 v k] assms
  by (simp_all add: chars_n_def b58_digits_def)

lemma chars_n_spells:
  assumes "v < 58 ^ k"
  shows "list_all b58_valid (chars_n k v)" "str_val (chars_n k v) = v"
proof -
  have less: "\<forall>d \<in> set (fixed 58 k v). d < 58" by (simp add: fixed_less)
  then show "list_all b58_valid (chars_n k v)" by (simp add: chars_n_def list_all_iff)
  have "map (\<lambda>d. b58_digit (b58_char d)) (fixed 58 k v) = fixed 58 k v"
    using less by (intro map_idI) simp
  then show "str_val (chars_n k v) = v" using assms by (simp add: str_val_def chars_n_def comp_def)
qed

section \<open>The writers\<close>

lemma length_ge5E:
  assumes "5 \<le> length xs"
  obtains a b c d e R where "xs = a # b # c # d # e # R"
  using assms by (auto simp: Suc_le_length_iff eval_nat_numeral)

lemma put5_eq:
  assumes "unat r < 58 ^ 5" "5 \<le> p" "p \<le> length out"
  shows "put5 r p out = Some (take (p - 5) out @ chars5 (unat r) @ drop p out)"
proof -
  have "5 \<le> length (drop (p - 5) out)" using assms(2,3) by simp
  then obtain a b c d e R where w: "drop (p - 5) out = a # b # c # d # e # R"
    by (rule length_ge5E)
  define A where "A = take (p - 5) out"
  have A: "length A = p - 5" using assms(3) by (simp add: A_def)
  have out: "out = A @ a # b # c # d # e # R"
    unfolding A_def w [symmetric] by simp
  have p: "p = length A + 5" using A assms(2) by simp
  define q1 where "q1 = r div 3364"
  define q2 where "q2 = q1 div 3364"
  have q1: "unat q1 = unat r div 3364" by (simp add: q1_def unat_div)
  have q2: "unat q2 = unat r div 11316496" by (simp add: q2_def q1 unat_div div_mult2_eq [symmetric])
  have r1: "unat (r - q1 * 3364) = unat r mod 3364"
    unfolding q1_def by (simp add: unat_sub_div_mult)
  have r2: "unat (q1 - q2 * 3364) = unat r div 3364 mod 3364"
    unfolding q2_def by (simp add: unat_sub_div_mult q1)
  have lt: "unat r div 11316496 < 58"
    using assms(1) by (simp add: less_mult_imp_div_less)
  have m: "n mod 3364 div 58 = n div 58 mod 58" "n mod 3364 mod 58 = n mod 58" for n :: nat
    using mod_mult2_eq [of n 58 58] by simp_all
  show ?thesis
    unfolding p out
    using lt
    by (simp add: put5_def Let_def q1_def [symmetric] q2_def [symmetric] r1 r2 q2 isub_def
        on_slice_def putUint16LE_pair base58Chars_nth chars5_def fixed5 m list_update_append
        div_mult2_eq [symmetric])
qed

lemma skipOnes_eq:
  assumes "drop p out = replicate k 49 @ ys" "ys \<noteq> []" "hd ys \<noteq> 49"
  shows "skipOnes out p = Some (p + k)"
  using assms(1)
proof (induction k arbitrary: p)
  case 0
  then have "p < length out" "out ! p = hd ys"
    using assms(2) by (auto simp: not_le hd_drop_conv_nth [symmetric] intro: ccontr)
  then show ?case using assms(3) by (simp add: skipOnes.simps [of out p])
next
  case (Suc k)
  then have "p < length out" by (auto intro: ccontr simp: not_le)
  moreover from this have "drop p out = out ! p # drop (Suc p) out" by (rule Cons_nth_drop_Suc [symmetric])
  with Suc.prems have "out ! p = 49" "drop (Suc p) out = replicate k 49 @ ys" by simp_all
  ultimately show ?case using Suc.IH [of "Suc p"] by (simp add: skipOnes.simps [of out p])
qed

text \<open>After the last character is written, skipping the ones leaves the digits of the value.\<close>

lemma skipOnes_chars:
  assumes "drop p out = chars_n k v" "v < 58 ^ k" "0 < v"
  shows "skipOnes out p = Some (p + k - length (b58_digits v))"
    and "drop (p + k - length (b58_digits v)) out = b58_digits v"
    and "length (b58_digits v) \<le> k"
proof -
  note S = chars_n_split [OF assms(2)]
  show "length (b58_digits v) \<le> k" by (rule S(2))
  have "skipOnes out p = Some (p + (k - length (b58_digits v)))"
    using assms(1,3) b58_digits_hd by (intro skipOnes_eq [where ys = "b58_digits v"]) (auto simp: S(1))
  then show "skipOnes out p = Some (p + k - length (b58_digits v))" using S(2) by simp
  have "drop (p + k - length (b58_digits v)) out = drop (k - length (b58_digits v)) (drop p out)"
    using S(2) by (simp add: add.commute)
  then show "drop (p + k - length (b58_digits v)) out = b58_digits v"
    using assms(1) by (simp add: S(1))
qed

section \<open>The contract\<close>

text \<open>
  What a digit generator promises about the input \<open>b\<close> and the window \<open>out\<close> it is given: the base-58
  digits of the value end \<open>out\<close>, which keeps its length, and the index of the first is returned.
\<close>

definition tail_done :: "bytes \<Rightarrow> bytes \<Rightarrow> (nat \<times> bytes) option \<Rightarrow> bool" where
  "tail_done b out r \<longleftrightarrow> (\<exists>out'. r = Some (length out - length (b58_digits (bytes_val b)), out') \<and>
     length out' = length out \<and> length (b58_digits (bytes_val b)) \<le> length out \<and>
     drop (length out - length (b58_digits (bytes_val b))) out' = b58_digits (bytes_val b))"

locale tail_encoder =
  fixes tl :: "bytes \<Rightarrow> bytes \<Rightarrow> (nat \<times> bytes) option" and minLen maxLen :: nat
  assumes delivers: "minLen \<le> length b \<Longrightarrow> length b \<le> maxLen \<Longrightarrow> b \<noteq> [] \<Longrightarrow> hd b \<noteq> 0 \<Longrightarrow>
    variableSize (length b) \<le> length out \<Longrightarrow> tail_done b out (tl b out)"

lemma bytes_val_gt_0: "b \<noteq> [] \<Longrightarrow> hd b \<noteq> 0 \<Longrightarrow> 0 < bytes_val b"
  using bytes_val_pos [of b] by (metis less_le_trans zero_less_numeral zero_less_power)

lemma power_bound:
  fixes a b :: nat
  assumes "a ^ k \<le> b ^ l" "n * l \<le> k * m" "0 < k" "0 < b"
  shows "a ^ n \<le> b ^ m"
proof -
  have "(a ^ n) ^ k = (a ^ k) ^ n" by (simp only: power_mult [symmetric] mult.commute)
  also have "\<dots> \<le> (b ^ l) ^ n" using assms(1) by (rule power_mono) simp
  also have "\<dots> = b ^ (n * l)" by (simp only: power_mult [symmetric] mult.commute)
  also have "\<dots> \<le> b ^ (k * m)" using assms(2,4) by (intro power_increasing) simp_all
  also have "\<dots> = (b ^ m) ^ k" by (simp only: power_mult [symmetric] mult.commute)
  finally show ?thesis using assms(3) by (simp add: power_mono_iff)
qed

lemma variableSize_le: "0 < nz \<Longrightarrow> variableSize nz + nz \<le> 138 * nz"
proof -
  assume "0 < nz"
  moreover have "(nz * 138 div 100 + 1 + 19) div 20 * 20 \<le> nz * 138 div 100 + 1 + 19" by (rule div_times_less_eq_dividend)
  moreover have "nz * 138 div 100 \<le> 2 * nz" by simp
  ultimately show ?thesis unfolding variableSize_def Let_def by linarith
qed

lemma encodeVariableSize_fits:
  assumes "0 < nz" "138 * nz < 2 ^ (w - 1)"
  shows "encodeVariableSize w nz = int (variableSize nz)"
proof -
  have "int (138 * nz) < int (2 ^ (w - 1))" using assms(2) by (simp only: of_nat_less_iff)
  then have room: "k < 2 ^ (w - 1)" if "k \<le> int nz * 138" for k using that by simp
  have 1: "wrap_int w (int nz * 138) = int (nz * 138)" using room by (simp add: wrap_int_fits)
  have "int (nz * 138) sdiv 100 = int (nz * 138 div 100)" by (simp add: sdiv_nonneg zdiv_int)
  then have 2: "wrap_int w (int (nz * 138) sdiv 100 + 1) = int (nz * 138 div 100 + 1)"
    using assms(1) wrap_int_fits [OF _ room, of "int (nz * 138 div 100) + 1"] by simp
  have 3: "wrap_int w (int (nz * 138 div 100 + 1) + 19) = int (nz * 138 div 100 + 1 + 19)"
    using assms(1) wrap_int_fits [OF _ room, of "int (nz * 138 div 100 + 1) + 19"] by simp
  have "int (nz * 138 div 100 + 1 + 19) sdiv 20 * 20 = int (variableSize nz)"
    by (simp add: sdiv_nonneg zdiv_int variableSize_def Let_def)
  moreover have "wrap_int w (int (variableSize nz)) = int (variableSize nz)"
    using variableSize_le [OF assms(1)] by (intro wrap_int_fits room) simp_all
  ultimately show ?thesis by (simp only: encodeVariableSize_def Let_def 1 2 3)
qed

text \<open>With 32 bits the product wraps from 15561476 bytes on, and the size comes out negative.\<close>

lemma encodeVariableSize_negative:
  assumes "15561476 \<le> nz" "nz \<le> 31122900"
  shows "encodeVariableSize 32 nz < 0"
proof -
  let ?k = "int nz * 138 - 2 ^ 32"
  have 1: "wrap_int 32 (int nz * 138) = ?k" using assms by (intro wrap_int_overflow) simp_all
  have k: "- (2 ^ 31) \<le> ?k" "?k \<le> - 7000" using assms by simp_all
  define q where "q = ?k sdiv 100"
  have q: "- (2 ^ 31) \<le> q" "q \<le> - 70" using k by (simp_all add: q_def signed_divide_int_def)
  have self: "wrap_int 32 i = i" if "- (2 ^ 31) \<le> i" "i < 0" for i
    using that by (simp add: wrap_int_def signed_take_bit_int_eq_self_iff)
  define r where "r = (q + 1 + 19) sdiv 20"
  have r: "q + 20 \<le> r * 20" "r < 0" using q by (auto simp: r_def signed_divide_int_def)
  have e: "wrap_int 32 (q + 1) = q + 1" "wrap_int 32 (q + 1 + 19) = q + 1 + 19" "wrap_int 32 (r * 20) = r * 20"
    using q r by (intro self; linarith)+
  have "encodeVariableSize 32 nz = r * 20"
    unfolding encodeVariableSize_def Let_def 1 q_def [symmetric] e(1) e(2) r_def [symmetric] by (rule e(3))
  then show ?thesis using r(2) by simp
qed

lemma variableSize_enough:
  "256 ^ nz \<le> (58 :: nat) ^ (nz * 138 div 100 + 1)" "nz * 138 div 100 + 1 \<le> variableSize nz"
proof -
  have le: "nz * 138 \<le> 100 * (nz * 138 div 100 + 1)" by simp
  have "(256 :: nat) ^ 100 \<le> 58 ^ 138" by simp
  from power_bound [OF this le] show "256 ^ nz \<le> (58 :: nat) ^ (nz * 138 div 100 + 1)" by simp
  have "n \<le> (n + 19) div 20 * 20" for n :: nat by presburger
  then show "nz * 138 div 100 + 1 \<le> variableSize nz" by (simp add: variableSize_def Let_def)
qed

lemma digits_bound: "length (b58_digits (bytes_val b)) \<le> length b * 138 div 100 + 1"
proof -
  have "bytes_val b < 58 ^ (length b * 138 div 100 + 1)"
    using bytes_val_less [of b] variableSize_enough(1) [of "length b"] by (rule less_le_trans)
  then show ?thesis by (rule chars_n_split(2))
qed

section \<open>\<open>encodeSmallTail\<close>\<close>

text \<open>Bytes shifted into a word, as long as they fit.\<close>

lemma unat_shift_in:
  fixes v :: "'a::len word"
  assumes "unat v * 256 + 255 < 2 ^ LENGTH('a)" "8 < LENGTH('a)"
  shows "unat (push_bit 8 v OR ucast (c :: u8)) = unat v * 256 + unat c"
proof -
  have "unat (v * 2 ^ 8) = unat v * 256"
  proof -
    have "(2 :: nat) ^ 8 < 2 ^ LENGTH('a)" using assms(2) by (intro power_strict_increasing) simp_all
    then have "unat (2 ^ 8 :: 'a word) = 2 ^ 8"
      using unat_of_nat_small [of "2 ^ 8", where 'a = 'a] by simp
    then show ?thesis using assms by (simp add: unat_mult_nowrap)
  qed
  then have p: "unat (push_bit 8 v) = unat v * 256" by (simp add: push_bit_eq_mult)
  have "push_bit 8 v OR ucast c = push_bit 8 v + ucast c"
    by (intro disjunctive_add [symmetric]) (auto simp: bit_simps not_le dest: bit_imp_le_length)
  moreover have "unat (ucast c :: 'a word) = unat c" using assms(2) by simp
  moreover have "unat c \<le> 255" using unat_u8_less [of c] by linarith
  then have "unat (push_bit 8 v) + unat (ucast c :: 'a word) < 2 ^ LENGTH('a)"
    using p assms(1) \<open>unat (ucast c :: 'a word) = unat c\<close> by linarith
  ultimately show ?thesis using p by (simp add: unat_add_nowrap)
qed

lemma unat_pack:
  assumes "256 ^ length bs \<le> (2 :: nat) ^ LENGTH('a)" "8 < LENGTH('a)"
  shows "unat (fold (\<lambda>c v. push_bit 8 v OR ucast c) bs (0 :: 'a::len word)) = bytes_val bs"
  using assms(1)
proof (induction bs rule: rev_induct)
  case (snoc c bs)
  have "256 ^ length bs \<le> (256 :: nat) ^ length (bs @ [c])" by simp
  also note snoc.prems
  finally have IH: "unat (fold (\<lambda>c v. push_bit 8 v OR ucast c) bs (0 :: 'a word)) = bytes_val bs"
    by (rule snoc.IH)
  have "bytes_val bs + 1 \<le> 256 ^ length bs" using bytes_val_less [of bs] by simp
  then have "(bytes_val bs + 1) * 256 \<le> 2 ^ LENGTH('a)"
    using snoc.prems by (simp add: mult.commute)
  then have "bytes_val bs * 256 + 255 < 2 ^ LENGTH('a)" by simp
  then show ?case
    using IH assms(2) by (simp add: unat_shift_in bytes_val_append bytes_val_Cons)
qed simp

lemma smallDigits_eq:
  assumes "unat r < 58 ^ k" "k \<le> p" "p \<le> length out"
  shows "smallDigits r p out = Some (p - length (b58_digits (unat r)),
    take (p - length (b58_digits (unat r))) out @ b58_digits (unat r) @ drop p out)"
  using assms
proof (induction k arbitrary: r p out)
  case 0
  then have "r = 0" by (simp add: unat_eq_0 [symmetric])
  then show ?case by (simp add: smallDigits.simps [of 0])
next
  case (Suc k)
  show ?case
  proof (cases "r = 0")
    case True
    then show ?thesis by (simp add: smallDigits.simps [of 0])
  next
    case False
    let ?n = "unat r" and ?out = "out[p - 1 := b58_char (unat r mod 58)]"
    have n: "0 < ?n" using False by (simp add: unat_gt_0)
    have d: "b58_digits ?n = b58_digits (?n div 58) @ [b58_char (?n mod 58)]"
      using n by (simp add: b58_digits_def to_digits_step [of 58 ?n])
    have u: "unat (r div 58) = ?n div 58" "unat (r mod 58) = ?n mod 58"
      by (simp_all add: unat_div unat_mod)
    have "?n div 58 < 58 ^ k" using Suc.prems(1) by (simp add: less_mult_imp_div_less mult.commute)
    then have IH: "smallDigits (r div 58) (p - 1) ?out = Some (p - 1 - length (b58_digits (?n div 58)),
      take (p - 1 - length (b58_digits (?n div 58))) ?out @ b58_digits (?n div 58) @ drop (p - 1) ?out)"
      using Suc.IH [of "r div 58" "p - 1" ?out] Suc.prems unfolding u by simp
    have "drop (p - 1) ?out = b58_char (?n mod 58) # drop p out"
      using Suc.prems by (cases p) (simp_all add: drop_update_swap Cons_nth_drop_Suc [symmetric])
    moreover have "take (p - 1 - j) ?out = take (p - 1 - j) out" for j by simp
    moreover have "smallDigits r p out = smallDigits (r div 58) (p - 1) ?out"
      using Suc.prems False by (subst smallDigits.simps) (simp add: word_gt_0 u base58Chars_nth)
    ultimately show ?thesis using IH by (simp add: d)
  qed
qed

lemma smallGroups_eq:
  assumes "unat v < 58 ^ (5 * m)" "5 * m \<le> p" "p \<le> length out" "0 < unat v"
  shows "\<exists>v' k out'. smallGroups v p out = Some (v', p - 5 * k, out') \<and> 5 * k \<le> p \<and>
    0 < unat v' \<and> unat v' < 58 ^ 5 \<and> unat v' = unat v div 58 ^ (5 * k) \<and>
    out' = take (p - 5 * k) out @ chars_n (5 * k) (unat v) @ drop p out"
  using assms
proof (induction m arbitrary: v p out)
  case 0
  then show ?case by simp
next
  case (Suc m)
  show ?case
  proof (cases "v \<ge> r1div")
    case False
    then have "unat v < 58 ^ 5" by (simp add: word_le_nat_alt not_le)
    moreover have "smallGroups v p out = Some (v, p, out)" using False by (subst smallGroups.simps) simp
    ultimately show ?thesis
      using Suc.prems(3,4) by (intro exI [of _ v] exI [of _ 0] exI [of _ out]) simp
  next
    case True
    let ?n = "unat v" and ?q = "v div r1div" and ?r = "v - v div r1div * r1div"
    have q: "unat ?q = ?n div 58 ^ 5" by (simp add: unat_div)
    have r: "unat ?r = ?n mod 58 ^ 5" by (simp only: unat_sub_div_mult unat_r1div)
    then have r': "unat (ucast ?r :: u32) = ?n mod 58 ^ 5"
      by (subst unat_ucast_small) simp_all
    let ?out = "take (p - 5) out @ chars5 (?n mod 58 ^ 5) @ drop p out"
    have put: "put5 (ucast ?r) p out = Some ?out"
      using put5_eq [of "ucast ?r" p out] Suc.prems(2,3) unfolding r' by simp
    have run: "smallGroups v p out = smallGroups ?q (p - 5) ?out"
      using True put Suc.prems(2) by (subst smallGroups.simps) (simp add: Let_def)
    have "58 ^ 5 \<le> ?n" using True by (simp add: word_le_nat_alt)
    then have q0: "0 < unat ?q" unfolding q by (simp add: div_greater_zero_iff)
    have "5 * Suc m = 5 * m + 5" by simp
    then have "(58 :: nat) ^ (5 * Suc m) = 58 ^ (5 * m) * 58 ^ 5"
      by (simp only: power_add)
    then have ql: "unat ?q < 58 ^ (5 * m)"
      unfolding q using Suc.prems(1) by (intro less_mult_imp_div_less) (simp only:)
    obtain v' k out' where IH: "smallGroups ?q (p - 5) ?out = Some (v', p - 5 - 5 * k, out')" "5 * k \<le> p - 5"
      "0 < unat v'" "unat v' < 58 ^ 5" "unat v' = unat ?q div 58 ^ (5 * k)"
      "out' = take (p - 5 - 5 * k) ?out @ chars_n (5 * k) (unat ?q) @ drop (p - 5) ?out"
    proof -
      have "5 * m \<le> p - 5" "p - 5 \<le> length ?out" using Suc.prems(2,3) by simp_all
      from Suc.IH [OF ql this q0] that show ?thesis by blast
    qed
    have c5: "chars5 (?n mod 58 ^ 5) = chars_n 5 ?n"
      by (simp only: chars5_n chars_n_mod)
    have "unat v' = ?n div 58 ^ (5 * Suc k)"
      unfolding IH(5) q by (simp only: div_mult2_eq [symmetric] power_add [symmetric] mult_Suc_right)
    moreover have "out' = take (p - 5 * Suc k) out @ chars_n (5 * Suc k) ?n @ drop p out"
    proof -
      have "chars_n (5 * Suc k) ?n = chars_n (5 * k) (?n div 58 ^ 5) @ chars_n 5 ?n"
        using chars_n_add [of "5 * k" 5 ?n] by (simp only: mult_Suc_right add.commute)
      moreover have "take (p - 5 - 5 * k) ?out = take (p - 5 * Suc k) out"
        using Suc.prems(2,3) by (simp add: min_def)
      moreover have "drop (p - 5) ?out = chars_n 5 ?n @ drop p out"
        using Suc.prems(2,3) by (simp add: c5 [simplified] min_def)
      ultimately show ?thesis unfolding IH(6) q by simp
    qed
    moreover have "smallGroups v p out = Some (v', p - 5 * Suc k, out')" "5 * Suc k \<le> p"
      using run IH(1,2) Suc.prems(2) by simp_all
    ultimately show ?thesis using IH(3,4) by blast
  qed
qed

lemma b58_digits_shift:
  "0 < v div 58 ^ k \<Longrightarrow> b58_digits v = b58_digits (v div 58 ^ k) @ chars_n k v"
proof (induction k arbitrary: v)
  case (Suc k)
  have "0 < v" "0 < v div 58 div 58 ^ k" using Suc.prems by (auto simp: div_mult2_eq intro: gr0I)
  then show ?case
    using Suc.IH [of "v div 58"]
    by (simp add: b58_digits_def to_digits_step [of 58 v] chars_n_def div_mult2_eq)
qed simp

lemma less_pow_digits: "n < 58 ^ length (b58_digits n)"
proof -
  have "bval 58 (to_digits 58 n) < 58 ^ length (to_digits 58 n)"
    by (intro bval_less) (simp add: to_digits_less)
  then show ?thesis by (simp add: b58_digits_def)
qed

lemma encodeSmallTail_done:
  assumes "length b \<le> 8" "b \<noteq> []" "hd b \<noteq> 0" "variableSize (length b) \<le> length out"
  shows "tail_done b out (encodeSmallTail b out)"
proof -
  let ?V = "bytes_val b" and ?L = "length out"
  define v where "v = fold (\<lambda>c v. push_bit 8 v OR ucast c) b (0 :: u64)"
  have "(256 :: nat) ^ length b \<le> 256 ^ 8" using assms(1) by (intro power_increasing) simp_all
  then have v: "unat v = ?V" unfolding v_def by (intro unat_pack) simp_all
  have pos: "0 < ?V" using assms(2,3) by (rule bytes_val_gt_0)
  have D: "length (b58_digits ?V) \<le> ?L"
    using digits_bound [of b] variableSize_enough(2) [of "length b"] assms(4) by linarith
  define m where "m = variableSize (length b) div 5"
  have m: "5 * m = variableSize (length b)"
    by (simp add: m_def variableSize_def Let_def)
  have "?V < 58 ^ (length b * 138 div 100 + 1)"
    using bytes_val_less [of b] variableSize_enough(1) [of "length b"] by (rule less_le_trans)
  also have "\<dots> \<le> 58 ^ (5 * m)"
    unfolding m using variableSize_enough(2) [of "length b"] by (intro power_increasing) simp_all
  finally have lt: "unat v < 58 ^ (5 * m)" by (simp only: v)
  obtain v' k out' where G: "smallGroups v ?L out = Some (v', ?L - 5 * k, out')" "5 * k \<le> ?L"
    "0 < unat v'" "unat v' < 58 ^ 5" "unat v' = unat v div 58 ^ (5 * k)"
    "out' = take (?L - 5 * k) out @ chars_n (5 * k) (unat v) @ drop ?L out"
  proof -
    have "5 * m \<le> ?L" "0 < unat v" using assms(4) m pos v by simp_all
    from smallGroups_eq [OF lt this(1) order_refl this(2)] that show ?thesis by blast
  qed
  have u: "unat (ucast v' :: u32) = unat v'" using G(4) by (simp add: unat_ucast_small)
  have eq: "b58_digits ?V = b58_digits (unat v') @ chars_n (5 * k) ?V"
    using b58_digits_shift [of ?V "5 * k"] G(3,5) v by simp
  have len: "length out' = ?L" using G(2,6) by simp
  have fit: "length (b58_digits (unat v')) \<le> ?L - 5 * k" using D eq by simp
  have "unat (ucast v' :: u32) < 58 ^ length (b58_digits (unat v'))"
    unfolding u by (rule less_pow_digits)
  from smallDigits_eq [OF this fit] have
    "smallDigits (ucast v') (?L - 5 * k) out' = Some (?L - 5 * k - length (b58_digits (unat v')),
      take (?L - 5 * k - length (b58_digits (unat v'))) out' @ b58_digits (unat v') @ drop (?L - 5 * k) out')"
    using len unfolding u by simp
  moreover have "drop (?L - 5 * k) out' = chars_n (5 * k) ?V" using G(2,6) v by simp
  ultimately have "encodeSmallTail b out = Some (?L - length (b58_digits ?V),
      take (?L - length (b58_digits ?V)) out' @ b58_digits ?V)"
    using G(1) eq by (simp add: encodeSmallTail_def v_def [symmetric] Let_def add.commute)
  then show ?thesis using len D by (simp add: tail_done_def)
qed

section \<open>\<open>encodeVariableTail\<close>\<close>

lemma packWords_prefix:
  assumes "head + 4 * m \<le> length b" "m \<le> n"
  shows "foldM (\<lambda>t limbs. do { w \<leftarrow> subslice b (head + 4 * t) (head + 4 * t + 4); v \<leftarrow> beUint32 w; upd limbs (length pre + t) v })
           [0..<m] (pre @ replicate n 0)
       = Some (pre @ be_words m (drop head b) @ replicate (n - m) 0)"
  using assms
proof (induction m)
  case 0
  then show ?case by (simp add: be_words_def)
next
  case (Suc m)
  have "replicate (n - m) (0::u32) = 0 # replicate (n - Suc m) 0"
    using Suc.prems by (metis Suc_diff_Suc Suc_le_lessD replicate_Suc)
  then show ?case
    using Suc by (simp add: beUint32_eq be_words_def list_update_append add.commute)
qed

lemma packLimbs_eq:
  obtains limbs where "packLimbs b = Some limbs" "bval (2 ^ 32) (map unat limbs) = bytes_val b"
proof -
  let ?nz = "length b" and ?m = "length b div 4" and ?h = "length b mod 4"
  define pre where "pre = (if ?h \<noteq> 0 then [packHead (take ?h b)] else [])"
  have hm: "?nz = ?h + 4 * ?m" by simp
  have num: "(?nz + 3) div 4 = length pre + ?m"
  proof -
    have "(r + 4 * q + 3) div 4 = (if r \<noteq> 0 then 1 else 0) + q" if "r < 4" for r q :: nat
      using that by auto
    from this [of ?h ?m] show ?thesis unfolding pre_def by simp
  qed
  have start: "(if ?h \<noteq> 0 then upd (replicate ((?nz + 3) div 4) 0) 0 (packHead (take ?h b))
      else Some (replicate ((?nz + 3) div 4) 0)) = Some (pre @ replicate ?m 0)"
    unfolding num by (simp add: pre_def)
  have k: "(if ?h \<noteq> 0 then 1 else 0) = length pre" by (simp add: pre_def)
  have "packLimbs b = Some (pre @ be_words ?m (drop ?h b))"
    using packWords_prefix [of ?h ?m b ?m pre] hm
    unfolding packLimbs_def Let_def start k by simp
  moreover have "bval (2 ^ 32) (map unat (pre @ be_words ?m (drop ?h b))) = bytes_val b"
  proof -
    have "length (take ?h b) \<le> 3" by simp
    then have "(256 :: nat) ^ length (take ?h b) \<le> 256 ^ 3" by (intro power_increasing) simp_all
    then have "unat (packHead (take ?h b)) = bytes_val (take ?h b)"
      unfolding packHead_def by (intro unat_pack) simp_all
    then have pre: "bval (2 ^ 32) (map unat pre) = bytes_val (take ?h b)" by (simp add: pre_def)
    have len: "length (drop ?h b) = 4 * ?m" using hm by (metis diff_add_inverse length_drop)
    have "bytes_val b = bytes_val (take ?h b) * 256 ^ (4 * ?m) + bytes_val (drop ?h b)"
      using bytes_val_append [of "take ?h b" "drop ?h b"] unfolding len by simp
    moreover have "(256 :: nat) ^ (4 * ?m) = (2 ^ 32) ^ ?m" by (simp add: power_mult)
    ultimately show ?thesis
      using bval_be_words [OF len] by (simp only: map_append bval_append pre length_map length_be_words)
  qed
  ultimately show ?thesis by (rule that)
qed

text \<open>One long division, limb by limb: quotient so far, remainder, next limb.\<close>

lemma div_step:
  fixes A :: nat
  assumes "A = Q * D + r" "r < D" "x < B"
  shows "A * B + x = (Q * B + (r * B + x) div D) * D + (r * B + x) mod D"
    and "(r * B + x) div D < B" "(r * B + x) mod D < D"
proof -
  have "A * B + x = Q * B * D + (r * B + x)"
    using assms(1) by (simp add: add_mult_distrib mult.assoc mult.commute [of B])
  also have "\<dots> = Q * B * D + ((r * B + x) div D * D + (r * B + x) mod D)" by simp
  finally show "A * B + x = (Q * B + (r * B + x) div D) * D + (r * B + x) mod D"
    by (simp add: add_mult_distrib)
  have "r * B + x < (r + 1) * B" using assms(3) by simp
  also have "\<dots> \<le> D * B" using assms(2) by (intro mult_le_mono1) simp
  finally show "(r * B + x) div D < B" by (intro less_mult_imp_div_less) (simp add: mult.commute)
  show "(r * B + x) mod D < D" using assms(2) by simp
qed

text \<open>Four of them in a chain: the quotient digits of one are the limbs of the next.\<close>

definition chain :: "nat \<Rightarrow> u64 \<times> u64 \<times> u64 \<times> u64 \<Rightarrow> nat \<Rightarrow> bool" where
  "chain X = (\<lambda>(r1, r2, r3, r4) Q. \<exists>A1 A2 A3.
     X = A1 * 58 ^ 5 + unat r1 \<and> A1 = A2 * 58 ^ 5 + unat r2 \<and>
     A2 = A3 * 58 ^ 5 + unat r3 \<and> A3 = Q * 58 ^ 5 + unat r4 \<and>
     unat r1 < 58 ^ 5 \<and> unat r2 < 58 ^ 5 \<and> unat r3 < 58 ^ 5 \<and> unat r4 < 58 ^ 5)"

lemma link:
  fixes r x :: u64
  defines "v \<equiv> push_bit 32 r OR x"
  assumes "A = Q * 58 ^ 5 + unat r" "unat r < 58 ^ 5" "unat x < 2 ^ 32"
  shows "A * 2 ^ 32 + unat x = (Q * 2 ^ 32 + unat (v div r1div)) * 58 ^ 5 + unat (v - v div r1div * r1div)"
    and "unat (v div r1div) < 2 ^ 32" "unat (v - v div r1div * r1div) < 58 ^ 5"
proof -
  have "unat r < 2 ^ 32" using assms(3) by simp
  then have v: "unat v = unat r * 2 ^ 32 + unat x" unfolding v_def using assms(4) by (rule two_words)
  have q: "unat (v div r1div) = (unat r * 2 ^ 32 + unat x) div 58 ^ 5"
    by (simp only: unat_div unat_r1div v)
  have m: "unat (v - v div r1div * r1div) = (unat r * 2 ^ 32 + unat x) mod 58 ^ 5"
    by (simp only: unat_sub_div_mult unat_r1div v)
  note D = div_step [OF assms(2-4)]
  show "A * 2 ^ 32 + unat x = (Q * 2 ^ 32 + unat (v div r1div)) * 58 ^ 5 + unat (v - v div r1div * r1div)"
    unfolding q m by (rule D(1))
  show "unat (v div r1div) < 2 ^ 32" unfolding q by (rule D(2))
  show "unat (v - v div r1div * r1div) < 58 ^ 5" unfolding m by (rule D(3))
qed

lemma sweepStep_chain:
  assumes "chain X rems Q" "sweepStep j (rems, limbs) = (rems', limbs')"
  shows "\<exists>q. limbs' = limbs[j := q] \<and> chain (X * 2 ^ 32 + unat (limbs ! j)) rems' (Q * 2 ^ 32 + unat q)"
proof -
  obtain r1 r2 r3 r4 where rems: "rems = (r1, r2, r3, r4)" by (cases rems) auto
  obtain A1 A2 A3 where C: "X = A1 * 58 ^ 5 + unat r1" "A1 = A2 * 58 ^ 5 + unat r2"
    "A2 = A3 * 58 ^ 5 + unat r3" "A3 = Q * 58 ^ 5 + unat r4"
    "unat r1 < 58 ^ 5" "unat r2 < 58 ^ 5" "unat r3 < 58 ^ 5" "unat r4 < 58 ^ 5"
    using assms(1) unfolding chain_def rems by blast
  define x where "x = (ucast (limbs ! j) :: u64)"
  have x: "unat x = unat (limbs ! j)" "unat x < 2 ^ 32"
    using unat_lt_pow [of "limbs ! j"] by (simp_all add: x_def)
  define v1 where "v1 = push_bit 32 r1 OR x"
  note L1 = link [OF C(1,5) x(2), folded v1_def]
  define v2 where "v2 = push_bit 32 r2 OR (v1 div r1div)"
  note L2 = link [OF C(2,6) L1(2), folded v2_def]
  define v3 where "v3 = push_bit 32 r3 OR (v2 div r1div)"
  note L3 = link [OF C(3,7) L2(2), folded v3_def]
  define v4 where "v4 = push_bit 32 r4 OR (v3 div r1div)"
  note L4 = link [OF C(4,8) L3(2), folded v4_def]
  have run: "rems' = (v1 - v1 div r1div * r1div, v2 - v2 div r1div * r1div, v3 - v3 div r1div * r1div, v4 - v4 div r1div * r1div)"
    "limbs' = limbs[j := ucast (v4 div r1div)]"
    using assms(2) unfolding sweepStep_def rems Let_def prod.case
    by (simp_all only: x_def [symmetric] v1_def [symmetric] v2_def [symmetric] v3_def [symmetric]
        v4_def [symmetric] prod.inject simp_thms)
  have q: "unat (ucast (v4 div r1div) :: u32) = unat (v4 div r1div)"
    using L4(2) by (intro unat_ucast_small) simp
  have "chain (X * 2 ^ 32 + unat (limbs ! j)) rems' (Q * 2 ^ 32 + unat (ucast (v4 div r1div) :: u32))"
    unfolding run q chain_def prod.case x(1) [symmetric]
    using L1(1,3) L2(1,3) L3(1,3) L4(1,3) by blast
  with run(2) show ?thesis by blast
qed

lemma sweep_chain:
  assumes "start + k \<le> length limbs"
  shows "\<exists>rems qs. fold sweepStep [start..<start + k] ((0, 0, 0, 0), limbs)
      = (rems, take start limbs @ qs @ drop (start + k) limbs) \<and> length qs = k \<and>
    chain (bval (2 ^ 32) (map unat (take k (drop start limbs)))) rems (bval (2 ^ 32) (map unat qs))"
  using assms
proof (induction k)
  case 0
  show ?case by (auto simp: chain_def)
next
  case (Suc k)
  then obtain rems qs where IH: "fold sweepStep [start..<start + k] ((0, 0, 0, 0), limbs)
      = (rems, take start limbs @ qs @ drop (start + k) limbs)" "length qs = k"
    "chain (bval (2 ^ 32) (map unat (take k (drop start limbs)))) rems (bval (2 ^ 32) (map unat qs))"
    by auto
  let ?l = "take start limbs @ qs @ drop (start + k) limbs" and ?x = "limbs ! (start + k)"
  have d: "drop (start + k) limbs = ?x # drop (start + Suc k) limbs"
    using Suc.prems by (simp add: Cons_nth_drop_Suc)
  have ts: "length (take start limbs) = start" using Suc.prems by simp
  have nth: "?l ! (start + k) = ?x"
    unfolding d using ts IH(2) by (simp add: nth_append)
  obtain rems' limbs' where st: "sweepStep (start + k) (rems, ?l) = (rems', limbs')"
    by (cases "sweepStep (start + k) (rems, ?l)")
  obtain q where q: "limbs' = ?l[start + k := q]"
    "chain (bval (2 ^ 32) (map unat (take k (drop start limbs))) * 2 ^ 32 + unat ?x) rems'
       (bval (2 ^ 32) (map unat qs) * 2 ^ 32 + unat q)"
    using sweepStep_chain [OF IH(3) st] unfolding nth by blast
  have "limbs' = take start limbs @ (qs @ [q]) @ drop (start + Suc k) limbs"
    unfolding q(1) d using ts IH(2) by (simp add: list_update_append)
  moreover have "take (Suc k) (drop start limbs) = take k (drop start limbs) @ [?x]"
    using Suc.prems by (simp add: take_Suc_conv_app_nth)
  moreover have "fold sweepStep [start..<start + Suc k] ((0, 0, 0, 0), limbs) = (rems', limbs')"
    using IH(1) st by simp
  ultimately show ?case
    using q(2) IH(2) by (intro exI [of _ rems'] exI [of _ "qs @ [q]"]) (simp del: power_numeral)
qed

lemma chain_digits:
  assumes "chain V (r1, r2, r3, r4) Q"
  shows "Q = V div 58 ^ 20"
    and "chars5 (unat r4) @ chars5 (unat r3) @ chars5 (unat r2) @ chars5 (unat r1) = chars_n 20 V"
    and "unat r1 < 58 ^ 5" "unat r2 < 58 ^ 5" "unat r3 < 58 ^ 5" "unat r4 < 58 ^ 5"
proof -
  obtain A1 A2 A3 where C: "V = A1 * 58 ^ 5 + unat r1" "A1 = A2 * 58 ^ 5 + unat r2"
    "A2 = A3 * 58 ^ 5 + unat r3" "A3 = Q * 58 ^ 5 + unat r4"
    and lt: "unat r1 < 58 ^ 5" "unat r2 < 58 ^ 5" "unat r3 < 58 ^ 5" "unat r4 < 58 ^ 5"
    using assms unfolding chain_def prod.case by blast
  show "unat r1 < 58 ^ 5" "unat r2 < 58 ^ 5" "unat r3 < 58 ^ 5" "unat r4 < 58 ^ 5" by (rule lt)+
  have div: "(a * 58 ^ 5 + r) div 58 ^ 5 = a" if "r < 58 ^ 5" for a r :: nat
    using that by simp
  have ch: "chars_n (n + 5) (a * 58 ^ 5 + r) = chars_n n a @ chars5 r" if "r < 58 ^ 5" for a r n :: nat
  proof -
    have "chars_n 5 (a * 58 ^ 5 + r) = chars_n 5 ((a * 58 ^ 5 + r) mod 58 ^ 5)"
      by (rule chars_n_mod [symmetric])
    also have "(a * 58 ^ 5 + r) mod 58 ^ 5 = r" using that by simp
    finally show ?thesis by (simp only: chars_n_add div [OF that] chars5_n)
  qed
  have "V div 58 ^ 20 = V div 58 ^ 5 div 58 ^ 5 div 58 ^ 5 div 58 ^ 5"
    by (simp only: div_mult2_eq [symmetric] power_add [symmetric]) simp
  also have "\<dots> = Q"
    by (simp only: C(1) div [OF lt(1)]) (simp only: C(2-4) div [OF lt(2)] div [OF lt(3)] div [OF lt(4)])
  finally show "Q = V div 58 ^ 20" by simp
  have "chars_n (15 + 5) V = chars_n (10 + 5) A1 @ chars5 (unat r1)"
    by (simp only: C(1) ch [OF lt(1)]) simp
  also have "chars_n (10 + 5) A1 = chars_n (5 + 5) A2 @ chars5 (unat r2)"
    by (simp only: C(2) ch [OF lt(2)]) simp
  also have "chars_n (5 + 5) A2 = chars_n (0 + 5) A3 @ chars5 (unat r3)"
    by (simp only: C(3) ch [OF lt(3)]) simp
  also have "chars_n (0 + 5) A3 = chars5 (unat r4)"
    by (simp only: C(4) ch [OF lt(4)]) simp
  finally show "chars5 (unat r4) @ chars5 (unat r3) @ chars5 (unat r2) @ chars5 (unat r1) = chars_n 20 V"
    by simp
qed

lemma put5_below:
  assumes "unat r < 58 ^ 5" "p + 5 \<le> length out"
  shows "put5 r (p + 5) (take (p + 5) out @ rest) = Some (take p out @ chars5 (unat r) @ rest)"
  using put5_eq [of r "p + 5" "take (p + 5) out @ rest"] assms by (simp add: min_def)

lemma leading_all: "leading x xs = length xs \<longleftrightarrow> set xs \<subseteq> {x}"
  by (induction xs) auto

lemma skipZeros_eq:
  assumes "start \<le> length limbs"
  shows "skipZeros limbs start \<le> length limbs"
    and "bval B (map unat (drop (skipZeros limbs start) limbs)) = bval B (map unat (drop start limbs))"
    and "0 < B \<Longrightarrow> skipZeros limbs start = length limbs \<longleftrightarrow> bval B (map unat (drop start limbs)) = 0"
proof -
  let ?ls = "drop start limbs" and ?z = "leading 0 (drop start limbs)"
  have z: "?z \<le> length limbs - start" using leading_le [of 0 ?ls] by simp
  then show "skipZeros limbs start \<le> length limbs" using assms by (simp add: skipZeros_def)
  have d: "drop (skipZeros limbs start) limbs = drop ?z ?ls" by (simp add: skipZeros_def add.commute)
  have "?ls = replicate ?z 0 @ drop ?z ?ls" by (metis append_take_drop_id take_leading)
  then have "bval B (map unat ?ls) = bval B (map unat (replicate ?z 0 @ drop ?z ?ls))" by (rule arg_cong)
  then show "bval B (map unat (drop (skipZeros limbs start) limbs)) = bval B (map unat ?ls)"
    unfolding d by (simp add: bval_append)
  assume B: "0 < B"
  have "?z = length ?ls \<longleftrightarrow> set ?ls \<subseteq> {0}"
    by (rule leading_all)
  then show "skipZeros limbs start = length limbs \<longleftrightarrow> bval B (map unat ?ls) = 0"
    using B assms z by (auto simp: skipZeros_def bval_eq_0_iff unat_eq_0)
qed

lemma sweeps_eq:
  assumes "bval (2 ^ 32) (map unat (drop start limbs)) < 58 ^ (20 * m)" "20 * m \<le> p" "p \<le> length out"
    "start \<le> length limbs"
  shows "\<exists>k out'. sweeps limbs start p out = Some (p - 20 * k, out') \<and> 20 * k \<le> p \<and>
    bval (2 ^ 32) (map unat (drop start limbs)) < 58 ^ (20 * k) \<and>
    out' = take (p - 20 * k) out @ chars_n (20 * k) (bval (2 ^ 32) (map unat (drop start limbs))) @ drop p out"
  using assms
proof (induction m arbitrary: limbs start p out)
  case 0
  then have "skipZeros limbs start = length limbs" by (subst skipZeros_eq(3)) simp_all
  then show ?case using "0.prems" by (intro exI [of _ 0] exI [of _ out]) (simp add: sweeps.simps [of limbs])
next
  case (Suc m)
  let ?V = "bval (2 ^ 32) (map unat (drop start limbs))" and ?s = "skipZeros limbs start"
  note Z = skipZeros_eq [OF Suc.prems(4)]
  show ?case
  proof (cases "?s = length limbs")
    case True
    then have "?V = 0" using Z(3) [of "2 ^ 32"] by simp
    then show ?thesis using True Suc.prems(2,3)
      by (intro exI [of _ 0] exI [of _ out]) (simp add: sweeps.simps [of limbs])
  next
    case False
    have ss: "?s + (length limbs - ?s) = length limbs" using Z(1) by simp
    obtain rems qs where F: "fold sweepStep [?s..<length limbs] ((0, 0, 0, 0), limbs) = (rems, take ?s limbs @ qs)"
      and C: "chain (bval (2 ^ 32) (map unat (drop ?s limbs))) rems (bval (2 ^ 32) (map unat qs))"
      using sweep_chain [of ?s "length limbs - ?s" limbs] unfolding ss by auto
    obtain r1 r2 r3 r4 where rems: "rems = (r1, r2, r3, r4)" by (cases rems) auto
    note C' = chain_digits [OF C [unfolded rems Z(2)]]
    have p: "20 \<le> p" "p = (p - 20) + 20" using Suc.prems(2) by simp_all
    let ?out = "take (p - 20) out @ chars_n 20 ?V @ drop p out"
    define t where "t = p - 20"
    have u: "unat (ucast r :: u32) = unat r" if "unat r < 58 ^ 5" for r :: u64
      using that by (simp add: unat_ucast_small)
    have pt: "p = t + 20" using p by (simp add: t_def)
    have P1: "put5 (ucast r1) (t + 20) out = Some (take (t + 15) out @ chars5 (unat r1) @ drop p out)"
      using put5_below [of "ucast r1" "t + 15" out "drop p out"] C'(3) Suc.prems(3) u [OF C'(3)] by (simp add: pt add.assoc)
    have P2: "put5 (ucast r2) (t + 15) (take (t + 15) out @ chars5 (unat r1) @ drop p out)
        = Some (take (t + 10) out @ chars5 (unat r2) @ chars5 (unat r1) @ drop p out)"
      using put5_below [of "ucast r2" "t + 10" out] C'(4) Suc.prems(3) u [OF C'(4)] by (simp add: pt add.assoc)
    have P3: "put5 (ucast r3) (t + 10) (take (t + 10) out @ chars5 (unat r2) @ chars5 (unat r1) @ drop p out)
        = Some (take (t + 5) out @ chars5 (unat r3) @ chars5 (unat r2) @ chars5 (unat r1) @ drop p out)"
      using put5_below [of "ucast r3" "t + 5" out] C'(5) Suc.prems(3) u [OF C'(5)] by (simp add: pt add.assoc)
    have P4: "put5 (ucast r4) (t + 5) (take (t + 5) out @ chars5 (unat r3) @ chars5 (unat r2) @ chars5 (unat r1) @ drop p out)
        = Some ?out"
      using put5_below [of "ucast r4" t out] C'(6) Suc.prems(3) u [OF C'(6)] C'(2) [symmetric] by (simp add: pt add.assoc)
    have run: "sweeps limbs start p out = sweeps (take ?s limbs @ qs) ?s t ?out"
    proof -
      have "isub p 5 = Some (t + 15)" "isub p 10 = Some (t + 10)" "isub p 15 = Some (t + 5)" "isub p 20 = Some t"
        by (simp_all add: pt)
      then show ?thesis
        using False F P1 P2 P3 P4 unfolding rems pt
        by (subst sweeps.simps) (simp add: Let_def del: isub_Some)
    qed
    have dq: "drop ?s (take ?s limbs @ qs) = qs" using Z(1) by simp
    have V': "bval (2 ^ 32) (map unat (drop ?s (take ?s limbs @ qs))) = ?V div 58 ^ 20"
      unfolding dq by (rule C'(1))
    have "20 * Suc m = 20 * m + 20" by simp
    then have "?V < 58 ^ (20 * m) * 58 ^ 20" using Suc.prems(1) by (simp only: power_add)
    then have lt: "?V div 58 ^ 20 < 58 ^ (20 * m)" by (intro less_mult_imp_div_less)
    have "20 * m \<le> t" "t \<le> length ?out" "?s \<le> length (take ?s limbs @ qs)"
      using Suc.prems(2,3) Z(1) by (simp_all add: t_def)
    from Suc.IH [OF _ this, unfolded V', OF lt] obtain k out' where
      IH: "sweeps (take ?s limbs @ qs) ?s t ?out = Some (t - 20 * k, out')" "20 * k \<le> t"
      "?V div 58 ^ 20 < 58 ^ (20 * k)"
      "out' = take (t - 20 * k) ?out @ chars_n (20 * k) (?V div 58 ^ 20) @ drop t ?out" by blast
    have k: "20 * Suc k = 20 * k + 20" by simp
    have "?V < 58 ^ (20 * k) * 58 ^ 20" using IH(3) by (simp add: div_less_iff_less_mult del: power_numeral)
    then have "?V < 58 ^ (20 * Suc k)" unfolding k by (simp only: power_add)
    moreover have "out' = take (p - 20 * Suc k) out @ chars_n (20 * Suc k) ?V @ drop p out"
    proof -
      have "take (t - 20 * k) ?out = take (p - 20 * Suc k) out" "drop t ?out = chars_n 20 ?V @ drop p out"
        using Suc.prems(3) by (simp_all add: pt min_def)
      then show ?thesis unfolding IH(4) k chars_n_add by simp
    qed
    ultimately show ?thesis
      using run IH(1,2) pt by (intro exI [of _ "Suc k"] exI [of _ out']) simp
  qed
qed

lemma encodeVariableTail_done:
  assumes "b \<noteq> []" "hd b \<noteq> 0" "variableSize (length b) \<le> length out"
  shows "tail_done b out (encodeVariableTail b out)"
proof -
  let ?V = "bytes_val b" and ?L = "length out"
  define m where "m = variableSize (length b) div 20"
  have m: "20 * m = variableSize (length b)"
    by (simp add: m_def variableSize_def Let_def)
  have "?V < 58 ^ (length b * 138 div 100 + 1)"
    using bytes_val_less [of b] variableSize_enough(1) [of "length b"] by (rule less_le_trans)
  also have "\<dots> \<le> 58 ^ (20 * m)"
    unfolding m using variableSize_enough(2) [of "length b"] by (intro power_increasing) simp_all
  finally have lt: "?V < 58 ^ (20 * m)" .
  obtain limbs where P: "packLimbs b = Some limbs" "bval (2 ^ 32) (map unat limbs) = ?V"
    by (rule packLimbs_eq)
  have d: "bval (2 ^ 32) (map unat (drop 0 limbs)) = ?V" using P(2) by simp
  have "20 * m \<le> ?L" using assms(3) m by simp
  from sweeps_eq [of 0 limbs m ?L out, unfolded d, OF lt this] obtain k out' where
    S: "sweeps limbs 0 ?L out = Some (?L - 20 * k, out')" "20 * k \<le> ?L" "?V < 58 ^ (20 * k)"
      "out' = take (?L - 20 * k) out @ chars_n (20 * k) ?V @ drop ?L out" by auto
  have "drop (?L - 20 * k) out' = chars_n (20 * k) ?V" using S(2,4) by simp
  note O = skipOnes_chars [OF this S(3) bytes_val_gt_0 [OF assms(1,2)]]
  have "encodeVariableTail b out = Some (?L - length (b58_digits ?V), out')"
    using P(1) S(1,2) O(1) by (simp add: encodeVariableTail_def)
  moreover have "drop (?L - length (b58_digits ?V)) out' = b58_digits ?V" using O(2) S(2) by simp
  moreover have "length out' = ?L" using S(2,4) by simp
  ultimately show ?thesis using O(3) S(2) by (simp add: tail_done_def)
qed

interpretation small: tail_encoder encodeSmallTail 1 8
  by unfold_locales (rule encodeSmallTail_done)

end
