(* ===== verification/Encode_Block.thy ===== *)
theory Encode_Block
  imports Encode_Tail Encode_Fixed
begin

unbundle bit_operations_syntax

text \<open>
  The matrix and block-radix digit generators of \<open>encode_block.go\<close> and \<open>encode_block_other.go\<close>.
  They keep a number as little-endian base-\<open>58 ^ 5\<close> limbs in the first \<open>count\<close> entries of a
  scratch array \<open>digits\<close>, with no leading zero limb.
\<close>

section \<open>Limb arrays\<close>

definition pow2_512_base58_5 :: "u32 list" where
  "pow2_512_base58_5 =
   [114698272, 475011419, 135769242, 494394213, 526051483, 437394159,
    19598664, 243715433, 337219057, 222507322, 211243284, 450400380,
    416249884, 213548060, 82779834, 283734095, 542475966, 17217]"

text \<open>\<open>for count > 1 && digits[count-1] == 0 { count-- }\<close>.\<close>

fun trimCount :: "u32 list \<Rightarrow> nat \<Rightarrow> nat" where
  "trimCount digits 0 = 0"
| "trimCount digits (Suc c) = (if Suc c > 1 \<and> digits ! c = 0 then trimCount digits c else Suc c)"

text \<open>
  The carry loop that stores the limbs of a product little-endian: \<open>n\<close> is the index of the last
  limb and \<open>i\<close> counts down.
\<close>

fun storeLoop :: "nat \<Rightarrow> nat \<Rightarrow> u64 \<Rightarrow> u64 list \<Rightarrow> u32 list \<Rightarrow> u32 list option" where
  "storeLoop n 0 v intermediate digits = upd digits n (ucast v)"
| "storeLoop n (Suc i) v intermediate digits =
     (let q = v div r1div
      in do { digits \<leftarrow> upd digits (n - Suc i) (ucast (v - q * r1div));
              storeLoop n i (intermediate ! i + q) intermediate digits })"

definition encodeBlock32 :: "bytes \<Rightarrow> u32 list \<Rightarrow> (u32 list \<times> nat) option" where
  "encodeBlock32 src digits =
     do { intermediate \<leftarrow> encodeMatMul32 src (replicate intermediateSz32 0);
          digits \<leftarrow> storeLoop (intermediateSz32 - 1) (intermediateSz32 - 1)
            (intermediate ! (intermediateSz32 - 1)) intermediate digits;
          Some (digits, trimCount digits intermediateSz32) }"

definition encodeBlock64 :: "bytes \<Rightarrow> u32 list \<Rightarrow> (u32 list \<times> nat) option" where
  "encodeBlock64 src digits =
     do { intermediate \<leftarrow> encodeMatMul64 src (replicate intermediateSz64 0);
          digits \<leftarrow> storeLoop (intermediateSz64 - 1) (intermediateSz64 - 1)
            (intermediate ! (intermediateSz64 - 1)) intermediate digits;
          Some (digits, trimCount digits intermediateSz64) }"

definition encodeDigits5Tail :: "u32 list \<Rightarrow> bytes \<Rightarrow> (nat \<times> bytes) option" where
  "encodeDigits5Tail digits out =
     do { (p, out) \<leftarrow> foldM (\<lambda>digit (p, out).
            do { p \<leftarrow> isub p 5;
                 out \<leftarrow> on_slice out p (p + 5) (extractChars5 digit);
                 Some (p, out) })
            digits (length out, out);
          p \<leftarrow> skipOnes out p;
          Some (p, out) }"

section \<open>Padded matrix inputs\<close>

text \<open>\<open>encode_block_other.go\<close>: no vector kernel in the portable build.\<close>

definition encodePaddedFixedTail :: "bytes \<Rightarrow> bytes \<Rightarrow> (nat \<times> bytes) option" where
  "encodePaddedFixedTail src out = None"

text \<open>\<open>copy(padded[n-len(src):], src)\<close> into a zero array of \<open>n\<close> bytes.\<close>

definition padded :: "nat \<Rightarrow> bytes \<Rightarrow> bytes option" where
  "padded n src = do { o' \<leftarrow> isub n (length src); on_slice (replicate n 0) o' n (\<lambda>w. Some (go_copy w src)) }"

definition encodeMatrixTail :: "bytes \<Rightarrow> bytes \<Rightarrow> (nat \<times> bytes) option" where
  "encodeMatrixTail src out =
     (case encodePaddedFixedTail src out of
        Some r \<Rightarrow> Some r
      | None \<Rightarrow>
          do { (digits, count) \<leftarrow>
                 (if length src \<le> 32
                  then do { b \<leftarrow> padded 32 src; encodeBlock32 b (replicate intermediateSz64 0) }
                  else do { b \<leftarrow> padded 64 src; encodeBlock64 b (replicate intermediateSz64 0) });
               ds \<leftarrow> subslice digits 0 count;
               encodeDigits5Tail ds out })"

section \<open>Numbers held in limb arrays\<close>

abbreviation radix5 :: nat where "radix5 \<equiv> 58 ^ 5"

text \<open>Little-endian values.\<close>

definition lval :: "nat \<Rightarrow> nat list \<Rightarrow> nat" where
  "lval b ds = bval b (rev ds)"

lemma lval_Nil [simp]: "lval b [] = 0"
  by (simp add: lval_def)

lemma lval_Cons: "lval b (d # ds) = d + b * lval b ds"
  by (simp add: lval_def mult.commute)

lemma lval_append: "lval b (xs @ ys) = lval b xs + b ^ length xs * lval b ys"
  by (simp add: lval_def bval_append mult.commute add.commute)

lemma lval_less: "\<forall>d \<in> set ds. d < b \<Longrightarrow> lval b ds < b ^ length ds"
  using bval_less [of "rev ds" b] by (simp add: lval_def)

lemma lval_replicate_0 [simp]: "lval b (replicate n 0) = 0"
  by (simp add: lval_def)

text \<open>The limbs of a number, least significant first; zero has one limb.\<close>

definition limbs_of :: "nat \<Rightarrow> nat list" where
  "limbs_of V = (if V = 0 then [0] else rev (to_digits radix5 V))"

definition holds :: "u32 list \<Rightarrow> nat \<Rightarrow> nat \<Rightarrow> bool" where
  "holds digits count V \<longleftrightarrow> count \<le> length digits \<and> map unat (take count digits) = limbs_of V"

lemma limbs_of_props:
  "lval radix5 (limbs_of V) = V" "\<forall>d \<in> set (limbs_of V). d < radix5" "limbs_of V \<noteq> []"
  "length (limbs_of V) = 1 \<or> last (limbs_of V) \<noteq> 0"
proof -
  have radix5: "2 \<le> radix5" by simp
  show "lval radix5 (limbs_of V) = V"
    using bval_to_digits [OF radix5] by (simp add: limbs_of_def lval_def del: power_numeral)
  show "\<forall>d \<in> set (limbs_of V). d < radix5"
    using to_digits_less [OF radix5] by (auto simp: limbs_of_def simp del: power_numeral)
  show "limbs_of V \<noteq> []"
    using to_digits_eq_Nil [OF radix5] by (simp add: limbs_of_def del: power_numeral)
  show "length (limbs_of V) = 1 \<or> last (limbs_of V) \<noteq> 0"
    using to_digits_hd [OF radix5] by (simp add: limbs_of_def last_rev del: power_numeral)
qed

lemma limbs_of_eqI:
  assumes "\<forall>d \<in> set ds. d < radix5" "ds \<noteq> []" "length ds = 1 \<or> last ds \<noteq> 0" "lval radix5 ds = V"
  shows "ds = limbs_of V"
proof (cases "V = 0")
  case True
  then have z: "set ds \<subseteq> {0}" using assms(4) bval_eq_0_iff [of radix5 "rev ds"] by (simp add: lval_def)
  then have "last ds = 0" using assms(2) last_in_set [of ds] by blast
  then have "length ds = 1" using assms(3) by simp
  then show ?thesis using z True by (cases ds) (auto simp: limbs_of_def)
next
  case False
  have ne: "rev ds \<noteq> []" using assms(2) by simp
  have "hd (rev ds) \<noteq> 0"
  proof (cases "last ds = 0")
    case True
    then have "ds = [0]" using assms(2,3) by (cases ds) auto
    then show ?thesis using False assms(4) by (simp add: lval_def)
  qed (use assms(2) in \<open>simp add: hd_rev\<close>)
  then have "dropWhile (\<lambda>d. d = 0) (rev ds) = rev ds" using ne by (cases "rev ds") auto
  moreover have "to_digits radix5 (bval radix5 (rev ds)) = dropWhile (\<lambda>d. d = 0) (rev ds)"
    using assms(1) by (intro to_digits_bval) simp_all
  ultimately have "to_digits radix5 V = rev ds" using assms(4) by (simp add: lval_def)
  then show ?thesis using False by (simp add: limbs_of_def)
qed

lemma length_limbs_of: "V < radix5 ^ k \<Longrightarrow> 1 \<le> k \<Longrightarrow> length (limbs_of V) \<le> k"
  using to_digits_length_le [of radix5 V k] by (simp add: limbs_of_def)

lemma holds_count:
  assumes "holds digits count V"
  shows "count = length (limbs_of V)" "1 \<le> count"
proof -
  show c: "count = length (limbs_of V)"
    using assms by (metis holds_def length_map length_take min.absorb2)
  show "1 \<le> count" using c limbs_of_props(3) [of V] by (cases "limbs_of V") auto
qed

lemma holdsI:
  assumes "\<forall>d \<in> set (take count digits). unat d < radix5" "1 \<le> count" "count \<le> length digits"
    "count = 1 \<or> digits ! (count - 1) \<noteq> 0" "lval radix5 (map unat (take count digits)) = V"
  shows "holds digits count V"
proof -
  let ?ds = "map unat (take count digits)"
  have len: "length ?ds = count" using assms(3) by simp
  then have "?ds \<noteq> []" using assms(2) by (metis list.size(3) not_one_le_zero)
  moreover have "last ?ds = unat (digits ! (count - 1))"
    using assms(2,3) calculation by (simp add: last_conv_nth min_absorb2)
  ultimately have "?ds = limbs_of V"
    using assms len by (intro limbs_of_eqI) (auto simp: unat_eq_0)
  then show ?thesis using assms(3) by (simp add: holds_def)
qed

lemma trimCount_holds:
  assumes "\<forall>d \<in> set (take n digits). unat d < radix5" "1 \<le> n" "n \<le> length digits"
  shows "holds digits (trimCount digits n) (lval radix5 (map unat (take n digits)))"
  using assms
proof (induction n)
  case (Suc n)
  show ?case
  proof (cases "Suc n > 1 \<and> digits ! n = 0")
    case True
    have t: "take (Suc n) digits = take n digits @ [digits ! n]"
      using Suc.prems(3) by (simp add: take_Suc_conv_app_nth)
    then have "lval radix5 (map unat (take (Suc n) digits)) = lval radix5 (map unat (take n digits))"
      using True by (simp add: lval_append lval_Cons)
    then show ?thesis using Suc True t by simp
  next
    case False
    then show ?thesis using Suc.prems by (intro holdsI) auto
  qed
qed simp

lemma holds_value:
  assumes "holds digits count V"
  shows "lval radix5 (map unat (take count digits)) = V" "\<forall>d \<in> set (take count digits). unat d < radix5"
    "count \<le> length digits"
proof -
  have e: "map unat (take count digits) = limbs_of V" and l: "count \<le> length digits"
    using assms by (simp_all add: holds_def)
  show "lval radix5 (map unat (take count digits)) = V" unfolding e by (rule limbs_of_props)
  show "count \<le> length digits" by (rule l)
  have "\<forall>d \<in> set (map unat (take count digits)). d < radix5" unfolding e by (rule limbs_of_props)
  then show "\<forall>d \<in> set (take count digits). unat d < radix5" by simp
qed

lemma holds_top:
  assumes "holds digits count V"
  shows "count = 1 \<or> digits ! (count - 1) \<noteq> 0"
proof -
  note C = holds_count [OF assms]
  have l: "count - 1 < length (take count digits)" using C(2) holds_value(3) [OF assms] by simp
  have "last (limbs_of V) = limbs_of V ! (count - 1)"
    using last_conv_nth [OF limbs_of_props(3)] C(1) by simp
  also have "\<dots> = map unat (take count digits) ! (count - 1)" using assms by (simp add: holds_def)
  also have "\<dots> = unat (digits ! (count - 1))" using l C(2) by simp
  finally show ?thesis using limbs_of_props(4) [of V] C(1) by (auto simp: unat_eq_0)
qed

lemma holds_le:
  assumes "holds digits count V" "V < radix5 ^ k" "1 \<le> k"
  shows "count \<le> k"
  using holds_count(1) [OF assms(1)] length_limbs_of [OF assms(2,3)] by simp

section \<open>Writing the characters\<close>

lemma chars_of_value:
  assumes "\<forall>d \<in> set ds. d < radix5"
  shows "chars_of ds = chars_n (5 * length ds) (bval radix5 ds)"
proof -
  have "bval 58 (concat (map (fixed 58 5) ds)) = bval radix5 ds"
    using assms by (intro bval_concat_fixed) simp
  moreover have "fixed 58 (length (concat (map (fixed 58 5) ds))) (bval 58 (concat (map (fixed 58 5) ds)))
      = concat (map (fixed 58 5) ds)"
    by (intro fixed_bval ballI) (auto dest!: fixed_less [OF zero_less_numeral])
  ultimately show ?thesis
    by (simp only: chars_of_def chars_n_def length_concat_fixed)
qed

lemma writeDigits_eq:
  assumes "\<forall>d \<in> set ds. unat d < radix5" "5 * length ds \<le> p" "p \<le> length out"
  shows "foldM (\<lambda>digit (p, out). do { p \<leftarrow> isub p 5; out \<leftarrow> on_slice out p (p + 5) (extractChars5 digit); Some (p, out) })
      ds (p, out)
    = Some (p - 5 * length ds, take (p - 5 * length ds) out @ chars_of (rev (map unat ds)) @ drop p out)"
  using assms
proof (induction ds arbitrary: p out)
  case (Cons d ds)
  have p: "5 \<le> p" using Cons.prems(2) by simp
  have win: "on_slice out (p - 5) (p - 5 + 5) (extractChars5 d)
      = Some (take (p - 5) out @ chars5 (unat d) @ drop p out)"
    using Cons.prems p by (subst on_slice_Some [where w = "chars5 (unat d)"]) (simp_all add: extractChars5_eq)
  let ?out = "take (p - 5) out @ chars5 (unat d) @ drop p out"
  have IH: "foldM (\<lambda>digit (p, out). do { p \<leftarrow> isub p 5; out \<leftarrow> on_slice out p (p + 5) (extractChars5 digit); Some (p, out) })
      ds (p - 5, ?out)
    = Some (p - 5 - 5 * length ds, take (p - 5 - 5 * length ds) ?out @ chars_of (rev (map unat ds)) @ drop (p - 5) ?out)"
    using Cons.prems by (intro Cons.IH) simp_all
  have "take (p - 5 - 5 * length ds) ?out = take (p - 5 * length (d # ds)) out"
    "drop (p - 5) ?out = chars5 (unat d) @ drop p out"
    using Cons.prems(2,3) by (simp_all add: min_def)
  then show ?case
    using IH win p by (simp add: chars_of_append chars_of_Cons)
qed simp

text \<open>A number in limbs becomes its digits, provided the limbs fit the window.\<close>

lemma encodeDigits5Tail_eq:
  assumes "holds digits count V" "0 < V" "5 * count \<le> length out"
  shows "\<exists>out'. encodeDigits5Tail (take count digits) out = Some (length out - length (b58_digits V), out') \<and>
    length out' = length out \<and> length (b58_digits V) \<le> length out \<and>
    drop (length out - length (b58_digits V)) out' = b58_digits V"
proof -
  note H = holds_value [OF assms(1)]
  let ?ds = "take count digits" and ?L = "length out"
  have len: "length ?ds = count" using H(3) by simp
  let ?out = "take (?L - 5 * count) out @ chars_of (rev (map unat ?ds))"
  have W: "foldM (\<lambda>digit (p, out). do { p \<leftarrow> isub p 5; out \<leftarrow> on_slice out p (p + 5) (extractChars5 digit); Some (p, out) })
      ?ds (?L, out) = Some (?L - 5 * count, ?out)"
    using writeDigits_eq [OF H(2), of ?L out] assms(3) unfolding len by simp
  have V: "bval radix5 (rev (map unat ?ds)) = V" using H(1) by (simp only: lval_def)
  have "\<forall>d \<in> set (rev (map unat ?ds)). d < radix5" using H(2) by simp
  from chars_of_value [OF this] have C: "chars_of (rev (map unat ?ds)) = chars_n (5 * count) V"
    unfolding V length_rev length_map len .
  have "V < radix5 ^ count" using lval_less [of "map unat ?ds" radix5] H(1,2) len by simp
  then have lt: "V < 58 ^ (5 * count)" by (simp only: power_mult)
  have d: "drop (?L - 5 * count) ?out = chars_n (5 * count) V" using assms(3) unfolding C by simp
  note O = skipOnes_chars [OF d lt assms(2)]
  have lo: "length ?out = ?L" using assms(3) unfolding C by simp
  show ?thesis
    using W O assms(3) lo by (intro exI [of _ ?out]) (simp add: encodeDigits5Tail_def)
qed

lemma five_ceil: "n \<le> 5 * ((n + 4) div 5)" for n :: nat
  by presburger

lemma size_five: "(n + 4) div 5 * 5 \<le> (n + 19) div 20 * 20" for n :: nat
  by presburger

text \<open>The limbs of a value of \<open>nz\<close> bytes fit a window of \<open>variableSize nz\<close>.\<close>

lemma power_256_limbs: "(256 :: nat) ^ n \<le> radix5 ^ ((n * 138 div 100 + 5) div 5)"
proof -
  let ?m = "n * 138 div 100 + 1"
  have "?m \<le> 5 * ((?m + 4) div 5)" by (rule five_ceil)
  then have "(58 :: nat) ^ ?m \<le> 58 ^ (5 * ((?m + 4) div 5))" by (intro power_increasing) simp_all
  with variableSize_enough(1) [of n] have "(256 :: nat) ^ n \<le> radix5 ^ ((?m + 4) div 5)"
    by (simp only: power_mult)
  then show ?thesis by (simp only: add.assoc) simp
qed

lemma bytes_val_limbs: "bytes_val b < radix5 ^ ((length b * 138 div 100 + 5) div 5)"
  using bytes_val_less power_256_limbs by (rule less_le_trans)

lemma count_fits:
  assumes "holds digits count (bytes_val b)"
  shows "count \<le> (length b * 138 div 100 + 5) div 5" "5 * count \<le> variableSize (length b)"
proof -
  show c: "count \<le> (length b * 138 div 100 + 5) div 5"
    by (rule holds_le [OF assms bytes_val_limbs]) simp
  show "5 * count \<le> variableSize (length b)"
    using c size_five [of "length b * 138 div 100 + 1"] by (simp add: variableSize_def Let_def)
qed

lemma digits_tail_done:
  assumes "holds digits count (bytes_val b)" "b \<noteq> []" "hd b \<noteq> 0" "variableSize (length b) \<le> length out"
  shows "tail_done b out (encodeDigits5Tail (take count digits) out)"
  using encodeDigits5Tail_eq [OF assms(1) bytes_val_gt_0 [OF assms(2,3)], of out] count_fits(2) [OF assms(1)] assms(4)
  by (simp add: tail_done_def)

section \<open>Storing a product\<close>

lemma storeLoop_eq:
  assumes "i \<le> n" "i < length im" "n < length digits"
  shows "storeLoop n i v im digits = Some (take (n - i) digits @
      rev (map (\<lambda>j. ucast (carryLoop i v im ! j)) [0..<Suc i]) @ drop (Suc n) digits)"
  using assms
proof (induction i arbitrary: v digits)
  case 0
  then show ?case by (cases im) (simp_all add: upd_conv_take_nth_drop)
next
  case (Suc i)
  let ?q = "v div r1div" and ?r = "v - v div r1div * r1div"
  let ?d = "digits[n - Suc i := ucast ?r]" and ?v = "im ! i + v div r1div"
  have low: "carryLoop (Suc i) v im ! j = carryLoop i ?v im ! j" if "j \<le> i" for j
    using that by (simp add: enc.loop_Suc carryLoop_ignore)
  have top: "carryLoop (Suc i) v im ! Suc i = ?r"
    using Suc.prems(2) by (simp add: enc.loop_Suc enc.loop_above)
  have "storeLoop n (Suc i) v im digits = storeLoop n i ?v im ?d"
    using Suc.prems by (simp add: Let_def)
  also have "\<dots> = Some (take (n - i) ?d @ rev (map (\<lambda>j. ucast (carryLoop i ?v im ! j)) [0..<Suc i]) @ drop (Suc n) ?d)"
    using Suc.prems by (intro Suc.IH) simp_all
  also have "take (n - i) ?d = take (n - Suc i) digits @ [ucast ?r]"
    using Suc.prems by (simp add: Suc_diff_Suc [symmetric] take_Suc_conv_app_nth)
  also have "map (\<lambda>j. ucast (carryLoop i ?v im ! j)) [0..<Suc i]
      = map (\<lambda>j. ucast (carryLoop (Suc i) v im ! j)) [0..<Suc i]"
    by (simp add: low)
  also have "drop (Suc n) ?d = drop (Suc n) digits" using Suc.prems by simp
  finally show ?case by (simp add: top)
qed

lemma storeLoop_holds:
  assumes "length im = Suc n" "n < length digits" "map unat (carryLoop n v im) = fixed radix5 (Suc n) V"
    "V < radix5 ^ Suc n"
  shows "\<exists>digits'. storeLoop n n v im digits = Some digits' \<and> length digits' = length digits \<and>
    holds digits' (trimCount digits' (Suc n)) V"
proof -
  let ?vs = "carryLoop n v im"
  have vs: "length ?vs = Suc n" using assms(1) by (simp add: enc.length_loop)
  have all: "\<forall>d \<in> set (map unat ?vs). d < radix5"
    unfolding assms(3) using fixed_less [of radix5] by simp
  then have u: "unat (ucast v :: u32) = unat v" if "v \<in> set ?vs" for v :: u64
    using that by (intro unat_ucast_small) (auto intro: less_trans)
  let ?ds = "map ucast ?vs :: u32 list" and ?d' = "rev (map ucast ?vs) @ drop (Suc n) digits :: u32 list"
  have um: "map unat ?ds = map unat ?vs" using u by simp
  have "map (\<lambda>j. ucast (?vs ! j)) [0..<Suc n] = ?ds"
    using vs by (intro nth_equalityI) (simp_all del: upt_Suc)
  then have run: "storeLoop n n v im digits = Some ?d'"
    using storeLoop_eq [of n n im digits v] assms(1,2) by (simp del: upt_Suc)
  have t: "take (Suc n) ?d' = rev ?ds" using vs by simp
  have "lval radix5 (map unat (take (Suc n) ?d')) = V"
    unfolding t rev_map [symmetric] um lval_def rev_rev_ident assms(3) using assms(4) by (rule bval_fixed_less)
  moreover have "\<forall>d \<in> set (take (Suc n) ?d'). unat d < radix5"
    unfolding t using all um by (metis (no_types, lifting) imageE image_eqI list.set_map set_rev)
  moreover have "length ?d' = length digits" using assms(2) vs by simp
  ultimately show ?thesis
    using run trimCount_holds [of "Suc n" ?d'] assms(2) by auto
qed

lemma encode_block:
  assumes "encode_kernel mm nb (Suc n)" "length src = nb" "n < length digits"
  shows "\<exists>im digits'. mm src (replicate (Suc n) 0) = Some im \<and>
    storeLoop n n (im ! n) im digits = Some digits' \<and> length digits' = length digits \<and>
    holds digits' (trimCount digits' (Suc n)) (bytes_val src)"
proof -
  obtain im where im: "mm src (replicate (Suc n) 0) = Some im" "length im = Suc n"
    "map unat (carryLoop n (im ! n) im) = fixed radix5 (Suc n) (bytes_val src)"
    using encode_kernel.carried [OF assms(1,2)] by (metis diff_Suc_1)
  have "bytes_val src < radix5 ^ Suc n"
    using bytes_val_less [of src] encode_kernel.capacity [OF assms(1)] unfolding assms(2) by (rule less_le_trans)
  from storeLoop_holds [OF im(2) assms(3) im(3) this] im(1) show ?thesis by blast
qed

lemma encodeBlock32_eq:
  assumes "length src = 32" "9 \<le> length digits"
  shows "\<exists>digits' count. encodeBlock32 src digits = Some (digits', count) \<and>
    length digits' = length digits \<and> holds digits' count (bytes_val src)"
proof -
  have k: "encode_kernel encodeMatMul32 32 (Suc 8)" using enc32.encode_kernel_axioms by simp
  have "8 < length digits" using assms(2) by simp
  from encode_block [OF k assms(1) this] show ?thesis by (auto simp: encodeBlock32_def)
qed

lemma encodeBlock64_eq:
  assumes "length src = 64" "18 \<le> length digits"
  shows "\<exists>digits' count. encodeBlock64 src digits = Some (digits', count) \<and>
    length digits' = length digits \<and> holds digits' count (bytes_val src)"
proof -
  have k: "encode_kernel encodeMatMul64 64 (Suc 17)" using enc64.encode_kernel_axioms by simp
  have "17 < length digits" using assms(2) by simp
  from encode_block [OF k assms(1) this] show ?thesis by (auto simp: encodeBlock64_def)
qed

lemma padded_eq: "length src \<le> n \<Longrightarrow> padded n src = Some (replicate (n - length src) 0 @ src)"
  by (simp add: padded_def on_slice_def go_copy_def)

lemma encodeMatrixTail_done:
  assumes "length b \<le> 64" "b \<noteq> []" "hd b \<noteq> 0" "variableSize (length b) \<le> length out"
  shows "tail_done b out (encodeMatrixTail b out)"
proof -
  let ?w = "if length b \<le> 32 then do { b \<leftarrow> padded 32 b; encodeBlock32 b (replicate intermediateSz64 0) }
                  else do { b \<leftarrow> padded 64 b; encodeBlock64 b (replicate intermediateSz64 0) }"
  have "\<exists>digits count. ?w = Some (digits, count) \<and> holds digits count (bytes_val b)"
  proof (cases "length b \<le> 32")
    case True
    then show ?thesis
      using encodeBlock32_eq [of "replicate (32 - length b) 0 @ b" "replicate 18 0"]
      by (auto simp: padded_eq bytes_val_append)
  next
    case False
    then show ?thesis
      using encodeBlock64_eq [of "replicate (64 - length b) 0 @ b" "replicate 18 0"] assms(1)
      by (auto simp: padded_eq bytes_val_append)
  qed
  then obtain digits count where w: "?w = Some (digits, count)" and h: "holds digits count (bytes_val b)"
    by blast
  have "encodeMatrixTail b out = encodeDigits5Tail (take count digits) out"
    using holds_value(3) [OF h] unfolding encodeMatrixTail_def encodePaddedFixedTail_def w by simp
  then show ?thesis using digits_tail_done [OF h assms(2-4)] by simp
qed

interpretation matrix: tail_encoder encodeMatrixTail 33 64
  by unfold_locales (rule encodeMatrixTail_done)

section \<open>Appending digits to a number\<close>

text \<open>
  \<open>encodeHornerStep\<close>: \<open>digits = digits * multiplier + chunk\<close>, first in the limbs there are, then
  with new limbs for the carry.
\<close>

definition hornerMul :: "u64 \<Rightarrow> nat list \<Rightarrow> u32 list \<times> u64 \<Rightarrow> (u32 list \<times> u64) option" where
  "hornerMul multiplier =
     foldM (\<lambda>i (digits, carry).
       do { d \<leftarrow> idx digits i;
            let v = ucast d * multiplier + carry;
            let q = v div r1div;
            digits \<leftarrow> upd digits i (ucast (v - q * r1div));
            Some (digits, q) })"

function hornerCarry :: "u64 \<Rightarrow> u32 list \<Rightarrow> nat \<Rightarrow> (u32 list \<times> nat) option" where
  "hornerCarry carry digits count =
     (if carry \<noteq> 0
      then do { let q = carry div r1div;
                digits \<leftarrow> upd digits count (ucast (carry - q * r1div));
                hornerCarry q digits (count + 1) }
      else Some (digits, count))"
  by pat_completeness auto

termination
proof (relation "measure (\<lambda>(carry, digits, count). unat carry)")
  fix carry q :: u64 and digits digits' :: "u32 list" and count
  assume "carry \<noteq> 0" "q = carry div r1div"
  then have "unat q = unat carry div radix5" "0 < unat carry" by (simp_all add: unat_div unat_gt_0)
  then show "((q, digits', count + 1), carry, digits, count) \<in> measure (\<lambda>(carry, digits, count). unat carry)"
    by (simp add: div_less_dividend)
qed simp

declare hornerCarry.simps [simp del]

definition encodeHornerStep :: "u32 list \<Rightarrow> nat \<Rightarrow> u64 \<Rightarrow> u64 \<Rightarrow> (u32 list \<times> nat) option" where
  "encodeHornerStep digits count multiplier chunk =
     do { (digits, carry) \<leftarrow> hornerMul multiplier [0..<count] (digits, chunk);
          hornerCarry carry digits count }"

lemma horner_place:
  fixes L P c X m c0 v d b :: nat
  assumes "L + P * c = X * m + c0" "v = d * m + c"
  shows "(L + P * (v mod b)) + P * b * (v div b) = (X + P * d) * m + c0"
proof -
  have "P * v = P * (b * (v div b) + v mod b)" by simp
  also have "\<dots> = P * b * (v div b) + P * (v mod b)" by (simp only: add_mult_distrib2 mult.assoc)
  finally have "(L + P * (v mod b)) + P * b * (v div b) = L + P * v" by simp
  also have "\<dots> = (L + P * c) + P * d * m" unfolding assms(2) by (simp add: add_mult_distrib2)
  also have "\<dots> = (X + P * d) * m + c0" unfolding assms(1) by (simp add: add_mult_distrib)
  finally show ?thesis .
qed

lemma hornerMul_eq:
  assumes "\<forall>d \<in> set (take k digits). unat d < radix5" "k \<le> length digits" "unat m \<le> 2 ^ 32" "unat c < 2 ^ 32"
  shows "\<exists>ds c'. hornerMul m [0..<k] (digits, c) = Some (ds @ drop k digits, c') \<and> length ds = k \<and>
    unat c' < 2 ^ 32 \<and> (\<forall>d \<in> set ds. unat d < radix5) \<and>
    lval radix5 (map unat ds) + radix5 ^ k * unat c' = lval radix5 (map unat (take k digits)) * unat m + unat c \<and>
    (0 < k \<and> 0 < unat m \<and> unat c' = 0 \<and> digits ! (k - 1) \<noteq> 0 \<longrightarrow> last ds \<noteq> 0)"
  using assms(1,2)
proof (induction k)
  case 0
  then show ?case using assms(4) by (simp add: hornerMul_def)
next
  case (Suc k)
  let ?d = "digits ! k"
  have d: "unat ?d < radix5"
    using Suc.prems by (simp add: take_Suc_conv_app_nth)
  obtain ds c' where IH: "hornerMul m [0..<k] (digits, c) = Some (ds @ drop k digits, c')" "length ds = k"
    "unat c' < 2 ^ 32" "\<forall>d \<in> set ds. unat d < radix5"
    "lval radix5 (map unat ds) + radix5 ^ k * unat c' = lval radix5 (map unat (take k digits)) * unat m + unat c"
    using Suc by (force simp: take_Suc_conv_app_nth)
  define v where "v = ucast ?d * m + c'"
  have ud: "unat (ucast ?d :: u64) = unat ?d" by simp
  have "unat ?d * unat m \<le> (radix5 - 1) * 2 ^ 32" using d assms(3) by (intro mult_le_mono) simp_all
  then have lt: "unat ?d * unat m + unat c' < radix5 * 2 ^ 32" using IH(3) by simp
  then have v: "unat v = unat ?d * unat m + unat c'"
  proof -
    have "radix5 * 2 ^ 32 < (2 :: nat) ^ 64" by simp
    with lt have "unat ?d * unat m + unat c' < 2 ^ 64" by (rule less_trans)
    then have "unat c' + unat (ucast ?d :: u64) * unat m < 2 ^ LENGTH(64)"
      by (simp only: ud add.commute) simp
    from unat_mac_nowrap [OF this] show ?thesis
      unfolding v_def by (simp only: ud add.commute)
  qed
  have q: "unat (v div r1div) = unat v div radix5" by (simp add: unat_div)
  have r: "unat (v - v div r1div * r1div) = unat v mod radix5" by (simp only: unat_sub_div_mult unat_r1div)
  then have r': "unat (ucast (v - v div r1div * r1div) :: u32) = unat v mod radix5"
    by (subst unat_ucast_small) simp_all
  let ?ds = "ds @ [ucast (v - v div r1div * r1div)]"
  have dk: "drop k digits = ?d # drop (Suc k) digits" using Suc.prems(2) by (simp add: Cons_nth_drop_Suc)
  have run: "hornerMul m [0..<Suc k] (digits, c) = Some (?ds @ drop (Suc k) digits, v div r1div)"
  proof -
    have "hornerMul m [k] (ds @ drop k digits, c') = Some (?ds @ drop (Suc k) digits, v div r1div)"
      unfolding dk using IH(2) by (simp add: hornerMul_def nth_append list_update_append Let_def v_def)
    moreover have "hornerMul m [0..<Suc k] (digits, c) = Option.bind (hornerMul m [0..<k] (digits, c)) (hornerMul m [k])"
      by (simp add: hornerMul_def)
    ultimately show ?thesis using IH(1) by simp
  qed
  have "unat v < radix5 * 2 ^ 32" using lt v by simp
  then have "unat v div radix5 < 2 ^ 32" by (intro less_mult_imp_div_less) (simp only: mult.commute)
  moreover have "lval radix5 (map unat ?ds) + radix5 ^ Suc k * unat (v div r1div)
      = lval radix5 (map unat (take (Suc k) digits)) * unat m + unat c"
  proof -
    have "lval radix5 (map unat (take (Suc k) digits))
        = lval radix5 (map unat (take k digits)) + radix5 ^ k * unat ?d"
      using Suc.prems(2) by (simp only: take_Suc_conv_app_nth Suc_le_lessD map_append list.map lval_append lval_Cons lval_Nil) simp
    moreover have "lval radix5 (map unat ?ds) = lval radix5 (map unat ds) + radix5 ^ k * (unat v mod radix5)"
      using IH(2) r' by (simp only: map_append list.map lval_append lval_Cons lval_Nil length_map) simp
    ultimately show ?thesis
      using horner_place [OF IH(5) v, of radix5] q by (simp only: power_Suc2)
  qed
  moreover have "\<forall>x \<in> set ?ds. unat x < radix5" using IH(4) r' by simp
  moreover have "last ?ds \<noteq> 0" if "0 < unat m" "unat (v div r1div) = 0" "?d \<noteq> 0"
  proof -
    have "unat v < radix5" using that(2) q by (simp add: div_eq_0_iff)
    moreover have "0 < unat v" using that(1,3) v by (simp add: unat_gt_0)
    ultimately show ?thesis using r' by (simp add: unat_eq_0 [symmetric])
  qed
  ultimately show ?case using run IH(2) q by (intro exI [of _ ?ds] exI [of _ "v div r1div"]) simp
qed

lemma carry_place:
  fixes L P c V b :: nat
  shows "L + P * c = V \<Longrightarrow> (L + P * (c mod b)) + P * b * (c div b) = V"
  using horner_place [of L P c 0 0 V c 0 b] by simp

lemma hornerCarry_eq:
  assumes "\<forall>d \<in> set (take count digits). unat d < radix5" "1 \<le> count" "count \<le> length digits"
    "carry \<noteq> 0 \<or> count = 1 \<or> digits ! (count - 1) \<noteq> 0"
    "lval radix5 (map unat (take count digits)) + radix5 ^ count * unat carry = V" "V < radix5 ^ length digits"
  shows "\<exists>digits' count'. hornerCarry carry digits count = Some (digits', count') \<and>
    length digits' = length digits \<and> holds digits' count' V"
  using assms
proof (induction "unat carry" arbitrary: carry digits count rule: less_induct)
  case less
  show ?case
  proof (cases "carry = 0")
    case True
    then have "holds digits count V" using less.prems by (intro holdsI) auto
    then show ?thesis using True by (simp add: hornerCarry.simps [of 0])
  next
    case False
    let ?q = "carry div r1div" and ?r = "carry - carry div r1div * r1div"
    have c: "0 < unat carry" using False by (simp add: unat_gt_0)
    have q: "unat ?q = unat carry div radix5" by (simp add: unat_div)
    have r: "unat (ucast ?r :: u32) = unat carry mod radix5"
      by (subst unat_ucast_small) (simp_all add: unat_sub_div_mult)
    have fit: "count < length digits"
    proof (rule ccontr)
      assume "\<not> ?thesis"
      then have "radix5 ^ length digits \<le> radix5 ^ count" by (intro power_increasing) simp_all
      also have "\<dots> * 1 \<le> radix5 ^ count * unat carry" using c by (intro mult_le_mono2) simp
      also have "\<dots> \<le> V" using less.prems(5) by linarith
      finally show False using less.prems(6) by simp
    qed
    let ?d = "digits[count := ucast ?r]"
    have t: "take (count + 1) ?d = take count digits @ [ucast ?r]"
      using fit by (simp add: take_Suc_conv_app_nth)
    have "lval radix5 (map unat (take (count + 1) ?d)) + radix5 ^ (count + 1) * unat ?q = V"
    proof -
      have l: "length (map unat (take count digits)) = count" using less.prems(3) by simp
      have e: "lval radix5 (map unat (take (count + 1) ?d))
          = lval radix5 (map unat (take count digits)) + radix5 ^ count * (unat carry mod radix5)"
        unfolding t by (simp only: map_append list.map lval_append lval_Cons lval_Nil l r mult_0_right add_0_right)
      show ?thesis
        unfolding e q power_add power_one_right by (rule carry_place [OF less.prems(5)])
    qed
    moreover have "unat ?q < unat carry" unfolding q using c by (intro div_less_dividend) simp_all
    moreover have "\<forall>d \<in> set (take (count + 1) ?d). unat d < radix5"
      unfolding t using less.prems(1) r by auto
    moreover have "?q \<noteq> 0 \<or> count + 1 = 1 \<or> ?d ! (count + 1 - 1) \<noteq> 0"
    proof (cases "?q = 0")
      case True
      then have "unat carry div radix5 = 0" using q by simp
      then have "unat carry < radix5" by (simp add: div_eq_0_iff)
      then have "unat (ucast ?r :: u32) \<noteq> 0" using r c by simp
      then show ?thesis using fit by (auto simp: unat_eq_0)
    qed simp
    ultimately have "\<exists>digits' count'. hornerCarry ?q ?d (count + 1) = Some (digits', count') \<and>
        length digits' = length ?d \<and> holds digits' count' V"
      using fit less.prems(6) by (intro less.hyps) simp_all
    moreover have "hornerCarry carry digits count = hornerCarry ?q ?d (count + 1)"
      using False fit by (subst hornerCarry.simps) (simp add: Let_def)
    ultimately show ?thesis by simp
  qed
qed

lemma encodeHornerStep_eq:
  assumes "holds digits count V" "0 < unat m" "unat m \<le> 2 ^ 32" "unat c < 2 ^ 32"
    "V * unat m + unat c < radix5 ^ length digits"
  shows "\<exists>digits' count'. encodeHornerStep digits count m c = Some (digits', count') \<and>
    length digits' = length digits \<and> holds digits' count' (V * unat m + unat c)"
proof -
  note H = holds_value [OF assms(1)]
  note C = holds_count [OF assms(1)]
  obtain ds c' where M: "hornerMul m [0..<count] (digits, c) = Some (ds @ drop count digits, c')" "length ds = count"
    "\<forall>d \<in> set ds. unat d < radix5"
    "lval radix5 (map unat ds) + radix5 ^ count * unat c' = V * unat m + unat c"
    "0 < count \<and> 0 < unat m \<and> unat c' = 0 \<and> digits ! (count - 1) \<noteq> 0 \<longrightarrow> last ds \<noteq> 0"
    using hornerMul_eq [OF H(2,3) assms(3,4)] unfolding H(1) by blast
  have t: "take count (ds @ drop count digits) = ds" using M(2) by simp
  have top: "count = 1 \<or> digits ! (count - 1) \<noteq> 0"
    by (rule holds_top [OF assms(1)])
  have "c' \<noteq> 0 \<or> count = 1 \<or> (ds @ drop count digits) ! (count - 1) \<noteq> 0"
  proof (cases "c' = 0 \<and> count \<noteq> 1")
    case True
    then have "last ds \<noteq> 0" using M(5) top C(2) assms(2) by auto
    then show ?thesis using M(2) C(2) by (cases ds rule: rev_cases) (auto simp: nth_append)
  qed auto
  note A4 = this
  let ?D = "ds @ drop count digits"
  have lenD: "length ?D = length digits" using M(2) H(3) by simp
  have A1: "\<forall>d \<in> set (take count ?D). unat d < radix5" unfolding t by (rule M(3))
  have A3: "count \<le> length ?D" unfolding lenD by (rule H(3))
  have A5: "lval radix5 (map unat (take count ?D)) + radix5 ^ count * unat c' = V * unat m + unat c"
    unfolding t by (rule M(4))
  have A6: "V * unat m + unat c < radix5 ^ length ?D" unfolding lenD by (rule assms(5))
  from hornerCarry_eq [OF A1 C(2) A3 A4 A5 A6] obtain digits' count' where
    "hornerCarry c' ?D count = Some (digits', count')" "length digits' = length ?D"
    "holds digits' count' (V * unat m + unat c)" by blast
  moreover have "encodeHornerStep digits count m c = hornerCarry c' ?D count"
    using M(1) by (simp only: encodeHornerStep_def Option.bind.simps prod.case)
  ultimately show ?thesis unfolding lenD by (metis (no_types))
qed

end
