(* ===== verification/Encode_Small.thy ===== *)
theory Encode_Small
  imports Encode_Block
begin

unbundle bit_operations_syntax

text \<open>
  \<open>encodeSmallMatrixTail\<close> and \<open>encodeSmallMatrix4Tail\<close> of \<open>encode_block.go\<close>: inputs of 9 to 32
  bytes by the bottom-right submatrix of \<open>encTable32\<close> with one row per 32-bit word.
\<close>

section \<open>The code\<close>

definition encodeSmallMatrix4Tail :: "bytes \<Rightarrow> bytes \<Rightarrow> (nat \<times> bytes) option" where
  "encodeSmallMatrix4Tail src out =
     do { head \<leftarrow> isub (length src) 12;
          hd \<leftarrow> subslice src 0 head;
          let x0 = fold (\<lambda>b x0. push_bit 8 x0 OR ucast b) hd (0 :: u32);
          c1 \<leftarrow> subslice src head (head + 4); x1 \<leftarrow> beUint32 c1;
          c2 \<leftarrow> subslice src (head + 4) (head + 8); x2 \<leftarrow> beUint32 c2;
          c3 \<leftarrow> subslice src (head + 8) (head + 12); x3 \<leftarrow> beUint32 c3;
          let a1 = (ucast x0 * 280 :: u64);
          let a2 = (ucast x0 * 127692781 + ucast x1 * 42 :: u64);
          let a3 = (ucast x0 * 389432875 + ucast x1 * 537767569 + ucast x2 * 6 :: u64);
          let a4 = (ucast x0 * 357132832 + ucast x1 * 410450016 + ucast x2 * 356826688 + ucast x3 :: u64);
          let v = a4; let q = v div r1div; let d0 = (ucast (v - q * r1div) :: u32);
          let v = a3 + q; let q = v div r1div; let d1 = (ucast (v - q * r1div) :: u32);
          let v = a2 + q; let q = v div r1div; let d2 = (ucast (v - q * r1div) :: u32);
          let v = a1 + q; let q = v div r1div; let d3 = (ucast (v - q * r1div) :: u32);
          let digits = [d0, d1, d2, d3, ucast q];
          let count = (if digits ! 4 = 0 then 4 else 5);
          ds \<leftarrow> subslice digits 0 count;
          encodeDigits5Tail ds out }"

text \<open>The words of the input, the first one holding what does not fill four bytes.\<close>

definition smallWords :: "nat \<Rightarrow> bytes \<Rightarrow> u32 list option" where
  "smallWords w src =
     do { head \<leftarrow> isub (length src) (4 * (w - 1));
          hd \<leftarrow> subslice src 0 head;
          let top = fold (\<lambda>b top. push_bit 8 top OR ucast b) hd (0 :: u32);
          words \<leftarrow> upd (replicate binarySz32 0) 0 top;
          (words, pos) \<leftarrow> foldM (\<lambda>i (words, pos).
              do { c \<leftarrow> subslice src pos (pos + 4); v \<leftarrow> beUint32 c; words \<leftarrow> upd words i v; Some (words, pos + 4) })
            [1..<w] (words, head);
          Some words }"

definition smallProduct :: "nat \<Rightarrow> u32 list \<Rightarrow> u64 list option" where
  "smallProduct w words =
     do { rowBase \<leftarrow> isub binarySz32 w;
          colBase \<leftarrow> isub (intermediateSz32 - 1) w;
          foldM (\<lambda>row acc.
              do { x \<leftarrow> idx words row;
                   tableRow \<leftarrow> idx encTable32 (rowBase + row);
                   foldM (\<lambda>col acc.
                       do { t \<leftarrow> idx tableRow (colBase + col); a \<leftarrow> idx acc (col + 1);
                            upd acc (col + 1) (a + ucast x * ucast t) })
                     [0..<w] acc })
            [0..<w] (replicate intermediateSz32 0) }"

definition encodeSmallMatrixTail :: "bytes \<Rightarrow> bytes \<Rightarrow> (nat \<times> bytes) option" where
  "encodeSmallMatrixTail src out =
     (let w = (length src + 3) div 4
      in if w = 4 then encodeSmallMatrix4Tail src out
         else do { words \<leftarrow> smallWords w src;
                   acc \<leftarrow> smallProduct w words;
                   v \<leftarrow> idx acc w;
                   digits \<leftarrow> storeLoop w w v acc (replicate intermediateSz32 0);
                   ds \<leftarrow> subslice digits 0 (trimCount digits (w + 1));
                   encodeDigits5Tail ds out })"

section \<open>The submatrix\<close>

definition subTable :: "nat \<Rightarrow> u32 list list" where
  "subTable w = map (drop (8 - w)) (drop (8 - w) encTable32)"

lemma subTable_nth: "w \<le> 8 \<Longrightarrow> i < w \<Longrightarrow> subTable w ! i = drop (8 - w) (encTable32 ! (8 - w + i))"
  by (simp add: subTable_def table_shapes)

lemma triangular: "i < 8 \<Longrightarrow> k \<le> i \<Longrightarrow> take k (encTable32 ! i) = replicate k 0"
  by (auto simp: encTable32_def less_Suc_eq le_Suc_eq numeral_eq_Suc)

lemma subTable_row:
  assumes "w \<le> 8" "i < w"
  shows "length (subTable w ! i) = w"
    and "bval radix5 (map unat (subTable w ! i)) = (2 ^ 32) ^ (w - 1 - i)"
proof -
  let ?r = "encTable32 ! (8 - w + i)"
  have i: "8 - w + i < 8" using assms by simp
  show "length (subTable w ! i) = w" using assms encTable32_nth [OF i] by (simp add: subTable_nth)
  have z: "take (8 - w) ?r = replicate (8 - w) 0" using i by (rule triangular) simp
  have "?r = replicate (8 - w) 0 @ subTable w ! i"
    unfolding subTable_nth [OF assms] z [symmetric] by simp
  from arg_cong [OF this, of "map unat"] have "map unat ?r = replicate (8 - w) 0 @ map unat (subTable w ! i)"
    by simp
  then have "bval radix5 (map unat (subTable w ! i)) = bval radix5 (map unat ?r)"
    by (simp only: bval_append bval_replicate_0 mult_0 add_0)
  moreover have "7 - (8 - w + i) = w - 1 - i" using assms by simp
  ultimately show "bval radix5 (map unat (subTable w ! i)) = (2 ^ 32) ^ (w - 1 - i)"
    using encTable32_nth [OF i] by (simp only:)
qed

definition subBound :: "nat \<Rightarrow> nat list" where
  "subBound w = matN 1 (\<lambda>_. 2 ^ 32 - 1) (\<lambda>i. map unat (subTable w ! i)) [0..<w] (replicate (w + 1) 0)"

lemma subBounds:
  "\<forall>x \<in> set (subBound 3). x \<le> 2 ^ 64 - 2 ^ 36" "\<forall>x \<in> set (subBound 4). x \<le> 2 ^ 64 - 2 ^ 36"
  "\<forall>x \<in> set (subBound 5). x \<le> 2 ^ 64 - 2 ^ 36" "\<forall>x \<in> set (subBound 6). x \<le> 2 ^ 64 - 2 ^ 36"
  "\<forall>x \<in> set (subBound 7). x \<le> 2 ^ 64 - 2 ^ 36" "\<forall>x \<in> set (subBound 8). x \<le> 2 ^ 64 - 2 ^ 36"
  by (simp_all add: subBound_def subTable_def encTable32_def upt_rec mac_nat_def replicate_numeral)

lemma subBound_ok: "w \<in> {3, 4, 5, 6, 7, 8} \<Longrightarrow> \<forall>x \<in> set (subBound w). x \<le> 2 ^ 64 - 2 ^ 36"
  using subBounds by (elim insertE emptyE) (simp_all only:)

section \<open>Words and product\<close>

lemma smallWords_eq:
  assumes "src = h @ r" "length r = 4 * (w - 1)" "length h \<le> 4" "1 \<le> w" "w \<le> 8"
  shows "\<exists>words. smallWords w src = Some words \<and> length words = 8 \<and>
    bval (2 ^ 32) (map unat (take w words)) = bytes_val src"
proof -
  let ?top = "fold (\<lambda>b top. push_bit 8 top OR ucast b) h (0 :: u32)"
  let ?body = "\<lambda>i (words, pos). do { c \<leftarrow> subslice src pos (pos + 4); v \<leftarrow> beUint32 c; words \<leftarrow> upd words i v; Some (words, pos + 4) }"
  have "(256 :: nat) ^ length h \<le> 256 ^ 4" using assms(3) by (intro power_increasing) simp_all
  then have top: "unat ?top = bytes_val h" by (intro unat_pack) simp_all
  have "foldM ?body [1..<Suc n] ((replicate 8 0)[0 := ?top], length h)
      = Some (?top # be_words n r @ replicate (7 - n) 0, length h + 4 * n)" if "n \<le> w - 1" for n
    using that
  proof (induction n)
    case 0
    then show ?case by (simp add: be_words_def numeral_eq_Suc)
  next
    case (Suc n)
    have e: "7 - n = Suc (7 - Suc n)" using Suc.prems assms(5) by simp
    have "replicate (7 - n) (0 :: u32) = 0 # replicate (7 - Suc n) 0" unfolding e by simp
    moreover have "subslice src (length h + 4 * n) (length h + 4 * n + 4) = Some (take 4 (drop (4 * n) r))"
      using Suc.prems assms(1,2) by simp
    moreover have "beUint32 (take 4 (drop (4 * n) r)) = Some (be_word (take 4 (drop (4 * n) r)))"
      using Suc.prems assms(2) by (intro beUint32_eq) simp
    ultimately show ?case
      using Suc assms(5) by (simp add: be_words_def list_update_append)
  qed
  from this [OF le_refl] have run: "foldM ?body [1..<w] ((replicate 8 0)[0 := ?top], length h)
      = Some (?top # be_words (w - 1) r @ replicate (7 - (w - 1)) 0, length h + 4 * (w - 1))"
    using assms(4) by (simp only: Suc_diff_1 Suc_le_eq)
  let ?words = "?top # be_words (w - 1) r @ replicate (7 - (w - 1)) 0"
  have "smallWords w src = Some ?words"
    using run assms(1,2) by (simp add: smallWords_def)
  moreover have "take w ?words = ?top # be_words (w - 1) r" using assms(4) by (cases w) simp_all
  moreover have "bval (2 ^ 32) (map unat (?top # be_words (w - 1) r)) = bytes_val src"
  proof -
    have "(2 :: nat) ^ 32 ^ 1 = 256 ^ 4" by simp
    then show ?thesis
      using top bval_be_words [OF assms(2)] assms(1,2)
      by (simp add: bval_Cons bytes_val_append power_mult)
  qed
  ultimately show ?thesis using assms(5) by simp
qed

lemma small_row:
  assumes "n < length acc" "colBase + n \<le> length tableRow"
  shows "foldM (\<lambda>col acc. do { t \<leftarrow> idx tableRow (colBase + col); a \<leftarrow> idx acc (col + 1);
      upd acc (col + 1) (a + ucast x * ucast t) }) [0..<n] acc
    = Some (macRow (ucast (x :: u32)) (drop colBase tableRow) 0 n 1 acc)"
  using assms
proof (induction n)
  case (Suc n)
  have "macRow (ucast x) (drop colBase tableRow) 0 (Suc n) 1 acc = (macRow (ucast x) (drop colBase tableRow) 0 n 1 acc)
      [n + 1 := macRow (ucast x) (drop colBase tableRow) 0 n 1 acc ! (n + 1) + ucast x * ucast (drop colBase tableRow ! n)]"
    by (simp add: macRow_def)
  then show ?case using Suc by simp
qed (simp add: macRow_def)

lemma macRow_append:
  "off + hi \<le> length acc \<Longrightarrow> macRow b row lo hi off (acc @ z) = macRow b row lo hi off acc @ z"
  by (intro nth_equalityI) (auto simp: macRow_nth nth_append)

definition small_rows :: "nat \<Rightarrow> u32 list \<Rightarrow> nat \<Rightarrow> u64 list \<Rightarrow> u64 list" where
  "small_rows w words n = fold (\<lambda>i. macRow (ucast (words ! i)) (subTable w ! i) 0 w 1) [0..<n]"

lemma small_rows_steps [simp]:
  "small_rows w words 0 acc = acc"
  "small_rows w words (Suc n) acc = macRow (ucast (words ! n)) (subTable w ! n) 0 w 1 (small_rows w words n acc)"
  by (simp_all add: small_rows_def)

lemma length_small_rows [simp]: "length (small_rows w words n acc) = length acc"
  by (induction n) simp_all

lemma small_rows_append:
  "w < length acc \<Longrightarrow> small_rows w words n (acc @ z) = small_rows w words n acc @ z"
  by (induction n) (simp_all add: macRow_append)

lemma smallProduct_eq:
  assumes "w \<in> {3, 4, 5, 6, 7, 8}" "length words = 8"
  shows "smallProduct w words = Some (small_rows w words w (replicate (Suc w) 0) @ replicate (8 - w) 0)"
    and "bounded (2 ^ 64 - 2 ^ 36) (small_rows w words w (replicate (Suc w) 0))"
    and "bval radix5 (map unat (small_rows w words w (replicate (Suc w) 0))) = bval (2 ^ 32) (map unat (take w words))"
proof -
  have w: "w \<le> 8" using assms(1) by auto
  have "foldM (\<lambda>row acc. do { x \<leftarrow> idx words row; tableRow \<leftarrow> idx encTable32 (8 - w + row);
                   foldM (\<lambda>col acc. do { t \<leftarrow> idx tableRow (8 - w + col); a \<leftarrow> idx acc (col + 1);
                            upd acc (col + 1) (a + ucast x * ucast t) }) [0..<w] acc })
            [0..<n] (replicate 9 0) = Some (small_rows w words n (replicate 9 0))" if "n \<le> w" for n
    using that
  proof (induction n)
    case (Suc n)
    then have "length (encTable32 ! (8 - w + n)) = 8" using w encTable32_nth by simp
    then have "foldM (\<lambda>col acc. do { t \<leftarrow> idx (encTable32 ! (8 - w + n)) (8 - w + col); a \<leftarrow> idx acc (col + 1);
           upd acc (col + 1) (a + ucast (words ! n) * ucast t) }) [0..<w] (small_rows w words n (replicate 9 0))
        = Some (macRow (ucast (words ! n)) (subTable w ! n) 0 w 1 (small_rows w words n (replicate 9 0)))"
      using w Suc.prems by (simp only: subTable_nth Suc_le_eq) (intro small_row, simp_all)
    then show ?case using Suc w assms(2) by (simp add: table_shapes)
  qed simp
  from this [of w] have run: "smallProduct w words = Some (small_rows w words w (replicate 9 0))"
    using w by (simp add: smallProduct_def)
  have "replicate 9 0 = replicate (Suc w) (0 :: u64) @ replicate (8 - w) 0"
    using w by (simp only: replicate_add [symmetric]) simp
  then show "smallProduct w words = Some (small_rows w words w (replicate (Suc w) 0) @ replicate (8 - w) 0)"
    using run by (simp only: small_rows_append length_replicate lessI)
  let ?r = "\<lambda>i. map unat (subTable w ! i)" and ?w = "\<lambda>i. (2 ^ 32) ^ (w - 1 - i) :: nat"
  note P = product_ok [where rows = "subTable w" and js = "[0..<w]" and acc = "replicate (Suc w) 0"
      and off = 1 and lo = "\<lambda>_. 0" and hi = "\<lambda>_. w" and b = "\<lambda>i. ucast (words ! i)"
      and m = "2 ^ 32 - 1" and A = "replicate (w + 1) 0" and L = "2 ^ 64 - 2 ^ 36" and R = radix5 and w = ?w,
      folded small_rows_def]
  have pre: "fits 1 ?r [0..<w] (map unat (replicate (Suc w) (0::u64)))"
    "\<forall>i \<in> set [0..<w]. covers 0 w (subTable w ! i)"
    "\<forall>i \<in> set [0..<w]. unat ((ucast :: u32 \<Rightarrow> u64) (words ! i)) \<le> 2 ^ 32 - 1"
    "list_all2 (\<le>) (map unat (replicate (Suc w) (0::u64))) (replicate (w + 1) 0)"
    "\<forall>x \<in> set (matN 1 (\<lambda>_. 2 ^ 32 - 1) ?r [0..<w] (replicate (w + 1) 0)). x \<le> 2 ^ 64 - 2 ^ 36"
    "2 ^ 64 - 2 ^ 36 < (2::nat) ^ 64"
    using subBound_ok [OF assms(1)] w
    by (auto simp: fits_def subTable_row covers_full subBound_def list_all2_refl unat_word32_le [simplified])
  have val: "\<forall>i \<in> set [0..<w]. bval radix5 (?r i) = ?w i"
    using subTable_row(2) [OF w] by simp
  show "bounded (2 ^ 64 - 2 ^ 36) (small_rows w words w (replicate (Suc w) 0))" by (rule P(3) [OF pre val])
  have "length (take w words) = w" using w assms(2) by simp
  note S = bval_sum_unat [OF this, of "2 ^ 32"]
  have "bval radix5 (map unat (small_rows w words w (replicate (Suc w) 0)))
      = (\<Sum>i\<leftarrow>[0..<w]. unat ((ucast :: u32 \<Rightarrow> u64) (words ! i)) * ?w i)"
    using P(4) [OF pre val] by (simp only: map_replicate unsigned_0 bval_replicate_0 add_0)
  also have "\<dots> = (\<Sum>i\<leftarrow>[0..<w]. unat (take w words ! i) * ?w i)"
    by (intro arg_cong [where f = sum_list] map_cong) simp_all
  finally show "bval radix5 (map unat (small_rows w words w (replicate (Suc w) 0))) = bval (2 ^ 32) (map unat (take w words))"
    unfolding S .
qed

lemma storeLoop_append: "i \<le> length im \<Longrightarrow> storeLoop n i v (im @ z) digits = storeLoop n i v im digits"
  by (induction i arbitrary: v digits) (simp_all add: nth_append Let_def cong: Option.bind_cong)

text \<open>All the steps up to the characters.\<close>

lemma small_limbs:
  assumes "w = (length src + 3) div 4" "9 \<le> length src" "length src \<le> 32" "length digits = n" "w < n"
  shows "\<exists>words im digits'. smallWords w src = Some words \<and> length words = 8 \<and>
    im = small_rows w words w (replicate (Suc w) 0) \<and>
    smallProduct w words = Some (im @ replicate (8 - w) 0) \<and>
    storeLoop w w (im ! w) im digits = Some digits' \<and> length digits' = n \<and>
    holds digits' (trimCount digits' (Suc w)) (bytes_val src)"
proof -
  have w: "w \<in> {3, 4, 5, 6, 7, 8}" "1 \<le> w" "w \<le> 8" using assms(1-3) by auto
  let ?h = "length src - 4 * (w - 1)"
  have h: "?h \<le> 4" "4 * (w - 1) \<le> length src" using assms(1,2) by linarith+
  have split: "src = take ?h src @ drop ?h src" "length (drop ?h src) = 4 * (w - 1)" "length (take ?h src) \<le> 4"
    using h by simp_all
  obtain words where W: "smallWords w src = Some words" "length words = 8"
    "bval (2 ^ 32) (map unat (take w words)) = bytes_val src"
    using smallWords_eq [OF split w(2,3)] by blast
  let ?im = "small_rows w words w (replicate (Suc w) 0)"
  note P = smallProduct_eq [OF w(1) W(2)]
  have ne: "?im \<noteq> []" "length ?im = Suc w" by (metis length_0_conv length_replicate length_small_rows nat.distinct(1)) simp
  have room: "enc.room ?im (length ?im - 1)"
    using P(2) by (intro enc.roomI) (auto simp: bounded_def)
  have "(256 :: nat) ^ (4 * w) \<le> radix5 ^ Suc w" using w(1) by auto
  moreover have "bytes_val src < 256 ^ (4 * w)"
    using bytes_val_less [of src] by (rule less_le_trans) (use assms(1) in \<open>simp add: power_increasing\<close>)
  ultimately have lt: "bytes_val src < radix5 ^ Suc w" by simp
  have val: "bval radix5 (map unat ?im) = bytes_val src" unfolding P(3) by (rule W(3))
  have "map unat (carryLoop w (?im ! w) ?im) = fixed radix5 (Suc w) (bytes_val src)"
    using enc.loop_fixed [OF ne(1) room] lt unfolding val last_conv_nth [OF ne(1)] ne(2) by simp
  moreover have "w < length digits" using assms(4,5) by simp
  ultimately show ?thesis
    using storeLoop_holds [OF ne(2) _ _ lt] W P(1) assms(4) by blast
qed


section \<open>The generators\<close>

lemma small_matrix_done:
  assumes "9 \<le> length b" "length b \<le> 32" "(length b + 3) div 4 \<noteq> 4" "b \<noteq> []" "hd b \<noteq> 0"
    "variableSize (length b) \<le> length out"
  shows "tail_done b out (encodeSmallMatrixTail b out)"
proof -
  define w where "w = (length b + 3) div 4"
  have w: "w < 9" using assms(2) unfolding w_def by linarith
  obtain words im digits where S: "smallWords w b = Some words" "im = small_rows w words w (replicate (Suc w) 0)"
    "smallProduct w words = Some (im @ replicate (8 - w) 0)"
    "storeLoop w w (im ! w) im (replicate intermediateSz32 0) = Some digits" "length digits = 9"
    "holds digits (trimCount digits (Suc w)) (bytes_val b)"
    using small_limbs [OF w_def assms(1,2), of "replicate intermediateSz32 0" 9] w by auto
  have l: "length im = Suc w" by (simp only: S(2) length_small_rows length_replicate)
  have "idx (im @ replicate (8 - w) 0) w = Some (im ! w)" using l by (simp add: nth_append)
  moreover have "storeLoop w w (im ! w) (im @ replicate (8 - w) 0) (replicate intermediateSz32 0) = Some digits"
    using S(4) l by (simp only: storeLoop_append le_SucI order_refl)
  moreover have "trimCount digits (Suc w) \<le> length digits" by (rule holds_value(3) [OF S(6)])
  ultimately have "encodeSmallMatrixTail b out = encodeDigits5Tail (take (trimCount digits (Suc w)) digits) out"
    using S(1,3) assms(3) unfolding encodeSmallMatrixTail_def w_def [symmetric] Let_def by simp
  then show ?thesis using digits_tail_done [OF S(6) assms(4-6)] by simp
qed

text \<open>The hand-written case of four words is the same matrix.\<close>

lemma small_rows_4:
  assumes "length words = 8"
  shows "small_rows 4 words 4 (replicate 5 0) =
    [0, ucast (words ! 0) * 280,
     ucast (words ! 0) * 127692781 + ucast (words ! 1) * 42,
     ucast (words ! 0) * 389432875 + ucast (words ! 1) * 537767569 + ucast (words ! 2) * 6,
     ucast (words ! 0) * 357132832 + ucast (words ! 1) * 410450016 + ucast (words ! 2) * 356826688 + ucast (words ! 3)]"
  by (simp add: small_rows_def subTable_def encTable32_def upt_rec macRow_def replicate_numeral)
    (simp only: numeral_2_eq_2 numeral_3_eq_3)

lemma smallWords_4:
  assumes "smallWords 4 src = Some words" "13 \<le> length src" "length src \<le> 16"
  shows "\<exists>c1 c2 c3. subslice src (length src - 12) (length src - 12 + 4) = Some c1 \<and> beUint32 c1 = Some (words ! 1) \<and>
    subslice src (length src - 12 + 4) (length src - 12 + 8) = Some c2 \<and> beUint32 c2 = Some (words ! 2) \<and>
    subslice src (length src - 12 + 8) (length src - 12 + 12) = Some c3 \<and> beUint32 c3 = Some (words ! 3) \<and>
    words ! 0 = fold (\<lambda>b x0. push_bit 8 x0 OR ucast b) (take (length src - 12) src) 0"
  using assms by (simp add: smallWords_def upt_rec beUint32_eq)
    (auto simp: replicate_numeral numeral_2_eq_2 numeral_3_eq_3)


lemma storeLoop_5:
  "storeLoop 4 4 a4 [0, a1, a2, a3, a4] (replicate 5 0) =
     (let v = a4; q = v div r1div; d0 = ucast (v - q * r1div);
          v = a3 + q; q = v div r1div; d1 = ucast (v - q * r1div);
          v = a2 + q; q = v div r1div; d2 = ucast (v - q * r1div);
          v = a1 + q; q = v div r1div; d3 = ucast (v - q * r1div)
      in Some [d0, d1, d2, d3, ucast q])"
  by (simp add: numeral_eq_Suc Let_def)

lemma small_matrix_4_done:
  assumes "13 \<le> length b" "length b \<le> 16" "b \<noteq> []" "hd b \<noteq> 0" "variableSize (length b) \<le> length out"
  shows "tail_done b out (encodeSmallMatrix4Tail b out)"
proof -
  have w: "4 = (length b + 3) div 4" "9 \<le> length b" "length b \<le> 32" using assms(1,2) by auto
  obtain words im digits where S: "smallWords 4 b = Some words" "length words = 8"
    "im = small_rows 4 words 4 (replicate (Suc 4) 0)"
    "storeLoop 4 4 (im ! 4) im (replicate 5 0) = Some digits" "length digits = 5"
    "holds digits (trimCount digits (Suc 4)) (bytes_val b)"
    using small_limbs [OF w, of "replicate 5 0" 5] by auto
  have im: "im = [0, ucast (words ! 0) * 280,
     ucast (words ! 0) * 127692781 + ucast (words ! 1) * 42,
     ucast (words ! 0) * 389432875 + ucast (words ! 1) * 537767569 + ucast (words ! 2) * 6,
     ucast (words ! 0) * 357132832 + ucast (words ! 1) * 410450016 + ucast (words ! 2) * 356826688 + ucast (words ! 3)]"
    unfolding S(3) using small_rows_4 [OF S(2)] by simp
  obtain c1 c2 c3 where W: "subslice b (length b - 12) (length b - 12 + 4) = Some c1" "beUint32 c1 = Some (words ! 1)"
    "subslice b (length b - 12 + 4) (length b - 12 + 8) = Some c2" "beUint32 c2 = Some (words ! 2)"
    "subslice b (length b - 12 + 8) (length b - 12 + 12) = Some c3" "beUint32 c3 = Some (words ! 3)"
    "words ! 0 = fold (\<lambda>b x0. push_bit 8 x0 OR ucast b) (take (length b - 12) b) 0"
    using smallWords_4 [OF S(1) assms(1,2)] by blast
  have count: "trimCount digits (Suc 4) = (if digits ! 4 = 0 then 4 else 5)"
  proof -
    have "radix5 ^ 3 \<le> (256 :: nat) ^ 12" by simp
    also have "\<dots> \<le> 256 ^ (length b - 1)" using assms(1) by (intro power_increasing) simp_all
    also have "\<dots> \<le> bytes_val b" using bytes_val_pos [OF assms(3,4)] .
    finally have big: "radix5 ^ 3 \<le> bytes_val b" .
    have "trimCount digits (Suc 4) \<ge> 4"
    proof (rule ccontr)
      assume "\<not> ?thesis"
      then have "radix5 ^ trimCount digits (Suc 4) \<le> radix5 ^ 3" by (intro power_increasing) simp_all
      moreover note H = holds_value [OF S(6)]
      have "bytes_val b < radix5 ^ trimCount digits (Suc 4)"
        using lval_less [of "map unat (take (trimCount digits (Suc 4)) digits)" radix5] H by simp
      ultimately show False using big by simp
    qed
    moreover have "trimCount digits n \<le> n" for n by (induction n) simp_all
    then have "trimCount digits 4 \<le> 4" .
    moreover have "trimCount digits (Suc 4) = (if digits ! 4 = 0 then trimCount digits 4 else 5)"
      by (simp only: trimCount.simps) simp
    ultimately show ?thesis by (cases "digits ! 4 = 0") simp_all
  qed
  have "encodeSmallMatrix4Tail b out = encodeDigits5Tail (take (trimCount digits (Suc 4)) digits) out"
  proof -
    have "im ! 4 = ucast (words ! 0) * 357132832 + ucast (words ! 1) * 410450016 + ucast (words ! 2) * 356826688 + ucast (words ! 3)"
      unfolding im by simp
    note D = S(4) [unfolded this, unfolded im, unfolded storeLoop_5 Let_def, THEN option.inject [THEN iffD1]]
    have s: "subslice digits 0 (if digits ! 4 = 0 then 4 else 5) = Some (take (if digits ! 4 = 0 then 4 else 5) digits)"
      using S(5) by simp
    have "12 \<le> length b" "subslice b 0 (length b - 12) = Some (take (length b - 12) b)" using assms(1) by simp_all
    then show ?thesis
      unfolding encodeSmallMatrix4Tail_def count
      by (simp only: isub_Some Option.bind.simps W(1-6) Let_def W(7) [symmetric] D s)
  qed
  then show ?thesis using digits_tail_done [OF S(6) assms(3-5)] by simp
qed

lemma encodeSmallMatrixTail_done:
  assumes "9 \<le> length b" "length b \<le> 32" "b \<noteq> []" "hd b \<noteq> 0" "variableSize (length b) \<le> length out"
  shows "tail_done b out (encodeSmallMatrixTail b out)"
proof (cases "(length b + 3) div 4 = 4")
  case True
  then have "13 \<le> length b" "length b \<le> 16" by linarith+
  then show ?thesis using small_matrix_4_done assms(3-5) True by (simp add: encodeSmallMatrixTail_def)
next
  case False
  show ?thesis by (rule small_matrix_done [OF assms(1,2) False assms(3-5)])
qed

interpretation small_matrix: tail_encoder encodeSmallMatrixTail 9 32
  by unfold_locales (rule encodeSmallMatrixTail_done)

end
