(* ===== verification/Encode_Radix.thy ===== *)
theory Encode_Radix
  imports Encode_Block
begin

unbundle bit_operations_syntax

text \<open>
  The block-radix generator \<open>encodeBlockTail\<close> of \<open>encode_block.go\<close>: a seed from a matrix kernel,
  the rest of the head appended four bytes at a time, and whole 64-byte blocks absorbed with
  \<open>state = state * 2 ^ 512 + block\<close>, where the multiplication by the 18 limbs of \<open>2 ^ 512\<close> is a
  convolution in one of two orders.
\<close>

section \<open>Appending bytes\<close>

text \<open>\<open>for len(chunks) >= 4\<close>: four bytes at a time; what is left is returned.\<close>

function hornerChunks :: "bytes \<Rightarrow> u32 list \<Rightarrow> nat \<Rightarrow> (bytes \<times> u32 list \<times> nat) option" where
  "hornerChunks chunks digits count =
     (if length chunks \<ge> 4
      then do { w \<leftarrow> subslice chunks 0 4;
                v \<leftarrow> beUint32 w;
                (digits, count) \<leftarrow> encodeHornerStep digits count (push_bit 32 1) (ucast v);
                hornerChunks (drop 4 chunks) digits count }
      else Some (chunks, digits, count))"
  by pat_completeness auto

termination
  by (relation "measure (\<lambda>(chunks, digits, count). length chunks)") auto

declare hornerChunks.simps [simp del]

text \<open>The whole of the short remainder of \<open>encodeBlockTailScratch\<close>: chunks, then up to three bytes.\<close>

definition hornerBytes :: "bytes \<Rightarrow> u32 list \<Rightarrow> nat \<Rightarrow> (u32 list \<times> nat) option" where
  "hornerBytes src digits count =
     do { (chunks, digits, count) \<leftarrow> hornerChunks src digits count;
          if length chunks \<noteq> 0
          then do {
            let chunk = fold (\<lambda>b chunk. push_bit 8 chunk OR ucast b) chunks (0 :: u64);
            encodeHornerStep digits count (push_bit (8 * length chunks) 1) chunk }
          else Some (digits, count) }"

section \<open>Absorbing blocks\<close>

text \<open>\<open>encodeMulP512\<close>: one middle column, 18 terms spelled out.\<close>

definition encodeMulP512 :: "u32 list \<Rightarrow> u64 option" where
  "encodeMulP512 d =
     do { _ \<leftarrow> idx d 17;
          Some (ucast (d ! 0) * ucast (pow2_512_base58_5 ! 17) +
                ucast (d ! 1) * ucast (pow2_512_base58_5 ! 16) +
                ucast (d ! 2) * ucast (pow2_512_base58_5 ! 15) +
                ucast (d ! 3) * ucast (pow2_512_base58_5 ! 14) +
                ucast (d ! 4) * ucast (pow2_512_base58_5 ! 13) +
                ucast (d ! 5) * ucast (pow2_512_base58_5 ! 12) +
                ucast (d ! 6) * ucast (pow2_512_base58_5 ! 11) +
                ucast (d ! 7) * ucast (pow2_512_base58_5 ! 10) +
                ucast (d ! 8) * ucast (pow2_512_base58_5 ! 9) +
                ucast (d ! 9) * ucast (pow2_512_base58_5 ! 8) +
                ucast (d ! 10) * ucast (pow2_512_base58_5 ! 7) +
                ucast (d ! 11) * ucast (pow2_512_base58_5 ! 6) +
                ucast (d ! 12) * ucast (pow2_512_base58_5 ! 5) +
                ucast (d ! 13) * ucast (pow2_512_base58_5 ! 4) +
                ucast (d ! 14) * ucast (pow2_512_base58_5 ! 3) +
                ucast (d ! 15) * ucast (pow2_512_base58_5 ! 2) +
                ucast (d ! 16) * ucast (pow2_512_base58_5 ! 1) +
                ucast (d ! 17) * ucast (pow2_512_base58_5 ! 0)) }"

text \<open>\<open>encode_block_other.go\<close>: no vector kernel for the whole convolution, and the middle columns.\<close>

definition encodeConvolveP512All :: "u32 list \<Rightarrow> nat \<Rightarrow> nat \<Rightarrow> u64 list \<Rightarrow> bool" where
  "encodeConvolveP512All digits count n tmp = False"

definition encodeConvolveP512 :: "u32 list \<Rightarrow> nat \<Rightarrow> u64 list \<Rightarrow> u64 list option" where
  "encodeConvolveP512 digits count =
     foldM (\<lambda>column tmp.
         do { w \<leftarrow> subslice digits (column - 17) (column + 1);
              s \<leftarrow> encodeMulP512 w;
              upd tmp column s })
       [17..<count]"

text \<open>The row order, for short numbers: every digit times every limb of \<open>2 ^ 512\<close>.\<close>

definition convolveRows :: "u32 list \<Rightarrow> nat \<Rightarrow> nat \<Rightarrow> u64 list \<Rightarrow> u64 list option" where
  "convolveRows digits count n tmp =
     do { _ \<leftarrow> subslice tmp 0 n;
          let tmp = replicate n 0 @ drop n tmp;
          ds \<leftarrow> subslice digits 0 count;
          foldM (\<lambda>i tmp. foldM (\<lambda>j tmp.
                do { t \<leftarrow> idx tmp (i + j);
                     upd tmp (i + j) (t + ucast (ds ! i) * ucast (pow2_512_base58_5 ! j)) })
              [0..<18] tmp)
            [0..<count] tmp }"

text \<open>The column order: the loops \<open>for k := lo; k < hi; k++\<close> of the outer columns.\<close>

definition columnSum :: "u32 list \<Rightarrow> nat \<Rightarrow> nat \<Rightarrow> nat \<Rightarrow> u64 option" where
  "columnSum digits column lo hi =
     foldM (\<lambda>k sum.
         do { d \<leftarrow> idx digits k;
              w \<leftarrow> idx pow2_512_base58_5 (column - k);
              Some (sum + ucast d * ucast w) })
       [lo..<hi] 0"

definition convolveColumns :: "u32 list \<Rightarrow> nat \<Rightarrow> nat \<Rightarrow> u64 list \<Rightarrow> u64 list option" where
  "convolveColumns digits count n tmp =
     do { tmp \<leftarrow> foldM (\<lambda>column tmp. do { s \<leftarrow> columnSum digits column 0 (column + 1); upd tmp column s })
            [0..<17] tmp;
          tmp \<leftarrow> encodeConvolveP512 digits count tmp;
          foldM (\<lambda>column tmp. do { s \<leftarrow> columnSum digits column (column - 17) count; upd tmp column s })
            [count..<n] tmp }"

definition encodeReduceColumns :: "u64 list \<Rightarrow> u32 list \<Rightarrow> nat \<Rightarrow> u32 list option" where
  "encodeReduceColumns tmp digits count =
     do { columns \<leftarrow> subslice tmp 0 count;
          (digits, carry) \<leftarrow> foldM (\<lambda>i (digits, carry).
              do { let v = columns ! i + carry;
                   let q = v div r1div;
                   digits \<leftarrow> upd digits i (ucast (v - q * r1div));
                   Some (digits, q) })
            [0..<count] (digits, 0 :: u64);
          Some digits }"

text \<open>One round of \<open>encodeAbsorbBlocks\<close>; \<open>blockDigits\<close> is reused from round to round.\<close>

definition absorbBlock :: "bytes \<Rightarrow> u32 list \<Rightarrow> u32 list \<Rightarrow> u64 list \<Rightarrow> nat \<Rightarrow>
    (u32 list \<times> u32 list \<times> u64 list \<times> nat) option" where
  "absorbBlock block blockDigits digits tmp count =
     do { (blockDigits, blockCount) \<leftarrow> encodeBlock64 block blockDigits;
          let n = count + length pow2_512_base58_5;
          tmp \<leftarrow> (if encodeConvolveP512All digits count n tmp then Some tmp
                 else if count < 96 then convolveRows digits count n tmp
                 else convolveColumns digits count n tmp);
          bs \<leftarrow> subslice blockDigits 0 blockCount;
          tmp \<leftarrow> foldM (\<lambda>i tmp. do { t \<leftarrow> idx tmp i; upd tmp i (t + ucast (bs ! i)) }) [0..<blockCount] tmp;
          digits \<leftarrow> encodeReduceColumns tmp digits n;
          Some (blockDigits, digits, tmp, trimCount digits n) }"

function absorbLoop :: "bytes \<Rightarrow> u32 list \<Rightarrow> u32 list \<Rightarrow> u64 list \<Rightarrow> nat \<Rightarrow> (u32 list \<times> nat) option" where
  "absorbLoop blocks blockDigits digits tmp count =
     (if length blocks \<ge> 64
      then do { block \<leftarrow> subslice blocks 0 64;
                (blockDigits, digits, tmp, count) \<leftarrow> absorbBlock block blockDigits digits tmp count;
                absorbLoop (drop 64 blocks) blockDigits digits tmp count }
      else Some (digits, count))"
  by pat_completeness auto

termination
  by (relation "measure (\<lambda>(blocks, blockDigits, digits, tmp, count). length blocks)") auto

declare absorbLoop.simps [simp del]

definition encodeAbsorbBlocks :: "bytes \<Rightarrow> u32 list \<Rightarrow> u64 list \<Rightarrow> nat \<Rightarrow> (u32 list \<times> nat) option" where
  "encodeAbsorbBlocks blocks digits tmp count = absorbLoop blocks (replicate intermediateSz64 0) digits tmp count"

section \<open>The generator\<close>

text \<open>The seed: the number, what is left to append to it, and the blocks to absorb after that.\<close>

definition seedBlock :: "bytes \<Rightarrow> u32 list \<Rightarrow> (bytes \<times> bytes \<times> u32 list \<times> nat) option" where
  "seedBlock src digits =
     (if length src \<ge> 64
      then let blockCount = length src div 64; head = length src mod 64
           in if blockCount \<ge> 2 \<or> head \<ge> 16
              then do {
                prefix \<leftarrow> subslice src 0 head;
                let rest = drop head src;
                if head = 0
                then do { b \<leftarrow> subslice rest 0 64;
                          (digits, count) \<leftarrow> encodeBlock64 b digits;
                          Some (prefix, drop 64 rest, digits, count) }
                else Some (prefix, rest, digits, 1) }
              else do {
                b \<leftarrow> subslice src 0 64;
                (digits, count) \<leftarrow> encodeBlock64 b digits;
                Some (drop 64 src, [], digits, count) }
      else Some (src, [], digits, 1))"

definition encodeBlockTailScratch :: "bytes \<Rightarrow> bytes \<Rightarrow> u32 list \<Rightarrow> u64 list \<Rightarrow> (nat \<times> bytes) option" where
  "encodeBlockTailScratch src out digits tmp =
     do { (src, blocks, digits, count) \<leftarrow> seedBlock src digits;
          (src, digits, count) \<leftarrow>
            (if length src \<ge> 32
             then do { b \<leftarrow> subslice src 0 32;
                       (digits, count) \<leftarrow> encodeBlock32 b digits;
                       Some (drop 32 src, digits, count) }
             else Some (src, digits, count));
          (digits, count) \<leftarrow> hornerBytes src digits count;
          (digits, count) \<leftarrow>
            (if length blocks \<noteq> 0 then encodeAbsorbBlocks blocks digits tmp count
             else Some (digits, count));
          ds \<leftarrow> subslice digits 0 count;
          encodeDigits5Tail ds out }"

definition blockNeed :: "nat \<Rightarrow> nat" where
  "blockNeed n = (n div 64) * 18 + ((n mod 64) * 138 div 100 + 5) div 5"

definition encodeBlockTail :: "bytes \<Rightarrow> bytes \<Rightarrow> (nat \<times> bytes) option" where
  "encodeBlockTail src out =
     (let need = blockNeed (length src)
      in if need \<le> 90
         then do { digits \<leftarrow> subslice (replicate 107 0) 17 (17 + need);
                   tmp \<leftarrow> subslice (replicate 90 0) 0 need;
                   encodeBlockTailScratch src out digits tmp }
         else if need \<le> 288
         then do { digits \<leftarrow> subslice (replicate 305 0) 17 (17 + need);
                   tmp \<leftarrow> subslice (replicate 288 0) 0 need;
                   encodeBlockTailScratch src out digits tmp }
         else encodeBlockTailScratch src out (drop 17 (replicate (need + 17) 0)) (replicate need 0))"

section \<open>Bytes append to the number\<close>

lemma unat_push_1: "k < 64 \<Longrightarrow> unat (push_bit k 1 :: u64) = 2 ^ k"
proof -
  assume "k < 64"
  then have "(2 :: nat) ^ k < 2 ^ 64" by (intro power_strict_increasing) simp_all
  then have "unat (of_nat (2 ^ k) :: u64) = 2 ^ k" by (intro unat_of_nat_small) simp
  then show ?thesis by (simp add: push_bit_eq_mult)
qed

text \<open>Appending bytes only grows the number, so room for the result is room on the way.\<close>

lemma append_bound:
  assumes "V * 256 ^ length (xs @ ys) + bytes_val (xs @ ys) < M"
  shows "V * 256 ^ length xs + bytes_val xs < M"
    and "(V * 256 ^ length xs + bytes_val xs) * 256 ^ length ys + bytes_val ys
       = V * 256 ^ length (xs @ ys) + bytes_val (xs @ ys)"
proof -
  show e: "(V * 256 ^ length xs + bytes_val xs) * 256 ^ length ys + bytes_val ys
       = V * 256 ^ length (xs @ ys) + bytes_val (xs @ ys)"
    by (simp add: bytes_val_append power_add add_mult_distrib mult.assoc)
  have "V * 256 ^ length xs + bytes_val xs \<le> (V * 256 ^ length xs + bytes_val xs) * 256 ^ length ys"
    by simp
  also have "\<dots> \<le> (V * 256 ^ length xs + bytes_val xs) * 256 ^ length ys + bytes_val ys" by simp
  finally show "V * 256 ^ length xs + bytes_val xs < M" using assms unfolding e by (rule le_less_trans)
qed

lemma hornerChunks_eq:
  assumes "holds digits count V" "V * 256 ^ length src + bytes_val src < radix5 ^ length digits"
  shows "\<exists>dn rest digits' count'. src = dn @ rest \<and> length rest < 4 \<and>
    hornerChunks src digits count = Some (rest, digits', count') \<and> length digits' = length digits \<and>
    holds digits' count' (V * 256 ^ length dn + bytes_val dn)"
  using assms
proof (induction src arbitrary: V digits count rule: length_induct)
  case (1 src)
  show ?case
  proof (cases "4 \<le> length src")
    case False
    then have "hornerChunks src digits count = Some (src, digits, count)" by (simp add: hornerChunks.simps)
    moreover have "src = [] @ src" "holds digits count (V * 256 ^ length ([] :: bytes) + bytes_val [])"
      using "1.prems"(1) by simp_all
    ultimately show ?thesis using False by (metis not_le)
  next
    case True
    let ?a = "take 4 src" and ?b = "drop 4 src"
    have la: "length ?a = 4" "src = ?a @ ?b" using True by simp_all
    note B = append_bound [of V ?a ?b, unfolded la(2) [symmetric], OF "1.prems"(2)]
    let ?v = "be_word ?a" and ?V = "V * 256 ^ length ?a + bytes_val ?a"
    have v: "unat (ucast ?v :: u64) = bytes_val ?a" using la(1) by (simp add: unat_be_word)
    have m: "unat (push_bit 32 1 :: u64) = 256 ^ length ?a" unfolding la(1) by (simp add: unat_push_1)
    have pos: "0 < unat (push_bit 32 1 :: u64)" unfolding m by simp
    have le: "unat (push_bit 32 1 :: u64) \<le> 2 ^ 32" unfolding m la(1) by simp
    have lt: "unat (ucast ?v :: u64) < 2 ^ 32" unfolding v using bytes_val_less [of ?a] la(1) by simp
    have fit: "V * unat (push_bit 32 1 :: u64) + unat (ucast ?v :: u64) < radix5 ^ length digits"
      unfolding v m by (rule B(1))
    obtain d1 c1 where S: "encodeHornerStep digits count (push_bit 32 1) (ucast ?v) = Some (d1, c1)"
      "length d1 = length digits" "holds d1 c1 ?V"
      using encodeHornerStep_eq [OF "1.prems"(1) pos le lt fit] unfolding v m by blast
    have "length ?b < length src" using True by simp
    moreover have "?V * 256 ^ length ?b + bytes_val ?b < radix5 ^ length d1"
      unfolding S(2) B(2) by (rule "1.prems"(2))
    ultimately obtain dn rest digits' count' where IH: "?b = dn @ rest" "length rest < 4"
      "hornerChunks ?b d1 c1 = Some (rest, digits', count')" "length digits' = length d1"
      "holds digits' count' (?V * 256 ^ length dn + bytes_val dn)"
      using "1.IH" S(3) by blast
    have "hornerChunks src digits count = hornerChunks ?b d1 c1"
      using True S(1) la(1) by (subst hornerChunks.simps) (simp add: beUint32_eq)
    moreover have "src = (?a @ dn) @ rest" using la(2) IH(1) by simp
    moreover have "?V * 256 ^ length dn + bytes_val dn = V * 256 ^ length (?a @ dn) + bytes_val (?a @ dn)"
      by (rule append_bound(2) [OF lessI])
    ultimately show ?thesis using IH(2-5) S(2) by metis
  qed
qed

lemma hornerBytes_eq:
  assumes "holds digits count V" "V * 256 ^ length src + bytes_val src < radix5 ^ length digits"
  shows "\<exists>digits' count'. hornerBytes src digits count = Some (digits', count') \<and>
    length digits' = length digits \<and> holds digits' count' (V * 256 ^ length src + bytes_val src)"
proof -
  obtain dn rest d1 c1 where C: "src = dn @ rest" "length rest < 4"
    "hornerChunks src digits count = Some (rest, d1, c1)" "length d1 = length digits"
    "holds d1 c1 (V * 256 ^ length dn + bytes_val dn)"
    using hornerChunks_eq [OF assms] by blast
  let ?V = "V * 256 ^ length dn + bytes_val dn"
  note B = append_bound [of V dn rest, folded C(1), OF assms(2)]
  show ?thesis
  proof (cases "rest = []")
    case True
    then show ?thesis using C by (simp add: hornerBytes_def)
  next
    case False
    define chunk where "chunk = fold (\<lambda>b chunk. push_bit 8 chunk OR ucast b) rest (0 :: u64)"
    have "(256 :: nat) ^ length rest \<le> 256 ^ 3" using C(2) by (intro power_increasing) simp_all
    then have c: "unat chunk = bytes_val rest" unfolding chunk_def by (intro unat_pack) simp_all
    have m: "unat (push_bit (8 * length rest) 1 :: u64) = 256 ^ length rest"
    proof -
      have "8 * length rest < 64" using C(2) by simp
      from unat_push_1 [OF this] show ?thesis by (simp only: power_mult) simp
    qed
    have lt: "256 ^ length rest \<le> (2 :: nat) ^ 32" "bytes_val rest < 2 ^ 32"
      using \<open>256 ^ length rest \<le> (256 :: nat) ^ 3\<close> bytes_val_less [of rest] by simp_all
    have pos: "0 < unat (push_bit (8 * length rest) 1 :: u64)" unfolding m by simp
    have "?V * unat (push_bit (8 * length rest) 1 :: u64) + unat chunk < radix5 ^ length d1"
      unfolding m c B(2) C(4) by (rule assms(2))
    note fit = this
    have le: "unat (push_bit (8 * length rest) 1 :: u64) \<le> 2 ^ 32" "unat chunk < 2 ^ 32"
      unfolding m c by (rule lt)+
    obtain d2 c2 where S: "encodeHornerStep d1 c1 (push_bit (8 * length rest) 1) chunk = Some (d2, c2)"
      "length d2 = length d1" "holds d2 c2 (V * 256 ^ length src + bytes_val src)"
      using encodeHornerStep_eq [OF C(5) pos le fit] unfolding m c B(2) by blast
    have "hornerBytes src digits count = Some (d2, c2)"
      using C(3) S(1) False by (simp add: hornerBytes_def chunk_def Let_def)
    then show ?thesis using S(2,3) C(4) by simp
  qed
qed

section \<open>Convolution\<close>

text \<open>Column \<open>c\<close> of the product of two digit strings, before any carry.\<close>

definition conv :: "nat list \<Rightarrow> nat list \<Rightarrow> nat \<Rightarrow> nat" where
  "conv xs ys c = (\<Sum>i < length xs. if i \<le> c \<and> c - i < length ys then xs ! i * ys ! (c - i) else 0)"

lemma conv_Nil [simp]: "conv [] ys c = 0"
  by (simp add: conv_def)

lemma conv_snoc:
  "conv (xs @ [x]) ys c = conv xs ys c +
     (if length xs \<le> c \<and> c - length xs < length ys then x * ys ! (c - length xs) else 0)"
proof -
  have "(\<Sum>i < length xs. if i \<le> c \<and> c - i < length ys then (xs @ [x]) ! i * ys ! (c - i) else 0) = conv xs ys c"
    unfolding conv_def by (intro sum.cong) (simp_all add: nth_append)
  then show ?thesis by (simp add: conv_def)
qed

lemma conv_outside: "length xs + length ys \<le> c + 1 \<Longrightarrow> conv xs ys c = 0"
  unfolding conv_def by (intro sum.neutral) auto

lemma lval_sum: "lval b xs = (\<Sum>i < length xs. xs ! i * b ^ i)"
proof (induction xs rule: rev_induct)
  case (snoc x xs)
  have "(\<Sum>i < length xs. (xs @ [x]) ! i * b ^ i) = (\<Sum>i < length xs. xs ! i * b ^ i)"
    by (intro sum.cong) (simp_all add: nth_append)
  with snoc show ?case by (simp add: lval_append lval_Cons)
qed simp

lemma lval_map: "lval b (map f [0..<n]) = (\<Sum>c < n. f c * b ^ c)"
  by (simp add: lval_sum)

lemma shifted_sum:
  fixes g :: "nat \<Rightarrow> nat"
  shows "(\<Sum>c < m + l. if m \<le> c \<and> c - m < l then g (c - m) * b ^ c else 0) = b ^ m * (\<Sum>j < l. g j * b ^ j)"
proof (induction l)
  case (Suc l)
  have "(\<Sum>c < m + l. if m \<le> c \<and> c - m < Suc l then g (c - m) * b ^ c else 0)
      = (\<Sum>c < m + l. if m \<le> c \<and> c - m < l then g (c - m) * b ^ c else 0)"
    by (intro sum.cong) auto
  then show ?case using Suc by (simp add: power_add algebra_simps)
qed auto

lemma lval_conv: "lval b (map (conv xs ys) [0..<length xs + length ys]) = lval b xs * lval b ys"
proof (induction xs rule: rev_induct)
  case Nil
  have "map (conv [] ys) [0..<length ys] = replicate (length ys) 0"
    by (intro nth_equalityI) simp_all
  then show ?case by (simp add: map_replicate_const)
next
  case (snoc x xs)
  let ?m = "length xs" and ?l = "length ys"
  have "lval b (map (conv (xs @ [x]) ys) [0..<length (xs @ [x]) + ?l])
      = (\<Sum>c < Suc (?m + ?l). conv xs ys c * b ^ c)
        + (\<Sum>c < Suc (?m + ?l). if ?m \<le> c \<and> c - ?m < ?l then x * ys ! (c - ?m) * b ^ c else 0)"
    by (simp only: lval_map length_append length_Cons list.size conv_snoc add_mult_distrib sum.distrib)
      (simp add: if_distrib [of "\<lambda>z. z * _"] cong: if_cong)
  also have "(\<Sum>c < Suc (?m + ?l). conv xs ys c * b ^ c) = lval b xs * lval b ys"
    using snoc by (simp add: lval_map conv_outside)
  also have "(\<Sum>c < Suc (?m + ?l). if ?m \<le> c \<and> c - ?m < ?l then x * ys ! (c - ?m) * b ^ c else 0)
      = (\<Sum>c < ?m + ?l. if ?m \<le> c \<and> c - ?m < ?l then x * ys ! (c - ?m) * b ^ c else 0)"
    by simp
  also have "\<dots> = b ^ ?m * (\<Sum>j < ?l. x * ys ! j * b ^ j)" by (rule shifted_sum)
  also have "(\<Sum>j < ?l. x * ys ! j * b ^ j) = x * lval b ys"
    by (simp add: lval_sum sum_distrib_left mult.assoc)
  finally show ?case
    by (simp add: lval_append lval_Cons add_mult_distrib)
qed

lemma conv_le:
  assumes "\<forall>x \<in> set xs. x \<le> A" "\<forall>y \<in> set ys. y \<le> B"
  shows "conv xs ys c \<le> length ys * (A * B)"
proof -
  let ?I = "{i. i < length xs \<and> i \<le> c \<and> c - i < length ys}"
  have "conv xs ys c = (\<Sum>i \<in> ?I. xs ! i * ys ! (c - i))"
    unfolding conv_def by (intro sum.mono_neutral_cong_right) auto
  also have "\<dots> \<le> (\<Sum>i \<in> ?I. A * B)"
    using assms by (intro sum_mono mult_le_mono) simp_all
  also have "\<dots> = card ?I * (A * B)" by simp
  also have "card ?I \<le> card {c + 1 - length ys..<c + 1}" by (intro card_mono) auto
  then have "card ?I * (A * B) \<le> length ys * (A * B)" by (intro mult_le_mono1) simp
  finally show ?thesis .
qed

end
