(* ===== verification/Encode_Absorb.thy ===== *)
theory Encode_Absorb
  imports Encode_Radix
begin

unbundle bit_operations_syntax

text \<open>
  Correctness of the block-radix generator of \<open>Encode_Radix\<close>: both convolution orders compute the
  same columns, absorbing a block is \<open>V * 2 ^ 512 + block\<close>, and the scratch space that
  \<open>encodeBlockTail\<close> reserves is enough.  The loops are followed in the ring of 64-bit words, where
  nothing needs a bound; that no column wraps is one inequality at the end.
\<close>

section \<open>Loops that overwrite a range\<close>

lemma upt_split: "a \<le> b \<Longrightarrow> b \<le> c \<Longrightarrow> [a..<c] = [a..<b] @ [b..<c]"
  using upt_add_eq_append [of a b "c - b"] by simp

lemma map_take_upt:
  "n \<le> length xs \<Longrightarrow> (\<And>c. c < n \<Longrightarrow> f (xs ! c) = g c) \<Longrightarrow> map f (take n xs) = map g [0..<n]"
  by (intro nth_equalityI) simp_all

lemma fill_range:
  assumes "a \<le> b" "b \<le> length tmp" "\<And>c. a \<le> c \<Longrightarrow> c < b \<Longrightarrow> g c = Some (G c)"
  shows "foldM (\<lambda>c tmp. do { s \<leftarrow> g c; upd tmp c s }) [a..<b] tmp = Some (take a tmp @ map G [a..<b] @ drop b tmp)"
  using assms
proof (induction b)
  case (Suc b)
  show ?case
  proof (cases "a = Suc b")
    case False
    then have ab: "a \<le> b" using Suc.prems(1) by simp
    then have IH: "foldM (\<lambda>c tmp. do { s \<leftarrow> g c; upd tmp c s }) [a..<b] tmp = Some (take a tmp @ map G [a..<b] @ drop b tmp)"
      using Suc by simp
    have d: "drop b tmp = tmp ! b # drop (Suc b) tmp" using Suc.prems(2) by (simp add: Cons_nth_drop_Suc)
    show ?thesis
      using IH ab Suc.prems by (simp add: d list_update_append min_def)
  qed (use Suc.prems in simp)
qed simp

lemma add_range:
  fixes tmp :: "u64 list"
  assumes "m \<le> length tmp"
  shows "foldM (\<lambda>i tmp. do { t \<leftarrow> idx tmp i; upd tmp i (t + x i) }) [0..<m] tmp
    = Some (map (\<lambda>i. tmp ! i + x i) [0..<m] @ drop m tmp)"
  using assms
proof (induction m)
  case (Suc m)
  then have d: "drop m tmp = tmp ! m # drop (Suc m) tmp" by (simp add: Cons_nth_drop_Suc)
  show ?case using Suc by (simp add: d list_update_append nth_append)
qed simp

section \<open>Columns of a product\<close>

abbreviation "pow512 \<equiv> map unat pow2_512_base58_5"

lemma length_pow2_512 [simp]: "length pow2_512_base58_5 = 18"
  by (simp add: pow2_512_base58_5_def)

lemma pow512_value: "lval radix5 pow512 = 2 ^ 512"
  by (simp add: pow2_512_base58_5_def lval_Cons)

lemma pow512_less: "\<forall>w \<in> set pow512. w \<le> radix5 - 1"
  by (simp add: pow2_512_base58_5_def)

lemma product_word: "(ucast d :: u64) * ucast w = of_nat (unat (d :: u32) * unat (w :: u32))"
  by (simp add: of_nat_unat)

text \<open>The columns of the digits in \<open>D\<close>, as 64-bit words.\<close>

abbreviation columns :: "nat list \<Rightarrow> nat \<Rightarrow> u64" where
  "columns D c \<equiv> of_nat (conv D pow512 c)"

lemma row_eq:
  fixes f :: "nat \<Rightarrow> u64" and d :: u32
  assumes "i + j \<le> n" "j \<le> 18"
  shows "foldM (\<lambda>j tmp. do { t \<leftarrow> idx tmp (i + j); upd tmp (i + j) (t + ucast d * ucast (pow2_512_base58_5 ! j)) })
      [0..<j] (map f [0..<n] @ rest)
    = Some (map (\<lambda>c. f c + (if i \<le> c \<and> c - i < j then of_nat (unat d * pow512 ! (c - i)) else 0)) [0..<n] @ rest)"
  using assms
proof (induction j)
  case (Suc j)
  let ?g = "\<lambda>j c. f c + (if i \<le> c \<and> c - i < j then of_nat (unat d * pow512 ! (c - i)) else 0)"
  have "(map (?g j) [0..<n]) [i + j := f (i + j) + of_nat (unat d * pow512 ! j)] = map (?g (Suc j)) [0..<n]"
    using Suc.prems by (intro nth_equalityI) (auto simp: nth_list_update)
  then show ?case
    using Suc by (simp add: nth_append list_update_append product_word del: of_nat_mult)
qed simp

lemma convolveRows_eq:
  assumes "count \<le> length digits" "count + 18 \<le> n" "n \<le> length tmp"
  shows "convolveRows digits count n tmp
    = Some (map (columns (map unat (take count digits))) [0..<n] @ drop n tmp)"
proof -
  let ?ds = "take count digits"
  let ?row = "\<lambda>i tmp. foldM (\<lambda>j tmp.
                do { t \<leftarrow> idx tmp (i + j);
                     upd tmp (i + j) (t + ucast (?ds ! i) * ucast (pow2_512_base58_5 ! j)) })
              [0..<18] tmp"
  have "foldM ?row [0..<i] (replicate n 0 @ drop n tmp) = Some (map (columns (map unat (take i ?ds))) [0..<n] @ drop n tmp)"
    if "i \<le> count" for i
    using that
  proof (induction i)
    case 0
    have "map (columns []) [0..<n] = replicate n 0" by (intro nth_equalityI) simp_all
    then show ?case by simp
  next
    case (Suc i)
    have t: "take (Suc i) ?ds = take i ?ds @ [?ds ! i]"
      using Suc.prems assms(1) by (intro take_Suc_conv_app_nth) simp
    have li: "length (map unat (take i ?ds)) = i" using Suc.prems assms(1) by simp
    have "?row i (map (columns (map unat (take i ?ds))) [0..<n] @ drop n tmp)
        = Some (map (columns (map unat (take (Suc i) ?ds))) [0..<n] @ drop n tmp)"
      using Suc.prems assms
      by (subst row_eq) (simp_all only: t map_append list.map conv_snoc li of_nat_add length_map length_pow2_512
          if_distrib [of "of_nat :: nat \<Rightarrow> u64"] of_nat_0, simp_all)
    then show ?case using Suc by (simp del: upt_Suc add: upt_Suc_append foldM_append)
  qed
  from this [of count] show ?thesis
    using assms by (simp add: convolveRows_def Let_def)
qed

lemma conv_window:
  assumes "\<And>k. k \<in> K \<longleftrightarrow> k < length D \<and> k \<le> c \<and> c < k + 18"
  shows "conv D pow512 c = (\<Sum>k \<in> K. D ! k * pow512 ! (c - k))"
proof -
  have "K \<subseteq> {..<length D}" using assms by blast
  then show ?thesis
    unfolding conv_def using assms by (intro sum.mono_neutral_cong_right) auto
qed

lemma columnSum_eq:
  assumes "hi \<le> length digits" "hi \<le> column + 1" "column < lo + 18"
  shows "columnSum digits column lo hi
    = Some (of_nat (\<Sum>k = lo..<hi. unat (digits ! k) * pow512 ! (column - k)))"
proof (cases "lo \<le> hi")
  case True
  then show ?thesis
    unfolding columnSum_def using assms
  proof (induction hi rule: dec_induct)
    case (step k)
    then show ?case by (simp add: product_word del: of_nat_mult)
  qed simp
qed (simp add: columnSum_def)

lemma encodeMulP512_eq:
  assumes "length d = 18"
  shows "encodeMulP512 d = Some (of_nat (\<Sum>k = 0..<18. unat (d ! k) * pow512 ! (17 - k)))"
proof -
  have "pow512 ! k = unat (pow2_512_base58_5 ! k)" if "k < 18" for k using that by simp
  then show ?thesis
    using assms by (simp add: encodeMulP512_def product_word sum.atLeast0_lessThan_Suc numeral_eq_Suc del: of_nat_mult nth_map)
qed

text \<open>The column order gives the same columns as the row order.\<close>

lemma convolveColumns_eq:
  assumes "count \<le> length digits" "18 \<le> count" "n = count + 18" "n \<le> length tmp"
  shows "convolveColumns digits count n tmp
    = Some (map (columns (map unat (take count digits))) [0..<n] @ drop n tmp)"
proof -
  let ?D = "map unat (take count digits)"
  have len: "length ?D = count" using assms(1) by simp
  have window: "of_nat (\<Sum>k = lo..<hi. unat (digits ! k) * pow512 ! (c - k)) = columns ?D c"
    if "\<And>k. k \<in> {lo..<hi} \<longleftrightarrow> k < count \<and> k \<le> c \<and> c < k + 18" for lo hi c
    using conv_window [of "{lo..<hi}" ?D c] that len assms(1)
    by (auto intro!: arg_cong [where f = of_nat] sum.cong)
  have low: "columnSum digits c 0 (c + 1) = Some (columns ?D c)" if "c < 17" for c
  proof -
    have "columnSum digits c 0 (c + 1) = Some (of_nat (\<Sum>k = 0..<c + 1. unat (digits ! k) * pow512 ! (c - k)))"
      using that assms(1,2) by (intro columnSum_eq) simp_all
    moreover have "of_nat (\<Sum>k = 0..<c + 1. unat (digits ! k) * pow512 ! (c - k)) = columns ?D c"
      using that assms(2) by (intro window) auto
    ultimately show ?thesis by (simp only:)
  qed
  have mid: "Option.bind (subslice digits (c - 17) (c + 1)) encodeMulP512 = Some (columns ?D c)"
    if "17 \<le> c" "c < count" for c
  proof -
    let ?w = "take (c + 1 - (c - 17)) (drop (c - 17) digits)"
    have w: "length ?w = 18" "\<And>k. k < 18 \<Longrightarrow> ?w ! k = digits ! (c - 17 + k)" using that assms(1) by simp_all
    have "(\<Sum>k = 0..<18. unat (?w ! k) * pow512 ! (17 - k))
        = (\<Sum>k = c - 17..<c + 1. unat (digits ! k) * pow512 ! (c - k))"
      using that w(2) by (intro sum.reindex_bij_witness [of _ "\<lambda>k. k - (c - 17)" "\<lambda>k. c - 17 + k"]) auto
    moreover have "of_nat (\<Sum>k = c - 17..<c + 1. unat (digits ! k) * pow512 ! (c - k)) = columns ?D c"
      using that by (intro window) auto
    ultimately have "encodeMulP512 ?w = Some (columns ?D c)" by (simp only: encodeMulP512_eq [OF w(1)])
    moreover have "subslice digits (c - 17) (c + 1) = Some ?w" using that assms(1) by (intro subslice_Some) simp_all
    ultimately show ?thesis by simp
  qed
  have high: "columnSum digits c (c - 17) count = Some (columns ?D c)" if "count \<le> c" "c < n" for c
  proof -
    have "columnSum digits c (c - 17) count = Some (of_nat (\<Sum>k = c - 17..<count. unat (digits ! k) * pow512 ! (c - k)))"
      using that assms by (intro columnSum_eq) simp_all
    moreover have "of_nat (\<Sum>k = c - 17..<count. unat (digits ! k) * pow512 ! (c - k)) = columns ?D c"
      using that by (intro window) auto
    ultimately show ?thesis by (simp only:)
  qed
  let ?f = "columns ?D"
  let ?t1 = "map ?f [0..<17] @ drop 17 tmp"
  let ?t2 = "map ?f [0..<count] @ drop count tmp"
  have 1: "foldM (\<lambda>column tmp. do { s \<leftarrow> columnSum digits column 0 (column + 1); upd tmp column s }) [0..<17] tmp = Some ?t1"
    using fill_range [of 0 17 tmp "\<lambda>c. columnSum digits c 0 (c + 1)" ?f] low assms by simp
  have 2: "encodeConvolveP512 digits count ?t1 = Some ?t2"
  proof -
    have "encodeConvolveP512 digits count ?t1
        = foldM (\<lambda>c tmp. do { s \<leftarrow> Option.bind (subslice digits (c - 17) (c + 1)) encodeMulP512; upd tmp c s }) [17..<count] ?t1"
      by (simp add: encodeConvolveP512_def)
    also have "\<dots> = Some (take 17 ?t1 @ map ?f [17..<count] @ drop count ?t1)"
      using mid assms by (intro fill_range) simp_all
    also have "take 17 ?t1 @ map ?f [17..<count] @ drop count ?t1 = ?t2"
      using assms upt_split [of 0 17 count] by simp
    finally show ?thesis .
  qed
  have 3: "foldM (\<lambda>column tmp. do { s \<leftarrow> columnSum digits column (column - 17) count; upd tmp column s }) [count..<n] ?t2
      = Some (map ?f [0..<n] @ drop n tmp)"
  proof -
    have "foldM (\<lambda>column tmp. do { s \<leftarrow> columnSum digits column (column - 17) count; upd tmp column s }) [count..<n] ?t2
        = Some (take count ?t2 @ map ?f [count..<n] @ drop n ?t2)"
      using high assms by (intro fill_range) simp_all
    also have "take count ?t2 @ map ?f [count..<n] @ drop n ?t2 = map ?f [0..<n] @ drop n tmp"
      using assms upt_split [of 0 count n] by (simp add: add.commute)
    finally show ?thesis .
  qed
  show ?thesis unfolding convolveColumns_def using 1 2 3 by (simp only: Option.bind.simps)
qed

section \<open>Carrying the columns\<close>

lemma encodeReduceColumns_eq:
  assumes "n \<le> length tmp" "n \<le> length digits" "\<forall>c < n. unat (tmp ! c) < 2 ^ 63"
  shows "\<exists>ds. encodeReduceColumns tmp digits n = Some (ds @ drop n digits) \<and> length ds = n \<and>
    (\<forall>d \<in> set ds. unat d < radix5) \<and>
    (lval radix5 (map unat (take n tmp)) < radix5 ^ n \<longrightarrow> lval radix5 (map unat ds) = lval radix5 (map unat (take n tmp)))"
proof -
  let ?body = "\<lambda>i (digits, carry). do { let v = take n tmp ! i + carry; let q = v div r1div;
                   digits \<leftarrow> upd digits i (ucast (v - q * r1div)); Some (digits, q) }"
  have "\<exists>ds carry. foldM ?body [0..<i] (digits, 0 :: u64) = Some (ds @ drop i digits, carry) \<and> length ds = i \<and>
      unat carry < 2 ^ 63 \<and> (\<forall>d \<in> set ds. unat d < radix5) \<and>
      lval radix5 (map unat ds) + radix5 ^ i * unat carry = lval radix5 (map unat (take i tmp))" if "i \<le> n" for i
    using that
  proof (induction i)
    case (Suc i)
    then obtain ds carry where IH: "foldM ?body [0..<i] (digits, 0 :: u64) = Some (ds @ drop i digits, carry)" "length ds = i"
      "unat carry < 2 ^ 63" "\<forall>d \<in> set ds. unat d < radix5"
      "lval radix5 (map unat ds) + radix5 ^ i * unat carry = lval radix5 (map unat (take i tmp))"
      by auto
    let ?v = "tmp ! i + carry"
    let ?r = "?v - ?v div r1div * r1div"
    have v: "unat ?v = unat (tmp ! i) + unat carry"
    proof (rule unat_add_nowrap)
      have "unat (tmp ! i) < 2 ^ 63" using assms(3) Suc.prems by simp
      then have "unat (tmp ! i) + unat carry < 2 ^ 63 + 2 ^ 63" using IH(3) by (rule add_strict_mono)
      then show "unat (tmp ! i) + unat carry < 2 ^ LENGTH(64)" by simp
    qed
    have q: "unat (?v div r1div) = unat ?v div radix5" by (simp add: unat_div)
    have r: "unat (ucast ?r :: u32) = unat ?v mod radix5"
      by (subst unat_ucast_small) (simp_all add: unat_sub_div_mult)
    have d: "drop i digits = digits ! i # drop (Suc i) digits"
      using Suc.prems assms(2) by (simp add: Cons_nth_drop_Suc)
    have run: "foldM ?body [0..<Suc i] (digits, 0 :: u64) = Some ((ds @ [ucast ?r]) @ drop (Suc i) digits, ?v div r1div)"
      using IH(1,2) Suc.prems assms(2) by (simp add: d list_update_append Let_def)
    have c: "unat (?v div r1div) < 2 ^ 63"
    proof -
      have "unat ?v < 2 ^ 64" using unat_lt_pow [of ?v] by simp
      then show ?thesis unfolding q by (simp add: less_mult_imp_div_less)
    qed
    have small: "\<forall>d \<in> set (ds @ [ucast ?r]). unat d < radix5" using IH(4) r by simp
    have val: "lval radix5 (map unat (ds @ [ucast ?r])) + radix5 ^ Suc i * unat (?v div r1div)
        = lval radix5 (map unat (take (Suc i) tmp))"
    proof -
      have t: "take (Suc i) tmp = take i tmp @ [tmp ! i]" using Suc.prems assms(1) by (simp add: take_Suc_conv_app_nth)
      have l: "length (map unat ds) = i" "length (map unat (take i tmp)) = i" using IH(2) Suc.prems assms(1) by simp_all
      have "lval radix5 (map unat ds) + radix5 ^ i * unat ?v = lval radix5 (map unat (take (Suc i) tmp))"
        unfolding t v by (simp only: map_append list.map lval_append lval_Cons lval_Nil l IH(5) [symmetric]
            mult_0_right add_0_right add_mult_distrib2)
      from carry_place [OF this, of radix5] show ?thesis
        by (simp only: map_append list.map lval_append lval_Cons lval_Nil l r q mult_0_right add_0_right power_Suc2)
    qed
    have "length (ds @ [ucast ?r]) = Suc i" using IH(2) by simp
    with run c small val show ?case by blast
  qed simp
  from this [OF le_refl] obtain ds carry where R: "foldM ?body [0..<n] (digits, 0 :: u64) = Some (ds @ drop n digits, carry)"
    "length ds = n" "\<forall>d \<in> set ds. unat d < radix5"
    "lval radix5 (map unat ds) + radix5 ^ n * unat carry = lval radix5 (map unat (take n tmp))" by blast
  have "lval radix5 (map unat ds) = lval radix5 (map unat (take n tmp))"
    if "lval radix5 (map unat (take n tmp)) < radix5 ^ n"
  proof (cases "unat carry")
    case (Suc k)
    then have "radix5 ^ n * 1 \<le> radix5 ^ n * unat carry" by (intro mult_le_mono2) simp
    then show ?thesis using R(4) that by linarith
  qed (use R(4) in simp)
  then show ?thesis
    using R assms(1) by (simp add: encodeReduceColumns_def)
qed


section \<open>Absorbing a block\<close>

lemma columns_bound:
  assumes "\<forall>d \<in> set D. d < radix5" "x < radix5"
  shows "conv D pow512 c + x < 2 ^ 63"
proof -
  have "conv D pow512 c \<le> length pow512 * ((radix5 - 1) * (radix5 - 1))"
    using assms(1) pow512_less by (intro conv_le) (auto simp del: power_numeral)
  moreover have "length pow512 * ((radix5 - 1) * (radix5 - 1)) + radix5 < 2 ^ 63" by simp
  ultimately show ?thesis using assms(2) by linarith
qed

lemma absorb_room:
  assumes "V < radix5 ^ count" "B < 2 ^ 512"
  shows "V * 2 ^ 512 + B < radix5 ^ (count + 18)"
proof -
  have "V * 2 ^ 512 + B < Suc V * 2 ^ 512" using assms(2) by simp
  also have "\<dots> \<le> radix5 ^ count * radix5 ^ 18"
    using assms(1) by (intro mult_le_mono) (simp_all only: Suc_le_eq, simp)
  finally show ?thesis by (simp only: power_add)
qed

lemma absorbBlock_eq:
  assumes "length block = 64" "length blockDigits = 18" "holds digits count V"
    "count + 18 \<le> length digits" "count + 18 \<le> length tmp"
  shows "\<exists>blockDigits' digits' tmp' count'.
    absorbBlock block blockDigits digits tmp count = Some (blockDigits', digits', tmp', count') \<and>
    length blockDigits' = 18 \<and> length digits' = length digits \<and> length tmp' = length tmp \<and>
    holds digits' count' (V * 2 ^ 512 + bytes_val block)"
proof -
  note H = holds_value [OF assms(3)]
  let ?n = "count + 18" and ?B = "bytes_val block"
  let ?D = "map unat (take count digits)"
  obtain bd bc where B: "encodeBlock64 block blockDigits = Some (bd, bc)" "length bd = 18" "holds bd bc ?B"
    using encodeBlock64_eq [OF assms(1)] assms(2) by force
  note HB = holds_value [OF B(3)]
  let ?bs = "take bc bd"
  let ?t1 = "map (columns ?D) [0..<?n] @ drop ?n tmp"
  let ?t2 = "map (\<lambda>i. ?t1 ! i + ucast (?bs ! i)) [0..<bc] @ drop bc ?t1"
  have 1: "(if encodeConvolveP512All digits count ?n tmp then Some tmp
            else if count < 96 then convolveRows digits count ?n tmp
            else convolveColumns digits count ?n tmp) = Some ?t1"
    using convolveRows_eq [OF H(3) order_refl assms(5)] convolveColumns_eq [OF H(3) _ refl assms(5)]
    by (simp add: encodeConvolveP512All_def)
  have bc: "bc \<le> ?n" using HB(3) B(2) by simp
  have 2: "foldM (\<lambda>i tmp. do { t \<leftarrow> idx tmp i; upd tmp i (t + ucast (?bs ! i)) }) [0..<bc] ?t1 = Some ?t2"
    using bc assms(5) by (intro add_range) simp
  let ?x = "\<lambda>c. if c < bc then unat (bd ! c) else 0"
  let ?col = "\<lambda>c. conv ?D pow512 c + ?x c"
  have "bd ! c \<in> set ?bs" if "c < bc" for c
    using that HB(3) nth_mem [of c ?bs] by simp
  then have x: "?x c < radix5" for c using HB(2) by simp
  have l2: "length ?t2 = length tmp" using bc assms(5) by simp
  have "?t2 ! c = of_nat (?col c)" if "c < ?n" for c
    using that bc HB(3) by (auto simp: nth_append of_nat_unat)
  moreover have lt: "?col c < 2 ^ 63" for c
    using H(2) x by (intro columns_bound) simp_all
  moreover have "?col c < 2 ^ LENGTH(64)" for c using less_trans [OF lt, of "2 ^ 64"] by simp
  ultimately have col: "unat (?t2 ! c) = ?col c" if "c < ?n" for c
    using that by (simp only: unat_of_nat_small)
  have small: "\<forall>c < ?n. unat (?t2 ! c) < 2 ^ 63" using col lt by simp
  have "map unat (take ?n ?t2) = map ?col [0..<?n]"
    using l2 assms(5) col by (intro map_take_upt) (simp_all only:)
  then have "lval radix5 (map unat (take ?n ?t2)) = (\<Sum>c < ?n. conv ?D pow512 c * radix5 ^ c) + (\<Sum>c < ?n. ?x c * radix5 ^ c)"
    by (simp only: lval_map add_mult_distrib sum.distrib)
  also have "(\<Sum>c < ?n. conv ?D pow512 c * radix5 ^ c) = V * 2 ^ 512"
    using lval_conv [of radix5 ?D pow512] H(1,3) unfolding lval_map pow512_value by simp
  also have "(\<Sum>c < ?n. ?x c * radix5 ^ c) = (\<Sum>c < bc. unat (bd ! c) * radix5 ^ c)"
    using bc by (intro sum.mono_neutral_cong_right) auto
  also have "\<dots> = lval radix5 (map unat ?bs)" using HB(3) by (simp add: lval_sum)
  also have "\<dots> = ?B" by (rule HB(1))
  finally have val: "lval radix5 (map unat (take ?n ?t2)) = V * 2 ^ 512 + ?B" .
  have "?B < 2 ^ 512" using bytes_val_less [of block] assms(1) by simp
  moreover have "V < radix5 ^ count" using lval_less [of ?D radix5] H by simp
  ultimately have fit: "lval radix5 (map unat (take ?n ?t2)) < radix5 ^ ?n"
    unfolding val by (intro absorb_room)
  have n2: "?n \<le> length ?t2" unfolding l2 by (rule assms(5))
  obtain ds where R: "encodeReduceColumns ?t2 digits ?n = Some (ds @ drop ?n digits)" "length ds = ?n"
    "\<forall>d \<in> set ds. unat d < radix5" "lval radix5 (map unat ds) = V * 2 ^ 512 + ?B"
    using encodeReduceColumns_eq [OF n2 assms(4) small] fit val by auto
  let ?d' = "ds @ drop ?n digits"
  have t: "take ?n ?d' = ds" using R(2) by simp
  have "holds ?d' (trimCount ?d' ?n) (V * 2 ^ 512 + ?B)"
    using trimCount_holds [of ?n ?d'] R(2-4) unfolding t by simp
  moreover have "absorbBlock block blockDigits digits tmp count = Some (bd, ?d', ?t2, trimCount ?d' ?n)"
    unfolding absorbBlock_def B(1) using 1 2 R(1) HB(3) by (simp only: Option.bind.simps prod.case Let_def length_pow2_512 subslice_Some le0 minus_nat.diff_0 drop_0)
  moreover have "length ?d' = length digits" using R(2) assms(4) by simp
  ultimately show ?thesis using B(2) l2 by blast
qed


lemma absorbLoop_eq:
  assumes "length blocks = 64 * k" "length blockDigits = 18" "holds digits count V" "V < radix5 ^ h" "1 \<le> h"
    "h + 18 * k \<le> length digits" "h + 18 * k \<le> length tmp"
  shows "\<exists>digits' count'. absorbLoop blocks blockDigits digits tmp count = Some (digits', count') \<and>
    length digits' = length digits \<and> holds digits' count' (V * 256 ^ length blocks + bytes_val blocks)"
  using assms
proof (induction k arbitrary: blocks blockDigits digits tmp count V h)
  case 0
  then show ?case by (simp add: absorbLoop.simps)
next
  case (Suc k)
  let ?a = "take 64 blocks" and ?b = "drop 64 blocks"
  let ?V = "V * 2 ^ 512 + bytes_val ?a"
  have la: "length ?a = 64" "length ?b = 64 * k" using Suc.prems(1) by simp_all
  have "count \<le> h" using Suc.prems(3-5) by (rule holds_le)
  then have "count + 18 \<le> length digits" "count + 18 \<le> length tmp" using Suc.prems(6,7) by simp_all
  from absorbBlock_eq [OF la(1) Suc.prems(2,3) this] obtain bd d1 t1 c1 where
    S: "absorbBlock ?a blockDigits digits tmp count = Some (bd, d1, t1, c1)" "length bd = 18"
      "length d1 = length digits" "length t1 = length tmp" "holds d1 c1 ?V" by blast
  have "bytes_val ?a < 2 ^ 512" using bytes_val_less [of ?a] la(1) by simp
  then have lt: "?V < radix5 ^ (h + 18)" by (rule absorb_room [OF Suc.prems(4)])
  have "h + 18 + 18 * k \<le> length d1" "h + 18 + 18 * k \<le> length t1" "1 \<le> h + 18"
    using Suc.prems(6,7) S(3,4) by simp_all
  from Suc.IH [OF la(2) S(2,5) lt this(3,1,2)] obtain digits' count' where
    R: "absorbLoop ?b bd d1 t1 c1 = Some (digits', count')" "length digits' = length d1"
      "holds digits' count' (?V * 256 ^ length ?b + bytes_val ?b)" by blast
  have p: "(2 :: nat) ^ 512 = 256 ^ length ?a" unfolding la(1) by simp
  have v: "?V * 256 ^ length ?b + bytes_val ?b = V * 256 ^ length blocks + bytes_val blocks"
    unfolding p using append_bound(2) [OF lessI, of V ?a ?b] by simp
  have "absorbLoop blocks blockDigits digits tmp count = absorbLoop ?b bd d1 t1 c1"
    using Suc.prems(1) S(1) by (subst absorbLoop.simps) simp
  then show ?case using R S(3) unfolding v by metis
qed

section \<open>The whole generator\<close>

lemma holds_zero: "1 \<le> n \<Longrightarrow> holds (replicate n 0) 1 0"
  by (intro holdsI) (auto simp: take_Suc lval_Cons)

abbreviation headNeed :: "nat \<Rightarrow> nat" where
  "headNeed n \<equiv> (n * 138 div 100 + 5) div 5"

lemma headNeed_pos: "1 \<le> headNeed n"
  by simp

text \<open>What the seed leaves: \<open>seeded\<close> is in the limbs, \<open>rest\<close> and then \<open>blocks\<close> remain.\<close>

lemma seedBlock_eq:
  assumes "src \<noteq> []" "need = blockNeed (length src)"
  shows "\<exists>seeded rest blocks k digits count. seedBlock src (replicate need 0) = Some (rest, blocks, digits, count) \<and>
    src = seeded @ rest @ blocks \<and> length rest < 64 \<and> (32 \<le> length rest \<longrightarrow> seeded = []) \<and>
    length blocks = 64 * k \<and> length digits = need \<and> holds digits count (bytes_val seeded) \<and>
    bytes_val (seeded @ rest) < radix5 ^ (need - 18 * k) \<and> 18 * k + headNeed (length rest) \<le> need"
proof (cases "64 \<le> length src")
  case False
  then have "need = headNeed (length src)" unfolding assms(2) blockNeed_def by simp
  then show ?thesis
    using False holds_zero [of need] bytes_val_limbs [of src]
    by (intro exI [of _ "[]"] exI [of _ src] exI [of _ 0] exI [of _ "replicate need 0"] exI [of _ 1])
      (simp add: seedBlock_def)
next
  case True
  let ?q = "length src div 64" and ?h = "length src mod 64"
  have need: "need = ?q * 18 + headNeed ?h" unfolding assms(2) blockNeed_def by simp
  have len: "length src = 64 * ?q + ?h" by simp
  have q: "1 \<le> ?q" using True by (simp add: div_greater_zero_iff Suc_le_eq)
  have n18: "18 \<le> length (replicate need (0 :: u32))" using q headNeed_pos [of ?h] unfolding need by simp
  show ?thesis
  proof (cases "(?q \<ge> 2 \<or> ?h \<ge> 16) \<and> ?h \<noteq> 0")
    case True
    let ?r = "take ?h src" and ?b = "drop ?h src"
    have "length ?b = 64 * ?q" unfolding length_drop using len by linarith
    then have l: "length ?r = ?h" "length ?b = 64 * ?q" by simp_all
    have "seedBlock src (replicate need 0) = Some (?r, ?b, replicate need 0, 1)"
      using True \<open>64 \<le> length src\<close> by (simp add: seedBlock_def Let_def)
    moreover have "bytes_val ?r < radix5 ^ (need - 18 * ?q)"
      using bytes_val_limbs [of ?r] unfolding need l(1) by simp
    moreover have "holds (replicate need 0) 1 (bytes_val [])"
      using holds_zero [of need] n18 by simp
    moreover have "18 * ?q + headNeed (length ?r) \<le> need" "length ?r < 64" unfolding l(1) need by simp_all
    moreover have "src = [] @ ?r @ ?b" "32 \<le> length ?r \<longrightarrow> [] = []" "length (replicate need (0 :: u32)) = need"
      by simp_all
    ultimately show ?thesis using l(2) by (metis append_Nil)
  next
    case False
    let ?s = "take 64 src" and ?t = "drop 64 src"
    have ls: "length ?s = 64" using \<open>64 \<le> length src\<close> by simp
    obtain digits count where B: "encodeBlock64 ?s (replicate need 0) = Some (digits, count)"
      "length digits = need" "holds digits count (bytes_val ?s)"
      using encodeBlock64_eq [OF ls n18] by auto
    have s: "bytes_val ?s < 2 ^ 512" using bytes_val_less [of ?s] ls by simp
    have s1: "bytes_val ?s < radix5 ^ 19" using s by (rule less_trans) simp
    show ?thesis
    proof (cases "?h = 0")
      case True
      have "seedBlock src (replicate need 0)
          = (if ?q \<ge> 2 then Some ([], ?t, digits, count) else Some (?t, [], digits, count))"
        using True B(1) \<open>64 \<le> length src\<close> by (simp add: seedBlock_def Let_def)
      moreover have "?t = []" if "\<not> ?q \<ge> 2" using that len True q by simp
      ultimately have "seedBlock src (replicate need 0) = Some ([], ?t, digits, count)" by (cases "?q \<ge> 2") simp_all
      moreover have "length ?t = 64 * (?q - 1)" using len True q by (simp add: algebra_simps)
      moreover have k: "need - 18 * (?q - 1) = 19" "18 * (?q - 1) + headNeed (length ([] :: bytes)) \<le> need"
        using q unfolding need True by simp_all
      moreover have "bytes_val (?s @ []) < radix5 ^ (need - 18 * (?q - 1))" using s1 k(1) by simp
      moreover have "src = ?s @ [] @ ?t" "length ([] :: bytes) < 64" "32 \<le> length ([] :: bytes) \<longrightarrow> ?s = []" by simp_all
      ultimately show ?thesis using B(2,3) by blast
    next
      case h: False
      then have q1: "?q = 1" and h16: "?h < 16" using False q by auto
      have lt: "length ?t = ?h" using len q1 by simp
      have "seedBlock src (replicate need 0) = Some (?t, [], digits, count)"
        using False h B(1) \<open>64 \<le> length src\<close> by (auto simp: seedBlock_def Let_def)
      moreover have "bytes_val src < radix5 ^ need"
      proof -
        have "bytes_val src = bytes_val ?s * 256 ^ ?h + bytes_val ?t"
          using bytes_val_append [of ?s ?t] lt by simp
        also have "\<dots> < Suc (bytes_val ?s) * 256 ^ ?h" using bytes_val_less [of ?t] lt by simp
        also have "\<dots> \<le> 2 ^ 512 * 256 ^ ?h" using s by (intro mult_le_mono1) simp
        also have "\<dots> \<le> radix5 ^ 18 * radix5 ^ headNeed ?h"
          by (rule mult_le_mono [OF _ power_256_limbs]) simp
        also have "\<dots> = radix5 ^ need" unfolding need q1 by (simp only: power_add mult_1)
        finally show ?thesis .
      qed
      moreover have "18 * 0 + headNeed (length ?t) \<le> need" unfolding need lt by simp
      moreover have "length ?t < 64" "32 \<le> length ?t \<longrightarrow> ?s = []" using lt h16 by simp_all
      moreover have "src = ?s @ ?t @ []" "length ([] :: bytes) = 64 * 0" by simp_all
      moreover have "bytes_val (?s @ ?t) < radix5 ^ (need - 18 * 0)" using calculation(2) by simp
      ultimately show ?thesis using B(2,3) by blast
    qed
  qed
qed


lemma encodeBlockTailScratch_done:
  assumes "src \<noteq> []" "hd src \<noteq> 0" "variableSize (length src) \<le> length out" "need = blockNeed (length src)"
  shows "tail_done src out (encodeBlockTailScratch src out (replicate need 0) (replicate need 0))"
proof -
  obtain seeded rest blocks k d0 c0 where S: "seedBlock src (replicate need 0) = Some (rest, blocks, d0, c0)"
    "src = seeded @ rest @ blocks" "length rest < 64" "32 \<le> length rest \<longrightarrow> seeded = []" "length blocks = 64 * k"
    "length d0 = need" "holds d0 c0 (bytes_val seeded)" "bytes_val (seeded @ rest) < radix5 ^ (need - 18 * k)"
    "18 * k + headNeed (length rest) \<le> need"
    using seedBlock_eq [OF assms(1,4)] by blast
  have grow: "bytes_val (seeded @ rest) < radix5 ^ length d0"
    using S(8) by (rule less_le_trans) (simp add: S(6) power_increasing del: power_numeral)
  let ?m = "if length rest \<ge> 32
             then do { b \<leftarrow> subslice rest 0 32;
                       (digits, count) \<leftarrow> encodeBlock32 b d0;
                       Some (drop 32 rest, digits, count) }
             else Some (rest, d0, c0)"
  have "\<exists>a r d1 c1. ?m = Some (r, d1, c1) \<and> rest = a @ r \<and> length d1 = need \<and> holds d1 c1 (bytes_val (seeded @ a))"
  proof (cases "32 \<le> length rest")
    case True
    then have "9 \<le> headNeed (length rest)" by simp
    then have "9 \<le> length d0" using S(6,9) by simp
    moreover have "length (take 32 rest) = 32" using True by simp
    ultimately obtain d1 c1 where "encodeBlock32 (take 32 rest) d0 = Some (d1, c1)" "length d1 = length d0"
      "holds d1 c1 (bytes_val (take 32 rest))" using encodeBlock32_eq by blast
    then show ?thesis using True S(4,6)
      by (intro exI [of _ "take 32 rest"] exI [of _ "drop 32 rest"] exI [of _ d1] exI [of _ c1]) simp
  qed (use S(6,7) in \<open>auto intro!: exI [of _ "[]"]\<close>)
  then obtain a r d1 c1 where M: "?m = Some (r, d1, c1)" "rest = a @ r" "length d1 = need"
    "holds d1 c1 (bytes_val (seeded @ a))" by blast
  have v: "bytes_val (seeded @ a) * 256 ^ length r + bytes_val r = bytes_val (seeded @ rest)"
    unfolding M(2) by (simp only: bytes_val_append append.assoc [symmetric])
  have "bytes_val (seeded @ a) * 256 ^ length r + bytes_val r < radix5 ^ length d1"
    unfolding v M(3) using grow S(6) by simp
  from hornerBytes_eq [OF M(4) this] obtain d2 c2 where H: "hornerBytes r d1 c1 = Some (d2, c2)"
    "length d2 = need" "holds d2 c2 (bytes_val (seeded @ rest))" unfolding v M(3) by blast
  have "1 \<le> need - 18 * k" "need - 18 * k + 18 * k \<le> length d2" "need - 18 * k + 18 * k \<le> length (replicate need (0 :: u64))"
    using S(9) headNeed_pos [of "length rest"] H(2) by simp_all
  note L = absorbLoop_eq [OF S(5) _ H(3) S(8) this]
  have "length (replicate intermediateSz64 (0 :: u32)) = 18" by simp
  from L [OF this] obtain d3 c3 where A: "encodeAbsorbBlocks blocks d2 (replicate need 0) c2 = Some (d3, c3)"
    "holds d3 c3 (bytes_val (seeded @ rest) * 256 ^ length blocks + bytes_val blocks)"
    unfolding encodeAbsorbBlocks_def by blast
  have w: "bytes_val (seeded @ rest) * 256 ^ length blocks + bytes_val blocks = bytes_val src"
    unfolding S(2) by (simp only: bytes_val_append append.assoc [symmetric])
  have "\<exists>d4 c4. (if length blocks \<noteq> 0 then encodeAbsorbBlocks blocks d2 (replicate need 0) c2 else Some (d2, c2)) = Some (d4, c4)
      \<and> holds d4 c4 (bytes_val src)"
    using A H(3) w by (cases "blocks = []") auto
  then obtain d4 c4 where F: "(if length blocks \<noteq> 0 then encodeAbsorbBlocks blocks d2 (replicate need 0) c2 else Some (d2, c2)) = Some (d4, c4)"
    "holds d4 c4 (bytes_val src)" by blast
  have "encodeBlockTailScratch src out (replicate need 0) (replicate need 0) = encodeDigits5Tail (take c4 d4) out"
    unfolding encodeBlockTailScratch_def S(1) using M(1) H(1) F(1) holds_value(3) [OF F(2)]
    by (simp only: Option.bind.simps prod.case subslice_Some le0 minus_nat.diff_0 drop_0)
  then show ?thesis using digits_tail_done [OF F(2) assms(1-3)] by simp
qed

lemma encodeBlockTail_done:
  assumes "src \<noteq> []" "hd src \<noteq> 0" "variableSize (length src) \<le> length out"
  shows "tail_done src out (encodeBlockTail src out)"
proof -
  have "encodeBlockTail src out
      = encodeBlockTailScratch src out (replicate (blockNeed (length src)) 0) (replicate (blockNeed (length src)) 0)"
    by (simp add: encodeBlockTail_def Let_def)
  then show ?thesis using encodeBlockTailScratch_done [OF assms refl] by simp
qed

interpretation block: tail_encoder encodeBlockTail 65 n for n
  by unfold_locales (rule encodeBlockTail_done)

end
