(* ===== verification/Encode_Variable.thy ===== *)
theory Encode_Variable
  imports Encode_Small Encode_Absorb Go_Slice
begin

unbundle bit_operations_syntax

text \<open>
  Encoding of inputs of any length (\<open>encode.go\<close>): \<open>Encode\<close> and \<open>AppendEncode\<close> with the dispatch
  on the input length, and \<open>encodeLargeTail\<close> of \<open>large.go\<close>.  A \<open>big.Int\<close> that is never negative is a
  natural number; the one method used for output, \<open>Append\<close>, writes the digits of \<open>math/big\<close>'s own
  alphabet.
\<close>

section \<open>Large inputs\<close>

definition largeEncodeThreshold :: nat where
  "largeEncodeThreshold = 32 * 2 ^ 10"

text \<open>
  \<open>math/big\<close>: the digits 0 to 61 are \<open>0-9\<close>, \<open>a-z\<close>, \<open>A-Z\<close>, and \<open>Append\<close> puts the digits of the number
  behind the buffer, in its array if they fit there.
\<close>

definition bigDigit :: "nat \<Rightarrow> u8" where
  "bigDigit d =
     (if d < 10 then byte CHR ''0'' + of_nat d
      else if d < 36 then byte CHR ''a'' + of_nat (d - 10)
      else byte CHR ''A'' + of_nat (d - 36))"

definition bigText58 :: "nat \<Rightarrow> bytes" where
  "bigText58 v = (if v = 0 then [byte CHR ''0''] else map bigDigit (to_digits 58 v))"

text \<open>The digit that a character of \<open>math/big\<close> stands for: the \<open>switch\<close> of \<open>encodeLargeTail\<close>.\<close>

definition largeDigit :: "u8 \<Rightarrow> u8" where
  "largeDigit c =
     (if c \<le> byte CHR ''9'' then c - byte CHR ''0''
      else if c \<ge> byte CHR ''a'' then c - byte CHR ''a'' + 10
      else c - byte CHR ''A'' + 36)"

definition encodeLargeTail :: "bytes \<Rightarrow> bytes \<Rightarrow> (nat \<times> bytes) option" where
  "encodeLargeTail src out =
     do { let digits = bigText58 (bytes_val src);
          digits \<leftarrow> foldM (\<lambda>i digits.
              do { c \<leftarrow> idx digits i;
                   ch \<leftarrow> idx base58Chars (unat (largeDigit c));
                   upd digits i ch })
            [0..<length digits] digits;
          let out = (if length digits \<le> length out then go_copy out digits else out);
          p \<leftarrow> isub (length out) (length digits);
          out \<leftarrow> on_slice out p (length out) (\<lambda>w. Some (go_copy w digits));
          Some (p, out) }"

section \<open>Dispatch\<close>

definition encodeTail :: "bytes \<Rightarrow> bytes \<Rightarrow> (nat \<times> bytes) option" where
  "encodeTail b out =
     (if length b \<ge> largeEncodeThreshold then encodeLargeTail b out
      else if length b \<le> 8 then encodeSmallTail b out
      else if length b \<le> 32 then encodeSmallMatrixTail b out
      else if length b \<le> 64 then encodeMatrixTail b out
      else encodeBlockTail b out)"

text \<open>\<open>w\<close> is the width of \<open>int\<close>.\<close>

definition encodeVariable :: "nat \<Rightarrow> bytes \<Rightarrow> bytes option" where
  "encodeVariable w bin =
     (let zcount = leading 0 bin; nz = length bin - zcount
      in if nz = 0
         then foldM (\<lambda>i out. upd out i (byte CHR ''1'')) [0..<zcount] (replicate zcount 0)
         else do {
           sz \<leftarrow> bound (wrap_int w (int zcount + encodeVariableSize w nz));
           (p, out) \<leftarrow> encodeTail (drop zcount bin) (replicate sz 0);
           (p, out) \<leftarrow> foldM (\<lambda>_ (p, out).
               do { p \<leftarrow> isub p 1; out \<leftarrow> upd out p (byte CHR ''1''); Some (p, out) })
             [0..<zcount] (p, out);
           subslice out p (length out) })"

definition Encode :: "nat \<Rightarrow> bytes \<Rightarrow> bytes option" where
  "Encode w b =
     (if length b = 0 then Some []
      else if length b = 32 then Encode32 b
      else if length b = 64 then Encode64 b
      else encodeVariable w b)"

definition AppendEncode :: "nat \<Rightarrow> (nat \<Rightarrow> nat \<Rightarrow> nat) \<Rightarrow> gslice \<Rightarrow> bytes \<Rightarrow> gslice option" where
  "AppendEncode w grow dst src =
     (if length src = 0 then Some dst
      else if length src = 32 then AppendEncode32 dst src
      else if length src = 64 then AppendEncode64 dst src
      else
        let zcount = leading 0 src; nz = length src - zcount;
            dst = fold (\<lambda>_ dst. go_append grow dst [byte CHR ''1'']) [0..<zcount] dst
        in if nz = 0 then Some dst
           else do {
             let size = encodeVariableSize w nz;
             let start = len dst;
             sz \<leftarrow> bound (wrap_int w (int start + size));
             dst \<leftarrow> grow_to dst sz sz;
             w \<leftarrow> subslice (buf dst) start (len dst);
             (p, w) \<leftarrow> encodeTail (drop zcount src) w;
             dst \<leftarrow> slice_write dst start (len dst) (\<lambda>_. Some w);
             tl \<leftarrow> subslice (buf dst) (start + p) (len dst);
             dst \<leftarrow> slice_write dst start (len dst) (\<lambda>w. Some (go_copy w tl));
             n \<leftarrow> isub (len dst) p;
             reslice dst n })"

section \<open>The large generator\<close>

lemma largeDigit_bigDigit:
  assumes "d < 58"
  shows "unat (largeDigit (bigDigit d)) = d"
proof -
  consider "d < 10" | "10 \<le> d" "d < 36" | "36 \<le> d" by linarith
  then show ?thesis
  proof cases
    case 1
    have c: "bigDigit d = of_nat (48 + d)" using 1 by (simp add: bigDigit_def)
    have "unat (of_nat (48 + d) :: u8) = 48 + d" using 1 by (intro unat_of_nat_small) simp
    then have "bigDigit d \<le> 57" unfolding c using 1 by (simp only: word_le_nat_alt) simp
    moreover have "bigDigit d - 48 = of_nat d" unfolding c by simp
    ultimately show ?thesis using 1 unat_of_nat_small [of d, where 'a = 8] by (simp add: largeDigit_def)
  next
    case 2
    have "(of_nat d :: u8) = of_nat (d - 10) + 10" using 2 by (simp add: of_nat_diff)
    then have c: "bigDigit d = of_nat (97 + (d - 10))" using 2 by (simp add: bigDigit_def)
    have u: "unat (of_nat (97 + (d - 10)) :: u8) = 97 + (d - 10)" using 2 by (intro unat_of_nat_small) simp
    have "\<not> bigDigit d \<le> 57" "97 \<le> bigDigit d" unfolding c using u by (simp_all only: word_le_nat_alt) simp_all
    moreover have "bigDigit d - 97 + 10 = of_nat d" unfolding c using 2 by (simp add: of_nat_diff)
    ultimately show ?thesis using 2 unat_of_nat_small [of d, where 'a = 8] by (simp add: largeDigit_def)
  next
    case 3
    have c: "bigDigit d = of_nat (65 + (d - 36))" using 3 by (simp add: bigDigit_def)
    have u: "unat (of_nat (65 + (d - 36)) :: u8) = 65 + (d - 36)" using assms by (intro unat_of_nat_small) simp
    have "\<not> bigDigit d \<le> 57" "\<not> 97 \<le> bigDigit d" unfolding c using u assms by (simp_all only: word_le_nat_alt) simp_all
    moreover have "bigDigit d - 65 + 36 = of_nat d" unfolding c using 3 by (simp add: of_nat_diff)
    ultimately show ?thesis using assms unat_of_nat_small [of d, where 'a = 8] by (simp add: largeDigit_def)
  qed
qed

lemma translate_all:
  assumes "\<forall>c \<in> set xs. g c = Some (f c)"
  shows "foldM (\<lambda>i xs. do { c \<leftarrow> idx xs i; ch \<leftarrow> g c; upd xs i ch }) [0..<length xs] xs = Some (map f xs)"
proof -
  have "foldM (\<lambda>i xs. do { c \<leftarrow> idx xs i; ch \<leftarrow> g c; upd xs i ch }) [0..<n] xs
      = Some (map f (take n xs) @ drop n xs)" if "n \<le> length xs" for n
    using that
  proof (induction n)
    case (Suc n)
    then have "drop n xs = xs ! n # drop (Suc n) xs" "take (Suc n) xs = take n xs @ [xs ! n]"
      by (simp_all add: Cons_nth_drop_Suc take_Suc_conv_app_nth)
    then show ?case using Suc assms by (simp add: nth_append list_update_append)
  qed simp
  from this [of "length xs"] show ?thesis by simp
qed

lemma encodeLargeTail_done:
  assumes "b \<noteq> []" "hd b \<noteq> 0" "variableSize (length b) \<le> length out"
  shows "tail_done b out (encodeLargeTail b out)"
proof -
  let ?v = "bytes_val b" and ?ds = "map bigDigit (to_digits 58 (bytes_val b))"
  have v: "0 < ?v" using assms(1,2) by (rule bytes_val_gt_0)
  have t: "bigText58 ?v = ?ds" using v by (simp add: bigText58_def)
  have lt: "d < 58" if "d \<in> set (to_digits 58 ?v)" for d using that to_digits_less [of 58] by simp
  let ?f = "\<lambda>c. base58Chars ! unat (largeDigit c)"
  have "foldM (\<lambda>i digits. do { c \<leftarrow> idx digits i; ch \<leftarrow> idx base58Chars (unat (largeDigit c)); upd digits i ch })
      [0..<length ?ds] ?ds = Some (map ?f ?ds)"
    using lt by (intro translate_all) (auto simp: largeDigit_bigDigit)
  moreover have "map ?f ?ds = b58_digits ?v"
    using lt by (simp add: b58_digits_def largeDigit_bigDigit base58Chars_nth)
  ultimately have run: "foldM (\<lambda>i digits. do { c \<leftarrow> idx digits i; ch \<leftarrow> idx base58Chars (unat (largeDigit c)); upd digits i ch })
      [0..<length ?ds] ?ds = Some (b58_digits ?v)" by simp
  have le: "length (b58_digits ?v) \<le> length out"
    using digits_bound [of b] variableSize_enough(2) [of "length b"] assms(3) by linarith
  show ?thesis
    using run le by (simp add: encodeLargeTail_def t tail_done_def Let_def on_slice_def go_copy_def)
qed

interpretation large: tail_encoder encodeLargeTail 32768 n for n
  by unfold_locales (rule encodeLargeTail_done)

section \<open>The dispatch\<close>

text \<open>Every branch of the dispatch is a generator whose contract covers the lengths sent to it.\<close>

lemma encodeTail_done:
  assumes "b \<noteq> []" "hd b \<noteq> 0" "variableSize (length b) \<le> length out"
  shows "tail_done b out (encodeTail b out)"
proof -
  have "1 \<le> length b" using assms(1) by (cases b) simp_all
  note D = small.delivers large.delivers [of b "length b"] small_matrix.delivers matrix.delivers block.delivers [of b "length b"]
  show ?thesis
    using \<open>1 \<le> length b\<close> assms by (simp add: encodeTail_def largeEncodeThreshold_def D)
qed

interpretation tail: tail_encoder encodeTail 1 n for n
  by unfold_locales (rule encodeTail_done)


section \<open>\<open>Encode\<close>\<close>

lemma fill_ones:
  "n \<le> length out \<Longrightarrow> foldM (\<lambda>i out. upd out i x) [0..<n] out = Some (replicate n x @ drop n out)"
proof (induction n)
  case (Suc n)
  then have "drop n out = out ! n # drop (Suc n) out" by (simp add: Cons_nth_drop_Suc)
  moreover have "replicate (Suc n) x = replicate n x @ [x]" by (simp add: replicate_append_same)
  ultimately show ?case using Suc by (simp add: list_update_append del: replicate_Suc)
qed simp

lemma prepend_ones:
  "n \<le> p \<Longrightarrow> p \<le> length out \<Longrightarrow>
   foldM (\<lambda>_ (p, out). do { p \<leftarrow> isub p 1; out \<leftarrow> upd out p x; Some (p, out) }) [0..<n] (p, out)
   = Some (p - n, take (p - n) out @ replicate n x @ drop p out)"
proof (induction n)
  case (Suc n)
  have t: "take (p - n) out = take (p - Suc n) out @ [out ! (p - Suc n)]"
    using Suc.prems take_Suc_conv_app_nth [of "p - Suc n" out] by (simp add: Suc_diff_Suc)
  have "isub (p - n) 1 = Some (p - Suc n)" using Suc.prems by simp
  moreover have "upd (take (p - n) out @ replicate n x @ drop p out) (p - Suc n) x
      = Some (take (p - Suc n) out @ replicate (Suc n) x @ drop p out)"
    using Suc.prems unfolding t by (simp add: list_update_append)
  ultimately show ?case using Suc by simp
qed simp

lemma stripped:
  assumes "leading 0 src \<noteq> length src"
  shows "drop (leading 0 src) src \<noteq> []" "hd (drop (leading 0 src) src) \<noteq> 0"
    "length (drop (leading 0 src) src) = length src - leading 0 src"
proof -
  show ne: "drop (leading 0 src) src \<noteq> []" using assms leading_le [of 0 src] by simp
  then show "hd (drop (leading 0 src) src) \<noteq> 0" unfolding drop_leading by (rule dropWhile_hd)
qed simp

lemma all_zero:
  assumes "leading 0 src = length src"
  shows "b58_encode src = replicate (length src) 49"
proof -
  have "drop (leading 0 src) src = []" using assms by simp
  then show ?thesis using assms by (subst b58_encode_split) simp
qed

text \<open>The sizes are the intended ones while \<open>int\<close> holds 138 times the input.\<close>

lemma size_fits:
  assumes "0 < nz" "z + 138 * nz < 2 ^ (w - 1)"
  shows "bound (wrap_int w (int z + encodeVariableSize w nz)) = Some (z + variableSize nz)"
proof -
  have "138 * nz < 2 ^ (w - 1)" "z + variableSize nz < 2 ^ (w - 1)"
    using assms variableSize_le [OF assms(1)] by simp_all
  moreover from this(2) have "int (z + variableSize nz) < 2 ^ (w - 1)"
    by (metis of_nat_less_iff of_nat_numeral of_nat_power)
  ultimately show ?thesis
    using encodeVariableSize_fits [OF assms(1)] wrap_int_fits [of "int (z + variableSize nz)" w] by (simp add: bound_def)
qed

lemma encodeVariable_eq:
  assumes "138 * length src < 2 ^ (w - 1)"
  shows "encodeVariable w src = Some (b58_encode src)"
proof (cases "leading 0 src = length src")
  case True
  then show ?thesis by (simp add: encodeVariable_def Let_def fill_ones all_zero)
next
  case False
  note S = stripped [OF this]
  let ?z = "leading 0 src" and ?b = "drop (leading 0 src) src"
  let ?L = "?z + variableSize (length src - ?z)" and ?d = "b58_digits (bytes_val ?b)"
  have nz: "length src - ?z \<noteq> 0" using False leading_le [of 0 src] by simp
  have size: "bound (wrap_int w (int ?z + encodeVariableSize w (length src - ?z))) = Some ?L"
    using nz assms leading_le [of 0 src] by (intro size_fits) simp_all
  have "variableSize (length ?b) \<le> length (replicate ?L (0 :: u8))" by simp
  from encodeTail_done [OF S(1,2) this] obtain out where T: "encodeTail ?b (replicate ?L 0) = Some (?L - length ?d, out)"
    "length out = ?L" "drop (?L - length ?d) out = ?d"
    by (auto simp: tail_done_def)
  have "length ?d \<le> variableSize (length src - ?z)"
    using digits_bound [of ?b] variableSize_enough(2) [of "length ?b"] by simp
  then have z: "?z \<le> ?L - length ?d" by simp
  let ?out = "take (?L - length ?d - ?z) out @ replicate ?z 49 @ ?d"
  have P: "foldM (\<lambda>_ (p, out). do { p \<leftarrow> isub p 1; out \<leftarrow> upd out p (byte CHR ''1''); Some (p, out) }) [0..<?z] (?L - length ?d, out)
      = Some (?L - length ?d - ?z, ?out)"
    using prepend_ones [OF z, of out "byte CHR ''1''"] T(2,3) by simp
  have "subslice ?out (?L - length ?d - ?z) (length ?out) = Some (replicate ?z 49 @ ?d)"
    using T(2) by simp
  moreover have "encodeVariable w src = do {
           (p, out) \<leftarrow> encodeTail ?b (replicate ?L 0);
           (p, out) \<leftarrow> foldM (\<lambda>_ (p, out).
               do { p \<leftarrow> isub p 1; out \<leftarrow> upd out p (byte CHR ''1''); Some (p, out) })
             [0..<?z] (p, out);
           subslice out p (length out) }"
    using nz by (simp only: encodeVariable_def Let_def if_False size Option.bind.simps)
  ultimately show ?thesis
    using T(1) P by (simp only: Option.bind.simps prod.case b58_encode_split [of src])
qed

theorem Encode_eq: "138 * length src < 2 ^ (w - 1) \<Longrightarrow> Encode w src = Some (b58_encode src)"
  by (cases "src = []") (simp_all add: Encode_def encodeVariable_eq Encode32_eq Encode64_eq)

text \<open>Where \<open>int\<close> has 32 bits, fifteen million bytes are too many: \<open>make\<close> is given a negative length.\<close>

lemma Encode_32_panics:
  assumes "15561476 \<le> length src" "length src \<le> 31122900" "hd src \<noteq> 0"
  shows "Encode 32 src = None"
proof -
  obtain c cs where src: "src = c # cs" "c \<noteq> 0" using assms(1,3) by (cases src) auto
  have z: "leading 0 src = 0" using src by simp
  let ?s = "encodeVariableSize 32 (length src)"
  have s: "?s < 0" using assms(1,2) by (rule encodeVariableSize_negative)
  have "- (2 ^ 31) \<le> wrap_int 32 k" for k
    using signed_take_bit_int_greater_eq_minus_exp [of 31 k] by (simp add: wrap_int_def)
  then have "- (2 ^ 31) \<le> ?s" unfolding encodeVariableSize_def Let_def .
  then have "wrap_int 32 ?s = ?s" using s by (simp add: wrap_int_def signed_take_bit_int_eq_self_iff)
  then have "bound (wrap_int 32 (int 0 + ?s)) = None" using s by (simp add: bound_def)
  moreover have "length src \<noteq> 0" "length src \<noteq> 32" "length src \<noteq> 64" using assms(1) by linarith+
  ultimately show ?thesis by (simp add: Encode_def encodeVariable_def z del: length_0_conv)
qed

section \<open>\<open>AppendEncode\<close>\<close>

lemma append_window:
  assumes wf: "wf_slice dst" and b: "b \<noteq> []" "hd b \<noteq> 0" and sz: "sz = variableSize (length b)"
  shows "\<exists>s. do { d \<leftarrow> grow_to dst (len dst + sz) (len dst + sz);
             w \<leftarrow> subslice (buf d) (len dst) (len d);
             (p, w) \<leftarrow> encodeTail b w;
             d \<leftarrow> slice_write d (len dst) (len d) (\<lambda>_. Some w);
             tl \<leftarrow> subslice (buf d) (len dst + p) (len d);
             d \<leftarrow> slice_write d (len dst) (len d) (\<lambda>w. Some (go_copy w tl));
             n \<leftarrow> isub (len d) p;
             reslice d n } = Some s \<and> window_appended dst sz (b58_digits (bytes_val b)) s"
proof -
  let ?d = "b58_digits (bytes_val b)" and ?s = "len dst"
  have ld: "length (contents dst) = ?s" using wf by simp
  obtain g where G: "grow_to dst (?s + sz) (?s + sz) = Some g" "len g = ?s + sz" "?s + sz \<le> length (buf g)"
    "take ?s (buf g) = contents dst"
    "if ?s + sz \<le> cap dst then fresh g = fresh dst \<and> buf g = buf dst else fresh g"
    using grown [OF wf, of "?s + sz"] by auto
  let ?w = "take sz (drop ?s (buf g))"
  have lw: "length ?w = sz" using G(3) by simp
  have "variableSize (length b) \<le> length ?w" unfolding lw by (simp add: sz)
  from encodeTail_done [OF b this] obtain w where T: "encodeTail b ?w = Some (sz - length ?d, w)" "length w = sz" "length ?d \<le> sz"
    "drop (sz - length ?d) w = ?d"
    unfolding tail_done_def lw by blast
  let ?p = "sz - length ?d"
  let ?B = "contents dst @ w @ drop (?s + sz) (buf g)"
  have 1: "subslice (buf g) ?s (len g) = Some ?w" using G by simp
  have 2: "slice_write g ?s (len g) (\<lambda>_. Some w) = Some (g\<lparr>buf := ?B\<rparr>)"
    using G by (simp add: slice_write_def on_slice_def)
  have 3: "subslice ?B (?s + ?p) (?s + sz) = Some ?d"
    using T ld G(3) by simp
  let ?C = "contents dst @ (?d @ drop (length ?d) w) @ drop (?s + sz) (buf g)"
  have 4: "slice_write (g\<lparr>buf := ?B\<rparr>) ?s (?s + sz) (\<lambda>w. Some (go_copy w ?d)) = Some (g\<lparr>buf := ?C\<rparr>)"
    using G T ld by (simp add: slice_write_def on_slice_def go_copy_def)
  have 5: "isub (?s + sz) ?p = Some (?s + length ?d)" using T(3) by simp
  have lC: "length ?C = length (buf g)" using G(3) T(2,3) ld by simp
  have 6: "reslice (g\<lparr>buf := ?C\<rparr>) (?s + length ?d) = Some (g\<lparr>buf := ?C, len := ?s + length ?d\<rparr>)"
    using G(3) T(3) lC by (simp add: reslice_def cap_def)
  have "window_appended dst sz ?d (g\<lparr>buf := ?C, len := ?s + length ?d\<rparr>)"
    using G(3,5) T(2,3) ld lC by (auto simp: window_appended_def wf_slice_def cap_def contents_def)
  then show ?thesis using G(1,2) 1 2 3 4 5 6 T(1) by simp
qed

definition encode_room :: "bytes \<Rightarrow> nat" where
  "encode_room src =
     (if length src \<in> {32, 64} \<or> leading 0 src = length src then length (b58_encode src)
      else leading 0 src + variableSize (length src - leading 0 src))"

theorem AppendEncode_eq:
  assumes "wf_slice dst" "len dst + 138 * length src < 2 ^ (w - 1)"
  shows "\<exists>s. AppendEncode w grow dst src = Some s \<and> window_appended dst (encode_room src) (b58_encode src) s"
proof -
  consider "src = []" | "length src = 32" | "length src = 64" | "src \<noteq> []" "length src \<noteq> 32" "length src \<noteq> 64" by blast
  then show ?thesis
  proof cases
    case 1
    then show ?thesis
      using window_appended_exact [OF appended_Nil [OF assms(1)]] by (simp add: AppendEncode_def encode_room_def)
  next
    case 2
    then show ?thesis
      using AppendEncode32_eq [OF 2 assms(1)] window_appended_exact by (auto simp: AppendEncode_def encode_room_def)
  next
    case 3
    then show ?thesis
      using AppendEncode64_eq [OF 3 assms(1)] window_appended_exact by (auto simp: AppendEncode_def encode_room_def)
  next
    case 4
    let ?z = "leading 0 src"
    let ?d1 = "fold (\<lambda>_ dst. go_append grow dst [byte CHR ''1'']) [0..<?z] dst"
    have A: "appended dst (replicate ?z 49) ?d1" using append_ones [OF assms(1), of ?z "byte CHR ''1''"] by simp
    show ?thesis
    proof (cases "?z = length src")
      case True
      then show ?thesis
        using 4 window_appended_exact [OF A] by (simp add: AppendEncode_def encode_room_def Let_def all_zero)
    next
      case False
      note S = stripped [OF False]
      have wf: "wf_slice ?d1" using A by (simp add: appended_def)
      have nz: "length src - ?z \<noteq> 0" "length src \<noteq> 0" using 4 False leading_le [of 0 src] by simp_all
      have "len ?d1 = len dst + ?z" using A assms(1) by (simp add: appended_def)
      then have size: "bound (wrap_int w (int (len ?d1) + encodeVariableSize w (length src - ?z))) =
          Some (len ?d1 + variableSize (length src - ?z))"
        using nz(1) assms(2) leading_le [of 0 src] by (intro size_fits) simp_all
      have "\<exists>s. AppendEncode w grow dst src = Some s \<and>
          window_appended ?d1 (variableSize (length src - ?z)) (b58_digits (bytes_val (drop ?z src))) s"
        using append_window [OF wf S(1,2) refl]
        unfolding S(3) AppendEncode_def Let_def if_not_P [OF 4(2)] if_not_P [OF 4(3)] if_not_P [OF nz(1)] if_not_P [OF nz(2)] size Option.bind.simps .
      then obtain s where W: "AppendEncode w grow dst src = Some s"
        "window_appended ?d1 (variableSize (length src - ?z)) (b58_digits (bytes_val (drop ?z src))) s" by blast
      have "length (b58_digits (bytes_val (drop ?z src))) \<le> variableSize (length src - ?z)"
        using digits_bound [of "drop ?z src"] variableSize_enough(2) [of "length (drop ?z src)"] by simp
      from window_appended_trans [OF A W(2) this] show ?thesis
        using W(1) 4 False by (simp add: encode_room_def b58_encode_split [symmetric])
    qed
  qed
qed

end
