(* ===== verification/Large_Decode.thy ===== *)
theory Large_Decode
  imports Decode_Fixed
begin

unbundle bit_operations_syntax

text \<open>
  Decoding of large inputs (\<open>large.go\<close>): the string is split in two until a part has at most 1024
  characters, the leaves are read ten characters at a time, and the halves are combined with powers
  of 58 that are kept in a memo table.  A \<open>big.Int\<close> that is never negative is a natural number; the
  table is the map \<open>powers\<close>, returned updated.
\<close>

section \<open>Go strings as sequences of runes\<close>

text \<open>
  \<open>for i := range src\<close> over a string visits the first byte of every UTF-8 sequence, and every byte
  that is not part of a valid sequence.  The width of the sequence at the head of the string:
\<close>

definition between :: "u8 \<Rightarrow> u8 \<Rightarrow> bytes \<Rightarrow> nat \<Rightarrow> bool" where
  "between lo hi s i \<longleftrightarrow> i < length s \<and> lo \<le> s ! i \<and> s ! i \<le> hi"

definition rune_width :: "bytes \<Rightarrow> nat" where
  "rune_width s =
     (let c = s ! 0; rest = between 0x80 0xBF s
      in if 0xC2 \<le> c \<and> c \<le> 0xDF \<and> rest 1 then 2
         else if (c = 0xE0 \<and> between 0xA0 0xBF s 1 \<or> c = 0xED \<and> between 0x80 0x9F s 1 \<or>
                  0xE1 \<le> c \<and> c \<le> 0xEF \<and> c \<noteq> 0xED \<and> rest 1) \<and> rest 2 then 3
         else if (c = 0xF0 \<and> between 0x90 0xBF s 1 \<or> c = 0xF4 \<and> between 0x80 0x8F s 1 \<or>
                  0xF1 \<le> c \<and> c \<le> 0xF3 \<and> rest 1) \<and> rest 2 \<and> rest 3 then 4
         else 1)"

lemma rune_width_pos: "0 < rune_width s"
  by (simp add: rune_width_def Let_def)

function rune_starts :: "nat \<Rightarrow> bytes \<Rightarrow> nat list" where
  "rune_starts i s =
     (if s = [] then [] else i # rune_starts (i + rune_width s) (drop (rune_width s) s))"
  by pat_completeness auto

termination
  by (relation "measure (\<lambda>(i, s). length s)") (auto simp: rune_width_pos)

declare rune_starts.simps [simp del]

section \<open>The code\<close>

definition largeDecodeThreshold :: nat where
  "largeDecodeThreshold = 8 * 2 ^ 10"

definition largeDecodeLeafChars :: nat where
  "largeDecodeLeafChars = 1024"

definition pow58u64 :: "u64 list" where
  "pow58u64 =
   [1, 58, 3364, 195112, 11316496, 656356768,
    38068692544, 2207984167552, 128063081718016,
    7427658739644928, 430804206899405824]"

definition largePow58 :: "nat list" where
  "largePow58 = map unat pow58u64"

definition decodeLargeGroup :: "bytes \<Rightarrow> (u64 \<times> bool) option" where
  "decodeLargeGroup src =
     do { (value, bad) \<leftarrow> foldM (\<lambda>i (value, bad).
              do { c \<leftarrow> idx src i;
                   let digit = base58InverseFull c;
                   Some (value * 58 + ucast digit, bad OR digit) })
            (rune_starts 0 src) (0, 0);
          Some (value, bad < 64) }"

text \<open>The loop of \<open>decodeLargeLeaf\<close>; the result is \<open>None\<close> for the pair \<open>nil, false\<close>.\<close>

function leafLoop :: "bytes \<Rightarrow> nat \<Rightarrow> nat \<Rightarrow> nat \<Rightarrow> nat option option" where
  "leafLoop src i groupLen value =
     (if i < length src
      then do { s \<leftarrow> subslice src i (i + groupLen);
                (group, ok) \<leftarrow> decodeLargeGroup s;
                if \<not> ok then Some None
                else do { pw \<leftarrow> idx largePow58 groupLen;
                          leafLoop src (i + groupLen) 10 (value * pw + unat group) } }
      else Some (Some value))"
  by pat_completeness auto

termination
  by (relation "measure (\<lambda>(src, i, groupLen, value). 2 * (length src - i) + (if groupLen = 0 then 1 else 0))") auto

declare leafLoop.simps [simp del]

definition decodeLargeLeaf :: "bytes \<Rightarrow> nat option option" where
  "decodeLargeLeaf src =
     (let groupLen = (if length src mod 10 = 0 then 10 else length src mod 10)
      in leafLoop src 0 groupLen 0)"

function largePower58 :: "nat \<Rightarrow> (nat \<rightharpoonup> nat) \<Rightarrow> (nat \<times> (nat \<rightharpoonup> nat)) option" where
  "largePower58 exponent powers =
     (if exponent \<le> 10 then do { p \<leftarrow> idx largePow58 exponent; Some (p, powers) }
      else case powers exponent of
        Some pw \<Rightarrow> Some (pw, powers)
      | None \<Rightarrow>
          do { let leftExponent = exponent div 2;
               (a, powers) \<leftarrow> largePower58 leftExponent powers;
               (b, powers) \<leftarrow> largePower58 (exponent - leftExponent) powers;
               Some (a * b, powers(exponent \<mapsto> a * b)) })"
  by pat_completeness auto

termination
  by (relation "measure fst") auto

declare largePower58.simps [simp del]

text \<open>\<open>split := len(src) / 2\<close>, rounded down to a multiple of ten.\<close>

definition treeSplit :: "nat \<Rightarrow> nat" where
  "treeSplit n = n div 2 - n div 2 mod 10"

lemma treeSplit_bounds:
  assumes "largeDecodeLeafChars < n"
  shows "0 < treeSplit n" "treeSplit n < n" "n - treeSplit n < n"
proof -
  have "512 \<le> n div 2" "n div 2 < n" "n div 2 mod 10 < 10" using assms by (simp_all add: largeDecodeLeafChars_def)
  then show "0 < treeSplit n" "treeSplit n < n" "n - treeSplit n < n" unfolding treeSplit_def by linarith+
qed

function decodeLargeTree :: "bytes \<Rightarrow> (nat \<rightharpoonup> nat) \<Rightarrow> (nat option \<times> (nat \<rightharpoonup> nat)) option" where
  "decodeLargeTree src powers =
     (if length src \<le> largeDecodeLeafChars
      then do { r \<leftarrow> decodeLargeLeaf src; Some (r, powers) }
      else do {
        let split = treeSplit (length src);
        (l, powers) \<leftarrow> decodeLargeTree (take split src) powers;
        case l of None \<Rightarrow> Some (None, powers)
        | Some left \<Rightarrow> do {
            (r, powers) \<leftarrow> decodeLargeTree (drop split src) powers;
            case r of None \<Rightarrow> Some (None, powers)
            | Some right \<Rightarrow> do {
                let rightLen = length src - split;
                (pw, powers) \<leftarrow> largePower58 rightLen powers;
                Some (Some (left * pw + right), powers) } } })"
  by pat_completeness auto

termination
  by (relation "measure (\<lambda>(src, powers). length src)") (simp_all add: not_le treeSplit_bounds)

declare decodeLargeTree.simps [simp del]

text \<open>\<open>big.Int.BitLen\<close> and \<open>big.Int.FillBytes\<close>, which panics when the value does not fit.\<close>

definition bitLen :: "nat \<Rightarrow> nat" where
  "bitLen v = length (to_digits 2 v)"

definition fillBytes :: "nat \<Rightarrow> bytes \<Rightarrow> bytes option" where
  "fillBytes v w = (if v < 256 ^ length w then Some (be_bytes (length w) v) else None)"

definition appendDecodeLarge :: "gslice \<Rightarrow> bytes \<Rightarrow> nat \<Rightarrow> (decode_error + gslice) option" where
  "appendDecodeLarge dst encoded zeros =
     do { bad \<leftarrow> foldM (\<lambda>i bad. do { c \<leftarrow> idx encoded i; Some (bad OR base58InverseFull c) })
            [zeros..<length encoded] 0;
          if bad \<ge> 64 then Some (Inl ErrInvalidChar)
          else do {
            s \<leftarrow> subslice encoded zeros (length encoded);
            (v, powers) \<leftarrow> decodeLargeTree s Map.empty;
            case v of None \<Rightarrow> Some (Inl ErrInvalidChar)
            | Some value \<Rightarrow> do {
                let start = len dst;
                let payloadBytes = (bitLen value + 7) div 8;
                let sz = start + zeros + payloadBytes;
                dst \<leftarrow> (if cap dst < sz then Some (make_copy sz sz dst)
                       else do { dst \<leftarrow> reslice dst sz;
                                 slice_write dst start (start + zeros) (\<lambda>w. Some (replicate (length w) 0)) });
                dst \<leftarrow> slice_write dst (start + zeros) sz (fillBytes value);
                Some (Inr dst) } } }"


section \<open>Groups and leaves\<close>

lemma valid_ascii: "b58_valid c \<Longrightarrow> c < 0x80"
  by (auto simp: b58_valid_def alphabet_eq)

lemma rune_starts_Nil [simp]: "rune_starts i [] = []"
  by (simp add: rune_starts.simps)

lemma rune_starts_ascii: "c < 0x80 \<Longrightarrow> rune_starts i (c # s) = i # rune_starts (Suc i) s"
  by (subst rune_starts.simps) (auto simp: rune_width_def Let_def word_le_nat_alt word_less_nat_alt)

lemma rune_starts_range: "j \<in> set (rune_starts i s) \<Longrightarrow> i \<le> j \<and> j < i + length s"
proof (induction i s rule: rune_starts.induct)
  case (1 i s)
  show ?case
  proof (cases "s = []")
    case False
    have "j = i \<or> j \<in> set (rune_starts (i + rune_width s) (drop (rune_width s) s))"
      using "1.prems" False by (subst (asm) rune_starts.simps) simp
    then show ?thesis
    proof
      assume "j \<in> set (rune_starts (i + rune_width s) (drop (rune_width s) s))"
      moreover from this have "drop (rune_width s) s \<noteq> []" by auto
      ultimately show ?thesis using "1.IH" [OF False] by auto
    qed (use False in simp)
  qed (use "1.prems" in simp)
qed

abbreviation digit_step :: "bytes \<Rightarrow> nat \<Rightarrow> u64 \<times> u8 \<Rightarrow> (u64 \<times> u8) option" where
  "digit_step src \<equiv> \<lambda>i (value, bad). do { c \<leftarrow> idx src i; let digit = base58InverseFull c;
                   Some (value * 58 + ucast digit, bad OR digit) }"

lemma digits_seen:
  assumes "\<forall>j \<in> set js. j < length src"
  shows "\<exists>v b. foldM (digit_step src) js (v0, b0) = Some (v, b) \<and> (64 \<le> b0 \<longrightarrow> 64 \<le> b)"
  using assms
proof (induction js arbitrary: v0 b0)
  case (Cons j js)
  then have "\<forall>j \<in> set js. j < length src" by simp
  from Cons.IH [OF this, of "v0 * 58 + ucast (base58InverseFull (src ! j))" "b0 OR base58InverseFull (src ! j)"]
  obtain v b where "foldM (digit_step src) js (v0 * 58 + ucast (base58InverseFull (src ! j)), b0 OR base58InverseFull (src ! j)) = Some (v, b)"
    "64 \<le> b0 OR base58InverseFull (src ! j) \<longrightarrow> 64 \<le> b" by blast
  then show ?case using Cons.prems by (simp add: or_ge_64 Let_def)
qed simp

text \<open>
  The loop over runes sees every byte of a valid string, and the first byte outside the alphabet of
  any other: nothing is skipped before it.
\<close>

lemma group_loop:
  "\<exists>v b. foldM (digit_step (pre @ s)) (rune_starts (length pre) s) (v0, b0) = Some (v, b) \<and>
     (64 \<le> b \<longleftrightarrow> 64 \<le> b0 \<or> \<not> list_all b58_valid s) \<and>
     (list_all b58_valid s \<longrightarrow> v = v0 * 58 ^ length s + of_nat (str_val s))"
proof (induction s arbitrary: pre v0 b0)
  case (Cons c s)
  show ?case
  proof (cases "b58_valid c")
    case True
    have r: "rune_starts (length pre) (c # s) = length pre # rune_starts (length (pre @ [c])) s"
      using rune_starts_ascii [OF valid_ascii [OF True]] by simp
    let ?v = "v0 * 58 + ucast (base58InverseFull c)" and ?b = "b0 OR base58InverseFull c"
    obtain v b where IH: "foldM (digit_step ((pre @ [c]) @ s)) (rune_starts (length (pre @ [c])) s) (?v, ?b) = Some (v, b)"
      "64 \<le> b \<longleftrightarrow> 64 \<le> ?b \<or> \<not> list_all b58_valid s"
      "list_all b58_valid s \<longrightarrow> v = ?v * 58 ^ length s + of_nat (str_val s)" using Cons by blast
    note digit_word [OF True, where 'a = 64]
    then have "?v * 58 ^ length s + of_nat (str_val s) = v0 * 58 ^ length (c # s) + of_nat (str_val (c # s))"
      by (simp add: str_val_Cons algebra_simps)
    moreover have "64 \<le> ?b \<longleftrightarrow> 64 \<le> b0" using True by (simp add: or_ge_64 invalid_digit)
    ultimately show ?thesis using IH True unfolding r by (intro exI [of _ v] exI [of _ b]) (simp add: nth_append Let_def)
  next
    case False
    have "\<forall>j \<in> set (rune_starts (length pre + rune_width (c # s)) (drop (rune_width (c # s)) (c # s))). j < length (pre @ c # s)"
    proof
      fix j assume j: "j \<in> set (rune_starts (length pre + rune_width (c # s)) (drop (rune_width (c # s)) (c # s)))"
      then have "j \<in> set (rune_starts (length pre) (c # s))" by (subst rune_starts.simps) simp
      from rune_starts_range [OF this] show "j < length (pre @ c # s)" by simp
    qed
    from digits_seen [OF this, of "v0 * 58 + ucast (base58InverseFull c)" "b0 OR base58InverseFull c"]
    show ?thesis using False by (subst rune_starts.simps) (auto simp: nth_append or_ge_64 invalid_digit Let_def)
  qed
qed (simp add: exI)

lemma decodeLargeGroup_eq:
  "\<exists>v. decodeLargeGroup s = Some (v, list_all b58_valid s) \<and>
    (list_all b58_valid s \<and> length s \<le> 10 \<longrightarrow> unat v = str_val s)"
proof -
  obtain v b where G: "foldM (digit_step s) (rune_starts 0 s) (0, 0) = Some (v, b)"
    "64 \<le> b \<longleftrightarrow> \<not> list_all b58_valid s" "list_all b58_valid s \<longrightarrow> v = of_nat (str_val s)"
    using group_loop [of "[]" s 0 0] by auto
  have "b < 64 \<longleftrightarrow> list_all b58_valid s" using G(2) by (metis not_le)
  moreover have "unat v = str_val s" if "list_all b58_valid s" "length s \<le> 10"
  proof -
    have "(58 :: nat) ^ length s \<le> 58 ^ 10" using that(2) by (intro power_increasing) simp_all
    then have "str_val s < 2 ^ LENGTH(64)" using str_val_less [OF that(1)] by simp
    then show ?thesis using G(3) that(1) by (simp add: unat_of_nat_small)
  qed
  ultimately show ?thesis using G(1) by (simp add: decodeLargeGroup_def)
qed


lemma largePow58_eq: "largePow58 = map (\<lambda>k. 58 ^ k) [0..<11]"
  by (simp add: largePow58_def pow58u64_def upt_rec)

lemma length_largePow58 [simp]: "length largePow58 = 11"
  by (simp add: largePow58_eq)

lemma largePow58_nth: "k \<le> 10 \<Longrightarrow> largePow58 ! k = 58 ^ k"
  by (simp add: largePow58_eq del: upt_Suc)

lemma leafLoop_step:
  assumes "i + g \<le> length s" "0 < g" "g \<le> 10"
  shows "leafLoop s i g (str_val (take i s)) =
    (if list_all b58_valid (take g (drop i s)) then leafLoop s (i + g) 10 (str_val (take (i + g) s)) else Some None)"
proof -
  let ?c = "take g (drop i s)"
  obtain v where G: "decodeLargeGroup ?c = Some (v, list_all b58_valid ?c)"
    "list_all b58_valid ?c \<and> length ?c \<le> 10 \<longrightarrow> unat v = str_val ?c" using decodeLargeGroup_eq by blast
  have "str_val (take i s) * 58 ^ g + str_val ?c = str_val (take (i + g) s)"
    using assms(1) by (simp only: take_add str_val_append length_take length_drop) simp
  then show ?thesis
    using G assms by (subst leafLoop.simps) (simp add: largePow58_nth)
qed

lemma leafLoop_eq:
  assumes "length s = i + g + 10 * k" "0 < g" "g \<le> 10" "list_all b58_valid (take i s)"
  shows "leafLoop s i g (str_val (take i s)) = Some (if list_all b58_valid s then Some (str_val s) else None)"
  using assms
proof (induction k arbitrary: i g)
  case 0
  have s: "take i s @ take g (drop i s) = s" using "0.prems"(1) by simp
  then have "list_all b58_valid (take g (drop i s)) \<longleftrightarrow> list_all b58_valid s"
    using "0.prems"(4) by (metis list_all_append)
  then show ?case using leafLoop_step [of i g s] 0 by (simp add: leafLoop.simps [of s "i + g"])
next
  case (Suc k)
  have s: "take (i + g) s = take i s @ take g (drop i s)" by (simp add: take_add)
  show ?case
  proof (cases "list_all b58_valid (take g (drop i s))")
    case True
    then have "list_all b58_valid (take (i + g) s)" using Suc.prems(4) unfolding s by simp
    moreover have "length s = i + g + 10 + 10 * k" using Suc.prems(1) by simp
    ultimately show ?thesis using Suc.IH [of "i + g" 10] leafLoop_step [of i g s] Suc.prems True by simp
  next
    case False
    then have "\<not> list_all b58_valid s" by (metis append_take_drop_id list_all_append)
    then show ?thesis using leafLoop_step [of i g s] Suc.prems False by simp
  qed
qed

lemma decodeLargeLeaf_eq:
  assumes "s \<noteq> []"
  shows "decodeLargeLeaf s = Some (if list_all b58_valid s then Some (str_val s) else None)"
proof -
  let ?g = "if length s mod 10 = 0 then 10 else length s mod 10"
  have "length s = 0 + ?g + 10 * ((length s - 1) div 10)" using assms by (intro head_group) simp_all
  moreover have "0 < ?g" "?g \<le> 10" by (simp_all add: less_imp_le)
  ultimately show ?thesis using leafLoop_eq [of s 0 ?g] by (simp only: decodeLargeLeaf_def Let_def) simp
qed

section \<open>Powers and the tree\<close>

text \<open>The invariant of the memo table.\<close>

definition powers_ok :: "(nat \<rightharpoonup> nat) \<Rightarrow> bool" where
  "powers_ok powers \<longleftrightarrow> (\<forall>k v. powers k = Some v \<longrightarrow> v = 58 ^ k)"

lemma powers_ok_empty: "powers_ok Map.empty"
  by (simp add: powers_ok_def)

lemma powers_ok_upd: "powers_ok powers \<Longrightarrow> powers_ok (powers(k \<mapsto> 58 ^ k))"
  by (simp add: powers_ok_def)

lemma largePower58_eq:
  assumes "powers_ok powers"
  shows "\<exists>powers'. largePower58 n powers = Some (58 ^ n, powers') \<and> powers_ok powers'"
  using assms
proof (induction n arbitrary: powers rule: less_induct)
  case (less n)
  show ?case
  proof (cases "n \<le> 10")
    case True
    then show ?thesis using less.prems by (subst largePower58.simps) (simp add: largePow58_nth)
  next
    case big: False
    show ?thesis
    proof (cases "powers n")
      case (Some v)
      then show ?thesis using big less.prems by (subst largePower58.simps) (simp add: powers_ok_def)
    next
      case None
      have lt: "n div 2 < n" "n - n div 2 < n" using big by simp_all
      obtain p1 where A: "largePower58 (n div 2) powers = Some (58 ^ (n div 2), p1)" "powers_ok p1"
        using less.IH [OF lt(1) less.prems] by blast
      obtain p2 where B: "largePower58 (n - n div 2) p1 = Some (58 ^ (n - n div 2), p2)" "powers_ok p2"
        using less.IH [OF lt(2) A(2)] by blast
      have "(58 :: nat) ^ (n div 2) * 58 ^ (n - n div 2) = 58 ^ n" by (simp flip: power_add)
      then have "largePower58 n powers = Some (58 ^ n, p2(n \<mapsto> 58 ^ n))"
        using big None A(1) B(1) by (subst largePower58.simps) (simp add: Let_def)
      then show ?thesis using powers_ok_upd [OF B(2)] by blast
    qed
  qed
qed

lemma decodeLargeTree_eq:
  assumes "s \<noteq> []" "powers_ok powers"
  shows "\<exists>powers'. decodeLargeTree s powers = Some (if list_all b58_valid s then Some (str_val s) else None, powers') \<and>
    powers_ok powers'"
  using assms
proof (induction s arbitrary: powers rule: length_induct)
  case (1 s)
  show ?case
  proof (cases "length s \<le> largeDecodeLeafChars")
    case True
    then show ?thesis using "1.prems" by (subst decodeLargeTree.simps) (simp add: decodeLargeLeaf_eq)
  next
    case False
    let ?k = "treeSplit (length s)"
    have k: "0 < ?k" "?k < length s" using False treeSplit_bounds by (simp_all add: not_le)
    let ?l = "take ?k s" and ?r = "drop ?k s"
    have ne: "?l \<noteq> []" "?r \<noteq> []" "length ?l < length s" "length ?r < length s" using k by auto
    have va: "list_all b58_valid s \<longleftrightarrow> list_all b58_valid ?l \<and> list_all b58_valid ?r"
      by (metis append_take_drop_id list_all_append)
    obtain p1 where L: "decodeLargeTree ?l powers = Some (if list_all b58_valid ?l then Some (str_val ?l) else None, p1)"
      "powers_ok p1" using "1.IH" ne "1.prems"(2) by blast
    obtain p2 where R: "decodeLargeTree ?r p1 = Some (if list_all b58_valid ?r then Some (str_val ?r) else None, p2)"
      "powers_ok p2" using "1.IH" ne L(2) by blast
    obtain p3 where P: "largePower58 (length s - ?k) p2 = Some (58 ^ (length s - ?k), p3)" "powers_ok p3"
      using largePower58_eq [OF R(2)] by blast
    have "str_val ?l * 58 ^ (length s - ?k) + str_val ?r = str_val s"
      using str_val_append [of ?l ?r] by simp
    then show ?thesis
      using False L R P va by (subst decodeLargeTree.simps) (simp add: Let_def)
  qed
qed

section \<open>Appending the value\<close>

lemma bitLen_bytes: "(bitLen v + 7) div 8 = length (byte_digits v)"
proof (cases "v = 0")
  case False
  let ?b = "bitLen v" and ?n = "length (to_digits 256 v)"
  have b: "v < 2 ^ ?b"
    using bval_less [of "to_digits 2 v" 2] to_digits_less [of 2 _ v] by (simp add: bitLen_def)
  have n: "v < 256 ^ ?n"
    using bval_less [of "to_digits 256 v" 256] to_digits_less [of 256 _ v] by simp
  have p: "(256 :: nat) ^ k = 2 ^ (8 * k)" for k by (simp add: power_mult)
  have "?b \<le> 8 * ?n" using n unfolding bitLen_def p by (intro to_digits_length_le) simp_all
  moreover have "?n \<le> (?b + 7) div 8"
  proof (rule to_digits_length_le)
    have "?b \<le> 8 * ((?b + 7) div 8)" by presburger
    then have "(2 :: nat) ^ ?b \<le> 2 ^ (8 * ((?b + 7) div 8))" by (intro power_increasing) simp_all
    with b show "v < 256 ^ ((?b + 7) div 8)" unfolding p by (rule less_le_trans)
  qed simp
  ultimately show ?thesis by (simp add: byte_digits_def)
qed (simp add: bitLen_def)

lemma be_bytes_byte_digits: "be_bytes (length (byte_digits v)) v = byte_digits v"
  using be_bytes_bytes_val [of "byte_digits v"] by simp

lemma byte_digits_bound: "v < 256 ^ length (byte_digits v)"
  using bytes_val_less [of "byte_digits v"] by simp


text \<open>The contract of the append-style decoders.\<close>

definition decodes_to :: "gslice \<Rightarrow> bytes \<Rightarrow> (decode_error + gslice) option \<Rightarrow> bool" where
  "decodes_to dst encoded r \<longleftrightarrow>
     (case b58_decode encoded of
        None \<Rightarrow> r = Some (Inl ErrInvalidChar)
      | Some out \<Rightarrow> \<exists>s. r = Some (Inr s) \<and> appended dst out s)"

locale append_decoder =
  fixes dec :: "gslice \<Rightarrow> bytes \<Rightarrow> nat \<Rightarrow> (decode_error + gslice) option"
    and minChars maxChars :: nat
  assumes decodes: "wf_slice dst \<Longrightarrow> zeros = leading 49 encoded \<Longrightarrow> zeros < length encoded \<Longrightarrow>
    minChars \<le> length encoded - zeros \<Longrightarrow> length encoded - zeros \<le> maxChars \<Longrightarrow>
    decodes_to dst encoded (dec dst encoded zeros)"

lemma list_all_leading: "list_all b58_valid encoded \<longleftrightarrow> list_all b58_valid (drop (leading 49 encoded) encoded)"
  by (metis append_take_drop_id b58_valid_1 list_all_append list_all_length nth_replicate take_leading length_replicate)

text \<open>Every append-style decoder ends by writing the zero bytes and the bytes of the value.\<close>

lemma b58_decode_split:
  "b58_decode encoded = (if list_all b58_valid (drop (leading 49 encoded) encoded)
     then Some (replicate (leading 49 encoded) 0 @ byte_digits (str_val (drop (leading 49 encoded) encoded))) else None)"
  unfolding b58_decode_def list_all_leading [of encoded]
  by (simp add: drop_leading str_val_drop_leading)

lemma or_fold:
  assumes "\<forall>j \<in> set js. j < length s"
  shows "\<exists>b. foldM (\<lambda>i bad. do { c \<leftarrow> idx s i; Some (bad OR base58InverseFull c) }) js b0 = Some b \<and>
    (64 \<le> b \<longleftrightarrow> 64 \<le> b0 \<or> (\<exists>j \<in> set js. \<not> b58_valid (s ! j)))"
  using assms
proof (induction js arbitrary: b0)
  case (Cons j js)
  then have "\<forall>j \<in> set js. j < length s" by simp
  from Cons.IH [OF this, of "b0 OR base58InverseFull (s ! j)"] show ?case
    using Cons.prems by (auto simp: or_ge_64 invalid_digit)
qed simp

text \<open>A slice grown by \<open>z\<close> zero bytes and \<open>n\<close> bytes still to be written.\<close>

definition window_ready :: "gslice \<Rightarrow> nat \<Rightarrow> nat \<Rightarrow> gslice \<Rightarrow> bool" where
  "window_ready dst z n g \<longleftrightarrow>
     len g = len dst + z + n \<and> len g \<le> length (buf g) \<and> take (len dst + z) (buf g) = contents dst @ replicate z 0 \<and>
     (if len g \<le> cap dst then fresh g = fresh dst \<and> drop (len g) (buf g) = drop (len g) (buf dst) else fresh g)"

lemma zero_window:
  fixes z n :: nat
  assumes "wf_slice dst"
  shows "\<exists>g. (if cap dst < len dst + z + n then Some (make_copy (len dst + z + n) (len dst + z + n) dst)
        else do { d \<leftarrow> reslice dst (len dst + z + n);
                  slice_write d (len dst) (len dst + z) (\<lambda>w. Some (replicate (length w) 0)) }) = Some g \<and>
    window_ready dst z n g"
proof -
  have ld: "length (contents dst) = len dst" using assms by simp
  show ?thesis
  proof (cases "cap dst < len dst + z + n")
    case True
    then show ?thesis using ld by (simp add: window_ready_def make_copy_def go_copy_def)
  next
    case False
    let ?g = "dst\<lparr>len := len dst + z + n, buf := contents dst @ replicate z 0 @ drop (len dst + z) (buf dst)\<rparr>"
    have le: "len dst + z + n \<le> length (buf dst)" using False by (simp add: cap_def)
    have "window_ready dst z n ?g" using ld le by (simp add: window_ready_def cap_def add.commute)
    moreover have "do { d \<leftarrow> reslice dst (len dst + z + n);
        slice_write d (len dst) (len dst + z) (\<lambda>w. Some (replicate (length w) 0)) } = Some ?g"
      using le by (simp add: reslice_def slice_write_def on_slice_def cap_def contents_def)
    ultimately show ?thesis using False by simp
  qed
qed

lemma window_filled:
  assumes "wf_slice dst" "window_ready dst z n g" "\<And>w. length w = n \<Longrightarrow> f w = Some bs" "length bs = n"
  shows "\<exists>s. slice_write g (len dst + z) (len dst + z + n) f = Some s \<and> appended dst (replicate z 0 @ bs) s"
proof -
  have ld: "length (contents dst) = len dst" using assms(1) by simp
  have w: "f (take n (drop (len dst + z) (buf g))) = Some bs"
    using assms(2) by (intro assms(3)) (auto simp: window_ready_def)
  let ?s = "g\<lparr>buf := contents dst @ replicate z 0 @ bs @ drop (len g) (buf g)\<rparr>"
  have "slice_write g (len dst + z) (len dst + z + n) f = Some ?s"
    using assms(2) w by (simp add: slice_write_def on_slice_def window_ready_def)
  moreover have "appended dst (replicate z 0 @ bs) ?s"
    using assms(2,4) ld by (auto simp: appended_def window_ready_def wf_slice_def contents_def cap_def add.assoc)
  ultimately show ?thesis by blast
qed

lemma appendDecodeLarge_decodes:
  assumes wf: "wf_slice dst" and z: "zeros = leading 49 encoded" "zeros < length encoded"
  shows "decodes_to dst encoded (appendDecodeLarge dst encoded zeros)"
proof -
  let ?s = "drop zeros encoded"
  have "\<forall>j \<in> set [zeros..<length encoded]. j < length encoded" by simp
  from or_fold [OF this, of 0] obtain bad where
    B: "foldM (\<lambda>i bad. do { c \<leftarrow> idx encoded i; Some (bad OR base58InverseFull c) }) [zeros..<length encoded] 0 = Some bad"
    "64 \<le> bad \<longleftrightarrow> (\<exists>j \<in> set [zeros..<length encoded]. \<not> b58_valid (encoded ! j))" by auto
  have "list_all b58_valid ?s \<longleftrightarrow> (\<forall>j < length encoded - zeros. b58_valid (encoded ! (zeros + j)))"
    by (simp add: list_all_length)
  also have "\<dots> \<longleftrightarrow> (\<forall>j \<in> set [zeros..<length encoded]. b58_valid (encoded ! j))"
    by (auto simp: le_iff_add)
  finally have bad: "64 \<le> bad \<longleftrightarrow> \<not> list_all b58_valid ?s" using B(2) by auto
  show ?thesis
  proof (cases "list_all b58_valid ?s")
    case False
    then show ?thesis
      using B(1) bad z(1) by (simp add: decodes_to_def b58_decode_split appendDecodeLarge_def)
  next
    case True
    let ?v = "str_val ?s" and ?n = "length (byte_digits (str_val ?s))" and ?L = "len dst + zeros + length (byte_digits (str_val ?s))"
    have "?s \<noteq> []" using z(2) by simp
    from decodeLargeTree_eq [OF this powers_ok_empty] True
    obtain powers where T: "decodeLargeTree ?s Map.empty = Some (Some ?v, powers)" by auto
    have fill: "fillBytes ?v w = Some (byte_digits ?v)" if "length w = ?n" for w
      using that byte_digits_bound [of ?v] be_bytes_byte_digits [of ?v] by (simp add: fillBytes_def)
    obtain g where G: "(if cap dst < ?L then Some (make_copy ?L ?L dst)
        else do { d \<leftarrow> reslice dst ?L; slice_write d (len dst) (len dst + zeros) (\<lambda>w. Some (replicate (length w) 0)) }) = Some g"
      "window_ready dst zeros ?n g" using zero_window [OF wf] by blast
    obtain s where S: "slice_write g (len dst + zeros) ?L (fillBytes ?v) = Some s"
      "appended dst (replicate zeros 0 @ byte_digits ?v) s"
      using window_filled [where f = "fillBytes ?v", OF wf G(2) fill refl] by blast
    have nb: "\<not> 64 \<le> bad" using bad True by simp
    have sub: "subslice encoded zeros (length encoded) = Some ?s" using z(2) by simp
    have "appendDecodeLarge dst encoded zeros = Some (Inr s)"
      by (simp only: appendDecodeLarge_def B(1) Option.bind.simps nb if_False sub T prod.case option.case
          bitLen_bytes Let_def G(1) S(1))
    then show ?thesis using True S(2) z(1) by (simp add: decodes_to_def b58_decode_split)
  qed
qed

interpretation large_decoder: append_decoder appendDecodeLarge 8192 n for n
  by unfold_locales (rule appendDecodeLarge_decodes)

end
