(* ===== verification/Decode_Variable.thy ===== *)
theory Decode_Variable
  imports Large_Decode Encode_Tail Encode_Block
begin

unbundle bit_operations_syntax

text \<open>
  Decoding of strings of any length (\<open>decode.go\<close>): the limb accumulator of
  \<open>appendDecodeVariableScratch\<close>, which reads twenty characters at a time into a number of base
  \<open>2 ^ 64\<close>, \<open>appendDecodeVariable\<close>, which sizes its scratch space, and \<open>Decode\<close> and
  \<open>AppendDecode\<close>, which try the fixed-width decoders first.
\<close>

section \<open>\<open>math/bits\<close>\<close>

text \<open>\<open>bits.Mul64\<close> returns the high and low word of a product, \<open>bits.Add64\<close> the sum and the carry.\<close>

definition mul64 :: "u64 \<Rightarrow> u64 \<Rightarrow> u64 \<times> u64" where
  "mul64 x y = (of_nat (unat x * unat y div 2 ^ 64), of_nat (unat x * unat y mod 2 ^ 64))"

definition add64 :: "u64 \<Rightarrow> u64 \<Rightarrow> u64 \<Rightarrow> u64 \<times> u64" where
  "add64 x y carry =
     (of_nat ((unat x + unat y + unat carry) mod 2 ^ 64), of_nat ((unat x + unat y + unat carry) div 2 ^ 64))"

section \<open>Reading a group of characters\<close>

definition m20 :: "u64 \<times> u64" where
  "m20 = mul64 (pow58u64 ! 10) (pow58u64 ! 10)"

abbreviation "m20Hi \<equiv> fst m20"
abbreviation "m20Lo \<equiv> snd m20"

text \<open>Ten characters with one bounds check: the union of the lookups and the value.\<close>

definition tenChars :: "bytes \<Rightarrow> u8 \<times> u64" where
  "tenChars c =
     (let d0 = base58InverseFull (c ! 0); d1 = base58InverseFull (c ! 1);
          d2 = base58InverseFull (c ! 2); d3 = base58InverseFull (c ! 3);
          d4 = base58InverseFull (c ! 4); d5 = base58InverseFull (c ! 5);
          d6 = base58InverseFull (c ! 6); d7 = base58InverseFull (c ! 7);
          d8 = base58InverseFull (c ! 8); d9 = base58InverseFull (c ! 9);
          hi = (ucast d0 * 11316496 + ucast d1 * 195112 + ucast d2 * 3364 + ucast d3 * 58 + ucast d4 :: u32);
          lo = (ucast d5 * 11316496 + ucast d6 * 195112 + ucast d7 * 3364 + ucast d8 * 58 + ucast d9 :: u32)
      in (d0 OR d1 OR d2 OR d3 OR d4 OR d5 OR d6 OR d7 OR d8 OR d9,
          ucast hi * 656356768 + ucast lo))"

definition charsLoop :: "bytes \<Rightarrow> nat list \<Rightarrow> u8 \<times> u64 \<Rightarrow> (u8 \<times> u64) option" where
  "charsLoop s =
     foldM (\<lambda>i (bad, g).
       do { c \<leftarrow> idx s i;
            let d = base58InverseFull c;
            Some (bad OR d, g * 58 + ucast d) })"

text \<open>A group of \<open>groupLen\<close> characters at \<open>i\<close>: the union of the lookups and the value in two words.\<close>

definition readGroup :: "bytes \<Rightarrow> nat \<Rightarrow> nat \<Rightarrow> (u8 \<times> u64 \<times> u64) option" where
  "readGroup s i groupLen =
     (if groupLen = 20
      then do {
        (half, bad, i) \<leftarrow> foldM (\<lambda>h (half, bad, i).
            do { c \<leftarrow> subslice s i (i + 10);
                 let (b, v) = tenChars c;
                 half \<leftarrow> upd half h v;
                 Some (half, bad OR b, i + 10) })
          [0..<2] ([0, 0], 0, i);
        let (gHi, gLo) = mul64 (half ! 0) (pow58u64 ! 10);
        let (gLo, c) = add64 gLo (half ! 1) 0;
        Some (bad, gHi + c, gLo) }
      else do {
        let l1 = (if groupLen > 10 then groupLen - 10 else 0);
        (bad, g1) \<leftarrow> charsLoop s [i..<i + l1] (0, 0);
        (bad, g2) \<leftarrow> charsLoop s [i + l1..<i + groupLen] (bad, 0);
        if l1 > 0
        then do {
          let (gHi, gLo) = mul64 g1 (pow58u64 ! 10);
          let (gLo, c) = add64 gLo g2 0;
          Some (bad, gHi + c, gLo) }
        else Some (bad, 0, g2) })"

section \<open>The limb accumulator\<close>

definition mulLimbs :: "nat list \<Rightarrow> u64 list \<times> u64 \<times> u64 \<Rightarrow> (u64 list \<times> u64 \<times> u64) option" where
  "mulLimbs =
     foldM (\<lambda>j (limbs, c0, c1).
       do { l \<leftarrow> idx limbs j;
            let (p1, p0) = mul64 l m20Lo;
            let (q1, q0) = mul64 l m20Hi;
            let (t0, k0) = add64 p0 c0 0;
            let (s1, k1a) = add64 p1 q0 k0;
            let (t1, k1b) = add64 s1 c1 0;
            limbs \<leftarrow> upd limbs j t0;
            Some (limbs, t1, q1 + k1a + k1b) })"

text \<open>The words carried out of the limbs become new limbs.\<close>

definition pushCarry :: "u64 list \<Rightarrow> nat \<Rightarrow> u64 \<Rightarrow> u64 \<Rightarrow> (u64 list \<times> nat) option" where
  "pushCarry limbs active c0 c1 =
     (if c1 \<noteq> 0 then do { limbs \<leftarrow> upd limbs active c0; limbs \<leftarrow> upd limbs (active + 1) c1; Some (limbs, active + 2) }
      else if c0 \<noteq> 0 then do { limbs \<leftarrow> upd limbs active c0; Some (limbs, active + 1) }
      else Some (limbs, active))"

text \<open>The loop over the groups; both ways to read a group leave \<open>i\<close> behind it.\<close>

function limbLoop :: "bytes \<Rightarrow> nat \<Rightarrow> nat \<Rightarrow> u64 list \<Rightarrow> nat \<Rightarrow> (decode_error + u64 list \<times> nat) option" where
  "limbLoop s i groupLen limbs active =
     (if i < length s
      then do { (bad, gHi, gLo) \<leftarrow> readGroup s i groupLen;
                if bad \<ge> 64 then Some (Inl ErrInvalidChar)
                else do {
                  (limbs, c0, c1) \<leftarrow> mulLimbs [0..<active] (limbs, gLo, gHi);
                  (limbs, active) \<leftarrow> pushCarry limbs active c0 c1;
                  limbLoop s (i + groupLen) 20 limbs active } }
      else Some (Inr (limbs, active)))"
  by pat_completeness auto

termination
  by (relation "measure (\<lambda>(s, i, groupLen, limbs, active). 2 * (length s - i) + (if groupLen = 0 then 1 else 0))") auto

declare limbLoop.simps [simp del]

text \<open>\<open>dst[j] = v\<close> on a slice.\<close>

definition slice_upd :: "gslice \<Rightarrow> nat \<Rightarrow> u8 \<Rightarrow> gslice option" where
  "slice_upd s j v = (if j < len s then do { b \<leftarrow> upd (buf s) j v; Some (s\<lparr>buf := b\<rparr>) } else None)"

definition appendDecodeVariableScratch :: "gslice \<Rightarrow> bytes \<Rightarrow> nat \<Rightarrow> u64 list \<Rightarrow> (decode_error + gslice) option" where
  "appendDecodeVariableScratch dst s zeros limbs =
     do { let n = length s;
          let groupLen = (if n mod 20 = 0 then 20 else n mod 20);
          r \<leftarrow> limbLoop s 0 groupLen limbs 0;
          case r of Inl e \<Rightarrow> Some (Inl e)
          | Inr (limbs, active) \<Rightarrow> do {
              t \<leftarrow> isub active 1;
              v \<leftarrow> idx limbs t;
              let topBytes = (bitLen (unat v) + 7) div 8;
              let start = len dst;
              let sz = start + zeros + t * 8 + topBytes;
              dst \<leftarrow> grow_to dst sz sz;
              dst \<leftarrow> foldM (\<lambda>j dst. slice_upd dst j 0) [start..<start + zeros] dst;
              (dst, p) \<leftarrow> foldM (\<lambda>j (dst, p).
                  do { q \<leftarrow> isub p 8; dst \<leftarrow> slice_write dst q p (putUint64BE (limbs ! j)); Some (dst, q) })
                [0..<t] (dst, sz);
              (dst, p, v) \<leftarrow> foldM (\<lambda>k (dst, p, v).
                  do { p \<leftarrow> isub p 1; dst \<leftarrow> slice_upd dst p (ucast v); Some (dst, p, drop_bit 8 v) })
                [0..<topBytes] (dst, p, v);
              Some (Inr dst) } }"

definition appendDecodeVariable :: "gslice \<Rightarrow> bytes \<Rightarrow> nat \<Rightarrow> (decode_error + gslice) option" where
  "appendDecodeVariable dst encoded zeros =
     do { s \<leftarrow> subslice encoded zeros (length encoded);
          let n = length s;
          if n \<ge> largeDecodeThreshold then appendDecodeLarge dst encoded zeros
          else do {
            let maxBytes = n * 733 div 1000 + 1;
            let numLimbs = (maxBytes + 7) div 8;
            limbs \<leftarrow> (if numLimbs \<le> 24 then subslice (replicate 24 0) 0 numLimbs
                    else if numLimbs \<le> 66 then subslice (replicate 66 0) 0 numLimbs
                    else if numLimbs \<le> 128 then subslice (replicate 128 0) 0 numLimbs
                    else Some (replicate numLimbs 0));
            appendDecodeVariableScratch dst s zeros limbs } }"


section \<open>Two-word arithmetic\<close>

text \<open>The base of the limbs, kept folded in the proofs.\<close>

definition W :: nat where "W = 2 ^ 64"

lemma W_pos: "0 < W" by (simp add: W_def)

lemma unat_less_W: "unat (x :: u64) < W"
  using unat_lt_pow [of x] by (simp add: W_def)

lemma unat_of_nat_W: "n < W \<Longrightarrow> unat (of_nat n :: u64) = n"
  by (rule unat_of_nat_small) (simp add: W_def)

lemma unat_plus_W: "unat (x :: u64) + unat y < W \<Longrightarrow> unat (x + y) = unat x + unat y"
  by (rule unat_add_nowrap) (simp add: W_def)

definition two_val :: "u64 \<Rightarrow> u64 \<Rightarrow> nat" where
  "two_val hi lo = unat hi * W + unat lo"

lemma mul64_val:
  assumes "mul64 x y = (hi, lo)"
  shows "two_val hi lo = unat x * unat y"
proof -
  let ?p = "unat x * unat y"
  have "?p < W * W" by (intro mult_strict_mono unat_less_W W_pos) simp
  then have "?p div W < W" by (rule less_mult_imp_div_less)
  moreover have "?p mod W < W" using W_pos by (rule mod_less_divisor)
  ultimately show ?thesis
    using assms unfolding mul64_def W_def [symmetric]
    by (auto simp: two_val_def unat_of_nat_W simp del: of_nat_div of_nat_mod)
qed

lemma add64_val:
  assumes "add64 x y k = (t, c)"
  shows "unat t + W * unat c = unat x + unat y + unat k"
proof -
  let ?p = "unat x + unat y + unat k"
  have "?p < 3 * W" using unat_less_W [of x] unat_less_W [of y] unat_less_W [of k] by linarith
  then have "?p div W < 3" by (rule less_mult_imp_div_less)
  moreover have "3 < W" by (simp add: W_def)
  ultimately have "?p div W < W" by linarith
  moreover have "?p mod W < W" using W_pos by (rule mod_less_divisor)
  ultimately show ?thesis
    using assms unfolding add64_def W_def [symmetric]
    by (auto simp: unat_of_nat_W simp del: of_nat_div of_nat_mod)
qed

lemma two_words_top:
  fixes h c l w N :: nat
  assumes "(h + c) * w + l = N" "N < w * w"
  shows "h + c < w"
proof -
  have "(h + c) * w < w * w" using assms by linarith
  then show ?thesis by simp
qed

lemma mac_two:
  assumes "mul64 a m = (hi, lo)" "add64 lo b 0 = (lo', c)" "unat a * unat m + unat b < W * W"
  shows "two_val (hi + c) lo' = unat a * unat m + unat b"
proof -
  have "unat lo' + W * unat c = unat lo + unat b" using add64_val [OF assms(2)] by simp
  moreover have "unat hi * W + unat lo = unat a * unat m" using mul64_val [OF assms(1)] by (simp add: two_val_def)
  ultimately have e: "(unat hi + unat c) * W + unat lo' = unat a * unat m + unat b"
    by (simp add: algebra_simps)
  from two_words_top [OF this assms(3)] have "unat (hi + c) = unat hi + unat c" by (rule unat_plus_W)
  then show ?thesis using e by (simp add: two_val_def)
qed

lemma m20_val: "two_val m20Hi m20Lo = 58 ^ 20"
  using mul64_val [of "pow58u64 ! 10" "pow58u64 ! 10" m20Hi m20Lo] by (simp add: m20_def pow58u64_def)

text \<open>One limb of the multiplication, on natural numbers.\<close>

lemma limb_place:
  fixes w :: nat
  assumes "p1 * w + p0 = l * m0" "q1 * w + q0 = l * m1" "t0 + w * k0 = p0 + c0" "s1 + w * a = p1 + q0 + k0"
    "t1 + w * b = s1 + c1"
  shows "t0 + w * (t1 + w * (q1 + a + b)) = l * (m1 * w + m0) + (c1 * w + c0)"
proof -
  have "l * (m1 * w + m0) = (l * m1) * w + l * m0" by (simp add: add_mult_distrib2)
  also have "\<dots> = (q1 * w + q0) * w + (p1 * w + p0)" using assms(1,2) by simp
  finally have "l * (m1 * w + m0) + (c1 * w + c0) = q1 * w * w + w * (p1 + q0 + c1) + (p0 + c0)"
    by (simp add: add_mult_distrib2 add_mult_distrib mult.commute)
  also have "p0 + c0 = t0 + w * k0" using assms(3) by simp
  also have "q1 * w * w + w * (p1 + q0 + c1) + (t0 + w * k0) = q1 * w * w + w * ((p1 + q0 + k0) + c1) + t0"
    by (simp add: add_mult_distrib2)
  also have "p1 + q0 + k0 = s1 + w * a" using assms(4) by simp
  also have "q1 * w * w + w * ((s1 + w * a) + c1) + t0 = q1 * w * w + w * (w * a) + w * (s1 + c1) + t0"
    by (simp add: add_mult_distrib2)
  also have "s1 + c1 = t1 + w * b" using assms(5) by simp
  finally show ?thesis by (simp add: add_mult_distrib2 add_mult_distrib mult.commute mult.left_commute)
qed

lemma limb_split:
  fixes w :: nat
  assumes "t0 + w * c = v" "t0 < w"
  shows "t0 = v mod w" "c = v div w"
proof -
  show "t0 = v mod w" using assms by auto
  have "v div w = (t0 + w * c) div w" using assms(1) by simp
  also have "\<dots> = c" using assms(2) by (simp add: div_add_self2)
  finally show "c = v div w" ..
qed

lemma limb_step:
  assumes "mul64 l m20Lo = (p1, p0)" "mul64 l m20Hi = (q1, q0)" "add64 p0 c0 0 = (t0, k0)"
    "add64 p1 q0 k0 = (s1, k1a)" "add64 s1 c1 0 = (t1, k1b)" "two_val c1 c0 < 58 ^ 20"
  shows "unat t0 = (unat l * 58 ^ 20 + two_val c1 c0) mod W"
    and "two_val (q1 + k1a + k1b) t1 = (unat l * 58 ^ 20 + two_val c1 c0) div W"
    and "two_val (q1 + k1a + k1b) t1 < 58 ^ 20"
proof -
  let ?v = "unat l * 58 ^ 20 + two_val c1 c0"
  have e: "unat t0 + W * (unat t1 + W * (unat q1 + unat k1a + unat k1b)) = ?v"
    using limb_place [of "unat p1" W "unat p0" "unat l" "unat m20Lo" "unat q1" "unat q0" "unat m20Hi" "unat t0" "unat k0" "unat c0"
        "unat s1" "unat k1a" "unat t1" "unat k1b" "unat c1"]
      mul64_val [OF assms(1)] mul64_val [OF assms(2)] add64_val [OF assms(3)] add64_val [OF assms(4)] add64_val [OF assms(5)]
    unfolding two_val_def m20_val [symmetric] by simp
  note S = limb_split [OF e unat_less_W]
  have "?v < unat l * 58 ^ 20 + 58 ^ 20" using assms(6) by (rule add_strict_left_mono)
  also have "\<dots> = Suc (unat l) * 58 ^ 20" by simp
  also have "\<dots> \<le> W * 58 ^ 20" using unat_less_W [of l] by (intro mult_le_mono1) (simp add: Suc_le_eq)
  finally have lt: "?v div W < 58 ^ 20" by (intro less_mult_imp_div_less) (simp only: mult.commute)
  have "(58 :: nat) ^ 20 < W * W" by (simp add: W_def)
  then have ww: "?v div W < W * W" using lt by linarith
  have "(unat q1 + unat k1a + unat k1b) * W + unat t1 = ?v div W" using S(2) by (simp add: mult.commute)
  note top = two_words_top [OF this [unfolded add.assoc] ww]
  then have "unat (q1 + k1a) = unat q1 + unat k1a" by (intro unat_plus_W) linarith
  moreover from this top have "unat (q1 + k1a + k1b) = unat q1 + unat k1a + unat k1b" by (subst unat_plus_W) linarith+
  ultimately show "two_val (q1 + k1a + k1b) t1 = ?v div W"
    using S(2) by (simp add: two_val_def mult.commute)
  then show "two_val (q1 + k1a + k1b) t1 < 58 ^ 20" using lt by simp
  show "unat t0 = ?v mod W" by (rule S(1))
qed


section \<open>Groups\<close>

lemma charsLoop_eq:
  assumes "i + m \<le> length s"
  shows "\<exists>bad g. charsLoop s [i..<i + m] (b0, g0) = Some (bad, g) \<and>
    (64 \<le> bad \<longleftrightarrow> 64 \<le> b0 \<or> \<not> list_all b58_valid (take m (drop i s))) \<and>
    (list_all b58_valid (take m (drop i s)) \<longrightarrow> g = g0 * 58 ^ m + of_nat (str_val (take m (drop i s))))"
  using assms
proof (induction m)
  case (Suc m)
  then obtain bad g where IH: "charsLoop s [i..<i + m] (b0, g0) = Some (bad, g)"
    "64 \<le> bad \<longleftrightarrow> 64 \<le> b0 \<or> \<not> list_all b58_valid (take m (drop i s))"
    "list_all b58_valid (take m (drop i s)) \<longrightarrow> g = g0 * 58 ^ m + of_nat (str_val (take m (drop i s)))" by auto
  let ?c = "s ! (i + m)"
  have t: "take (Suc m) (drop i s) = take m (drop i s) @ [?c]"
    using Suc.prems by (simp add: take_Suc_conv_app_nth)
  have "charsLoop s [i..<i + Suc m] (b0, g0) = Some (bad OR base58InverseFull ?c, g * 58 + ucast (base58InverseFull ?c))"
    using IH(1) Suc.prems by (simp add: charsLoop_def Let_def)
  then show ?case
    using IH(2,3) unfolding t
    by (simp add: or_ge_64 invalid_digit digit_word str_val_append str_val_Cons algebra_simps)
qed (simp add: charsLoop_def)

lemma str_val_u64: "list_all b58_valid c \<Longrightarrow> length c \<le> 10 \<Longrightarrow> unat (of_nat (str_val c) :: u64) = str_val c"
proof -
  assume c: "list_all b58_valid c" "length c \<le> 10"
  then have "(58 :: nat) ^ length c \<le> 58 ^ 10" by (intro power_increasing) simp_all
  then have "str_val c < W" using str_val_less [OF c(1)] by (simp add: W_def)
  then show ?thesis by (rule unat_of_nat_W)
qed

lemma five_word:
  assumes "list_all b58_valid [a, b, c, d, e]"
  shows "(ucast (ucast (base58InverseFull a) * 11316496 + ucast (base58InverseFull b) * 195112 +
      ucast (base58InverseFull c) * 3364 + ucast (base58InverseFull d) * 58 + ucast (base58InverseFull e) :: u32) :: u64)
    = of_nat (str_val [a, b, c, d, e])"
proof -
  have "(ucast (base58InverseFull a) * 11316496 + ucast (base58InverseFull b) * 195112 +
      ucast (base58InverseFull c) * 3364 + ucast (base58InverseFull d) * 58 + ucast (base58InverseFull e) :: u32)
      = of_nat (str_val [a, b, c, d, e])"
    using assms by (simp add: digit_word str_val5)
  moreover have "unat (of_nat (str_val [a, b, c, d, e]) :: u32) = str_val [a, b, c, d, e]"
    using str_val_less [OF assms] by (intro unat_of_nat_small) simp
  ultimately show ?thesis by (metis of_nat_unat)
qed

lemma length10E:
  assumes "length c = 10"
  obtains c0 c1 c2 c3 c4 c5 c6 c7 c8 c9 where "c = [c0, c1, c2, c3, c4, c5, c6, c7, c8, c9]"
  using assms by (auto simp: length_Suc_conv eval_nat_numeral)

lemma tenChars_eq:
  assumes "length c = 10"
  shows "64 \<le> fst (tenChars c) \<longleftrightarrow> \<not> list_all b58_valid c"
    and "list_all b58_valid c \<Longrightarrow> unat (snd (tenChars c)) = str_val c"
proof -
  obtain c0 c1 c2 c3 c4 c5 c6 c7 c8 c9 where c: "c = [c0, c1, c2, c3, c4, c5, c6, c7, c8, c9]"
    using assms by (rule length10E)
  show "64 \<le> fst (tenChars c) \<longleftrightarrow> \<not> list_all b58_valid c"
    unfolding c by (simp add: tenChars_def Let_def or_ge_64 invalid_digit)
  assume v: "list_all b58_valid c"
  have "snd (tenChars c) = of_nat (str_val [c0, c1, c2, c3, c4]) * 656356768 + of_nat (str_val [c5, c6, c7, c8, c9])"
  proof -
    have n: "c ! 0 = c0" "c ! 1 = c1" "c ! 2 = c2" "c ! 3 = c3" "c ! 4 = c4" "c ! 5 = c5" "c ! 6 = c6" "c ! 7 = c7"
      "c ! 8 = c8" "c ! 9 = c9" unfolding c by simp_all
    have "list_all b58_valid [c0, c1, c2, c3, c4]" "list_all b58_valid [c5, c6, c7, c8, c9]" using v c by simp_all
    then show ?thesis by (simp only: tenChars_def Let_def snd_conv n five_word)
  qed
  also have "\<dots> = of_nat (str_val c)"
    using str_val_append [of "[c0, c1, c2, c3, c4]" "[c5, c6, c7, c8, c9]"] unfolding c by simp
  finally show "unat (snd (tenChars c)) = str_val c" using str_val_u64 [OF v] assms by simp
qed


lemma pow58_10: "unat (pow58u64 ! 10) = 58 ^ 10"
  by (simp add: pow58u64_def)

lemma two_halves:
  assumes "list_all b58_valid (c @ d)" "length c \<le> 10" "length d = 10" "unat a = str_val c" "unat b = str_val d"
    "mul64 a (pow58u64 ! 10) = (hi, lo)" "add64 lo b 0 = (lo', k)"
  shows "two_val (hi + k) lo' = str_val (c @ d)"
proof -
  have v: "unat a * unat (pow58u64 ! 10) + unat b = str_val (c @ d)"
    using assms(3-5) by (simp only: pow58_10 str_val_append)
  have "(58 :: nat) ^ length (c @ d) \<le> 58 ^ 20" using assms(2,3) by (intro power_increasing) simp_all
  moreover have "(58 :: nat) ^ 20 < W * W" by (simp add: W_def)
  ultimately have "str_val (c @ d) < W * W" using str_val_less [OF assms(1)] by linarith
  then show ?thesis using mac_two [OF assms(6,7)] unfolding v by simp
qed

lemma readGroup_eq:
  assumes "i + g \<le> length s" "0 < g" "g \<le> 20"
  shows "\<exists>bad hi lo. readGroup s i g = Some (bad, hi, lo) \<and>
    (64 \<le> bad \<longleftrightarrow> \<not> list_all b58_valid (take g (drop i s))) \<and>
    (list_all b58_valid (take g (drop i s)) \<longrightarrow> two_val hi lo = str_val (take g (drop i s)))"
proof (cases "g = 20")
  case True
  let ?c = "take 10 (drop i s)" and ?d = "take 10 (drop (i + 10) s)"
  have l: "length ?c = 10" "length ?d = 10" using assms(1) True by simp_all
  have cd: "take g (drop i s) = ?c @ ?d" unfolding True using take_add [of 10 10 "drop i s"] by (simp add: add.commute)
  obtain hi lo where M: "mul64 (snd (tenChars ?c)) (pow58u64 ! 10) = (hi, lo)" by fastforce
  obtain lo' k where A: "add64 lo (snd (tenChars ?d)) 0 = (lo', k)" by fastforce
  have "subslice s i (i + 10) = Some ?c" "subslice s (i + 10) (i + 10 + 10) = Some ?d"
    using assms(1) True by simp_all
  then have "readGroup s i g = Some (fst (tenChars ?c) OR fst (tenChars ?d), hi + k, lo')"
    using M A True by (simp add: readGroup_def upt_rec case_prod_unfold Let_def)
  moreover have "64 \<le> fst (tenChars ?c) OR fst (tenChars ?d) \<longleftrightarrow> \<not> list_all b58_valid (?c @ ?d)"
    using tenChars_eq(1) [OF l(1)] tenChars_eq(1) [OF l(2)] by (simp add: or_ge_64)
  moreover have "two_val (hi + k) lo' = str_val (?c @ ?d)" if "list_all b58_valid (?c @ ?d)"
    using two_halves [OF that _ l(2) tenChars_eq(2) [OF l(1)] tenChars_eq(2) [OF l(2)] M A] that l(1) by simp
  ultimately show ?thesis unfolding cd by blast
next
  case g: False
  define l1 where "l1 = (if g > 10 then g - 10 else 0)"
  let ?c = "take l1 (drop i s)" and ?d = "take (g - l1) (drop (i + l1) s)"
  have "g < 20" using assms(3) g by simp
  then have l1: "l1 < 10" "l1 \<le> g" "g - l1 \<le> 10" by (simp_all add: l1_def less_diff_conv2)
  have l: "length ?c = l1" "length ?d = g - l1" using assms(1) l1 by simp_all
  have cd: "take g (drop i s) = ?c @ ?d" using take_add [of l1 "g - l1" "drop i s"] l1(2) by (simp add: add.commute)
  have r: "i + l1 \<le> length s" "i + l1 + (g - l1) \<le> length s" "i + l1 + (g - l1) = i + g" using assms(1) l1(2) by simp_all
  obtain b1 g1 where C: "charsLoop s [i..<i + l1] (0, 0) = Some (b1, g1)" "64 \<le> b1 \<longleftrightarrow> \<not> list_all b58_valid ?c"
    "list_all b58_valid ?c \<longrightarrow> g1 = of_nat (str_val ?c)" using charsLoop_eq [OF r(1), of 0 0] by auto
  obtain b2 g2 where D: "charsLoop s [i + l1..<i + g] (b1, 0) = Some (b2, g2)"
    "64 \<le> b2 \<longleftrightarrow> 64 \<le> b1 \<or> \<not> list_all b58_valid ?d"
    "list_all b58_valid ?d \<longrightarrow> g2 = of_nat (str_val ?d)" using charsLoop_eq [OF r(2), of b1 0] unfolding r(3) by auto
  have bad: "64 \<le> b2 \<longleftrightarrow> \<not> list_all b58_valid (?c @ ?d)" using C(2) D(2) by simp
  have read: "readGroup s i g = (if l1 > 0
        then let (gHi, gLo) = mul64 g1 (pow58u64 ! 10); (gLo, c) = add64 gLo g2 0 in Some (b2, gHi + c, gLo)
        else Some (b2, 0, g2))"
    using g C(1) D(1) by (simp add: readGroup_def l1_def [symmetric] Let_def)
  have vals: "unat g1 = str_val ?c" "unat g2 = str_val ?d" if "list_all b58_valid (?c @ ?d)"
    using that C(3) D(3) str_val_u64 [of ?c] str_val_u64 [of ?d] l l1 by simp_all
  show ?thesis
  proof (cases "l1 > 0")
    case True
    obtain hi lo where M: "mul64 g1 (pow58u64 ! 10) = (hi, lo)" by fastforce
    obtain lo' k where A: "add64 lo g2 0 = (lo', k)" by fastforce
    have "length ?d = 10" using True l(2) by (simp add: l1_def split: if_splits)
    then have "two_val (hi + k) lo' = str_val (?c @ ?d)" if "list_all b58_valid (?c @ ?d)"
      using two_halves [OF that _ _ vals(1) [OF that] vals(2) [OF that] M A] l(1) l1(1) by simp
    then show ?thesis using read True M A bad unfolding cd by simp
  next
    case False
    then have "two_val 0 g2 = str_val (?c @ ?d)" if "list_all b58_valid (?c @ ?d)"
      using vals(2) [OF that] by (simp add: two_val_def)
    then show ?thesis using read False bad unfolding cd by simp
  qed
qed


section \<open>The accumulator\<close>

text \<open>A number in the first \<open>active\<close> limbs, the last of them not zero.\<close>

definition active_limbs :: "u64 list \<Rightarrow> nat \<Rightarrow> nat \<Rightarrow> bool" where
  "active_limbs limbs active V \<longleftrightarrow>
     active \<le> length limbs \<and> lval W (map unat (take active limbs)) = V \<and> (active = 0 \<or> limbs ! (active - 1) \<noteq> 0)"

lemma mulLimbs_eq:
  assumes "k \<le> length limbs" "two_val c1 c0 < 58 ^ 20"
  shows "\<exists>ls c0' c1'. mulLimbs [0..<k] (limbs, c0, c1) = Some (ls @ drop k limbs, c0', c1') \<and> length ls = k \<and>
    two_val c1' c0' < 58 ^ 20 \<and>
    lval W (map unat ls) + W ^ k * two_val c1' c0' = lval W (map unat (take k limbs)) * 58 ^ 20 + two_val c1 c0 \<and>
    (0 < k \<and> limbs ! (k - 1) \<noteq> 0 \<longrightarrow> two_val c1' c0' \<noteq> 0)"
  using assms(1)
proof (induction k)
  case 0
  then show ?case using assms(2) by (simp add: mulLimbs_def)
next
  case (Suc k)
  then obtain ls c0' c1' where IH: "mulLimbs [0..<k] (limbs, c0, c1) = Some (ls @ drop k limbs, c0', c1')" "length ls = k"
    "two_val c1' c0' < 58 ^ 20"
    "lval W (map unat ls) + W ^ k * two_val c1' c0' = lval W (map unat (take k limbs)) * 58 ^ 20 + two_val c1 c0"
    by auto
  let ?l = "limbs ! k"
  have dk: "drop k limbs = ?l # drop (Suc k) limbs" using Suc.prems by (simp add: Cons_nth_drop_Suc)
  obtain p1 p0 where P: "mul64 ?l m20Lo = (p1, p0)" by fastforce
  obtain q1 q0 where Q: "mul64 ?l m20Hi = (q1, q0)" by fastforce
  obtain t0 k0 where T: "add64 p0 c0' 0 = (t0, k0)" by fastforce
  obtain s1 ka where S: "add64 p1 q0 k0 = (s1, ka)" by fastforce
  obtain t1 kb where U: "add64 s1 c1' 0 = (t1, kb)" by fastforce
  note L = limb_step [OF P Q T S U IH(3)]
  let ?ls = "ls @ [t0]" and ?c1 = "q1 + ka + kb" and ?v = "unat ?l * 58 ^ 20 + two_val c1' c0'"
  have run: "mulLimbs [0..<Suc k] (limbs, c0, c1) = Some (?ls @ drop (Suc k) limbs, t1, ?c1)"
  proof -
    have "mulLimbs [k] (ls @ drop k limbs, c0', c1') = Some (?ls @ drop (Suc k) limbs, t1, ?c1)"
      unfolding dk using IH(2) P Q T S U by (simp add: mulLimbs_def nth_append list_update_append)
    moreover have "mulLimbs [0..<Suc k] (limbs, c0, c1) = Option.bind (mulLimbs [0..<k] (limbs, c0, c1)) (mulLimbs [k])"
      by (simp add: mulLimbs_def)
    ultimately show ?thesis using IH(1) by simp
  qed
  have val: "lval W (map unat ?ls) + W ^ Suc k * two_val ?c1 t1
      = lval W (map unat (take (Suc k) limbs)) * 58 ^ 20 + two_val c1 c0"
  proof -
    have t: "take (Suc k) limbs = take k limbs @ [?l]" using Suc.prems by (simp add: take_Suc_conv_app_nth)
    have lk: "length (map unat (take k limbs)) = k" "length (map unat ls) = k" using Suc.prems IH(2) by simp_all
    from horner_place [OF IH(4) refl, of "unat ?l" W] show ?thesis
      unfolding t L(2) by (simp only: map_append list.map lval_append lval_Cons lval_Nil lk L(1) mult_0_right add_0_right power_Suc2)
  qed
  have top: "two_val ?c1 t1 \<noteq> 0" if "?l \<noteq> 0"
  proof -
    have "1 * 58 ^ 20 \<le> unat ?l * 58 ^ 20" using that by (intro mult_le_mono1) (simp add: unat_gt_0 Suc_le_eq)
    moreover have "W \<le> 58 ^ 20" by (simp add: W_def)
    ultimately have "W \<le> ?v" by linarith
    then have "?v div W \<noteq> 0" using W_pos by (simp add: div_eq_0_iff)
    then show ?thesis unfolding L(2) .
  qed
  have "length ?ls = Suc k" using IH(2) by simp
  then show ?case using run val L(3) top by (metis diff_Suc_1)
qed

lemma high_limb:
  fixes w :: nat
  assumes "L + w ^ k * c = V" "V < w ^ n" "0 < c" "0 < w"
  shows "k < n"
proof (rule ccontr)
  assume "\<not> ?thesis"
  then have "w ^ n \<le> w ^ k" using assms(4) by (intro power_increasing) simp_all
  also have "\<dots> * 1 \<le> w ^ k * c" using assms(3) by (intro mult_le_mono2) simp
  also have "\<dots> \<le> V" using assms(1) by simp
  finally show False using assms(2) by simp
qed

lemma pushCarry_eq:
  assumes "active \<le> length limbs" "lval W (map unat (take active limbs)) + W ^ active * two_val c1 c0 = V"
    "V < W ^ length limbs" "active = 0 \<or> two_val c1 c0 \<noteq> 0"
  shows "\<exists>limbs' active'. pushCarry limbs active c0 c1 = Some (limbs', active') \<and> length limbs' = length limbs \<and>
    active_limbs limbs' active' V"
proof -
  consider "c1 \<noteq> 0" | "c1 = 0" "c0 \<noteq> 0" | "c1 = 0" "c0 = 0" by blast
  then show ?thesis
  proof cases
    case 1
    have u: "0 < unat c1" using 1 by (simp add: unat_gt_0)
    have lm: "length (map unat (take active limbs)) = active" using assms(1) by simp
    have e: "(lval W (map unat (take active limbs)) + W ^ active * unat c0) + W ^ (active + 1) * unat c1 = V"
      using assms(2) by (simp add: two_val_def algebra_simps)
    note lt = high_limb [OF e assms(3) u W_pos]
    let ?l = "limbs[active := c0, active + 1 := c1]"
    have t: "take (active + 2) ?l = take active limbs @ [c0, c1]"
      using lt by (simp add: take_Suc_conv_app_nth numeral_2_eq_2)
    have "lval W (map unat (take (active + 2) ?l)) = V"
      unfolding t using e lm by (simp add: lval_append lval_Cons algebra_simps)
    then show ?thesis using 1 lt by (simp add: pushCarry_def active_limbs_def)
  next
    case 2
    then have u: "0 < two_val c1 c0" by (simp add: two_val_def unat_gt_0)
    have lm: "length (map unat (take active limbs)) = active" using assms(1) by simp
    note lt = high_limb [OF assms(2,3) u W_pos]
    let ?l = "limbs[active := c0]"
    have t: "take (active + 1) ?l = take active limbs @ [c0]"
      using lt by (simp add: take_Suc_conv_app_nth)
    have "lval W (map unat (take (active + 1) ?l)) = V"
      unfolding t using assms(2) lm 2 by (simp add: lval_append lval_Cons two_val_def)
    then show ?thesis using 2 lt by (simp add: pushCarry_def active_limbs_def)
  next
    case 3
    then have "active = 0" using assms(4) by (simp add: two_val_def)
    then show ?thesis using 3 assms(2) by (simp add: pushCarry_def active_limbs_def two_val_def)
  qed
qed


lemma limbLoop_step:
  assumes "i + g \<le> length s" "0 < g" "g \<le> 20" "i = 0 \<and> active = 0 \<or> g = 20"
    "list_all b58_valid (take i s)" "active_limbs limbs active (str_val (take i s))" "58 ^ length s \<le> W ^ length limbs"
  shows "if list_all b58_valid (take g (drop i s))
    then \<exists>limbs' active'. limbLoop s i g limbs active = limbLoop s (i + g) 20 limbs' active' \<and>
      length limbs' = length limbs \<and> active_limbs limbs' active' (str_val (take (i + g) s))
    else limbLoop s i g limbs active = Some (Inl ErrInvalidChar)"
proof -
  let ?c = "take g (drop i s)"
  have lt: "i < length s" using assms(1,2) by simp
  obtain bad hi lo where G: "readGroup s i g = Some (bad, hi, lo)" "64 \<le> bad \<longleftrightarrow> \<not> list_all b58_valid ?c"
    "list_all b58_valid ?c \<longrightarrow> two_val hi lo = str_val ?c" using readGroup_eq [OF assms(1-3)] by blast
  show ?thesis
  proof (cases "list_all b58_valid ?c")
    case False
    then show ?thesis using G(1,2) lt by (subst limbLoop.simps) simp
  next
    case True
    have lc: "length ?c = g" using assms(1) by simp
    let ?V = "str_val (take i s)"
    have t: "take (i + g) s = take i s @ ?c" by (simp add: take_add)
    have A: "active \<le> length limbs" "lval W (map unat (take active limbs)) = ?V" "active = 0 \<or> limbs ! (active - 1) \<noteq> 0"
      using assms(6) by (simp_all add: active_limbs_def)
    have "(58 :: nat) ^ length ?c \<le> 58 ^ 20" using assms(3) unfolding lc by (intro power_increasing) simp_all
    then have C: "two_val hi lo < 58 ^ 20" using G(3) True str_val_less [OF True] by simp
    obtain ls c0 c1 where M: "mulLimbs [0..<active] (limbs, lo, hi) = Some (ls @ drop active limbs, c0, c1)" "length ls = active"
      "lval W (map unat ls) + W ^ active * two_val c1 c0 = ?V * 58 ^ 20 + two_val hi lo"
      "0 < active \<and> limbs ! (active - 1) \<noteq> 0 \<longrightarrow> two_val c1 c0 \<noteq> 0"
      using mulLimbs_eq [OF A(1) C] unfolding A(2) by blast
    let ?l = "ls @ drop active limbs"
    have l: "length ?l = length limbs" "take active ?l = ls" using M(2) A(1) by simp_all
    have V: "?V * 58 ^ 20 + two_val hi lo = str_val (take (i + g) s)"
    proof -
      have "?V * 58 ^ 20 = ?V * 58 ^ g" using assms(4) by auto
      then show ?thesis using G(3) True unfolding t str_val_append lc by simp
    qed
    have "list_all b58_valid (take (i + g) s)" unfolding t using assms(5) True by simp
    from str_val_less [OF this] have "str_val (take (i + g) s) < 58 ^ length (take (i + g) s)" .
    also have "(58 :: nat) ^ length (take (i + g) s) \<le> 58 ^ length s" by (intro power_increasing) simp_all
    also have "\<dots> \<le> W ^ length ?l" unfolding l(1) by (rule assms(7))
    finally have fit: "str_val (take (i + g) s) < W ^ length ?l" .
    have 1: "active \<le> length ?l" unfolding l(1) by (rule A(1))
    have 2: "lval W (map unat (take active ?l)) + W ^ active * two_val c1 c0 = str_val (take (i + g) s)"
      unfolding l(2) M(3) V ..
    have 3: "active = 0 \<or> two_val c1 c0 \<noteq> 0" using M(4) A(3) by auto
    obtain limbs' active' where P: "pushCarry ?l active c0 c1 = Some (limbs', active')" "length limbs' = length ?l"
      "active_limbs limbs' active' (str_val (take (i + g) s))"
      using pushCarry_eq [OF 1 2 fit 3] by blast
    have "limbLoop s i g limbs active = limbLoop s (i + g) 20 limbs' active'"
      using G(1,2) True lt M(1) P(1) by (subst limbLoop.simps) simp
    then show ?thesis using True P(2,3) l(1) by auto
  qed
qed

lemma limbLoop_eq:
  assumes "length s = i + g + 20 * k" "0 < g" "g \<le> 20" "i = 0 \<and> active = 0 \<or> g = 20"
    "list_all b58_valid (take i s)" "active_limbs limbs active (str_val (take i s))" "58 ^ length s \<le> W ^ length limbs"
  shows "if list_all b58_valid s
    then \<exists>limbs' active'. limbLoop s i g limbs active = Some (Inr (limbs', active')) \<and>
      length limbs' = length limbs \<and> active_limbs limbs' active' (str_val s)
    else limbLoop s i g limbs active = Some (Inl ErrInvalidChar)"
  using assms
proof (induction k arbitrary: i g limbs active)
  case 0
  then have i: "i + g = length s" "i + g \<le> length s" by simp_all
  have "take i s @ take g (drop i s) = s" using i by simp
  then have v: "list_all b58_valid (take g (drop i s)) \<longleftrightarrow> list_all b58_valid s"
    using "0.prems"(5) by (metis list_all_append)
  have e: "limbLoop s (length s) 20 limbs' active' = Some (Inr (limbs', active'))" for limbs' active'
    by (simp add: limbLoop.simps)
  from limbLoop_step [OF i(2) "0.prems"(2-7)] show ?case
    unfolding v i(1) e by (cases "list_all b58_valid s") auto
next
  case (Suc k)
  have i: "i + g \<le> length s" using Suc.prems(1) by simp
  have s: "take (i + g) s = take i s @ take g (drop i s)" by (simp add: take_add)
  note S = limbLoop_step [OF i Suc.prems(2-7)]
  show ?case
  proof (cases "list_all b58_valid (take g (drop i s))")
    case True
    then obtain limbs' active' where R: "limbLoop s i g limbs active = limbLoop s (i + g) 20 limbs' active'"
      "length limbs' = length limbs" "active_limbs limbs' active' (str_val (take (i + g) s))" using S by auto
    have "list_all b58_valid (take (i + g) s)" using Suc.prems(5) True unfolding s by simp
    moreover have "length s = i + g + 20 + 20 * k" using Suc.prems(1) by simp
    moreover have "58 ^ length s \<le> W ^ length limbs'" using Suc.prems(7) R(2) by simp
    ultimately have "if list_all b58_valid s
      then \<exists>limbs'' active''. limbLoop s (i + g) 20 limbs' active' = Some (Inr (limbs'', active'')) \<and>
        length limbs'' = length limbs' \<and> active_limbs limbs'' active'' (str_val s)
      else limbLoop s (i + g) 20 limbs' active' = Some (Inl ErrInvalidChar)"
      using R(3) by (intro Suc.IH) simp_all
    then show ?thesis unfolding R(1,2) .
  next
    case False
    then have "\<not> list_all b58_valid s" by (metis append_take_drop_id list_all_append)
    then show ?thesis using S False by simp
  qed
qed


section \<open>Writing the bytes\<close>

lemma slice_upd_Some: "j < len s \<Longrightarrow> len s \<le> length (buf s) \<Longrightarrow> slice_upd s j v = Some (s\<lparr>buf := (buf s)[j := v]\<rparr>)"
  by (simp add: slice_upd_def)

lemma zeroLoop_eq:
  assumes "a + z \<le> len d" "len d \<le> length (buf d)"
  shows "foldM (\<lambda>j d. slice_upd d j 0) [a..<a + z] d
    = Some (d\<lparr>buf := take a (buf d) @ replicate z 0 @ drop (a + z) (buf d)\<rparr>)"
  using assms(1)
proof (induction z)
  case (Suc z)
  have dr: "drop (a + z) (buf d) = buf d ! (a + z) # drop (Suc (a + z)) (buf d)"
    using Suc.prems assms(2) by (simp add: Cons_nth_drop_Suc)
  let ?d = "d\<lparr>buf := take a (buf d) @ replicate z 0 @ drop (a + z) (buf d)\<rparr>"
  have "slice_upd ?d (a + z) 0 = Some (d\<lparr>buf := take a (buf d) @ replicate (Suc z) 0 @ drop (a + Suc z) (buf d)\<rparr>)"
    using Suc.prems assms(2) by (subst slice_upd_Some) (simp_all add: dr list_update_append replicate_append_same)
  then show ?case using Suc by simp
qed (use assms in simp)

lemma limbBytes_eq:
  assumes "8 * j \<le> sz" "sz = len g" "sz \<le> length (buf g)" "j \<le> length limbs"
  shows "foldM (\<lambda>j (dst, p). do { q \<leftarrow> isub p 8; dst \<leftarrow> slice_write dst q p (putUint64BE (limbs ! j)); Some (dst, q) })
      [0..<j] (g, sz)
    = Some (g\<lparr>buf := take (sz - 8 * j) (buf g) @ be_bytes (8 * j) (lval W (map unat (take j limbs))) @ drop sz (buf g)\<rparr>, sz - 8 * j)"
  using assms(1,4)
proof (induction j)
  case 0
  then show ?case using assms by (simp add: be_bytes_def)
next
  case (Suc j)
  let ?p = "sz - 8 * j" and ?l = "lval W (map unat (take j limbs))"
  let ?B = "take ?p (buf g) @ be_bytes (8 * j) ?l @ drop sz (buf g)"
  have lB: "length ?B = length (buf g)" using Suc.prems assms(3) by simp
  have q: "isub ?p 8 = Some (sz - 8 * Suc j)" using Suc.prems by simp
  have q8: "sz - 8 * Suc j \<le> ?p" "?p \<le> len g" "?p - (sz - 8 * Suc j) = 8" using Suc.prems assms(2) by simp_all
  have lt: "?l < 256 ^ (8 * j)"
  proof -
    have "?l < W ^ length (map unat (take j limbs))" by (intro lval_less) (auto simp: unat_less_W)
    also have "\<dots> = 256 ^ (8 * j)" using Suc.prems by (simp add: W_def power_mult)
    finally show ?thesis .
  qed
  have v: "lval W (map unat (take (Suc j) limbs)) = unat (limbs ! j) * 256 ^ (8 * j) + ?l"
    using Suc.prems by (simp add: take_Suc_conv_app_nth lval_append lval_Cons W_def power_mult)
  have b: "be_bytes (8 * Suc j) (lval W (map unat (take (Suc j) limbs))) = be_bytes 8 (unat (limbs ! j)) @ be_bytes (8 * j) ?l"
    unfolding v mult_Suc_right by (rule be_bytes_append [OF lt])
  have "slice_write (g\<lparr>buf := ?B\<rparr>) (sz - 8 * Suc j) ?p (putUint64BE (limbs ! j))
      = Some (g\<lparr>buf := take (sz - 8 * Suc j) ?B @ be_bytes 8 (unat (limbs ! j)) @ drop ?p ?B\<rparr>)"
  proof -
    have "on_slice ?B (sz - 8 * Suc j) ?p (putUint64BE (limbs ! j))
        = Some (take (sz - 8 * Suc j) ?B @ be_bytes 8 (unat (limbs ! j)) @ drop ?p ?B)"
      using q8 lB assms(2,3) by (intro on_slice_Some putUint64BE_eq) simp_all
    then show ?thesis using q8(2) by (simp add: slice_write_def)
  qed
  also have "take (sz - 8 * Suc j) ?B = take (sz - 8 * Suc j) (buf g)"
    using Suc.prems assms(3) by (simp add: min_def)
  also have "drop ?p ?B = be_bytes (8 * j) ?l @ drop sz (buf g)"
    using assms(3) by simp
  finally have "slice_write (g\<lparr>buf := ?B\<rparr>) (sz - 8 * Suc j) ?p (putUint64BE (limbs ! j))
      = Some (g\<lparr>buf := take (sz - 8 * Suc j) (buf g) @ be_bytes (8 * Suc j) (lval W (map unat (take (Suc j) limbs))) @ drop sz (buf g)\<rparr>)"
    unfolding b by simp
  then show ?case using Suc q by simp
qed

lemma be_bytes_Suc: "be_bytes (Suc k) n = of_nat (n div 256 ^ k mod 256) # be_bytes k n"
  using fixed_add [of 256 1 k n] by (simp add: be_bytes_def)

lemma topBytes_eq:
  assumes "k \<le> p" "p \<le> len g" "len g \<le> length (buf g)"
  shows "foldM (\<lambda>k (dst, p, v). do { p \<leftarrow> isub p 1; dst \<leftarrow> slice_upd dst p (ucast v); Some (dst, p, drop_bit 8 v) })
      [0..<k] (g, p, v :: u64)
    = Some (g\<lparr>buf := take (p - k) (buf g) @ be_bytes k (unat v) @ drop p (buf g)\<rparr>, p - k, drop_bit (8 * k) v)"
  using assms(1)
proof (induction k)
  case 0
  then show ?case using assms by (simp add: be_bytes_def)
next
  case (Suc k)
  let ?B = "take (p - k) (buf g) @ be_bytes k (unat v) @ drop p (buf g)"
  have t: "take (p - k) (buf g) = take (p - Suc k) (buf g) @ [buf g ! (p - Suc k)]"
    using Suc.prems assms take_Suc_conv_app_nth [of "p - Suc k" "buf g"] by (simp add: Suc_diff_Suc)
  have "ucast (drop_bit (8 * k) v) = (of_nat (unat v div 256 ^ k mod 256) :: u8)"
    by (simp add: ucast_byte unat_drop_bit64 power_mult)
  then have "slice_upd (g\<lparr>buf := ?B\<rparr>) (p - Suc k) (ucast (drop_bit (8 * k) v))
      = Some (g\<lparr>buf := take (p - Suc k) (buf g) @ be_bytes (Suc k) (unat v) @ drop p (buf g)\<rparr>)"
    using Suc.prems assms by (subst slice_upd_Some) (simp_all add: t be_bytes_Suc list_update_append)
  moreover have "isub (p - k) 1 = Some (p - Suc k)" using Suc.prems by simp
  ultimately show ?case using Suc by (simp add: add.commute)
qed

lemma byte_digits_limbs:
  assumes "0 < v" "low < 256 ^ (8 * t)"
  shows "byte_digits (v * 256 ^ (8 * t) + low) = byte_digits v @ be_bytes (8 * t) low"
proof -
  let ?bs = "byte_digits v @ be_bytes (8 * t) low"
  have "bytes_val ?bs = v * 256 ^ (8 * t) + low"
    using bytes_val_be_bytes [OF assms(2)] by (simp add: bytes_val_append)
  moreover have "byte_digits v \<noteq> []" using assms(1) bytes_val_byte_digits [of v] by (metis bytes_val_Nil less_not_refl)
  then have "dropWhile (\<lambda>b. b = 0) ?bs = ?bs" using byte_digits_hd [of v] by (cases "byte_digits v") auto
  ultimately show ?thesis using byte_digits_bytes_val [of ?bs] by simp
qed


text \<open>The output stage as a whole: zero bytes, then the bytes of the number in the limbs.\<close>

lemma write_number:
  assumes wf: "wf_slice dst" and A: "active_limbs limbs active N" and N: "0 < N"
  shows "\<exists>t v s. isub active 1 = Some t \<and> idx limbs t = Some v \<and>
    do { let topBytes = (bitLen (unat v) + 7) div 8;
         let start = len dst;
         let sz = start + zeros + t * 8 + topBytes;
         d \<leftarrow> grow_to dst sz sz;
         d \<leftarrow> foldM (\<lambda>j d. slice_upd d j 0) [start..<start + zeros] d;
         (d, p) \<leftarrow> foldM (\<lambda>j (dst, p).
             do { q \<leftarrow> isub p 8; dst \<leftarrow> slice_write dst q p (putUint64BE (limbs ! j)); Some (dst, q) })
           [0..<t] (d, sz);
         (d, p, v) \<leftarrow> foldM (\<lambda>k (dst, p, v).
             do { p \<leftarrow> isub p 1; dst \<leftarrow> slice_upd dst p (ucast v); Some (dst, p, drop_bit 8 v) })
           [0..<topBytes] (d, p, v);
         Some (Inr d :: decode_error + gslice) } = Some (Inr s) \<and>
    appended dst (replicate zeros 0 @ byte_digits N) s"
proof -
  have a: "active \<noteq> 0" using A N by (cases "active = 0") (simp_all add: active_limbs_def)
  define t where "t = active - 1"
  have t: "active = Suc t" "t < length limbs" using a A by (auto simp: t_def active_limbs_def)
  let ?v = "limbs ! t" and ?low = "lval W (map unat (take t limbs))" and ?n = "length (byte_digits (unat (limbs ! t)))"
  have v0: "0 < unat ?v" using A t(1) by (simp add: active_limbs_def unat_gt_0)
  have W256: "W ^ t = 256 ^ (8 * t)" by (simp add: W_def power_mult)
  have "lval W (map unat (take (Suc t) limbs)) = N" using A t(1) by (simp add: active_limbs_def)
  then have Nv: "N = unat ?v * 256 ^ (8 * t) + ?low"
    using t(2) by (simp add: take_Suc_conv_app_nth lval_append lval_Cons W256 mult.commute add.commute)
  have "?low < W ^ length (map unat (take t limbs))" by (intro lval_less) (auto simp: unat_less_W)
  then have low: "?low < 256 ^ (8 * t)" using t(2) W256 by simp
  note bs = byte_digits_limbs [OF v0 low, folded Nv]
  let ?L = "len dst + zeros + (t * 8 + ?n)"
  have L: "len dst + zeros + t * 8 + ?n = ?L" by simp
  have ld: "length (contents dst) = len dst" using wf by simp
  obtain g0 where G0: "grow_to dst ?L ?L = Some g0" "len g0 = ?L" "?L \<le> length (buf g0)" "take (len dst) (buf g0) = contents dst"
    "if ?L \<le> cap dst then fresh g0 = fresh dst \<and> buf g0 = buf dst else fresh g0"
    using grown [OF wf, of ?L] by (auto simp del: add.assoc)
  define g where "g = g0\<lparr>buf := contents dst @ replicate zeros 0 @ drop (len dst + zeros) (buf g0)\<rparr>"
  have Z: "foldM (\<lambda>j d. slice_upd d j 0) [len dst..<len dst + zeros] g0 = Some g"
    using G0(2-4) zeroLoop_eq [of "len dst" zeros g0] by (simp add: g_def)
  have g: "len g = ?L" "?L \<le> length (buf g)" using G0(2,3) ld by (simp_all add: g_def)
  have R: "window_ready dst zeros (t * 8 + ?n) g"
    using G0 ld by (auto simp: window_ready_def g_def ac_simps)
  let ?h = "g\<lparr>buf := take (?L - 8 * t) (buf g) @ be_bytes (8 * t) ?low @ drop ?L (buf g)\<rparr>"
  have F: "foldM (\<lambda>j (dst, p). do { q \<leftarrow> isub p 8; dst \<leftarrow> slice_write dst q p (putUint64BE (limbs ! j)); Some (dst, q) })
      [0..<t] (g, ?L) = Some (?h, ?L - 8 * t)"
    using g t(2) by (intro limbBytes_eq) simp_all
  have p: "?L - 8 * t = len dst + zeros + ?n" by simp
  have h: "len ?h = ?L" "len ?h \<le> length (buf ?h)" using g by (simp, simp)
  let ?b = "take (?L - 8 * t - ?n) (buf ?h) @ be_bytes ?n (unat ?v) @ drop (?L - 8 * t) (buf ?h)"
  have T: "foldM (\<lambda>k (dst, p, v). do { p \<leftarrow> isub p 1; dst \<leftarrow> slice_upd dst p (ucast v); Some (dst, p, drop_bit 8 v) })
      [0..<?n] (?h, ?L - 8 * t, ?v) = Some (?h\<lparr>buf := ?b\<rparr>, ?L - 8 * t - ?n, drop_bit (8 * ?n) ?v)"
    using h by (intro topBytes_eq) simp_all
  let ?s = "g\<lparr>buf := take (len dst + zeros) (buf g) @ byte_digits N @ drop ?L (buf g)\<rparr>"
  have "?b = take (len dst + zeros) (buf g) @ byte_digits N @ drop ?L (buf g)"
    using g(2) unfolding bs p be_bytes_byte_digits by (simp add: min_def)
  then have s: "?h\<lparr>buf := ?b\<rparr> = ?s" by simp
  have "length (byte_digits N) = t * 8 + ?n" unfolding bs by simp
  from window_filled [where f = "\<lambda>_. Some (byte_digits N)", OF wf R refl this]
  have "appended dst (replicate zeros 0 @ byte_digits N) ?s"
    using g by (auto simp: slice_write_def on_slice_def add.assoc)
  moreover have "isub active 1 = Some t" "idx limbs t = Some ?v" using t by simp_all
  ultimately show ?thesis
    using G0(1) Z F T unfolding s bitLen_bytes L
    by (intro exI [of _ t] exI [of _ ?v] exI [of _ ?s]) (simp only: Let_def L Option.bind.simps prod.case simp_thms)
qed


section \<open>The decoders for any length\<close>

lemma str_val_pos: "s \<noteq> [] \<Longrightarrow> hd s \<noteq> 49 \<Longrightarrow> list_all b58_valid s \<Longrightarrow> 0 < str_val s"
  by (cases s) (auto simp: str_val_Cons b58_digit_eq_0 intro!: gr0I)

lemma scratch_decodes:
  assumes wf: "wf_slice dst" and s: "s \<noteq> []" "hd s \<noteq> 49" and room: "58 ^ length s \<le> W ^ length limbs"
  shows "if list_all b58_valid s
    then \<exists>r. appendDecodeVariableScratch dst s zeros limbs = Some (Inr r) \<and>
      appended dst (replicate zeros 0 @ byte_digits (str_val s)) r
    else appendDecodeVariableScratch dst s zeros limbs = Some (Inl ErrInvalidChar)"
proof -
  let ?g = "if length s mod 20 = 0 then 20 else length s mod 20"
  have n: "length s = 0 + ?g + 20 * ((length s - 1) div 20)" using s(1) by (intro head_group) simp_all
  have g: "0 < ?g" "?g \<le> 20" by (simp_all add: less_imp_le)
  have "list_all b58_valid (take 0 s)" "active_limbs limbs 0 (str_val (take 0 s))" by (simp_all add: active_limbs_def)
  from limbLoop_eq [OF n g _ this room] have L: "if list_all b58_valid s
    then \<exists>limbs' active'. limbLoop s 0 ?g limbs 0 = Some (Inr (limbs', active')) \<and>
      length limbs' = length limbs \<and> active_limbs limbs' active' (str_val s)
    else limbLoop s 0 ?g limbs 0 = Some (Inl ErrInvalidChar)" by simp
  show ?thesis
  proof (cases "list_all b58_valid s")
    case False
    then show ?thesis using L by (simp add: appendDecodeVariableScratch_def Let_def)
  next
    case True
    then obtain limbs' active where R: "limbLoop s 0 ?g limbs 0 = Some (Inr (limbs', active))"
      "active_limbs limbs' active (str_val s)" using L by auto
    obtain t v r where O: "isub active 1 = Some t" "idx limbs' t = Some v"
      "do { let topBytes = (bitLen (unat v) + 7) div 8;
         let start = len dst;
         let sz = start + zeros + t * 8 + topBytes;
         d \<leftarrow> grow_to dst sz sz;
         d \<leftarrow> foldM (\<lambda>j d. slice_upd d j 0) [start..<start + zeros] d;
         (d, p) \<leftarrow> foldM (\<lambda>j (dst, p).
             do { q \<leftarrow> isub p 8; dst \<leftarrow> slice_write dst q p (putUint64BE (limbs' ! j)); Some (dst, q) })
           [0..<t] (d, sz);
         (d, p, v) \<leftarrow> foldM (\<lambda>k (dst, p, v).
             do { p \<leftarrow> isub p 1; dst \<leftarrow> slice_upd dst p (ucast v); Some (dst, p, drop_bit 8 v) })
           [0..<topBytes] (d, p, v);
         Some (Inr d :: decode_error + gslice) } = Some (Inr r)"
      "appended dst (replicate zeros 0 @ byte_digits (str_val s)) r"
      using write_number [OF wf R(2) str_val_pos [OF s True], of zeros] by blast
    have "appendDecodeVariableScratch dst s zeros limbs = Some (Inr r)"
      unfolding appendDecodeVariableScratch_def
      using R(1) O(1-3) by (simp only: Let_def Option.bind.simps sum.case prod.case)
    then show ?thesis using True O(4) by simp
  qed
qed

lemma eight_ceil: "m \<le> 8 * ((m + 7) div 8)" for m :: nat
  by presburger

lemma limbs_enough: "(58 :: nat) ^ n \<le> W ^ ((n * 733 div 1000 + 1 + 7) div 8)"
proof -
  let ?m = "n * 733 div 1000 + 1"
  have "n * 733 \<le> 1000 * ?m" by simp
  then have le: "n * 52 \<le> 71 * ?m" by linarith
  have "(58 :: nat) ^ 71 \<le> 256 ^ 52" by simp
  from power_bound [OF this le] have "(58 :: nat) ^ n \<le> 256 ^ ?m" by simp
  also have "\<dots> \<le> 256 ^ (8 * ((?m + 7) div 8))"
  proof (rule power_increasing)
    show "?m \<le> 8 * ((?m + 7) div 8)" by (rule eight_ceil)
  qed simp
  also have "\<dots> = W ^ ((?m + 7) div 8)" by (simp only: power_mult) (simp add: W_def)
  finally show ?thesis .
qed

lemma appendDecodeVariable_decodes:
  assumes wf: "wf_slice dst" and z: "zeros = leading 49 encoded" "zeros < length encoded"
  shows "decodes_to dst encoded (appendDecodeVariable dst encoded zeros)"
proof -
  let ?s = "drop zeros encoded"
  let ?k = "(length ?s * 733 div 1000 + 1 + 7) div 8"
  have sub: "subslice encoded zeros (length encoded) = Some ?s" using z(2) by simp
  show ?thesis
  proof (cases "largeDecodeThreshold \<le> length ?s")
    case True
    then show ?thesis
      using appendDecodeLarge_decodes [OF wf z] sub by (simp add: appendDecodeVariable_def Let_def)
  next
    case False
    have ne: "?s \<noteq> []" using z(2) by simp
    then have hd: "hd ?s \<noteq> 49" unfolding z(1) drop_leading by (rule dropWhile_hd)
    have scr: "(if ?k \<le> 24 then subslice (replicate 24 0) 0 ?k
        else if ?k \<le> 66 then subslice (replicate 66 0) 0 ?k
        else if ?k \<le> 128 then subslice (replicate 128 0) 0 ?k
        else Some (replicate ?k 0)) = Some (replicate ?k (0 :: u64))"
      by (simp add: min_def)
    have "appendDecodeVariable dst encoded zeros = appendDecodeVariableScratch dst ?s zeros (replicate ?k 0)"
      unfolding appendDecodeVariable_def sub using False
      by (simp only: Option.bind.simps Let_def if_False scr)
    moreover have "58 ^ length ?s \<le> W ^ length (replicate ?k (0 :: u64))" unfolding length_replicate by (rule limbs_enough)
    note scratch_decodes [OF wf ne hd this, of zeros]
    ultimately show ?thesis
      unfolding decodes_to_def b58_decode_split z(1) [symmetric]
      by (cases "list_all b58_valid ?s") simp_all
  qed
qed

interpretation variable_decoder: append_decoder appendDecodeVariable 1 n for n
  by unfold_locales (rule appendDecodeVariable_decodes)

section \<open>\<open>Decode\<close> and \<open>AppendDecode\<close>\<close>

text \<open>
  The attempts at a fixed width: \<open>need\<close> may be negative, so it is an integer.  The result is the
  array on success and \<open>None\<close> when the attempt is not made or fails.
\<close>

definition tryFixed :: "(bytes \<Rightarrow> bytes \<Rightarrow> (decode_error option \<times> bytes) option) \<Rightarrow> nat \<Rightarrow> nat \<Rightarrow> bytes \<Rightarrow> nat \<Rightarrow>
    bytes option option" where
  "tryFixed dec n maxLen encoded zeros =
     (let encLen = length encoded; k = encLen - zeros
      in if encLen \<ge> n \<and> encLen \<le> maxLen
         then do {
           let need = int n - int zeros;
           lo \<leftarrow> idx decMinBytes k;
           hi \<leftarrow> idx decMaxBytes k;
           if need \<ge> int (unat lo) \<and> need \<le> int (unat hi)
           then do { (err, dst) \<leftarrow> dec encoded (replicate n 0);
                     Some (if err = None then Some dst else None) }
           else Some None }
         else Some None)"

definition Decode :: "bytes \<Rightarrow> (decode_error + gslice) option" where
  "Decode encoded =
     (if length encoded = 0 then Some (Inr (make_copy 0 0 nil_slice))
      else let zeros = leading (byte CHR ''1'') encoded
      in if zeros = length encoded then Some (Inr (make_copy zeros zeros nil_slice))
      else do {
        a \<leftarrow> tryFixed Decode32 32 EncodedMaxLen32 encoded zeros;
        case a of Some dst \<Rightarrow> Some (Inr \<lparr>buf = go_copy (replicate 32 0) dst, len = 32, fresh = True\<rparr>)
        | None \<Rightarrow> do {
          a \<leftarrow> tryFixed Decode64 64 EncodedMaxLen64 encoded zeros;
          case a of Some dst \<Rightarrow> Some (Inr \<lparr>buf = go_copy (replicate 64 0) dst, len = 64, fresh = True\<rparr>)
          | None \<Rightarrow> appendDecodeVariable nil_slice encoded zeros } })"

definition AppendDecode :: "(nat \<Rightarrow> nat \<Rightarrow> nat) \<Rightarrow> gslice \<Rightarrow> bytes \<Rightarrow> (decode_error + gslice) option" where
  "AppendDecode grow dst encoded =
     (if length encoded = 0 then Some (Inr dst)
      else let zeros = leading (byte CHR ''1'') encoded
      in if zeros = length encoded then Some (Inr (fold (\<lambda>_ dst. go_append grow dst [0]) [0..<zeros] dst))
      else do {
        a \<leftarrow> tryFixed Decode32 32 EncodedMaxLen32 encoded zeros;
        case a of Some tmp \<Rightarrow> Some (Inr (go_append grow dst tmp))
        | None \<Rightarrow> do {
          a \<leftarrow> tryFixed Decode64 64 EncodedMaxLen64 encoded zeros;
          case a of Some tmp \<Rightarrow> Some (Inr (go_append grow dst tmp))
          | None \<Rightarrow> appendDecodeVariable dst encoded zeros } })"


section \<open>Correctness for strings of any length\<close>

text \<open>What the dispatch needs from a fixed-width decoder.\<close>

locale fixed_decoder =
  fixes dec :: "bytes \<Rightarrow> bytes \<Rightarrow> (decode_error option \<times> bytes) option"
    and n maxLen :: nat
  assumes total: "length dst = n \<Longrightarrow> dec s dst \<noteq> None"
    and success: "length dst = n \<Longrightarrow> dec s dst = Some (None, out) \<longleftrightarrow> length out = n \<and> b58_encode out = s"
    and maxLen: "maxLen \<le> 88"
begin

lemma attempt:
  "\<exists>a. tryFixed dec n maxLen s zeros = Some a \<and>
     (\<forall>out. a = Some out \<longrightarrow> length out = n \<and> b58_decode s = Some out)"
proof (cases "n \<le> length s \<and> length s \<le> maxLen")
  case True
  then have "length s \<le> maxLen" by simp
  then have k: "length s - zeros < 89" using maxLen by linarith
  obtain err out where D: "dec s (replicate n 0) = Some (err, out)" using total [of "replicate n 0" s] by auto
  have "length out = n \<and> b58_decode s = Some out" if "err = None"
    using D that success [of "replicate n 0" s out] b58_decode_encode [of out] by auto
  then show ?thesis using True k D by (simp add: tryFixed_def Let_def)
next
  case False
  then show ?thesis by (simp only: tryFixed_def Let_def if_False) simp
qed

end

interpretation fixed32: fixed_decoder Decode32 32 EncodedMaxLen32
  using Decode32_success by unfold_locales (simp_all add: Decode32_eq)

interpretation fixed64: fixed_decoder Decode64 64 EncodedMaxLen64
  using Decode64_success by unfold_locales (simp_all add: Decode64_eq)

lemma decode_zeros:
  assumes "leading 49 s = length s"
  shows "b58_decode s = Some (replicate (length s) 0)"
proof -
  have "drop (leading 49 s) s = []" using assms by simp
  then show ?thesis using assms by (simp add: b58_decode_split)
qed

lemma byte_1: "byte CHR ''1'' = 49"
  by simp

text \<open>The dispatch shared by \<open>Decode\<close> and \<open>AppendDecode\<close>.\<close>

lemma dispatch:
  fixes f :: "bytes \<Rightarrow> decode_error + gslice"
  shows "(do { a \<leftarrow> tryFixed Decode32 32 EncodedMaxLen32 s z;
        case a of Some dst \<Rightarrow> Some (f dst)
        | None \<Rightarrow> do {
          a \<leftarrow> tryFixed Decode64 64 EncodedMaxLen64 s z;
          case a of Some dst \<Rightarrow> Some (g dst)
          | None \<Rightarrow> r } }) = r
    \<or> (\<exists>out. length out = 32 \<and> b58_decode s = Some out \<and>
        (do { a \<leftarrow> tryFixed Decode32 32 EncodedMaxLen32 s z;
        case a of Some dst \<Rightarrow> Some (f dst)
        | None \<Rightarrow> do {
          a \<leftarrow> tryFixed Decode64 64 EncodedMaxLen64 s z;
          case a of Some dst \<Rightarrow> Some (g dst)
          | None \<Rightarrow> r } }) = Some (f out))
    \<or> (\<exists>out. length out = 64 \<and> b58_decode s = Some out \<and>
        (do { a \<leftarrow> tryFixed Decode32 32 EncodedMaxLen32 s z;
        case a of Some dst \<Rightarrow> Some (f dst)
        | None \<Rightarrow> do {
          a \<leftarrow> tryFixed Decode64 64 EncodedMaxLen64 s z;
          case a of Some dst \<Rightarrow> Some (g dst)
          | None \<Rightarrow> r } }) = Some (g out))"
proof -
  obtain a where A: "tryFixed Decode32 32 EncodedMaxLen32 s z = Some a"
    "\<forall>out. a = Some out \<longrightarrow> length out = 32 \<and> b58_decode s = Some out" using fixed32.attempt by blast
  obtain b where B: "tryFixed Decode64 64 EncodedMaxLen64 s z = Some b"
    "\<forall>out. b = Some out \<longrightarrow> length out = 64 \<and> b58_decode s = Some out" using fixed64.attempt by blast
  show ?thesis using A B by (cases a; cases b) simp_all
qed

theorem AppendDecode_decodes:
  assumes "wf_slice dst"
  shows "decodes_to dst s (AppendDecode grow dst s)"
proof -
  consider "s = []" | "s \<noteq> []" "leading 49 s = length s" | "s \<noteq> []" "leading 49 s \<noteq> length s" by blast
  then show ?thesis
  proof cases
    case 1
    then show ?thesis
      using appended_Nil [OF assms] by (simp add: AppendDecode_def decodes_to_def b58_decode_def)
  next
    case 2
    then show ?thesis
      using append_ones [OF assms, of "length s" 0 grow] by (simp add: AppendDecode_def decodes_to_def decode_zeros)
  next
    case 3
    have lt: "leading 49 s < length s" using 3(2) leading_le [of 49 s] by simp
    show ?thesis
      using dispatch [where s = s and z = "leading 49 s" and f = "\<lambda>tmp. Inr (go_append grow dst tmp)"
            and g = "\<lambda>tmp. Inr (go_append grow dst tmp)" and r = "appendDecodeVariable dst s (leading 49 s)"]
        appendDecodeVariable_decodes [OF assms refl lt] go_append_appended [OF assms, of _ grow] 3
      by (elim disjE exE conjE) (simp_all add: AppendDecode_def decodes_to_def)
  qed
qed

theorem Decode_decodes:
  "case b58_decode s of
     None \<Rightarrow> Decode s = Some (Inl ErrInvalidChar)
   | Some out \<Rightarrow> \<exists>r. Decode s = Some (Inr r) \<and> contents r = out \<and> wf_slice r \<and> fresh r"
proof -
  have z: "contents (make_copy k k nil_slice) = replicate k 0 \<and> wf_slice (make_copy k k nil_slice) \<and>
      fresh (make_copy k k nil_slice)" for k
    by (simp add: make_copy_def contents_def wf_slice_def cap_def nil_slice_def go_copy_def)
  consider "s = []" | "s \<noteq> []" "leading 49 s = length s" | "s \<noteq> []" "leading 49 s \<noteq> length s" by blast
  then show ?thesis
  proof cases
    case 1
    then show ?thesis using z [of 0] by (simp add: Decode_def b58_decode_def)
  next
    case 2
    then show ?thesis using z [of "length s"] by (simp add: Decode_def decode_zeros Let_def)
  next
    case 3
    have lt: "leading 49 s < length s" using 3(2) leading_le [of 49 s] by simp
    let ?z = "leading 49 s"
    have D: "Decode s = do {
        a \<leftarrow> tryFixed Decode32 32 EncodedMaxLen32 s ?z;
        case a of Some dst \<Rightarrow> Some (Inr \<lparr>buf = go_copy (replicate 32 0) dst, len = 32, fresh = True\<rparr>)
        | None \<Rightarrow> do {
          a \<leftarrow> tryFixed Decode64 64 EncodedMaxLen64 s ?z;
          case a of Some dst \<Rightarrow> Some (Inr \<lparr>buf = go_copy (replicate 64 0) dst, len = 64, fresh = True\<rparr>)
          | None \<Rightarrow> appendDecodeVariable nil_slice s ?z } }"
      using 3 by (simp only: Decode_def Let_def length_0_conv byte_1 if_False)
    have fixed: "contents \<lparr>buf = go_copy (replicate n 0) out, len = n, fresh = True\<rparr> = out \<and>
        wf_slice \<lparr>buf = go_copy (replicate n 0) out, len = n, fresh = True\<rparr>" if "length out = n" for n out
      using that by (simp add: contents_def wf_slice_def cap_def go_copy_def)
    have v: "decodes_to nil_slice s (appendDecodeVariable nil_slice s ?z)"
      by (rule appendDecodeVariable_decodes [OF _ refl lt]) simp
    have ne: "out \<noteq> []" if "b58_decode s = Some out" for out
      using that b58_encode_decode [OF that] 3(1) by auto
    consider (var) "Decode s = appendDecodeVariable nil_slice s ?z"
      | (f) n out where "length out = n" "b58_decode s = Some out"
          "Decode s = Some (Inr \<lparr>buf = go_copy (replicate n 0) out, len = n, fresh = True\<rparr>)"
      using dispatch [where s = s and z = ?z and f = "\<lambda>dst. Inr \<lparr>buf = go_copy (replicate 32 0) dst, len = 32, fresh = True\<rparr>"
            and g = "\<lambda>dst. Inr \<lparr>buf = go_copy (replicate 64 0) dst, len = 64, fresh = True\<rparr>"
            and r = "appendDecodeVariable nil_slice s ?z"]
      unfolding D [symmetric] by blast
    then show ?thesis
    proof cases
      case var
      show ?thesis
      proof (cases "b58_decode s")
        case (Some out)
        then obtain r where "Decode s = Some (Inr r)" "appended nil_slice out r"
          using v var by (auto simp: decodes_to_def)
        then show ?thesis using Some ne [OF Some] by (auto simp: appended_def nil_slice_def cap_def contents_def)
      qed (use v var in \<open>simp add: decodes_to_def\<close>)
    next
      case f
      then show ?thesis using fixed [OF f(1)] by simp
    qed
  qed
qed

end
