(* ===== verification/Amd64_Block.thy ===== *)
theory Amd64_Block
  imports Amd64_Text Encode_Absorb
begin

text \<open>
  The amd64 build of the block radix (\<open>encode_block_amd64.go\<close>): the vector convolution with
  \<open>2 ^ 512\<close>, which reads seventeen zero limbs in front of the number, and the padded 64-byte kernel
  that replaces the portable matrix for inputs of 33 to 64 bytes.
\<close>

section \<open>The code\<close>

record block_kernels = text_kernels +
  encodeConvolveP512AVX2 :: "u32 list \<Rightarrow> nat \<Rightarrow> u64 list \<Rightarrow> u64 list"

text \<open>The limbs of \<open>2 ^ 512\<close>, most significant first, and two zeros.\<close>

definition blockP512Wide :: "u64 list" where
  "blockP512Wide =
     fold (\<lambda>i t. t[i := ucast (pow2_512_base58_5 ! (length pow2_512_base58_5 - 1 - i))])
       [0..<length pow2_512_base58_5] (replicate 20 0)"

text \<open>
  \<open>pad\<close> are the limbs of the scratch array in front of \<open>digits\<close>, where the pointer given to the kernel
  starts; \<open>False\<close> leaves the convolution to the portable loops.
\<close>

definition encodeConvolveP512All_amd64 :: "'a block_kernels_scheme \<Rightarrow> u32 list \<Rightarrow> u32 list \<Rightarrow> nat \<Rightarrow> nat \<Rightarrow> u64 list \<Rightarrow>
    (bool \<times> u32 list \<times> u64 list) option" where
  "encodeConvolveP512All_amd64 k pad digits count n tmp =
     (if \<not> useAVX2 k then Some (False, digits, tmp)
      else do {
        digits \<leftarrow> on_slice digits count n (\<lambda>w. Some (replicate (length w) 0));
        _ \<leftarrow> idx digits 0;
        _ \<leftarrow> idx tmp 0;
        Some (True, digits, encodeConvolveP512AVX2 k (pad @ digits) n tmp) })"

text \<open>The loop for the middle columns is the portable one.\<close>

definition encodeConvolveP512_amd64 :: "u32 list \<Rightarrow> nat \<Rightarrow> u64 list \<Rightarrow> u64 list option" where
  "encodeConvolveP512_amd64 digits count =
     foldM (\<lambda>column tmp.
         do { w \<leftarrow> subslice digits (column - 17) (column + 1);
              s \<leftarrow> encodeMulP512 w;
              upd tmp column s })
       [17..<count]"

definition encodePaddedFixedTail_amd64 :: "'a text_kernels_scheme \<Rightarrow> bytes \<Rightarrow> bytes \<Rightarrow> (nat \<times> bytes) option option" where
  "encodePaddedFixedTail_amd64 k src out =
     (if \<not> useAVX2 k then Some None
      else do {
        b \<leftarrow> padded 64 src;
        r \<leftarrow> appendEncode64Fast_amd64 k \<lparr>buf = replicate EncodedMaxLen64 0, len = 0, fresh = False\<rparr> b;
        case r of None \<Rightarrow> Some None
        | Some encoded \<Rightarrow> do {
            lo \<leftarrow> isub 64 (length src);
            w \<leftarrow> subslice (contents encoded) lo (len encoded);
            p \<leftarrow> isub (length out) (length w);
            out \<leftarrow> on_slice out p (length out) (\<lambda>o'. Some (go_copy o' w));
            Some (Some (p, out)) } })"

section \<open>The vector convolution\<close>

text \<open>Every column is the same dot product of 18 terms, from the padded limbs on.\<close>

definition padded_column :: "u32 list \<Rightarrow> nat \<Rightarrow> u64" where
  "padded_column p c = sum_list (map (\<lambda>j. ucast (p ! (c + j)) * blockP512Wide ! j) [0..<18])"

definition convolve_documented :: "'a block_kernels_scheme \<Rightarrow> bool" where
  "convolve_documented k \<longleftrightarrow>
     (\<forall>p n tmp. 0 < n \<and> n < 2 ^ 64 \<and> n + 17 \<le> length p \<and> n \<le> length tmp \<longrightarrow>
        encodeConvolveP512AVX2 k p n tmp = map (padded_column p) [0..<n] @ drop n tmp)"

lemma blockP512Wide_nth: "j < 18 \<Longrightarrow> blockP512Wide ! j = ucast (pow2_512_base58_5 ! (17 - j))"
  using fold_update [of 18 "replicate 20 (0 :: u64)" "\<lambda>i _. ucast (pow2_512_base58_5 ! (17 - i))"]
  by (simp add: blockP512Wide_def nth_append)

text \<open>
  With zero limbs on both sides of the number the dot products are the columns of the product, the
  triangular edges included.
\<close>

lemma padded_column_eq:
  assumes "c < count + 18" "length ds = count"
  shows "padded_column (replicate 17 0 @ ds @ replicate 18 0 @ rest) c = columns (map unat ds) c"
proof -
  define p where "p = replicate 17 0 @ ds @ replicate 18 0 @ rest"
  let ?summand = "\<lambda>j. unat (p ! (c + j)) * pow512 ! (17 - j)"
  let ?J = "{j \<in> {..<18}. 17 \<le> c + j \<and> c + j < count + 17}"
  let ?K = "{k. k < count \<and> k \<le> c \<and> c < k + 18}"
  have outside: "p ! (c + j) = 0" if "j < 18" "\<not> (17 \<le> c + j \<and> c + j < count + 17)" for j
  proof (cases "c + j < 17")
    case True
    then show ?thesis by (simp add: p_def nth_append)
  next
    case False
    then have "c + j - 17 - count < 18" "\<not> c + j - 17 < count" using that assms(1) by linarith+
    then show ?thesis using False assms(2) by (simp add: p_def nth_append)
  qed
  have inside: "p ! (c + j) = ds ! (c + j - 17)" if "17 \<le> c + j" "c + j < count + 17" for j
  proof -
    have "c + j - 17 < count" using that by linarith
    then show ?thesis using that assms(2) by (simp add: p_def nth_append)
  qed
  have word: "ucast (p ! (c + j)) * blockP512Wide ! j = of_nat (?summand j)" if "j < 18" for j
  proof -
    have "pow512 ! (17 - j) = unat (pow2_512_base58_5 ! (17 - j))" by (intro nth_map) simp
    then show ?thesis by (simp only: blockP512Wide_nth [OF that] product_word)
  qed
  have "padded_column p c = sum_list (map (\<lambda>j. of_nat (?summand j)) [0..<18])"
    unfolding padded_column_def by (intro arg_cong [where f = sum_list] map_cong refl) (simp only: word set_upt atLeastLessThan_iff)
  also have "\<dots> = of_nat (\<Sum>j < 18. ?summand j)"
    by (simp add: interv_sum_list_conv_sum_set_nat atLeast0LessThan del: of_nat_mult)
  also have "(\<Sum>j < 18. ?summand j) = (\<Sum>j \<in> ?J. ?summand j)"
  proof (rule sum.mono_neutral_right)
    show "\<forall>j \<in> {..<18} - ?J. ?summand j = 0" using outside by auto
  qed auto
  also have "\<dots> = (\<Sum>k \<in> ?K. map unat ds ! k * pow512 ! (c - k))"
  proof (rule sum.reindex_bij_witness [where i = "\<lambda>k. k + 17 - c" and j = "\<lambda>j. c + j - 17"])
    fix j
    assume "j \<in> ?J"
    then have "17 \<le> c + j" "c + j < count + 17" "c - (c + j - 17) = 17 - j" by auto
    then show "map unat ds ! (c + j - 17) * pow512 ! (c - (c + j - 17)) = ?summand j"
      using inside assms(2) by simp
  qed auto
  also have "\<dots> = conv (map unat ds) pow512 c" by (rule conv_window [symmetric]) (use assms(2) in simp)
  finally show ?thesis unfolding p_def .
qed

lemma encodeConvolveP512All_amd64_eq:
  assumes "convolve_documented k" "useAVX2 k" "count + 18 \<le> length digits" "count + 18 \<le> length tmp"
    "count + 18 < 2 ^ 64"
  shows "\<exists>digits' tmp'. encodeConvolveP512All_amd64 k (replicate 17 0) digits count (count + 18) tmp = Some (True, digits', tmp') \<and>
    convolveRows digits count (count + 18) tmp = Some tmp' \<and>
    length digits' = length digits \<and> take count digits' = take count digits"
proof -
  let ?ds = "take count digits" and ?n = "count + 18"
  let ?d' = "?ds @ replicate 18 0 @ drop ?n digits"
  have "encodeConvolveP512All_amd64 k (replicate 17 0) digits count ?n tmp =
      Some (True, ?d', encodeConvolveP512AVX2 k (replicate 17 0 @ ?d') ?n tmp)"
  proof -
    have "idx ?d' 0 = Some (?d' ! 0)" "idx tmp 0 = Some (tmp ! 0)" using assms(3,4) by (intro idx_Some; force)+
    then show ?thesis using assms(2,3) by (simp add: encodeConvolveP512All_amd64_def on_slice_def)
  qed
  moreover have "encodeConvolveP512AVX2 k (replicate 17 0 @ ?d') ?n tmp =
      map (padded_column (replicate 17 0 @ ?d')) [0..<?n] @ drop ?n tmp"
    using assms(1,3-5) unfolding convolve_documented_def by simp
  moreover have "map (padded_column (replicate 17 0 @ ?d')) [0..<?n] = map (columns (map unat ?ds)) [0..<?n]"
    using assms(3) by (intro map_cong refl padded_column_eq [where count = count]) simp_all
  moreover have "convolveRows digits count ?n tmp = Some (map (columns (map unat ?ds)) [0..<?n] @ drop ?n tmp)"
    using assms(3,4) by (intro convolveRows_eq) simp_all
  ultimately show ?thesis using assms(3) by simp
qed

text \<open>Without AVX2 nothing changes and the portable loops run.\<close>

lemma encodeConvolveP512All_amd64_scalar:
  "\<not> useAVX2 k \<Longrightarrow> encodeConvolveP512All_amd64 k pad digits count n tmp = Some (False, digits, tmp)"
  by (simp add: encodeConvolveP512All_amd64_def)

definition reference_block :: "bool \<Rightarrow> block_kernels" where
  "reference_block avx2 =
     text_kernels.extend (reference_text avx2)
       \<lparr>encodeConvolveP512AVX2 = (\<lambda>p n tmp. map (padded_column p) [0..<n] @ drop n tmp)\<rparr>"

lemma reference_block:
  "convolve_documented (reference_block avx2)" "useAVX2 (reference_block avx2) = avx2"
  by (simp_all add: convolve_documented_def reference_block_def reference_text_def Let_def
      text_kernels.defs block_kernels.defs)

section \<open>The padded kernel\<close>

lemma encodePaddedFixedTail_amd64_done:
  assumes "encode_documented k" "useAVX2 k" "length b \<le> 64" "b \<noteq> []" "hd b \<noteq> 0" "variableSize (length b) \<le> length out"
  shows "\<exists>r. encodePaddedFixedTail_amd64 k b out = Some (Some r) \<and> tail_done b out (Some r)"
proof -
  let ?z = "64 - length b" and ?d = "b58_digits (bytes_val b)"
  let ?p = "replicate ?z 0 @ b"
  let ?s = "\<lparr>buf = replicate 88 0, len = 0, fresh = False\<rparr>"
  have pad: "padded 64 b = Some ?p" using assms(3) by (simp add: padded_def on_slice_def go_copy_def)
  have "wf_slice ?s" "length ?p = 64" using assms(3) by (simp_all add: wf_slice_def)
  from appendEncode64Fast_amd64_eq [OF assms(1) this(2,1)] assms(2) obtain s where
    F: "appendEncode64Fast_amd64 k ?s ?p = Some (Some s)" "window_appended ?s 88 (b58_encode ?p) s"
    by (auto simp: cap_def)
  have e: "b58_encode ?p = replicate ?z 49 @ ?d"
    using assms(4,5) leading_replicate_append [of b 0 ?z] by (simp add: b58_encode_def bytes_val_append)
  have s: "contents s = replicate ?z 49 @ ?d" "len s = ?z + length ?d" "wf_slice s"
    using F(2) by (auto simp: window_appended_def e contents_def)
  have le: "length ?d \<le> length out"
    using digits_bound [of b] variableSize_enough(2) [of "length b"] assms(6) by linarith
  have "encodePaddedFixedTail_amd64 k b out =
      Some (Some (length out - length ?d, take (length out - length ?d) out @ ?d))"
    using assms(2,3) pad F(1) s(1,2) le by (simp add: encodePaddedFixedTail_amd64_def on_slice_def go_copy_def)
  then show ?thesis using le by (simp add: tail_done_def)
qed

end
