(* ===== verification/Asm_Convolve.thy ===== *)
theory Asm_Convolve
  imports Asm_Memory Amd64_Block
begin

text \<open>
  The vector convolution \<open>encodeConvolveP512AVX2\<close> of \<open>encode_block_amd64.s\<close>, which fills one column
  per round with a dot product of eighteen limbs and the limbs of \<open>2 ^ 512\<close>.
\<close>

section \<open>The kernel\<close>

text \<open>\<open>VPMOVZXDQ\<close>: four 32-bit lanes, zero-extended.\<close>

definition vpmovzxdq :: "bytes \<Rightarrow> bytes" where
  "vpmovzxdq x = mem_of 8 (map ucast (lanes 4 (take 16 x) :: u32 list) :: u64 list)"

text \<open>\<open>VEXTRACTI128 $1; VPADDQ; VPSHUFD $0x4e; VPADDQ; VMOVQ\<close>: the sum of the four lanes.\<close>

definition horizontal_sum :: "bytes \<Rightarrow> u64" where
  "horizontal_sum y0 =
     (let x1 = drop 16 y0;
          x0 = vpaddq x1 (take 16 y0);
          x1 = drop 8 x0 @ take 8 x0;
          x0 = vpaddq x1 x0
      in lanes 8 x0 ! 0)"

text \<open>One round of the loop; \<open>SI\<close> and \<open>DI\<close> point at the entries of the column.\<close>

definition convolve_column :: "bytes \<Rightarrow> bytes \<Rightarrow> nat \<Rightarrow> u64 option" where
  "convolve_column pad tab column =
     do { let si = 4 * column;
          x0 \<leftarrow> subslice pad si (si + 16);
          x1 \<leftarrow> subslice pad (si + 16) (si + 32);
          x2 \<leftarrow> subslice pad (si + 32) (si + 48);
          x3 \<leftarrow> subslice pad (si + 48) (si + 64);
          x4 \<leftarrow> subslice pad (si + 64) (si + 72);
          w0 \<leftarrow> load256 tab 0;
          w1 \<leftarrow> load256 tab 32;
          w2 \<leftarrow> load256 tab 64;
          w3 \<leftarrow> load256 tab 96;
          w4 \<leftarrow> load256 tab 128;
          let y0 = vpmuludq (vpmovzxdq x0) w0;
          let y1 = vpmuludq (vpmovzxdq x1) w1;
          let y2 = vpmuludq (vpmovzxdq x2) w2;
          let y3 = vpmuludq (vpmovzxdq x3) w3;
          let y4 = vpmuludq (vpmovzxdq (x4 @ replicate 8 0)) w4;
          let y0 = vpaddq y1 y0;
          let y2 = vpaddq y3 y2;
          let y0 = vpaddq y4 y0;
          let y0 = vpaddq y2 y0;
          Some (horizontal_sum y0) }"

text \<open>
  The loop: one round, \<open>DECQ AX\<close>, and again unless \<open>AX\<close> is then zero (\<open>JNZ\<close>).  A round out of the bounds
  of its arrays is \<open>None\<close>.
\<close>

function convolveLoop :: "bytes \<Rightarrow> bytes \<Rightarrow> u64 \<Rightarrow> nat \<Rightarrow> u64 list \<Rightarrow> u64 list option" where
  "convolveLoop pad tab ax column tmp =
     do { s \<leftarrow> convolve_column pad tab column;
          tmp \<leftarrow> upd tmp column s;
          let ax = ax - 1;
          if ax \<noteq> 0 then convolveLoop pad tab ax (column + 1) tmp else Some tmp }"
  by pat_completeness auto

termination
proof (relation "measure (\<lambda>(pad, tab, ax, column, tmp). unat (ax - 1))")
  fix ax ax' :: u64
  assume ax: "ax' = ax - 1" and "ax' \<noteq> 0"
  then have "unat (ax' - 1) < unat ax'" by (simp only: unat_minus_one unat_gt_0 [symmetric])
  then have "unat (ax' - 1) < unat (ax - 1)" unfolding ax [symmetric] .
  then show "((pad, tab, ax', column + 1, tmp), pad, tab, ax, column, tmp') \<in>
      measure (\<lambda>(pad, tab, ax, column, tmp). unat (ax - 1))" for pad tab column tmp tmp'
    by simp
qed simp

declare convolveLoop.simps [simp del]

text \<open>
  The flags, which a function gets as its caller left them, and the condition of \<open>JLE\<close>.  The kernel
  has no instruction that sets flags before it branches: \<open>MOVQ\<close> does not.
\<close>

record eflags =
  zeroFlag :: bool
  signFlag :: bool
  overflowFlag :: bool

definition jle :: "eflags \<Rightarrow> bool" where
  "jle f \<longleftrightarrow> zeroFlag f \<or> signFlag f \<noteq> overflowFlag f"

definition encodeConvolveP512AVX2_asm :: "eflags \<Rightarrow> u32 list \<Rightarrow> nat \<Rightarrow> u64 list \<Rightarrow> u64 list option" where
  "encodeConvolveP512AVX2_asm f pad n tmp =
     (if jle f then Some tmp
      else convolveLoop (mem_of 4 pad) (mem_of 8 blockP512Wide) (of_nat n) 0 tmp)"

section \<open>It computes the columns\<close>

lemma horizontal_sum_eq:
  assumes "length (ws :: u64 list) = 4"
  shows "horizontal_sum (mem_of 8 ws) = ws ! 0 + ws ! 1 + ws ! 2 + ws ! 3"
proof -
  obtain a b c d where ws: "ws = [a, b, c, d]" using assms by (auto simp: length_Suc_conv eval_nat_numeral)
  have halves: "drop 16 (mem_of 8 ws) = mem_of 8 [c, d]" "take 16 (mem_of 8 ws) = mem_of 8 [a, b]"
    using drop_mem_of [of 8 2 ws] take_mem_of [of 8 2 ws] by (simp_all add: ws)
  have add: "vpaddq (mem_of 8 [c, d]) (mem_of 8 [a, b]) = mem_of 8 [c + a, d + b]"
    by (simp add: vpaddq_def lanes_mem_of_width)
  have swap: "drop 8 (mem_of 8 [x, y]) @ take 8 (mem_of 8 [x, y]) = mem_of 8 [y, x]" for x y :: u64
    using drop_mem_of [of 8 1 "[x, y]"] take_mem_of [of 8 1 "[x, y]"] by (simp flip: mem_of_append)
  have "vpaddq (mem_of 8 [d + b, c + a]) (mem_of 8 [c + a, d + b]) = mem_of 8 [d + b + (c + a), c + a + (d + b)]"
    by (simp add: vpaddq_def lanes_mem_of_width)
  then show ?thesis unfolding horizontal_sum_def Let_def halves add swap by (simp add: lanes_mem_of_width ws ac_simps)
qed

lemma vpmovzxdq_mem_of: "length (ws :: u32 list) = 4 \<Longrightarrow> vpmovzxdq (mem_of 4 ws) = mem_of 8 (map ucast ws :: u64 list)"
  by (simp add: vpmovzxdq_def lanes_mem_of_width)

lemma vpmuludq_mem_of:
  assumes "length ps = 4" "length ws = 4"
  shows "vpmuludq (mem_of 8 (map ucast (ps :: u32 list) :: u64 list)) (mem_of 8 (map ucast (ws :: u32 list) :: u64 list)) =
    mem_of 8 (map2 (\<lambda>p w. ucast p * ucast w) ps ws :: u64 list)"
proof -
  have "map2 (\<lambda>a b. ucast (ucast a :: u32) * ucast (ucast b :: u32)) (map ucast ps :: u64 list) (map ucast ws :: u64 list) =
      map2 (\<lambda>p w. ucast p * ucast w :: u64) ps ws"
    by (intro nth_equalityI) (simp_all add: ucast_down_up)
  then show ?thesis by (simp add: vpmuludq_def lanes_mem_of_width)
qed

text \<open>The multiplier with its two zeros, as 32-bit words.\<close>

lemma blockP512Wide_words:
  obtains P :: "u32 list" where "length P = 20" "blockP512Wide = map ucast P"
proof
  let ?P = "map (\<lambda>i. pow2_512_base58_5 ! (17 - i)) [0..<18] @ [0, 0]"
  show "length ?P = 20" by simp
  have "replicate 2 (0 :: u64) = [0, 0]" by (simp add: replicate_numeral)
  then show "blockP512Wide = map ucast ?P"
    using fold_update [of 18 "replicate 20 (0 :: u64)" "\<lambda>i _. ucast (pow2_512_base58_5 ! (17 - i))"]
    by (simp add: blockP512Wide_def comp_def)
qed

lemma take4_drop:
  assumes "k + 4 \<le> length xs"
  shows "take 4 (drop k xs) = [xs ! k, xs ! (k + 1), xs ! (k + 2), xs ! (k + 3)]"
proof -
  have "drop k xs = xs ! k # xs ! (k + 1) # xs ! (k + 2) # xs ! (k + 3) # drop (k + 4) xs"
    using assms by (simp add: Cons_nth_drop_Suc numeral_eq_Suc)
  then show ?thesis by simp
qed

lemma take2_drop: "k + 2 \<le> length xs \<Longrightarrow> take 2 (drop k xs) = [xs ! k, xs ! (k + 1)]"
proof -
  assume "k + 2 \<le> length xs"
  then have "drop k xs = xs ! k # xs ! (k + 1) # drop (k + 2) xs" by (simp add: Cons_nth_drop_Suc numeral_eq_Suc)
  then show ?thesis by simp
qed

lemma convolve_column_eq:
  assumes "c + 18 \<le> length p"
  shows "convolve_column (mem_of 4 p) (mem_of 8 blockP512Wide) c = Some (padded_column p c)"
proof -
  obtain P :: "u32 list" where P: "length P = 20" "blockP512Wide = map ucast P" by (rule blockP512Wide_words)
  let ?f = "\<lambda>j. ucast (p ! (c + j)) * blockP512Wide ! j"
  let ?q = "\<lambda>k. take 4 (drop (c + k) p)" and ?w = "\<lambda>k. take 4 (drop k P)"
  have x: "subslice (mem_of 4 p) a b = Some (mem_of 4 (?q k))" if "a = 4 * c + 4 * k" "b = a + 16" "k \<le> 12" for a b k
    using that assms by (intro subslice_mem_of) simp_all
  have x4: "subslice (mem_of 4 p) (4 * c + 64) (4 * c + 72) = Some (mem_of 4 (take 2 (drop (c + 16) p)))"
    using assms by (intro subslice_mem_of) simp_all
  have w: "load256 (mem_of 8 blockP512Wide) a = Some (mem_of 8 (map ucast (?w k) :: u64 list))" if "a = 8 * k" "k \<le> 16" for a k
    unfolding load256_def P(2) using that P(1) by (subst subslice_mem_of [of k 4]) (simp_all add: take_map drop_map)
  have z: "replicate 8 0 = mem_of 4 [0, 0 :: u32]"
    by (simp add: mem_of_def le_bytes_def be_bytes_def fixed_zero replicate_numeral)
  have y: "vpmuludq (vpmovzxdq (mem_of 4 (?q k))) (mem_of 8 (map ucast (?w k) :: u64 list)) = mem_of 8 (map ?f [k, k + 1, k + 2, k + 3])" if "k \<le> 12" for k
  proof -
    have "map2 (\<lambda>p w. ucast p * ucast w) (?q k) (?w k) = map ?f [k, k + 1, k + 2, k + 3]"
      using that assms P(1) by (simp add: take4_drop P(2) add.assoc)
    then show ?thesis using that assms P(1) by (simp add: vpmovzxdq_mem_of vpmuludq_mem_of)
  qed
  have y4: "vpmuludq (vpmovzxdq (mem_of 4 (take 2 (drop (c + 16) p)) @ replicate 8 0)) (mem_of 8 (map ucast (?w 16) :: u64 list)) = mem_of 8 [?f 16, ?f 17, 0, 0]"
  proof -
    let ?l = "[p ! (c + 16), p ! (c + 17), 0, 0]" and ?r = "[P ! 16, P ! 17, P ! 18, P ! 19]"
    have l: "mem_of 4 (take 2 (drop (c + 16) p)) @ replicate 8 0 = mem_of 4 ?l"
      using assms by (simp only: z mem_of_append [symmetric]) (simp add: take2_drop ac_simps)
    have r: "?w 16 = ?r" using P(1) take4_drop [of 16 P] by simp
    have "vpmuludq (mem_of 8 (map ucast ?l :: u64 list)) (mem_of 8 (map ucast ?r :: u64 list)) =
        mem_of 8 (map2 (\<lambda>p w. ucast p * ucast w) ?l ?r :: u64 list)"
      by (rule vpmuludq_mem_of) simp_all
    moreover have "map2 (\<lambda>p w. ucast p * ucast w) ?l ?r = [?f 16, ?f 17, 0, 0]" by (simp add: P)
    ultimately show ?thesis unfolding l r using vpmovzxdq_mem_of [of ?l] by simp
  qed
  have add: "vpaddq (mem_of 8 [a, b, d, e]) (mem_of 8 [a', b', d', e']) = mem_of 8 [a + a', b + b', d + d', e + e']" for a b d e a' b' d' e' :: u64
    by (simp add: vpaddq_def lanes_mem_of_width)
  have "padded_column p c = ?f 0 + (?f 1 + (?f 2 + (?f 3 + (?f 4 + (?f 5 + (?f 6 + (?f 7 + (?f 8 + (?f 9 + (?f 10 + (?f 11 + (?f 12 + (?f 13 +
      (?f 14 + (?f 15 + (?f 16 + ?f 17))))))))))))))))"
    unfolding padded_column_def by (simp add: upt_rec numeral_eq_Suc)
  moreover note x [of "4 * c" 0] x [of "4 * c + 16" 4] x [of "4 * c + 32" 8] x [of "4 * c + 48" 12] x4
    w [of 0 0] w [of 32 4] w [of 64 8] w [of 96 12] w [of 128 16]
  ultimately show ?thesis
    using y [of 0] y [of 4] y [of 8] y [of 12] y4
    by (simp add: convolve_column_def add horizontal_sum_eq ac_simps numeral_2_eq_2)
qed

lemma convolveLoop_eq:
  assumes "0 < n" "n < 2 ^ 64" "c + n + 17 \<le> length p" "c + n \<le> length tmp"
  shows "convolveLoop (mem_of 4 p) (mem_of 8 blockP512Wide) (of_nat n) c tmp
    = Some (take c tmp @ map (padded_column p) [c..<c + n] @ drop (c + n) tmp)"
  using assms
proof (induction n arbitrary: c tmp)
  case (Suc n)
  let ?tmp = "tmp[c := padded_column p c]"
  have col: "convolve_column (mem_of 4 p) (mem_of 8 blockP512Wide) c = Some (padded_column p c)"
    using Suc.prems by (intro convolve_column_eq) simp
  have "unat (of_nat n :: u64) = n" using Suc.prems(2) by (intro unat_of_nat_small) simp
  then have zero: "(of_nat n :: u64) = 0 \<longleftrightarrow> n = 0" by (simp only: unat_eq_zero [symmetric])
  have dec: "(of_nat (Suc n) :: u64) - 1 = of_nat n" by simp
  have run: "convolveLoop (mem_of 4 p) (mem_of 8 blockP512Wide) (of_nat (Suc n)) c tmp =
      (if n \<noteq> 0 then convolveLoop (mem_of 4 p) (mem_of 8 blockP512Wide) (of_nat n) (c + 1) ?tmp else Some ?tmp)"
    using Suc.prems(4) by (subst convolveLoop.simps) (simp only: col dec zero Let_def Option.bind.simps upd_Some)
  have t: "?tmp = take c tmp @ padded_column p c # drop (Suc c) tmp" using Suc.prems(4) by (simp add: upd_conv_take_nth_drop)
  show ?case
  proof (cases n)
    case 0
    then show ?thesis unfolding run by (simp add: t)
  next
    case (Suc m)
    then have "convolveLoop (mem_of 4 p) (mem_of 8 blockP512Wide) (of_nat n) (c + 1) ?tmp =
        Some (take (c + 1) ?tmp @ map (padded_column p) [c + 1..<c + 1 + n] @ drop (c + 1 + n) ?tmp)"
      using Suc.prems by (intro Suc.IH) simp_all
    moreover have "take (c + 1) ?tmp = take c tmp @ [padded_column p c]"
      using Suc.prems(4) by (simp add: take_Suc_conv_app_nth)
    moreover have "[c..<c + Suc n] = c # [c + 1..<c + 1 + n]" by (simp add: upt_conv_Cons)
    ultimately show ?thesis using Suc unfolding run by simp
  qed
qed simp

lemma encodeConvolveP512AVX2_asm_eq:
  assumes "\<not> jle f" "0 < n" "n < 2 ^ 64" "n + 17 \<le> length p" "n \<le> length tmp"
  shows "encodeConvolveP512AVX2_asm f p n tmp = Some (map (padded_column p) [0..<n] @ drop n tmp)"
  using convolveLoop_eq [of n 0 p tmp] assms by (simp add: encodeConvolveP512AVX2_asm_def)

text \<open>
  The convolution kernel of the amd64 build, in place of that of any record, entered with the flags
  \<open>f\<close>.
\<close>

definition asm_block :: "eflags \<Rightarrow> 'a block_kernels_scheme \<Rightarrow> 'a block_kernels_scheme" where
  "asm_block f k = k\<lparr>encodeConvolveP512AVX2 := (\<lambda>p n tmp. the (encodeConvolveP512AVX2_asm f p n tmp))\<rparr>"

lemma asm_block_documented: "\<not> jle f \<Longrightarrow> convolve_documented (asm_block f k)" "useAVX2 (asm_block f k) = useAVX2 k"
  by (simp_all add: convolve_documented_def asm_block_def encodeConvolveP512AVX2_asm_eq)

text \<open>Entered with flags on which \<open>JLE\<close> branches, the kernel writes no column and reports nothing.\<close>

lemma asm_block_stale:
  assumes "jle f" "useAVX2 k" "count + 18 \<le> length digits" "count + 18 \<le> length tmp"
  shows "\<exists>digits'. encodeConvolveP512All_amd64 (asm_block f k) pad digits count (count + 18) tmp = Some (True, digits', tmp)"
proof -
  let ?d' = "take count digits @ replicate 18 0 @ drop (count + 18) digits"
  have "idx ?d' 0 = Some (?d' ! 0)" "idx tmp 0 = Some (tmp ! 0)" using assms(3,4) by (intro idx_Some; force)+
  then show ?thesis
    using assms by (simp add: encodeConvolveP512All_amd64_def asm_block_def encodeConvolveP512AVX2_asm_def on_slice_def)
qed

end
