(* ===== verification/Spec2Isabelle.thy ===== *)
theory Spec2Isabelle
  imports Builds Cache Vectors Encode_Variable Decode_Variable Asm_Matmul Asm_Convolve
begin

text \<open>
  A verification of the Go package \<open>base58\<close>: what its functions return, on every input, against
  the definition of base58.  The portable build (neither amd64 nor arm64) is modelled completely; of
  the other builds their Go functions, and the assembly of the products, of the convolution, of the
  rendering, of the fused decoders and encoders, and of the decode writes.

  The program.  \<open>Encode\<close> and \<open>AppendEncode\<close> turn bytes into base58 text, \<open>Decode\<close> and \<open>AppendDecode\<close>
  turn it back.  Inputs of exactly 32 and 64 bytes (and texts of the matching lengths) go to
  fixed-width operations built on matrix products in \<open>uint64\<close>; other inputs go to a digit generator
  chosen by length, and to a decoder that accumulates limbs of base \<open>2 ^ 64\<close>, or to \<open>math/big\<close> when
  they are large.  Around the fixed-width encoder stand batch versions, which return strings that
  share one array, and a cache shared by all goroutines.

  Where what is modelled:

  \<^item> \<open>Prelude\<close>: indexing, slicing and assignment with Go's bounds checks as options (\<open>None\<close> is a
    panic), \<open>foldM\<close> for loops with a body that can fail, words and their values.
  \<^item> \<open>Radix\<close>, \<open>Base58_Spec\<close>: positional notation, and the specification: \<open>b58_encode\<close> and
    \<open>b58_decode\<close>, proved inverse to each other without any reference to the code.
  \<^item> \<open>Tables\<close>, \<open>Chars\<close>, \<open>Carry\<close>, \<open>Matmul\<close>: the tables of \<open>tables.go\<close> with the loops of its \<open>init\<close>; five
    characters per limb (\<open>extractChars5\<close> and its callers); the carry loops; the four products of
    \<open>matmul_other.go\<close> and \<open>matmul64_generic.go\<close>.  The locales \<open>encode_kernel\<close> and \<open>decode_kernel\<close> state
    what a product must deliver: no accumulator wraps and the value is kept.
  \<^item> \<open>Go_Slice\<close>: byte slices with their array and capacity, growth, \<open>append\<close>, and the contracts
    \<open>appended\<close> (exact) and \<open>window_appended\<close> (works in a window behind the destination).
  \<^item> \<open>Encode_Fixed\<close>, \<open>Decode_Fixed\<close>: \<open>Encode32\<close>, \<open>Encode64\<close>, \<open>AppendEncode32\<close>, \<open>AppendEncode64\<close>, \<open>Decode32\<close>,
    \<open>Decode64\<close> with all their helpers and errors (\<open>encode.go\<close>, \<open>decode.go\<close> and the \<open>_other\<close> files).
  \<^item> \<open>Batch\<close> (\<open>batch.go\<close>): both batch encoders; the returned strings are windows into one array that
    is still written to while they exist.
  \<^item> \<open>Cache\<close> (\<open>cache.go\<close>): \<open>EncodeCached32\<close> alone, and as a step relation in which any number of
    goroutines interleave their atomic loads and stores.
  \<^item> \<open>Encode_Tail\<close>, \<open>Encode_Block\<close>, \<open>Encode_Small\<close>, \<open>Encode_Radix\<close>, \<open>Encode_Absorb\<close>: the digit generators
    (\<open>encodeSmallTail\<close>, \<open>encodeVariableTail\<close>; \<open>encodeMatrixTail\<close>; \<open>encodeSmallMatrixTail\<close>;
    \<open>encodeBlockTail\<close>, the last in two theories, the code and its proof).  The locale \<open>tail_encoder\<close>
    is their contract, \<open>tail_done\<close>: the digits of the value end the window they are given.
    \<open>holds digits count V\<close> is the invariant of the limb arrays of base \<open>58 ^ 5\<close>: the first \<open>count\<close>
    limbs are the number \<open>V\<close>, without leading zeros.
  \<^item> \<open>Encode_Variable\<close>: \<open>encodeLargeTail\<close>, the dispatch \<open>encodeTail\<close>, \<open>Encode\<close> and \<open>AppendEncode\<close>, with
    the width of \<open>int\<close> as a parameter; \<open>Encode_32_panics\<close> is what happens where it is too small.
  \<^item> \<open>Large_Decode\<close>, \<open>Decode_Variable\<close>: \<open>large.go\<close> for decoding, with the memo table of powers passed
    along, and the limb accumulator, \<open>Decode\<close> and \<open>AppendDecode\<close>.  The locales \<open>append_decoder\<close> and
    \<open>fixed_decoder\<close> state what the dispatch needs of the two decoders behind it.
  \<^item> \<open>Amd64_Matmul\<close>, \<open>Amd64_Text\<close>, \<open>Amd64_Block\<close>: the Go functions of the \<open>_amd64\<close> files.  A record
    holds the assembly kernels, \<open>matmul_documented\<close>, \<open>render_documented\<close>, \<open>encode_documented\<close>,
    \<open>decode_documented\<close> and \<open>convolve_documented\<close> say what their comments document, and reference
    kernels show that the contracts can be met.  The functions that every build shares take the
    functions of the build as arguments (\<open>Encode32_on\<close>, \<open>encode64Generic_on\<close>, \<open>decode32Generic_on\<close> and so
    on).  The lemmas give the results of the portable build; one difference is visible: after
    \<open>ErrValueTooLarge\<close> the fused decoders leave a changed array.
  \<^item> \<open>Asm_Memory\<close>, \<open>Asm_Matmul\<close>, \<open>Asm_Convolve\<close>, \<open>Asm_Fused\<close>, \<open>Asm_Decode\<close>, \<open>Asm_Chars\<close>, \<open>Asm_Write\<close>,
    \<open>Asm_Encode\<close>, \<open>Asm_Full\<close>, \<open>Asm_Full_Text\<close>, \<open>Asm_Cpu\<close>: assembly.  Memory is a
    list of bytes with checked bounds, a vector register a list of 32 bytes, an unrolled kernel a
    fold over its rows.  The locale \<open>row_unit\<close> says what one multiply-accumulate adds; with it the
    scalar and vector products of \<open>matmul_amd64.s\<close>, \<open>matmul_avx2_amd64.s\<close>, \<open>matmul_arm64.s\<close> and of the
    fused decoders (\<open>decode_fused_amd64.s\<close>) are proved alike.  \<open>magic_div\<close> is the division by
    multiplication of the kernels that render characters and reduce limbs.  The three full encoders of 64 bytes (\<open>encode_full*_amd64.s\<close>) share
    their product and carries (\<open>Asm_Full\<close>), digits and characters (\<open>Asm_Full_Text\<close>) and differ in what
    they skip and store.  \<open>asm_matmul\<close>, \<open>asm_decode\<close>, \<open>asm_render\<close>, \<open>asm_encode\<close> and \<open>asm_block\<close> put
    these kernels into the records, and their contracts become theorems, that of the convolution
    for flags on which its \<open>JLE\<close> does not branch (\<open>jle\<close>).  \<open>x86HasAVX2\<close> is the CPU test,
    over what the processor answers.
  \<^item> \<open>Asm_Text\<close>: \<open>asm_text\<close>, the amd64 build with every kernel in assembly, with and without AVX2, for
    which all contracts hold; C12, C36 and C38 are about it.
  \<^item> \<open>Builds\<close>: functions that all builds share, on the kernels of the others: the batch encoders of
    amd64, and \<open>Encode32\<close>, \<open>AppendEncode32\<close>, \<open>Decode32\<close> and \<open>Encode32Batch\<close> of arm64.
  \<^item> \<open>Vectors\<close>: a public key and a signature with their texts, for the witnesses.

  How the code is translated.  A byte, a limb and an accumulator are words of their width, and
  every sum and product is that of the word type, wrap-around included; that nothing wraps is
  proved, not assumed.  Lengths, indices and counters (\<open>int\<close>) are natural numbers, subtractions
  checked by \<open>isub\<close>; where a difference may be negative it is an integer.  They are at most the
  size of some array, with one exception: \<open>encodeVariableSize\<close> multiplies a length by 138.  It is
  an integer cut to the width of \<open>int\<close> after every operation (\<open>wrap_int\<close>), as are the sums it goes
  into, and the theorems about \<open>Encode\<close> and \<open>AppendEncode\<close> say for which lengths they hold.  Arrays are lists, updated
  and returned; a function that writes to its arguments returns them.  Errors are values of
  \<open>decode_error\<close>, panics are \<open>None\<close>, so that a theorem with \<open>Some\<close> on the right also states that the
  code does not panic.  Every loop is a recursion with a termination proof or a fold over its
  range, so no fuel is used anywhere.  What the standard library does is modelled where the code
  uses it: \<open>encoding/binary\<close>, \<open>math/bits\<close>, \<open>range\<close> over a string by runes, and non-negative \<open>big.Int\<close>
  values as natural numbers.  How far \<open>append\<close> grows an array is the runtime's choice and a
  parameter of the definitions that use it; the theorems hold for every choice.

  What the theorems show.  C1 to C6 are about the four operations of any length, their round trips
  and errors; C7 to C11 about the fixed-width operations; C12 to C15 about batches and the cache,
  under any interleaving.  C16 to C24 show of the digit generators that they agree with each
  other, end, keep their limb arrays in normal form and never wrap; C25 to C27 are about the decoders
  behind \<open>Decode\<close>; C28 to C31 about the products, the write steps and the tables; C32 to C40 about
  the builds with assembly.

  Not modelled.  \<open>doc.go\<close>, which is a comment.  A kernel's frame
  starts out as zeros where the kernel writes it before it reads it; where it does not, what it held
  is a variable (\<open>rest\<close>), and so are the flags on which the first branch of
  \<open>encode_block_amd64.s\<close> depends, which no instruction of the kernel sets.  The code for other
  lengths and for the cache, which all builds share, is modelled on the portable kernels and not
  once more on the amd64 kernels.  Memory does not run out: a batch whose array would exceed the
  address space of the build is outside the model.  Source and destination do not overlap, and whether an empty slice is \<open>nil\<close> is not told apart.  Timing and
  allocation counts are not modelled, only which results are in new arrays.
\<close>

section \<open>Encoding and decoding of any length\<close>

text \<open>
  C1: \<open>Encode\<close> returns the base58 encoding of every byte string, whatever its leading zeros, and
  never panics, as long as an \<open>int\<close> of \<open>w\<close> bits holds 138 times its length (15561475 bytes where \<open>int\<close>
  has 32 bits, some 66 petabytes where it has 64): the fixed-width kernels, the small matrices,
  the block radix and \<open>math/big\<close> all deliver the same digits.
\<close>

theorem Encode_correct:
  assumes "138 * length src < 2 ^ (w - 1)"
  shows "Encode w src = Some (b58_encode src)"
  using assms by (rule Encode_eq)

theorem Encode_correct_witness:
  "Encode 64 [0, 57] = Some (map of_char ''1z'') \<and> Encode 32 [0, 57] = Some (map of_char ''1z'')"
proof -
  have "b58_encode [0, 57] = [49, 122]"
    by (rule b58_encode_by_value)
      (simp_all add: b58_valid_def alphabet_eq str_val_def bytes_val_def bval_def b58_digit_def)
  then show ?thesis using Encode_correct [of "[0, 57]" 64] Encode_correct [of "[0, 57]" 32] by simp
qed


text \<open>
  C3: \<open>Decode\<close> of what \<open>Encode\<close> returns is the input, for every byte string within the bound of C1.
\<close>

theorem Decode_inverts_Encode:
  assumes "138 * length src < 2 ^ (w - 1)"
  shows "\<exists>s r. Encode w src = Some s \<and> Decode s = Some (Inr r) \<and> contents r = src"
  using Decode_decodes [of "b58_encode src"] by (auto simp: Encode_eq [OF assms])

theorem Decode_inverts_Encode_witness:
  "\<exists>s r. Encode 32 [0, 57] = Some s \<and> Decode s = Some (Inr r) \<and> contents r = [0, 57]"
  using Decode_inverts_Encode [of "[0, 57]" 32] by simp

text \<open>
  C4: \<open>Encode\<close> of what \<open>Decode\<close> returns is the string it was given, within the bound of C1: no byte
  string has two spellings that are accepted.
\<close>

theorem Encode_inverts_Decode:
  assumes "Decode s = Some (Inr r)" "138 * length (contents r) < 2 ^ (w - 1)"
  shows "Encode w (contents r) = Some s"
proof -
  have "b58_decode s = Some (contents r)"
    using Decode_decodes [of s] assms(1) by (cases "b58_decode s") auto
  then show ?thesis by (simp add: Encode_eq [OF assms(2)] b58_encode_decode)
qed

theorem Encode_inverts_Decode_witness: "Encode 32 [0, 0] = Some (map of_char ''11'')"
proof -
  have d: "Decode [49, 49] = Some (Inr \<lparr>buf = [0, 0], len = 2, fresh = True\<rparr>)"
    by (simp add: Decode_def make_copy_def go_copy_def nil_slice_def contents_def numeral_2_eq_2)
  have "138 * length (contents \<lparr>buf = [0, 0], len = 2, fresh = True\<rparr>) < 2 ^ (32 - 1)" by (simp add: contents_def)
  from Encode_inverts_Decode [OF d this] show ?thesis by (simp add: contents_def numeral_2_eq_2)
qed

text \<open>
  C5: \<open>AppendEncode\<close> returns the destination's contents followed by the encoding.  With room for
  \<open>encode_room\<close> more bytes it stays in the destination's array and leaves everything behind that
  room alone; with less it allocates.  How far \<open>append\<close> grows an array does not matter.  The bound is
  that of C1, with the destination counted.
\<close>

theorem AppendEncode_correct:
  assumes "wf_slice dst" "len dst + 138 * length src < 2 ^ (w - 1)"
  shows "\<exists>s. AppendEncode w grow dst src = Some s \<and> wf_slice s \<and> contents s = contents dst @ b58_encode src \<and>
    (if len dst + encode_room src \<le> cap dst
     then fresh s = fresh dst \<and> cap s = cap dst \<and>
       drop (len dst + encode_room src) (buf s) = drop (len dst + encode_room src) (buf dst)
     else fresh s)"
proof -
  obtain s where "AppendEncode w grow dst src = Some s" "window_appended dst (encode_room src) (b58_encode src) s"
    using AppendEncode_eq [OF assms] by blast
  then show ?thesis unfolding window_appended_def by (intro exI [of _ s]) simp
qed

theorem AppendEncode_correct_witness:
  "\<exists>s. AppendEncode 32 (\<lambda>c n. 2 * n) \<lparr>buf = 65 # replicate 63 0, len = 1, fresh = False\<rparr> [0, 57] = Some s \<and>
    contents s = 65 # map of_char ''1z'' \<and> \<not> fresh s"
proof -
  have "wf_slice \<lparr>buf = 65 # replicate 63 0, len = 1, fresh = False\<rparr>" by (simp add: wf_slice_def cap_def)
  from AppendEncode_correct [OF this, of "[0, 57]" 32 "\<lambda>c n. 2 * n"] obtain s where
    s: "AppendEncode 32 (\<lambda>c n. 2 * n) \<lparr>buf = 65 # replicate 63 0, len = 1, fresh = False\<rparr> [0, 57] = Some s"
    "contents s = contents \<lparr>buf = 65 # replicate 63 0, len = 1, fresh = False\<rparr> @ b58_encode [0, 57]"
    "if 1 + encode_room [0, 57] \<le> 64 then \<not> fresh s else fresh s" by (auto simp: cap_def)
  have "b58_encode [0, 57] = [49, 122]"
    by (rule b58_encode_by_value)
      (simp_all add: b58_valid_def alphabet_eq str_val_def bytes_val_def bval_def b58_digit_def)
  moreover have "encode_room [0, 57] \<le> 63"
    by (simp add: encode_room_def variableSize_def Let_def)
  ultimately show ?thesis using s by (intro exI [of _ s]) (simp add: contents_def)
qed



section \<open>Fixed-width encoding and decoding\<close>

text \<open>
  C7: for every 32-byte array \<open>Encode32\<close> returns its base58 encoding (one \<open>1\<close> per leading
  zero byte, then the base-58 digits of the value) and never panics.
\<close>

theorem Encode32_correct:
  assumes "length src = 32"
  shows "Encode32 src = Some (b58_encode src)"
  using assms by (rule Encode32_eq)

theorem Encode32_correct_witness: "Encode32 pubkey = Some pubkey58"
  using Encode32_correct [of pubkey] by (simp add: pubkey_encodes)

text \<open>
  C8: for every 64-byte array \<open>Encode64\<close> returns its base58 encoding and never panics.
\<close>

theorem Encode64_correct:
  assumes "length src = 64"
  shows "Encode64 src = Some (b58_encode src)"
  using assms by (rule Encode64_eq)

theorem Encode64_correct_witness: "Encode64 signature = Some signature58"
  using Encode64_correct [of signature] by (simp add: signature_encodes)

text \<open>
  C9: the outcome of every call of \<open>Decode32\<close> and \<open>Decode64\<close>, on any string: which error they
  report, in the order of their checks (length, alphabet, value at least \<open>256 ^ 32\<close> or \<open>256 ^ 64\<close>,
  leading zeros), and what the array holds afterwards; it is untouched unless the value fits.
\<close>

theorem Decode_fixed_outcome:
  assumes "length d32 = 32" "length d64 = 64"
  shows "Decode32 s d32 = Some
      (if s = [] \<or> 45 < length s then (Some ErrInvalidLength, d32)
       else if \<not> list_all b58_valid s then (Some ErrInvalidChar, d32)
       else if 256 ^ 32 \<le> str_val s then (Some ErrValueTooLarge, d32)
       else if leading 49 s = leading 0 (be_bytes 32 (str_val s)) then (None, be_bytes 32 (str_val s))
       else (Some ErrLeadingZeros, be_bytes 32 (str_val s))) \<and>
    Decode64 s d64 = Some
      (if s = [] \<or> 90 < length s then (Some ErrInvalidLength, d64)
       else if \<not> list_all b58_valid s then (Some ErrInvalidChar, d64)
       else if 256 ^ 64 \<le> str_val s then (Some ErrValueTooLarge, d64)
       else if leading 49 s = leading 0 (be_bytes 64 (str_val s)) then (None, be_bytes 64 (str_val s))
       else (Some ErrLeadingZeros, be_bytes 64 (str_val s)))"
  using Decode32_eq [OF assms(1), of s] Decode64_eq [OF assms(2), of s] by (simp add: decode_spec_def Let_def)

theorem Decode_fixed_outcome_witness:
  "Decode32 (map of_char ''2O'') (replicate 32 7) = Some (Some ErrInvalidChar, replicate 32 7) \<and>
   Decode64 (map of_char ''2O'') (replicate 64 7) = Some (Some ErrInvalidChar, replicate 64 7)"
  using Decode_fixed_outcome [of "replicate 32 7" "replicate 64 7" "map of_char ''2O''"]
  by (simp add: b58_valid_def alphabet_eq)

text \<open>
  C10: \<open>Decode32\<close> accepts a string exactly when it is the \<open>Encode32\<close> of a 32-byte array, and
  then yields that array: the two are inverse to each other and no second spelling is accepted;
  likewise \<open>Decode64\<close> and \<open>Encode64\<close>.
\<close>

theorem Decode_fixed_inverts:
  assumes "length d32 = 32" "length d64 = 64"
  shows "(Decode32 s d32 = Some (None, out) \<longleftrightarrow> length out = 32 \<and> Encode32 out = Some s) \<and>
    (Decode64 s d64 = Some (None, out) \<longleftrightarrow> length out = 64 \<and> Encode64 out = Some s)"
  using Decode32_success [OF assms(1), of s out] Decode64_success [OF assms(2), of s out]
  by (auto simp: Encode32_eq Encode64_eq)

theorem Decode_fixed_inverts_witness:
  "Decode32 pubkey58 (replicate 32 0) = Some (None, pubkey) \<and>
   Decode64 signature58 (replicate 64 0) = Some (None, signature)"
  using Decode_fixed_inverts [of "replicate 32 0" "replicate 64 0" pubkey58 pubkey]
    Decode_fixed_inverts [of "replicate 32 0" "replicate 64 0" signature58 signature]
  by (simp add: Encode32_eq pubkey_encodes Encode64_eq signature_encodes)

text \<open>
  C11: \<open>AppendEncode32\<close> and \<open>AppendEncode64\<close> return the destination's contents followed by the
  encoding; when the encoding fits the capacity they reuse the array and write only the encoded
  characters, and otherwise they allocate.
\<close>

theorem AppendEncode_fixed_correct:
  assumes "length pk = 32" "length sg = 64" "wf_slice dst"
  shows "\<forall>(encode, src) \<in> {(AppendEncode32, pk), (AppendEncode64, sg)}.
    \<exists>s. encode dst src = Some s \<and> contents s = contents dst @ b58_encode src \<and>
      wf_slice s \<and> len s = len dst + length (b58_encode src) \<and>
      (if len s \<le> cap dst
       then fresh s = fresh dst \<and> buf s = contents dst @ b58_encode src @ drop (len s) (buf dst)
       else fresh s)"
  using AppendEncode32_eq [OF assms(1,3)] AppendEncode64_eq [OF assms(2,3)] by (auto simp: appended_def)

theorem AppendEncode_fixed_correct_witness:
  "(\<exists>s. AppendEncode32 \<lparr>buf = 65 # replicate 99 0, len = 1, fresh = False\<rparr> pubkey = Some s \<and>
     contents s = 65 # pubkey58 \<and> \<not> fresh s) \<and>
   (\<exists>s. AppendEncode64 \<lparr>buf = 65 # replicate 99 0, len = 1, fresh = False\<rparr> signature = Some s \<and>
     contents s = 65 # signature58 \<and> \<not> fresh s)"
proof -
  have "length pubkey58 \<le> 44" "length signature58 \<le> 88" by (simp_all add: pubkey58_def signature58_def)
  then show ?thesis
    using AppendEncode_fixed_correct [of pubkey signature "\<lparr>buf = 65 # replicate 99 0, len = 1, fresh = False\<rparr>"]
    by (auto simp: wf_slice_def cap_def contents_def pubkey_encodes signature_encodes)
qed

section \<open>Batches\<close>

text \<open>
  C12: \<open>Encode32Batch\<close> returns for every batch of 32-byte keys, of any length, what \<open>Encode32\<close>
  returns for each key, and \<open>Encode64Batch\<close> what \<open>Encode64\<close> returns: the interleaved carry chains do
  not disturb each other, and no string is overwritten by the slots filled after it.  The same holds
  on amd64, with and without AVX2, although the vector kernel scribbles on the six bytes behind the
  slots it fills, and on arm64.
\<close>

theorem Batch_correct:
  assumes "\<forall>src \<in> set pks. length src = 32" "\<forall>src \<in> set sgs. length src = 64"
  shows "Encode32Batch pks = those (map Encode32 pks) \<and> Encode64Batch sgs = those (map Encode64 sgs) \<and>
    Encode32Batch_amd64 (asm_text avx2 rest) pks = those (map Encode32 pks) \<and>
    Encode64Batch_amd64 (asm_text avx2 rest) sgs = those (map Encode64 sgs) \<and>
    Encode32Batch_arm64 pks = those (map Encode32 pks)"
proof -
  have "those (map Encode32 pks) = Some (map b58_encode pks)" "those (map Encode64 sgs) = Some (map b58_encode sgs)"
    using assms by (intro those_map_Some; simp add: Encode32_eq Encode64_eq)+
  then show ?thesis
    using Encode32Batch_eq [OF assms(1)] Encode64Batch_eq [OF assms(2)] Batch_amd64_eq [OF asm_text_documented(1,2)]
      Encode32Batch_arm64_eq [OF assms(1)] assms by simp
qed

theorem Batch_correct_witness:
  "Encode32Batch (replicate 5 pubkey) = Some (replicate 5 pubkey58) \<and>
   Encode64Batch (replicate 6 signature) = Some (replicate 6 signature58) \<and>
   Encode32Batch_amd64 (asm_text True []) (replicate 5 pubkey) = Some (replicate 5 pubkey58)"
  using Batch_correct [of "replicate 5 pubkey" "replicate 6 signature" True "[]"]
  by (simp add: replicate_numeral Encode32_eq pubkey_encodes Encode64_eq signature_encodes)

section \<open>The interning cache\<close>

text \<open>
  C13: however the loads and stores of any number of goroutines interleave, a call of
  \<open>EncodeCached32\<close> that has returned has returned the \<open>Encode32\<close> of its key.
\<close>

theorem EncodeCached32_linear:
  assumes "reachable (c, cs)" "cs t = Some (Returned src out)"
  shows "Encode32 src = Some out"
  using assms by (rule returned_encoding)

theorem EncodeCached32_linear_witness:
  "\<exists>c cs. reachable (c, cs) \<and> cs 0 = Some (Returned pubkey pubkey58) \<and> Encode32 pubkey = Some pubkey58"
proof -
  obtain v c' where run: "EncodeCached32 (\<lambda>_. None) pubkey = Some (v, c')" "v = pubkey58"
    using EncodeCached32_eq [of pubkey "\<lambda>_. None"] by (auto simp: entries_ok_def pubkey_encodes)
  have "step\<^sup>*\<^sup>* init (c', (\<lambda>_. None)(0 \<mapsto> Returned pubkey v))"
    unfolding init_def by (rule EncodeCached32_steps [OF run(1)]) simp_all
  then have "reachable (c', (\<lambda>_. None)(0 \<mapsto> Returned pubkey v))"
    by (induction rule: rtranclp_induct) (auto intro: reach_init reach_step)
  from this EncodeCached32_linear [OF this, of 0 pubkey v] show ?thesis
    unfolding run(2) by (intro exI [of _ c'] exI [of _ "[0 \<mapsto> Returned pubkey pubkey58]"]) simp
qed

text \<open>
  C14: a call in flight is never blocked: whatever the others have done, its own goroutine has
  a step, and at most two of them complete the call.
\<close>

theorem EncodeCached32_wait_free:
  assumes "reachable (c, cs)" "0 < steps_left (cs t)"
  shows "steps_left (cs t) \<le> 2 \<and>
    (\<exists>c' k. step (c, cs) (c', cs(t \<mapsto> k)) \<and> steps_left (Some k) < steps_left (cs t))"
  using call_progress [OF assms] by (cases "cs t" rule: steps_left.cases) auto

theorem EncodeCached32_wait_free_witness:
  "\<exists>c' k. step (\<lambda>_. None, [0 \<mapsto> Called pubkey]) (c', [0 \<mapsto> Called pubkey](0 \<mapsto> k)) \<and>
    steps_left (Some k) < 2"
proof -
  have "reachable (\<lambda>_. None, [0 \<mapsto> Called pubkey])"
    by (rule reach_step [OF reach_init]) (auto simp: init_def intro: start)
  from EncodeCached32_wait_free [OF this, of 0] show ?thesis by simp
qed

text \<open>
  C15: a call alone returns the encoding of its key from every table the program can reach, hit
  or miss, keeps the table correct and the other slots as they are; the next call for the key is a
  hit: whatever is put in the place of \<open>Encode32\<close>, be it a function that panics, it returns the same
  string and leaves the table alone, so that it neither encodes nor stores.
\<close>

theorem EncodeCached32_correct:
  assumes "length src = 32" "entries_ok c"
  shows "\<exists>c'. EncodeCached32 c src = Some (b58_encode src, c') \<and> entries_ok c' \<and>
    (\<forall>j. slotIndex src \<noteq> Some j \<longrightarrow> c' j = c j) \<and>
    (\<forall>encode. EncodeCached32_on encode c' src = Some (b58_encode src, c'))"
  using EncodeCached32_eq [OF assms] EncodeCached32_other EncodeCached32_hit by blast

theorem EncodeCached32_correct_witness:
  "\<exists>c'. EncodeCached32 (\<lambda>_. None) pubkey = Some (pubkey58, c') \<and>
    EncodeCached32_on (\<lambda>_. None) c' pubkey = Some (pubkey58, c')"
  using EncodeCached32_correct [of pubkey "\<lambda>_. None"] by (auto simp: entries_ok_def pubkey_encodes)

section \<open>The digit generators\<close>

text \<open>
  C16: \<open>encodeTail\<close>, through whichever generator it picks, refines the base-58 digits of the
  specification: given a window of the computed size it ends the window with the digits of the
  value, keeps its length, and returns the index of the first digit.
\<close>

theorem encodeTail_refines:
  assumes "b \<noteq> []" "hd b \<noteq> 0" "variableSize (length b) \<le> length out"
  shows "\<exists>p w. encodeTail b out = Some (p, w) \<and> length w = length out \<and> p \<le> length w \<and>
    drop p w = b58_digits (bytes_val b) \<and> p + length (b58_digits (bytes_val b)) = length w"
  using encodeTail_done [OF assms] unfolding tail_done_def by auto

theorem encodeTail_refines_witness:
  "\<exists>p w. encodeTail (replicate 3 255) (replicate 20 0) = Some (p, w) \<and> length w = 20 \<and>
    drop p w = b58_digits (bytes_val (replicate 3 255))"
proof -
  have "replicate 3 (255 :: u8) \<noteq> []" "hd (replicate 3 (255 :: u8)) \<noteq> 0"
    "variableSize (length (replicate 3 (255 :: u8))) \<le> length (replicate 20 (0 :: u8))"
    by (simp_all add: variableSize_def Let_def)
  from encodeTail_refines [OF this] show ?thesis by auto
qed

text \<open>Two generators that keep the contract agree on the index and on the characters from there on.\<close>

lemma tail_done_agree:
  assumes "tail_done b out r" "tail_done b out r'"
  shows "\<exists>p w w'. r = Some (p, w) \<and> r' = Some (p, w') \<and> drop p w = drop p w' \<and> length w = length w'"
  using assms unfolding tail_done_def by auto

text \<open>
  C17: the width-specific generators agree with \<open>encodeVariableTail\<close>, the repeated long division by
  \<open>(58 ^ 5) ^ 4\<close> they replaced and are tested against.
\<close>

theorem encodeTail_long_division:
  assumes "b \<noteq> []" "hd b \<noteq> 0" "variableSize (length b) \<le> length out"
  shows "\<exists>p w w'. encodeTail b out = Some (p, w) \<and> encodeVariableTail b out = Some (p, w') \<and>
    drop p w = drop p w' \<and> length w = length w'"
  using tail_done_agree [OF encodeTail_done [OF assms] encodeVariableTail_done [OF assms]] .

theorem encodeTail_long_division_witness:
  "\<exists>p w w'. encodeTail (replicate 9 255) (replicate 20 0) = Some (p, w) \<and>
    encodeVariableTail (replicate 9 255) (replicate 20 0) = Some (p, w') \<and> drop p w = drop p w'"
proof -
  have "replicate 9 (255 :: u8) \<noteq> []" "hd (replicate 9 (255 :: u8)) \<noteq> 0"
    "variableSize (length (replicate 9 (255 :: u8))) \<le> length (replicate 20 (0 :: u8))"
    by (simp_all add: variableSize_def Let_def)
  from encodeTail_long_division [OF this] show ?thesis by blast
qed

text \<open>
  C18: for 9 to 32 bytes the corner of the 32-byte matrix gives the same characters as padding the
  input to the whole matrix, the other way the package has to encode such an input.
\<close>

theorem encodeSmallMatrixTail_padded:
  assumes "9 \<le> length b" "length b \<le> 32" "hd b \<noteq> 0" "variableSize (length b) \<le> length out"
  shows "\<exists>p w w'. encodeSmallMatrixTail b out = Some (p, w) \<and> encodeMatrixTail b out = Some (p, w') \<and>
    drop p w = drop p w' \<and> length w = length w'"
proof -
  have "b \<noteq> []" "length b \<le> 64" using assms(1,2) by auto
  then show ?thesis
    using tail_done_agree [OF encodeSmallMatrixTail_done encodeMatrixTail_done] assms by blast
qed

theorem encodeSmallMatrixTail_padded_witness:
  "\<exists>p w w'. encodeSmallMatrixTail (replicate 20 255) (replicate 40 0) = Some (p, w) \<and>
    encodeMatrixTail (replicate 20 255) (replicate 40 0) = Some (p, w') \<and> drop p w = drop p w'"
proof -
  have "9 \<le> length (replicate 20 (255 :: u8))" "length (replicate 20 (255 :: u8)) \<le> 32"
    "hd (replicate 20 (255 :: u8)) \<noteq> 0"
    "variableSize (length (replicate 20 (255 :: u8))) \<le> length (replicate 40 (0 :: u8))"
    by (simp_all add: variableSize_def Let_def)
  from encodeSmallMatrixTail_padded [OF this] show ?thesis by blast
qed

text \<open>
  C19: the long division of \<open>encodeVariableTail\<close> ends: when the value of the limbs is below
  \<open>58 ^ (20 * m)\<close> and the cursor has room for \<open>20 * m\<close> characters, the sweeps return, having written
  a multiple of twenty characters in front of the cursor that spell the value, and nothing else.
\<close>

theorem sweeps_terminate:
  assumes "bval (2 ^ 32) (map unat (drop start limbs)) < 58 ^ (20 * m)" "20 * m \<le> p" "p \<le> length out"
    "start \<le> length limbs"
  shows "\<exists>k cs. sweeps limbs start p out = Some (p - 20 * k, take (p - 20 * k) out @ cs @ drop p out) \<and>
    20 * k \<le> p \<and> length cs = 20 * k \<and> list_all b58_valid cs \<and>
    str_val cs = bval (2 ^ 32) (map unat (drop start limbs))"
proof -
  obtain k where "sweeps limbs start p out = Some (p - 20 * k, take (p - 20 * k) out @
      chars_n (20 * k) (bval (2 ^ 32) (map unat (drop start limbs))) @ drop p out)" "20 * k \<le> p"
    "bval (2 ^ 32) (map unat (drop start limbs)) < 58 ^ (20 * k)"
    using sweeps_eq [OF assms] by blast
  then show ?thesis
    by (intro exI [of _ k] exI [of _ "chars_n (20 * k) (bval (2 ^ 32) (map unat (drop start limbs)))"])
      (simp add: chars_n_spells)
qed

theorem sweeps_terminate_witness: "\<exists>r. sweeps [0, 58] 0 20 (replicate 20 0) = Some r"
  using sweeps_terminate [of 0 "[0, 58]" 1 20 "replicate 20 0"] by (auto simp: bval_Cons)

text \<open>
  C20: \<open>encodeHornerStep\<close> keeps the limb array in normal form and multiplies its value by the
  multiplier and adds the chunk, for every multiplier the package uses, as long as the result fits.
\<close>

theorem encodeHornerStep_holds:
  assumes "holds digits count V" "0 < unat m" "unat m \<le> 2 ^ 32" "unat c < 2 ^ 32"
    "V * unat m + unat c < (58 ^ 5) ^ length digits"
  shows "\<exists>digits' count'. encodeHornerStep digits count m c = Some (digits', count') \<and>
    length digits' = length digits \<and> holds digits' count' (V * unat m + unat c)"
  using assms by (rule encodeHornerStep_eq)

theorem encodeHornerStep_holds_witness:
  "\<exists>digits' count'. encodeHornerStep [0, 0] 1 4294967296 7 = Some (digits', count') \<and> holds digits' count' 7"
proof -
  have "holds [0, 0] 1 0" using holds_zero [of 2] by (simp add: numeral_2_eq_2)
  from encodeHornerStep_holds [OF this, of "4294967296" 7] show ?thesis by auto
qed

text \<open>
  C21: the column order of the convolution with \<open>2 ^ 512\<close>, written out for long numbers, gives
  the same columns as the row order used for short ones.
\<close>

theorem convolutions_agree:
  assumes "18 \<le> count" "count \<le> length digits" "count + 18 \<le> length tmp"
  shows "convolveColumns digits count (count + 18) tmp = convolveRows digits count (count + 18) tmp"
  using assms by (simp add: convolveColumns_eq convolveRows_eq)

theorem convolutions_agree_witness:
  "convolveColumns (replicate 18 656356767) 18 36 (replicate 36 0)
    = convolveRows (replicate 18 656356767) 18 36 (replicate 36 0)"
  using convolutions_agree [of 18 "replicate 18 656356767" "replicate 36 0"] by simp

text \<open>
  C22: no column of that convolution wraps, whatever the length of the number: every column stays
  below \<open>2 ^ 63\<close>, even with a limb of the block added, and the columns represent the number times
  \<open>2 ^ 512\<close>.
\<close>

theorem convolveRows_no_wrap:
  assumes "count \<le> length digits" "count + 18 \<le> length tmp" "\<forall>d \<in> set (take count digits). unat d < 58 ^ 5"
  shows "\<exists>cs. convolveRows digits count (count + 18) tmp = Some (cs @ drop (count + 18) tmp) \<and>
    length cs = count + 18 \<and> (\<forall>c \<in> set cs. unat c + 58 ^ 5 \<le> 2 ^ 63) \<and>
    lval (58 ^ 5) (map unat cs) = lval (58 ^ 5) (map unat (take count digits)) * 2 ^ 512"
proof -
  let ?D = "map unat (take count digits)"
  let ?cs = "map (columns ?D) [0..<count + 18]"
  have lt: "conv ?D pow512 c + x < 2 ^ 63" if "x < radix5" for c x
    using assms(3) that by (intro columns_bound) auto
  then have v: "unat (columns ?D c) = conv ?D pow512 c" for c
    using lt [of 0 c] by (intro unat_of_nat_small) simp
  have "lval radix5 (map unat ?cs) = lval radix5 (map (conv ?D pow512) [0..<length ?D + length pow512])"
    using assms(1) by (simp add: v comp_def del: power_numeral upt_Suc)
  also have "\<dots> = lval radix5 ?D * 2 ^ 512" unfolding lval_conv pow512_value ..
  finally have "lval radix5 (map unat ?cs) = lval radix5 ?D * 2 ^ 512" .
  moreover have "unat c + 58 ^ 5 \<le> 2 ^ 63" if c: "c \<in> set ?cs" for c
  proof -
    obtain x where "c = columns ?D x" using c by auto
    then show ?thesis using lt [of "radix5 - 1" x] v [of x] by simp
  qed
  ultimately show ?thesis
    using convolveRows_eq [OF assms(1) order_refl assms(2)] by (intro exI [of _ ?cs]) simp
qed

theorem convolveRows_no_wrap_witness:
  "\<exists>cs. convolveRows (replicate 100 656356767) 100 118 (replicate 118 0) = Some cs \<and>
    (\<forall>c \<in> set cs. unat c + 58 ^ 5 \<le> 2 ^ 63)"
  using convolveRows_no_wrap [of 100 "replicate 100 656356767" "replicate 118 0"] by auto

text \<open>
  C23: one round of \<open>encodeAbsorbBlocks\<close> appends a block of 64 bytes to the number held in the limb
  array and leaves it in normal form, whichever order the convolution uses; the scratch arrays
  keep their lengths.
\<close>

theorem absorbBlock_holds:
  assumes "length block = 64" "length blockDigits = 18" "holds digits count V"
    "count + 18 \<le> length digits" "count + 18 \<le> length tmp"
  shows "\<exists>blockDigits' digits' tmp' count'.
    absorbBlock block blockDigits digits tmp count = Some (blockDigits', digits', tmp', count') \<and>
    length blockDigits' = 18 \<and> length digits' = length digits \<and> length tmp' = length tmp \<and>
    holds digits' count' (V * 2 ^ 512 + bytes_val block)"
  using assms by (rule absorbBlock_eq)

theorem absorbBlock_holds_witness:
  "\<exists>bd ds tmp count. absorbBlock signature (replicate 18 0) (replicate 19 0) (replicate 19 0) 1 = Some (bd, ds, tmp, count) \<and>
    holds ds count (bytes_val signature)"
proof -
  have "holds (replicate 19 0) 1 0" by (rule holds_zero) simp
  from absorbBlock_holds [OF _ _ this, of signature "replicate 18 0" "replicate 19 0"] show ?thesis by auto
qed

text \<open>
  C24: the limbs that \<open>encodeBlock64\<close> stores are a number in base \<open>58 ^ 5\<close>: each is below the base,
  the top one is not zero unless it is the only one, and together they are the value of the block.
\<close>

theorem encodeBlock64_normal:
  assumes "length src = 64" "18 \<le> length digits"
  shows "\<exists>ds count. encodeBlock64 src digits = Some (ds, count) \<and> length ds = length digits \<and>
    1 \<le> count \<and> count \<le> 18 \<and> (\<forall>d \<in> set (take count ds). unat d < 58 ^ 5) \<and>
    (count = 1 \<or> ds ! (count - 1) \<noteq> 0) \<and> lval (58 ^ 5) (map unat (take count ds)) = bytes_val src"
proof -
  obtain ds count where B: "encodeBlock64 src digits = Some (ds, count)" "length ds = length digits"
    "holds ds count (bytes_val src)" using encodeBlock64_eq [OF assms] by blast
  have "bytes_val src < 2 ^ 512" using bytes_val_less [of src] assms(1) by simp
  also have "\<dots> \<le> radix5 ^ 18" by simp
  finally have "count \<le> 18" by (intro holds_le [OF B(3)]) simp_all
  then show ?thesis
    using B(1,2) holds_value [OF B(3)] holds_count(2) [OF B(3)] holds_top [OF B(3)]
    by (intro exI [of _ ds] exI [of _ count]) blast
qed

theorem encodeBlock64_normal_witness:
  "\<exists>ds count. encodeBlock64 signature (replicate 18 0) = Some (ds, count) \<and>
    lval (58 ^ 5) (map unat (take count ds)) = bytes_val signature"
  using encodeBlock64_normal [of signature "replicate 18 0"] by auto

section \<open>Decoding by limbs and by halves\<close>

text \<open>
  C25: the scratch limbs that \<open>appendDecodeVariable\<close> provides, \<open>n * 733 div 1000 + 1\<close> bytes rounded
  up to words, are enough for every string of \<open>n\<close> characters of the alphabet: the accumulator loop
  returns, it never writes a limb out of range, and the limbs are the value of the string with the
  top limb not zero.
\<close>

theorem scratch_limbs_enough:
  assumes "s \<noteq> []" "list_all b58_valid s"
  shows "\<exists>limbs active. limbLoop s 0 (if length s mod 20 = 0 then 20 else length s mod 20)
      (replicate ((length s * 733 div 1000 + 8) div 8) 0) 0 = Some (Inr (limbs, active)) \<and>
    length limbs = (length s * 733 div 1000 + 8) div 8 \<and> active \<le> length limbs \<and>
    lval (2 ^ 64) (map unat (take active limbs)) = str_val s \<and> (active = 0 \<or> limbs ! (active - 1) \<noteq> 0)"
proof -
  let ?g = "if length s mod 20 = 0 then 20 else length s mod 20"
  let ?k = "(length s * 733 div 1000 + 8) div 8"
  have n: "length s = 0 + ?g + 20 * ((length s - 1) div 20)" using assms(1) by (intro head_group) simp_all
  have g: "0 < ?g" "?g \<le> 20" by (simp_all add: less_imp_le)
  have room: "58 ^ length s \<le> W ^ length (replicate ?k (0 :: u64))"
    using limbs_enough [of "length s"] by (simp add: add.commute)
  have a: "active_limbs (replicate ?k 0) 0 (str_val (take 0 s))" by (simp add: active_limbs_def str_val_def bval_def)
  show ?thesis
    using limbLoop_eq [OF n g _ _ a room] assms(2) unfolding active_limbs_def W_def by auto
qed

theorem scratch_limbs_enough_witness:
  "\<exists>limbs active. limbLoop (map of_char ''2z'') 0 2 [0] 0 = Some (Inr (limbs, active)) \<and>
    lval (2 ^ 64) (map unat (take active limbs)) = 115"
proof -
  have s: "map of_char ''2z'' \<noteq> ([] :: u8 list)" "list_all b58_valid (map of_char ''2z'')" "str_val (map of_char ''2z'') = 115"
    by (simp_all add: b58_valid_def alphabet_eq str_val_def bval_def b58_digit_def)
  from scratch_limbs_enough [OF s(1,2)] show ?thesis unfolding s(3) by (auto simp: numeral_2_eq_2)
qed

text \<open>
  C26: \<open>decodeLargeTree\<close> returns the value of every string of the alphabet, however it is split,
  and reports every other string; the memo table it threads through the recursion only ever holds
  true powers of 58, and it starts empty.
\<close>

theorem decodeLargeTree_value:
  assumes "s \<noteq> []" "\<forall>k v. powers k = Some v \<longrightarrow> v = 58 ^ k"
  shows "\<exists>powers'. decodeLargeTree s powers = Some (if list_all b58_valid s then Some (str_val s) else None, powers') \<and>
    (\<forall>k v. powers' k = Some v \<longrightarrow> v = 58 ^ k)"
  using decodeLargeTree_eq [OF assms(1), of powers] assms(2) unfolding powers_ok_def by blast

theorem decodeLargeTree_value_witness:
  "\<exists>powers. decodeLargeTree (replicate 2000 49) Map.empty = Some (Some 0, powers)"
proof -
  have "replicate 2000 (49 :: u8) \<noteq> []" by simp
  from decodeLargeTree_value [OF this, of Map.empty] show ?thesis
    by (auto simp: list_all_iff str_val_replicate_1)
qed

text \<open>
  C27: \<open>decodeLargeGroup\<close> on any bytes, valid UTF-8 or not: it never panics, it accepts exactly the
  characters of the alphabet although its loop skips the continuation bytes of a rune, and up to
  ten of them its value does not wrap.
\<close>

theorem decodeLargeGroup_outcome:
  "\<exists>v. decodeLargeGroup s = Some (v, list_all b58_valid s) \<and>
    (list_all b58_valid s \<and> length s \<le> 10 \<longrightarrow> unat v = str_val s)"
  by (rule decodeLargeGroup_eq)

theorem decodeLargeGroup_outcome_witness:
  "(\<exists>v. decodeLargeGroup [0xE2, 0x82, 0xAC] = Some (v, False)) \<and>
   (\<exists>v. decodeLargeGroup (map of_char ''2z'') = Some (v, True) \<and> unat v = 115)"
  using decodeLargeGroup_outcome [of "[0xE2, 0x82, 0xAC]"] decodeLargeGroup_outcome [of "map of_char ''2z''"]
  by (auto simp: b58_valid_def alphabet_eq str_val_def bval_def b58_digit_def)

section \<open>Kernels and tables\<close>

text \<open>
  C28: for no input does an accumulator of the encode products wrap: every column stays below
  \<open>2 ^ 64 - 2 ^ 36\<close>, which leaves the carry loop its room, and the columns represent the value of
  the input in base \<open>58 ^ 5\<close>; the 64-byte product keeps this with its row bounds and its reduction
  half-way.
\<close>

theorem encode_products_no_wrap:
  assumes "length pk = 32" "length sg = 64"
  shows "(\<exists>im. encodeMatMul32 pk (replicate 9 0) = Some im \<and> length im = 9 \<and>
      (\<forall>v \<in> set im. unat v \<le> 2 ^ 64 - 2 ^ 36) \<and> bval (58 ^ 5) (map unat im) = bytes_val pk) \<and>
    (\<exists>im. encodeMatMul64 sg (replicate 18 0) = Some im \<and> length im = 18 \<and>
      (\<forall>v \<in> set im. unat v \<le> 2 ^ 64 - 2 ^ 36) \<and> bval (58 ^ 5) (map unat im) = bytes_val sg)"
  using encodeMatMul32_product [OF assms(1)] encodeMatMul64_product [OF assms(2)] unfolding bounded_def by (rule conjI)

theorem encode_products_no_wrap_witness:
  "(\<exists>im. encodeMatMul32 (replicate 32 255) (replicate 9 0) = Some im \<and> (\<forall>v \<in> set im. unat v \<le> 2 ^ 64 - 2 ^ 36)) \<and>
   (\<exists>im. encodeMatMul64 (replicate 64 255) (replicate 18 0) = Some im \<and> (\<forall>v \<in> set im. unat v \<le> 2 ^ 64 - 2 ^ 36))"
proof -
  have "length (replicate 32 (255 :: u8)) = 32" "length (replicate 64 (255 :: u8)) = 64" by simp_all
  from encode_products_no_wrap [OF this] show ?thesis by blast
qed

text \<open>
  C29: the write steps of the decoders fail exactly when the value of the limbs does not fit the
  array, leaving the array alone, and otherwise store the value big-endian.
\<close>

theorem decode_writes_correct:
  assumes "length im = 9" "\<forall>v \<in> set im. unat v < 58 ^ 5" "length d32 = 32"
    and "length im' = 18" "\<forall>v \<in> set im'. unat v < 58 ^ 5" "length d64 = 64"
  shows "decode32Write im d32 = Some
      (if 256 ^ 32 \<le> bval (58 ^ 5) (map unat im) then (False, d32)
       else (True, be_bytes 32 (bval (58 ^ 5) (map unat im)))) \<and>
    decode64Write im' d64 = Some
      (if 256 ^ 64 \<le> bval (58 ^ 5) (map unat im') then (False, d64)
       else (True, be_bytes 64 (bval (58 ^ 5) (map unat im'))))"
  using decode32Write_eq [OF assms(1-3) refl] decode64Write_eq [OF assms(4-6) refl] by (rule conjI)

theorem decode_writes_correct_witness:
  "decode32Write (656356767 # replicate 8 0) (replicate 32 9) = Some (False, replicate 32 9) \<and>
   decode64Write (656356767 # replicate 17 0) (replicate 64 9) = Some (False, replicate 64 9)"
  using decode_writes_correct [of "656356767 # replicate 8 0" "replicate 32 9" "656356767 # replicate 17 0" "replicate 64 9"]
  by (simp add: bval_Cons)

text \<open>
  C30: the four matrices hold the powers they are documented to hold, row by row: the rows of the
  encode tables are powers of \<open>2 ^ 32\<close> in base \<open>58 ^ 5\<close>, those of the decode tables the converse.
\<close>

theorem tables_correct:
  "map (\<lambda>row. bval (58 ^ 5) (map unat row)) encTable32 = map (\<lambda>j. 2 ^ (32 * (7 - j))) [0..<8] \<and>
   map (\<lambda>row. bval (58 ^ 5) (map unat row)) encTable64 = map (\<lambda>j. 2 ^ (32 * (15 - j))) [0..<16] \<and>
   map (\<lambda>row. bval (2 ^ 32) (map unat row)) decTable32 = map (\<lambda>j. (58 ^ 5) ^ (8 - j)) [0..<9] \<and>
   map (\<lambda>row. bval (2 ^ 32) (map unat row)) decTable64 = map (\<lambda>j. (58 ^ 5) ^ (17 - j)) [0..<18]"
  by (intro conjI encTable32_rows encTable64_rows decTable32_rows decTable64_rows)

text \<open>
  C31: the decode lookups give the digit of every character of the alphabet, and of every pair,
  and a value with its top bits set on everything else.
\<close>

theorem inverse_tables_correct:
  "base58InverseFull c0 = (if b58_valid c0 then of_nat (b58_digit c0) else 255) \<and>
   base58InversePairs (pair_index c0 c1) =
     (if b58_valid c0 \<and> b58_valid c1 then of_nat (b58_digit c0 * 58 + b58_digit c1) else 0xFFFF)"
  using base58InverseFull_eq base58InversePairs_eq by blast

section \<open>The builds with assembly\<close>

text \<open>
  C32: the amd64 build of the products, with the assembly kernels and with or without AVX2, returns
  the arrays of the portable build word for word; the 64-byte encode product splits the matrix at
  the row where the 32-byte matrix begins, adds the two parts and reduces in between.
\<close>

theorem amd64_products_portable:
  assumes "length pk = 32" "length sg = 64"
    and "length im = 9" "\<forall>v \<in> set im. unat v < 58 ^ 5" "length im' = 18" "\<forall>v \<in> set im'. unat v < 58 ^ 5"
  shows "Some (encodeMatMul32_amd64 (asm_matmul avx2) pk (replicate 9 0)) = encodeMatMul32 pk (replicate 9 0) \<and>
    encodeMatMul64_amd64 (asm_matmul avx2) sg (replicate 18 0) = encodeMatMul64 sg (replicate 18 0) \<and>
    decodeMatMul32_amd64 (asm_matmul avx2) im (replicate 8 0) = decodeMatMul32 im (replicate 8 0) \<and>
    decodeMatMul64_amd64 (asm_matmul avx2) im' (replicate 16 0) = Some (decodeMatMul64 im' (replicate 16 0))"
  using encodeMatMul32_amd64_eq [OF asm_matmul_documented assms(1)] encodeMatMul64_amd64_eq [OF asm_matmul_documented assms(2)]
    decodeMatMul32_amd64_eq [OF asm_matmul_documented assms(3,4)] decodeMatMul64_amd64_eq [OF asm_matmul_documented assms(5,6)]
  by simp

theorem amd64_products_portable_witness:
  "encodeMatMul64_amd64 (asm_matmul False) signature (replicate 18 0) = encodeMatMul64 signature (replicate 18 0) \<and>
   decodeMatMul64_amd64 (asm_matmul True) (replicate 18 656356767) (replicate 16 0)
     = Some (decodeMatMul64 (replicate 18 656356767) (replicate 16 0))"
  using amd64_products_portable [of pubkey signature "replicate 9 656356767" "replicate 18 656356767" False]
    amd64_products_portable [of pubkey signature "replicate 9 656356767" "replicate 18 656356767" True] by simp

text \<open>
  C33: the two products that arm64 has in assembly return the arrays of the portable ones, whatever
  their output arrays held before; so \<open>Encode32\<close>, \<open>AppendEncode32\<close> and \<open>Decode32\<close> of that build have
  the results of the portable build, errors, panics and the array left after an error included.
\<close>

theorem arm64_products_portable:
  assumes "length pk = 32" "length out = 9" "length im = 9" "length bin = 8" "length d32 = 32"
  shows "encodeMatMul32_arm64 pk out = encodeMatMul32 pk (replicate 9 0) \<and>
    decodeMatMul32_arm64 im bin = Some (decodeMatMul32 im (replicate 8 0)) \<and>
    Encode32_arm64 pk = Encode32 pk \<and>
    AppendEncode32_arm64 dst pk = AppendEncode32 dst pk \<and>
    Decode32_arm64 s d32 = Decode32 s d32"
  using encodeMatMul32_arm64_eq [OF assms(1,2)] decodeMatMul32_arm64_eq [OF assms(3,4)]
    Encode32_arm64_eq [OF assms(1)] Decode32_arm64_eq [OF assms(5)]
  by (simp add: encodeMatMul32_columns [OF assms(1)] decodeMatMul32_columns)

theorem arm64_products_portable_witness:
  "encodeMatMul32_arm64 pubkey (replicate 9 7) = encodeMatMul32 pubkey (replicate 9 0) \<and>
   decodeMatMul32_arm64 (replicate 9 656356767) (replicate 8 7) = Some (decodeMatMul32 (replicate 9 656356767) (replicate 8 0)) \<and>
   Encode32_arm64 pubkey = Some pubkey58"
  using arm64_products_portable [of pubkey "replicate 9 7" "replicate 9 656356767" "replicate 8 7" "replicate 32 0"]
  by (simp add: Encode32_eq pubkey_encodes)

text \<open>
  C34: the vector convolution of the amd64 build, one dot product of 18 terms per column over a
  number with zero limbs on both sides, fills the columns that the portable row loops compute, the
  triangular edges included, and keeps the number, if the flags with which the kernel is entered do
  not make its \<open>JLE\<close> branch; if they do, it leaves every column as it was and yet reports that they
  are filled.  This is the assembly, whatever the other kernels are.
\<close>

theorem amd64_convolution_portable:
  assumes "useAVX2 k" "count + 18 \<le> length digits" "count + 18 \<le> length tmp" "count + 18 < 2 ^ 64"
  shows "if jle f
    then \<exists>digits'. encodeConvolveP512All_amd64 (asm_block f k) (replicate 17 0) digits count (count + 18) tmp = Some (True, digits', tmp)
    else \<exists>digits' tmp'. encodeConvolveP512All_amd64 (asm_block f k) (replicate 17 0) digits count (count + 18) tmp = Some (True, digits', tmp') \<and>
      convolveRows digits count (count + 18) tmp = Some tmp' \<and>
      length digits' = length digits \<and> take count digits' = take count digits"
  using encodeConvolveP512All_amd64_eq [OF asm_block_documented(1) _ assms(2-4), of f k]
    asm_block_stale [of f k count digits tmp "replicate 17 0"] assms
  by (cases "jle f") (simp_all add: asm_block_documented(2))

theorem amd64_convolution_portable_witness:
  "\<exists>digits' tmp'. encodeConvolveP512All_amd64 (asm_block \<lparr>zeroFlag = False, signFlag = False, overflowFlag = False\<rparr> (reference_block True))
      (replicate 17 0) (replicate 30 5) 12 30 (replicate 30 0)
      = Some (True, digits', tmp') \<and> convolveRows (replicate 30 5) 12 30 (replicate 30 0) = Some tmp'"
  using amd64_convolution_portable [of "reference_block True" 12 "replicate 30 5" "replicate 30 0"
      "\<lparr>zeroFlag = False, signFlag = False, overflowFlag = False\<rparr>"] reference_block
  by (auto simp: jle_def)

text \<open>
  C35: the vector classification of the fused decoders, two table lookups by nibble, marks exactly
  the bytes outside the alphabet, adds the marks to those of the registers before, and turns every
  character of the alphabet into its digit.
\<close>

theorem FUSED_C2D_digits:
  assumes "length v = 32" "length bad = 32"
  shows "\<exists>d bad'. FUSED_C2D v bad = (d, bad') \<and> length d = 32 \<and> length bad' = 32 \<and>
    (\<forall>i < 32. (b58_valid (v ! i) \<longrightarrow> d ! i = of_nat (b58_digit (v ! i)) \<and> bad' ! i = bad ! i) \<and>
      (\<not> b58_valid (v ! i) \<longrightarrow> bad' ! i = 255))"
proof -
  have m: "(255 :: u8) = - 1" by simp
  have "255 OR b = (255 :: u8)" for b unfolding m by (rule bit.disj_one_left)
  then show ?thesis using FUSED_C2D_eq [OF assms(1), of bad] assms by (simp add: c2d_digit_valid)
qed

theorem FUSED_C2D_digits_witness:
  "\<exists>d bad. FUSED_C2D (122 # 79 # replicate 30 49) (replicate 32 0) = (d, bad) \<and> d ! 0 = 57 \<and> bad ! 0 = 0 \<and> bad ! 1 = 255"
proof -
  have "length (122 # 79 # replicate 30 (49 :: u8)) = 32" "length (replicate 32 (0 :: u8)) = 32" by simp_all
  from FUSED_C2D_digits [OF this] obtain d bad where
    D: "FUSED_C2D (122 # 79 # replicate 30 49) (replicate 32 0) = (d, bad)"
    "\<forall>i < 32. (b58_valid ((122 # 79 # replicate 30 49) ! i) \<longrightarrow>
        d ! i = of_nat (b58_digit ((122 # 79 # replicate 30 49) ! i)) \<and> bad ! i = replicate 32 0 ! i) \<and>
      (\<not> b58_valid ((122 # 79 # replicate 30 49) ! i) \<longrightarrow> bad ! i = 255)" by blast
  have "b58_valid 122" "\<not> b58_valid 79" "b58_digit 122 = 57"
    by (simp_all add: b58_valid_def alphabet_eq b58_digit_def)
  then show ?thesis using D(1) spec [OF D(2), of 0] spec [OF D(2), of 1] by simp
qed

text \<open>
  C36: on the amd64 build with all of its kernels in assembly, with and without AVX2, \<open>Decode32\<close> and
  \<open>Decode64\<close> (fused decoders, generic decoders and assembly write functions) return for every
  string the errors of the portable build and leave the same array, except after
  \<open>ErrValueTooLarge\<close>: there the fused decoders have written to it and the portable ones have not.
\<close>

theorem Decode_fixed_amd64:
  assumes "length d32 = 32" "length d64 = 64"
  shows "\<exists>r r' q q'. Decode32_amd64 (asm_text avx2 rest) s d32 = Some r \<and> Decode32 s d32 = Some r' \<and>
      fst r = fst r' \<and> (fst r \<noteq> Some ErrValueTooLarge \<longrightarrow> snd r = snd r') \<and>
    Decode64_amd64 (asm_text avx2 rest) s d64 = Some q \<and> Decode64 s d64 = Some q' \<and>
      fst q = fst q' \<and> (fst q \<noteq> Some ErrValueTooLarge \<longrightarrow> snd q = snd q')"
  using Decode32_amd64_eq [OF asm_text_documented(4) assms(1), of avx2 rest s] Decode64_amd64_eq [OF asm_text_documented(4) assms(2), of avx2 rest s]
  unfolding same_outcome_def by blast

theorem Decode_fixed_amd64_witness:
  "Decode32_amd64 (asm_text True []) pubkey58 (replicate 32 0) = Some (None, pubkey)"
proof -
  have "length (replicate 32 (0 :: u8)) = 32" "length (replicate 64 (0 :: u8)) = 64" by simp_all
  from Decode_fixed_amd64 [OF this, of True "[]" pubkey58] obtain r r' where
    "Decode32_amd64 (asm_text True []) pubkey58 (replicate 32 0) = Some r"
    "Decode32 pubkey58 (replicate 32 0) = Some r'" "fst r = fst r'" "fst r \<noteq> Some ErrValueTooLarge \<longrightarrow> snd r = snd r'" by blast
  moreover have "Decode32 pubkey58 (replicate 32 0) = Some (None, pubkey)"
    using Decode32_success [of "replicate 32 0" pubkey58 pubkey] by (simp add: pubkey_encodes)
  ultimately show ?thesis by (auto simp: prod_eq_iff)
qed

text \<open>
  C37: the vector kernels that render limbs (divisions by multiplication, byte shuffles and thresholds
  in place of the alphabet) write the five characters of every limb, in order; of what stands behind,
  they change six bytes and no more.
\<close>

theorem digitsToChars_characters:
  assumes "(chars_kernel, n) \<in> {(digitsToChars8_asm, 8), (digitsToChars16_asm, 16), (digitsToChars16Fast_asm, 16), (digitsToChars36_asm, 36)}"
    "n \<le> length v" "\<forall>x \<in> set (take n v). unat x < 58 ^ 5" "5 * n + 6 \<le> length out"
  shows "\<exists>r. chars_kernel v out = Some r \<and> take (5 * n) r = chars_of (map unat (take n v)) \<and>
    drop (5 * n + 6) r = drop (5 * n + 6) out \<and> length r = length out"
  using digitsToChars_asm_eq [OF assms] .

theorem digitsToChars_characters_witness:
  "\<exists>r. digitsToChars8_asm (replicate 8 656356767) (replicate 46 0) = Some r \<and> take 40 r = replicate 40 122"
proof -
  have c: "chars_of (replicate 8 656356767) = replicate 40 122"
    by (simp add: chars_of_alt chars5_def fixed5 b58_char_def alphabet_eq replicate_numeral)
  show ?thesis
    using digitsToChars_characters [of digitsToChars8_asm 8 "replicate 8 656356767" "replicate 46 0"] c by auto
qed

text \<open>
  C38: on the amd64 build with all of its kernels in assembly, with and without AVX2, \<open>Encode32\<close> and
  \<open>Encode64\<close> return what the portable build returns, \<open>AppendEncode32\<close> appends the encoding in place or
  in a larger array, and \<open>AppendEncode64\<close> works in the window of 88 bytes behind the destination when
  the machine and the capacity allow it, and else as in the portable build; whatever the frame of a
  kernel held before (\<open>rest\<close>).
\<close>

theorem Encode_fixed_amd64:
  assumes "26 \<le> length rest" "length s32 = 32" "length s64 = 64" "wf_slice dst"
  shows "Encode32_amd64 (asm_text avx2 rest) s32 = Encode32 s32 \<and>
    Encode64_amd64 (asm_text avx2 rest) s64 = Encode64 s64 \<and>
    (\<exists>s. AppendEncode32_amd64 (asm_text avx2 rest) dst s32 = Some s \<and> appended dst (b58_encode s32) s) \<and>
    (\<exists>s. AppendEncode64_amd64 (asm_text avx2 rest) dst s64 = Some s \<and>
      (if avx2 \<and> len dst + 88 \<le> cap dst then window_appended dst 88 (b58_encode s64) s else appended dst (b58_encode s64) s))"
proof -
  note D = asm_text_documented(3) [OF assms(1), of avx2] and M = asm_text_documented(1) [of avx2 rest]
    and R = asm_text_documented(2) [of avx2 rest]
  have "Encode64_amd64 (asm_text avx2 rest) s64 = Encode64 s64"
    using Encode64_amd64_eq [OF D assms(3) M R] Encode64_eq [OF assms(3)] by simp
  then show ?thesis
    using Encode32_amd64_eq [OF D assms(2) M] AppendEncode32_amd64_eq [OF D assms(2,4) M]
      AppendEncode64_amd64_eq [OF D assms(3,4) M R] unfolding asm_text_documented(5) by blast
qed

theorem Encode_fixed_amd64_witness:
  "Encode64_amd64 (asm_text True (replicate 208 0)) signature = Some signature58"
proof -
  have wf: "wf_slice \<lparr>buf = [], len = 0, fresh = True\<rparr>" by (simp add: wf_slice_def)
  from Encode_fixed_amd64 [OF _ _ _ wf, of "replicate 208 0" pubkey signature True]
  show ?thesis using Encode64_eq [of signature] by (simp add: signature_encodes)
qed

text \<open>
  C39: the three assembly encoders of 64 bytes that append agree: the one that renders from scalar
  limbs, the one that joins two chains of carries, and the one that also counts leading zeros.  They
  write the encoding and keep every byte behind it, although each stores whole vectors.
\<close>

theorem encode64_kernels_agree:
  assumes "length src = 64" "88 \<le> length w" "26 \<le> length rest"
  shows "encode64DirectAVX2_asm src w = Some (length (b58_encode src), b58_encode src @ drop (length (b58_encode src)) w) \<and>
    encode64FullAVX2_asm rest src w False = encode64DirectAVX2_asm src w \<and>
    (hd src \<noteq> 0 \<longrightarrow> encode64FullAppendAVX2_asm rest src w = encode64DirectAVX2_asm src w)"
  using encode64DirectAVX2_asm_eq [OF assms(1,2)] encode64FullAVX2_asm_eq [OF assms(1,3), of False w]
    encode64FullAppendAVX2_asm_eq [OF assms(1) _ assms(2)] assms(2) by simp

theorem encode64_kernels_agree_witness:
  "encode64FullAVX2_asm (replicate 112 0) signature (replicate 88 0) False =
     Some (length signature58, signature58 @ replicate (88 - length signature58) 0)"
  using encode64_kernels_agree [of signature "replicate 88 0" "replicate 112 0"] by (simp add: signature_encodes)

text \<open>
  C40: the product of the full encoders has a limb that can exceed one register, and its carries run
  in two chains at once; the limbs are nevertheless the digits of the input in base \<open>58 ^ 5\<close>.
\<close>

theorem fullLimbs_digits:
  assumes "length y0 = 32" "length y1 = 32"
  shows "\<exists>y5 z. fullProduct (vpshufb encFullBswap y0 @ vpshufb encFullBswap y1) = Some (y5, z) \<and>
    map unat (fullLimbs y5 z) = fixed (58 ^ 5) 18 (bytes_val (y0 @ y1))"
  using fullLimbs_eq [OF assms refl] .

theorem fullLimbs_digits_witness:
  "\<exists>y5 z. fullProduct (vpshufb encFullBswap (replicate 32 0) @ vpshufb encFullBswap (replicate 31 0 @ [7])) = Some (y5, z) \<and>
    map unat (fullLimbs y5 z) = replicate 17 0 @ [7]"
proof -
  have "bytes_val (replicate 32 0 @ replicate 31 0 @ [7]) = 7"
    by (simp add: bytes_val_def bval_append bval_replicate_0 bval_Cons del: replicate_numeral)
  moreover have "fixed (58 ^ 5) 18 7 = replicate 17 0 @ [7]"
    using fixed_bval [of "replicate 17 0 @ [7]" "58 ^ 5"] by (simp add: bval_append bval_replicate_0 bval_Cons del: replicate_numeral)
  ultimately show ?thesis using fullLimbs_digits [of "replicate 32 0" "replicate 31 0 @ [7]"] by simp
qed

end
